(* ===== verification/Prelude.thy ===== *)
theory Prelude
  imports Main "HOL-Library.Word"
begin

text \<open>
  The vocabulary the component theories share.

  Go's \<^verbatim>\<open>byte\<close>, \<^verbatim>\<open>uint16\<close>, \<^verbatim>\<open>uint32\<close> and \<^verbatim>\<open>uint64\<close> are words of their width; a byte
  slice is a list of bytes; a Go \<^verbatim>\<open>string\<close>, which is a sequence of bytes too, is an Isabelle
  \<open>string\<close>, whose characters are exactly the 256 bytes. The conversions
  \<^verbatim>\<open>string(b)\<close> and \<^verbatim>\<open>[]byte(s)\<close> are \<open>string_of_bytes\<close> and \<open>bytes_of_string\<close>.

  A Go function with an error result is a function into \<open>go_error + 'a\<close>. The text of an error is
  not modelled, only the sentinel it wraps; an error that wraps none is \<open>ErrHandler\<close>. A run-time panic (an index or a slice
  expression out of range) is the error value \<open>Panic\<close>, produced by \<open>go_index\<close> and \<open>go_slice\<close>, so
  that the absence of panics is a theorem rather than an assumption.
\<close>

unbundle bit_operations_syntax

section \<open>Machine types, strings and bytes\<close>

type_synonym byte = "8 word"
type_synonym u16 = "16 word"
type_synonym u32 = "32 word"
type_synonym u64 = "64 word"
type_synonym bytes = "byte list"

definition string_of_bytes :: "bytes \<Rightarrow> string" where
  "string_of_bytes = map (\<lambda>b. char_of (unat b))"

definition bytes_of_string :: "string \<Rightarrow> bytes" where
  "bytes_of_string = map (\<lambda>c. of_nat (of_char c))"

lemma of_char_less_256: "(of_char c :: nat) < 256"
  by (metis char_of_mod_256 mod_less_divisor of_char_mod_256 zero_less_numeral)

lemma string_of_bytes_of_string [simp]: "string_of_bytes (bytes_of_string s) = s"
proof -
  have "char_of (unat (of_nat (of_char c) :: byte)) = c" for c
    using of_char_less_256 [of c] by (simp add: unat_of_nat)
  then show ?thesis
    by (simp add: string_of_bytes_def bytes_of_string_def comp_def)
qed

lemma bytes_of_string_of_bytes [simp]: "bytes_of_string (string_of_bytes b) = b"
proof -
  have "(of_nat (of_char (char_of (unat (w :: byte)))) :: byte) = w" for w
  proof -
    have "unat w < 2 ^ LENGTH(8)" by (rule unsigned_less)
    then show ?thesis by (simp add: of_char_of)
  qed
  then show ?thesis
    by (simp add: string_of_bytes_def bytes_of_string_def comp_def)
qed

lemma length_string_of_bytes [simp]: "length (string_of_bytes b) = length b"
  by (simp add: string_of_bytes_def)

lemma length_bytes_of_string [simp]: "length (bytes_of_string s) = length s"
  by (simp add: bytes_of_string_def)

lemma string_of_bytes_Nil [simp]: "string_of_bytes b = [] \<longleftrightarrow> b = []"
  by (simp add: string_of_bytes_def)

lemma bytes_of_string_Nil [simp]: "bytes_of_string s = [] \<longleftrightarrow> s = []"
  by (simp add: bytes_of_string_def)

lemma next_rev: "r \<noteq> - 1 \<Longrightarrow> r < r + 1" for r :: u64
proof -
  assume "r \<noteq> - 1"
  then have "unat r \<noteq> 2 ^ 64 - 1" by (simp add: word_unat_eq_iff unsigned_minus_1_eq_mask mask_eq_exp_minus_1)
  moreover have "unat r < 2 ^ 64" using unsigned_less [of r] by simp
  ultimately show ?thesis by (simp add: word_less_nat_alt unat_word_ariths)
qed

section \<open>Errors as values\<close>

datatype go_error =
    ErrMalformed
  | ErrProtocol
  | ErrPacketTooLarge
  | ErrUnsupportedProtocolVersion byte
  | ErrTooLong
  | ErrInvalid
  | EOF
  | ErrUnexpectedEOF
  | IOError
  | ErrClosed
  | ErrClientGone
  | ErrNormalDisconnect
  | ErrConnClosed
  | ErrHandler
  | Panic

type_synonym 'a res = "go_error + 'a"

text \<open>Sequencing: \<^verbatim>\<open>x, err := m; if err != nil { return err }; ...\<close>.\<close>

fun rbind :: "'a res \<Rightarrow> ('a \<Rightarrow> 'b res) \<Rightarrow> 'b res" where
  "rbind (Inl e) f = Inl e"
| "rbind (Inr x) f = f x"

text \<open>Replacing an error by another: \<^verbatim>\<open>if err != nil { return otherErr }\<close>. A panic is not an
  error value of the program and passes through.\<close>

fun rcatch :: "'a res \<Rightarrow> go_error \<Rightarrow> 'a res" where
  "rcatch (Inl e) e' = Inl (if e = Panic then Panic else e')"
| "rcatch (Inr x) e' = Inr x"

lemma rbind_cong [fundef_cong]:
  "m = m' \<Longrightarrow> (\<And>x. m' = Inr x \<Longrightarrow> f x = f' x) \<Longrightarrow> rbind m f = rbind m' f'"
  by (cases m') auto

lemma rbind_Inr_iff: "rbind m f = Inr y \<longleftrightarrow> (\<exists>x. m = Inr x \<and> f x = Inr y)"
  by (cases m) auto

lemma rbind_Inl_iff: "rbind m f = Inl e \<longleftrightarrow> m = Inl e \<or> (\<exists>x. m = Inr x \<and> f x = Inl e)"
  by (cases m) auto

lemma rbind_assoc: "rbind (rbind m f) g = rbind m (\<lambda>x. rbind (f x) g)"
  by (cases m) auto

lemma rcatch_Inr_iff [simp]: "rcatch m e = Inr x \<longleftrightarrow> m = Inr x"
  by (cases m) auto

lemma rcatch_Panic_iff: "rcatch m e = Inl Panic \<longleftrightarrow> m = Inl Panic \<or> (e = Panic \<and> (\<exists>e'. m = Inl e'))"
  by (cases m) auto

section \<open>Checked indexing and slicing\<close>

definition go_index :: "'a list \<Rightarrow> nat \<Rightarrow> 'a res" where
  "go_index xs i = (if i < length xs then Inr (xs ! i) else Inl Panic)"

definition go_slice :: "'a list \<Rightarrow> nat \<Rightarrow> nat \<Rightarrow> 'a list res" where
  "go_slice xs i j = (if i \<le> j \<and> j \<le> length xs then Inr (take (j - i) (drop i xs)) else Inl Panic)"

text \<open>Concatenating the output of a sequence of emitters, stopping at the first error.\<close>

fun cat_res :: "bytes res list \<Rightarrow> bytes res" where
  "cat_res [] = Inr []"
| "cat_res (m # ms) = rbind m (\<lambda>b. rbind (cat_res ms) (\<lambda>bs. Inr (b @ bs)))"

lemma cat_res_append:
  "cat_res (ms @ ns) = rbind (cat_res ms) (\<lambda>b. rbind (cat_res ns) (\<lambda>c. Inr (b @ c)))"
  by (induction ms) (auto simp: rbind_assoc split: sum.splits, (cases "cat_res ns"; simp)?)

section \<open>Transition systems\<close>

text \<open>What holds at the start and is kept by every step holds in every state that can be reached. The step relation of
  each component interprets this locale with its own invariant.\<close>

locale step_invariant =
  fixes step :: "'s \<Rightarrow> 's \<Rightarrow> bool" and start :: "'s \<Rightarrow> bool" and inv :: "'s \<Rightarrow> bool"
  assumes start_inv: "start s \<Longrightarrow> inv s"
    and step_inv: "step s s' \<Longrightarrow> inv s \<Longrightarrow> inv s'"
begin

lemma reach_inv:
  assumes "step\<^sup>*\<^sup>* s s'" "start s"
  shows "inv s'"
  using assms by (induction rule: rtranclp_induct) (auto intro: start_inv step_inv)

lemma steps_inv:
  assumes "step\<^sup>*\<^sup>* s s'" "inv s"
  shows "inv s'"
  using assms by (induction rule: rtranclp_induct) (auto intro: step_inv)

end

end
