(* ===== verification/Packet_Types.thy ===== *)
theory Packet_Types
  imports Prelude
begin

text \<open>
  Control packet types, QoS levels and reason codes: \<^verbatim>\<open>src/packet/types.go\<close>. Each of the three Go
  types is a \<^verbatim>\<open>byte\<close> with named constants, so each is \<open>byte\<close> here and the constants are
  abbreviations. The tables of printable names are used only in log and error texts and are not
  modelled.
\<close>

section \<open>Types\<close>

type_synonym ptype = byte
type_synonym QoS = byte
type_synonym ReasonCode = byte

abbreviation (input) CONNECT :: ptype where "CONNECT \<equiv> 1"
abbreviation (input) CONNACK :: ptype where "CONNACK \<equiv> 2"
abbreviation (input) PUBLISH :: ptype where "PUBLISH \<equiv> 3"
abbreviation (input) PUBACK :: ptype where "PUBACK \<equiv> 4"
abbreviation (input) PUBREC :: ptype where "PUBREC \<equiv> 5"
abbreviation (input) PUBREL :: ptype where "PUBREL \<equiv> 6"
abbreviation (input) PUBCOMP :: ptype where "PUBCOMP \<equiv> 7"
abbreviation (input) SUBSCRIBE :: ptype where "SUBSCRIBE \<equiv> 8"
abbreviation (input) SUBACK :: ptype where "SUBACK \<equiv> 9"
abbreviation (input) UNSUBSCRIBE :: ptype where "UNSUBSCRIBE \<equiv> 10"
abbreviation (input) UNSUBACK :: ptype where "UNSUBACK \<equiv> 11"
abbreviation (input) PINGREQ :: ptype where "PINGREQ \<equiv> 12"
abbreviation (input) PINGRESP :: ptype where "PINGRESP \<equiv> 13"
abbreviation (input) DISCONNECT :: ptype where "DISCONNECT \<equiv> 14"
abbreviation (input) AUTH :: ptype where "AUTH \<equiv> 15"

text \<open>The low nibble byte 1 must carry, by packet type; entries the Go literal leaves out are 0.\<close>

definition reservedFlags :: "byte list" where
  "reservedFlags = [0, 0, 0, 0, 0, 0, 2, 0, 2, 0, 2, 0, 0, 0, 0, 0]"

definition QoS_Valid :: "QoS \<Rightarrow> bool" where
  "QoS_Valid q \<longleftrightarrow> q \<le> 2"

abbreviation (input) QoS0 :: QoS where "QoS0 \<equiv> 0"
abbreviation (input) QoS1 :: QoS where "QoS1 \<equiv> 1"
abbreviation (input) QoS2 :: QoS where "QoS2 \<equiv> 2"

section \<open>Reason codes\<close>

abbreviation (input) Success :: ReasonCode where "Success \<equiv> 0x00"
abbreviation (input) NormalDisconnection :: ReasonCode where "NormalDisconnection \<equiv> 0x00"
abbreviation (input) GrantedQoS0 :: ReasonCode where "GrantedQoS0 \<equiv> 0x00"
abbreviation (input) GrantedQoS1 :: ReasonCode where "GrantedQoS1 \<equiv> 0x01"
abbreviation (input) GrantedQoS2 :: ReasonCode where "GrantedQoS2 \<equiv> 0x02"
abbreviation (input) DisconnectWithWillMessage :: ReasonCode where "DisconnectWithWillMessage \<equiv> 0x04"
abbreviation (input) NoMatchingSubscribers :: ReasonCode where "NoMatchingSubscribers \<equiv> 0x10"
abbreviation (input) NoSubscriptionExisted :: ReasonCode where "NoSubscriptionExisted \<equiv> 0x11"
abbreviation (input) ContinueAuthentication :: ReasonCode where "ContinueAuthentication \<equiv> 0x18"
abbreviation (input) ReAuthenticate :: ReasonCode where "ReAuthenticate \<equiv> 0x19"
abbreviation (input) UnspecifiedError :: ReasonCode where "UnspecifiedError \<equiv> 0x80"
abbreviation (input) MalformedPacket :: ReasonCode where "MalformedPacket \<equiv> 0x81"
abbreviation (input) ProtocolError :: ReasonCode where "ProtocolError \<equiv> 0x82"
abbreviation (input) ImplementationSpecificError :: ReasonCode where "ImplementationSpecificError \<equiv> 0x83"
abbreviation (input) UnsupportedProtocolVersion :: ReasonCode where "UnsupportedProtocolVersion \<equiv> 0x84"
abbreviation (input) ClientIdentifierNotValid :: ReasonCode where "ClientIdentifierNotValid \<equiv> 0x85"
abbreviation (input) BadUserNameOrPassword :: ReasonCode where "BadUserNameOrPassword \<equiv> 0x86"
abbreviation (input) NotAuthorized :: ReasonCode where "NotAuthorized \<equiv> 0x87"
abbreviation (input) ServerUnavailable :: ReasonCode where "ServerUnavailable \<equiv> 0x88"
abbreviation (input) ServerBusy :: ReasonCode where "ServerBusy \<equiv> 0x89"
abbreviation (input) Banned :: ReasonCode where "Banned \<equiv> 0x8A"
abbreviation (input) ServerShuttingDown :: ReasonCode where "ServerShuttingDown \<equiv> 0x8B"
abbreviation (input) BadAuthenticationMethod :: ReasonCode where "BadAuthenticationMethod \<equiv> 0x8C"
abbreviation (input) KeepAliveTimeout :: ReasonCode where "KeepAliveTimeout \<equiv> 0x8D"
abbreviation (input) SessionTakenOver :: ReasonCode where "SessionTakenOver \<equiv> 0x8E"
abbreviation (input) TopicFilterInvalid :: ReasonCode where "TopicFilterInvalid \<equiv> 0x8F"
abbreviation (input) TopicNameInvalid :: ReasonCode where "TopicNameInvalid \<equiv> 0x90"
abbreviation (input) PacketIdentifierInUse :: ReasonCode where "PacketIdentifierInUse \<equiv> 0x91"
abbreviation (input) PacketIdentifierNotFound :: ReasonCode where "PacketIdentifierNotFound \<equiv> 0x92"
abbreviation (input) ReceiveMaximumExceeded :: ReasonCode where "ReceiveMaximumExceeded \<equiv> 0x93"
abbreviation (input) TopicAliasInvalid :: ReasonCode where "TopicAliasInvalid \<equiv> 0x94"
abbreviation (input) PacketTooLarge :: ReasonCode where "PacketTooLarge \<equiv> 0x95"
abbreviation (input) MessageRateTooHigh :: ReasonCode where "MessageRateTooHigh \<equiv> 0x96"
abbreviation (input) QuotaExceeded :: ReasonCode where "QuotaExceeded \<equiv> 0x97"
abbreviation (input) AdministrativeAction :: ReasonCode where "AdministrativeAction \<equiv> 0x98"
abbreviation (input) PayloadFormatInvalid :: ReasonCode where "PayloadFormatInvalid \<equiv> 0x99"
abbreviation (input) RetainNotSupported :: ReasonCode where "RetainNotSupported \<equiv> 0x9A"
abbreviation (input) QoSNotSupported :: ReasonCode where "QoSNotSupported \<equiv> 0x9B"
abbreviation (input) UseAnotherServer :: ReasonCode where "UseAnotherServer \<equiv> 0x9C"
abbreviation (input) ServerMoved :: ReasonCode where "ServerMoved \<equiv> 0x9D"
abbreviation (input) SharedSubscriptionsNotSupported :: ReasonCode where "SharedSubscriptionsNotSupported \<equiv> 0x9E"
abbreviation (input) ConnectionRateExceeded :: ReasonCode where "ConnectionRateExceeded \<equiv> 0x9F"
abbreviation (input) MaximumConnectTime :: ReasonCode where "MaximumConnectTime \<equiv> 0xA0"
abbreviation (input) SubscriptionIdentifiersNotSupported :: ReasonCode where "SubscriptionIdentifiersNotSupported \<equiv> 0xA1"
abbreviation (input) WildcardSubscriptionsNotSupported :: ReasonCode where "WildcardSubscriptionsNotSupported \<equiv> 0xA2"

definition IsError :: "ReasonCode \<Rightarrow> bool" where
  "IsError r \<longleftrightarrow> 0x80 \<le> r"

end
