(* ===== verification/Codec.thy ===== *)
theory Codec
  imports Packet_Types
begin

text \<open>
  The primitive wire types of \<^verbatim>\<open>src/packet/codec.go\<close>: the bounds-checked \<^verbatim>\<open>reader\<close> over a packet
  body, the writer methods and the Variable Byte Integer. A writer method is modelled by
  the bytes it appends to the writer's buffer; composing two calls is appending their bytes.

  The locale \<open>wire_codec\<close> is the interface every encoded field satisfies towards the packet
  decoders: decoding what the encoder wrote gives the value back and leaves the reader just after
  it, and decoding any bytes at all neither panics nor moves the reader out of its buffer. Each
  primitive is an interpretation of it.
\<close>

section \<open>The reader\<close>

record reader =
  buf :: bytes
  pos :: nat

definition new_reader :: "bytes \<Rightarrow> reader" where
  "new_reader b = \<lparr>buf = b, pos = 0\<rparr>"

definition remaining :: "reader \<Rightarrow> int" where
  "remaining r = int (length (buf r)) - int (pos r)"

definition r_empty :: "reader \<Rightarrow> bool" where
  "r_empty r \<longleftrightarrow> length (buf r) \<le> pos r"

text \<open>Moving the position: \<^verbatim>\<open>r.pos += n\<close>.\<close>

definition adv :: "nat \<Rightarrow> reader \<Rightarrow> reader" where
  "adv n r = r\<lparr>pos := pos r + n\<rparr>"

definition r_byte :: "reader \<Rightarrow> (byte \<times> reader) res" where
  "r_byte r =
    (if remaining r < 1 then Inl ErrMalformed
     else rbind (go_index (buf r) (pos r)) (\<lambda>b. Inr (b, adv 1 r)))"

definition r_uint16 :: "reader \<Rightarrow> (u16 \<times> reader) res" where
  "r_uint16 r =
    (if remaining r < 2 then Inl ErrMalformed
     else rbind (go_index (buf r) (pos r)) (\<lambda>b0.
          rbind (go_index (buf r) (pos r + 1)) (\<lambda>b1.
          Inr (push_bit 8 (ucast b0) OR ucast b1, adv 2 r))))"

definition r_uint32 :: "reader \<Rightarrow> (u32 \<times> reader) res" where
  "r_uint32 r =
    (if remaining r < 4 then Inl ErrMalformed
     else rbind (go_index (buf r) (pos r)) (\<lambda>b0.
          rbind (go_index (buf r) (pos r + 1)) (\<lambda>b1.
          rbind (go_index (buf r) (pos r + 2)) (\<lambda>b2.
          rbind (go_index (buf r) (pos r + 3)) (\<lambda>b3.
          Inr (push_bit 24 (ucast b0) OR push_bit 16 (ucast b1) OR push_bit 8 (ucast b2) OR ucast b3,
               adv 4 r))))))"

text \<open>The Variable Byte Integer: the loop over \<^verbatim>\<open>i\<close> with \<^verbatim>\<open>value\<close> and \<^verbatim>\<open>multiplier\<close> (a shift count).\<close>

definition MaxVarByteInt :: nat where
  "MaxVarByteInt = 268435455"

function varByteInt_loop :: "nat \<Rightarrow> nat \<Rightarrow> nat \<Rightarrow> reader \<Rightarrow> (nat \<times> reader) res" where
  "varByteInt_loop i v m r =
    (if i < 4 then
       rbind (rcatch (r_byte r) ErrMalformed) (\<lambda>(b, r').
       let v' = v + push_bit m (unat (b AND 0x7F)) in
       if b AND 0x80 = 0 then
         (if 0 < i \<and> b = 0 then Inl ErrMalformed else Inr (v', r'))
       else varByteInt_loop (Suc i) v' (m + 7) r')
     else Inl ErrMalformed)"
  by pat_completeness auto
termination
  by (relation "measure (\<lambda>(i, _, _, _). 4 - i)") auto

declare varByteInt_loop.simps [simp del]

definition r_varByteInt :: "reader \<Rightarrow> (nat \<times> reader) res" where
  "r_varByteInt r = varByteInt_loop 0 0 0 r"

definition r_binary :: "reader \<Rightarrow> (bytes \<times> reader) res" where
  "r_binary r =
    rbind (r_uint16 r) (\<lambda>(n, r').
    if remaining r' < int (unat n) then Inl ErrMalformed
    else rbind (go_slice (buf r') (pos r') (pos r' + unat n)) (\<lambda>b.
         Inr (b, adv (unat n) r')))"

text \<open>
  \<^verbatim>\<open>unicode/utf8\<close>: the runes of a byte string, or \<open>None\<close> when it is not well-formed
  UTF-8. The second byte's range depends on the first (\<^verbatim>\<open>acceptRanges\<close>), which excludes overlong
  forms, surrogates and values above U+10FFFF.
\<close>

definition in_range :: "byte \<Rightarrow> byte \<Rightarrow> byte \<Rightarrow> bool" where
  "in_range lo hi b \<longleftrightarrow> lo \<le> b \<and> b \<le> hi"

definition utf8_accept :: "byte \<Rightarrow> byte \<Rightarrow> bool" where
  "utf8_accept b0 b1 \<longleftrightarrow>
    in_range (if b0 = 0xE0 then 0xA0 else if b0 = 0xF0 then 0x90 else 0x80)
             (if b0 = 0xED then 0x9F else if b0 = 0xF4 then 0x8F else 0xBF) b1"

fun utf8_runes :: "bytes \<Rightarrow> nat list option" where
  "utf8_runes [] = Some []"
| "utf8_runes (b0 # bs) =
    (if b0 < 0x80 then map_option ((#) (unat b0)) (utf8_runes bs)
     else if in_range 0xC2 0xDF b0 then
       (case bs of
          b1 # bs' \<Rightarrow>
            if in_range 0x80 0xBF b1
            then map_option ((#) (unat (b0 AND 0x1F) * 64 + unat (b1 AND 0x3F))) (utf8_runes bs')
            else None
        | _ \<Rightarrow> None)
     else if in_range 0xE0 0xEF b0 then
       (case bs of
          b1 # b2 # bs' \<Rightarrow>
            if utf8_accept b0 b1 \<and> in_range 0x80 0xBF b2
            then map_option ((#) (unat (b0 AND 0x0F) * 4096 + unat (b1 AND 0x3F) * 64 + unat (b2 AND 0x3F)))
                   (utf8_runes bs')
            else None
        | _ \<Rightarrow> None)
     else if in_range 0xF0 0xF4 b0 then
       (case bs of
          b1 # b2 # b3 # bs' \<Rightarrow>
            if utf8_accept b0 b1 \<and> in_range 0x80 0xBF b2 \<and> in_range 0x80 0xBF b3
            then map_option ((#) (unat (b0 AND 0x07) * 262144 + unat (b1 AND 0x3F) * 4096
                                  + unat (b2 AND 0x3F) * 64 + unat (b3 AND 0x3F)))
                   (utf8_runes bs')
            else None
        | _ \<Rightarrow> None)
     else None)"

definition validateUTF8 :: "string \<Rightarrow> unit res" where
  "validateUTF8 s =
    (case utf8_runes (bytes_of_string s) of
       None \<Rightarrow> Inl ErrMalformed
     | Some rs \<Rightarrow>
         if \<exists>r \<in> set rs. r = 0 \<or> (0xD800 \<le> r \<and> r \<le> 0xDFFF) then Inl ErrMalformed else Inr ())"

definition r_string :: "reader \<Rightarrow> (string \<times> reader) res" where
  "r_string r =
    rbind (r_binary r) (\<lambda>(b, r').
    rbind (validateUTF8 (string_of_bytes b)) (\<lambda>_.
    Inr (string_of_bytes b, r')))"

definition r_stringPair :: "reader \<Rightarrow> ((string \<times> string) \<times> reader) res" where
  "r_stringPair r =
    rbind (r_string r) (\<lambda>(k, r1).
    rbind (r_string r1) (\<lambda>(v, r2).
    Inr ((k, v), r2)))"

section \<open>The writer\<close>

definition w_byte :: "byte \<Rightarrow> bytes" where
  "w_byte b = [b]"

definition w_uint16 :: "u16 \<Rightarrow> bytes" where
  "w_uint16 v = [ucast (drop_bit 8 v), ucast (v AND 0xFF)]"

definition w_uint32 :: "u32 \<Rightarrow> bytes" where
  "w_uint32 v = [ucast (drop_bit 24 v), ucast (drop_bit 16 v AND 0xFF),
                 ucast (drop_bit 8 v AND 0xFF), ucast (v AND 0xFF)]"

definition w_binary :: "bytes \<Rightarrow> bytes" where
  "w_binary b = w_uint16 (of_nat (length b AND 0xFFFF)) @ b"

definition w_string :: "string \<Rightarrow> bytes" where
  "w_string s = w_uint16 (of_nat (length s AND 0xFFFF)) @ bytes_of_string s"

definition w_stringPair :: "string \<Rightarrow> string \<Rightarrow> bytes" where
  "w_stringPair k v = w_string k @ w_string v"

function vbi_loop :: "bytes \<Rightarrow> nat \<Rightarrow> bytes" where
  "vbi_loop dst v =
    (let b = (of_nat (v mod 128) :: byte);
         v' = v div 128;
         b' = (if 0 < v' then b OR 0x80 else b);
         dst' = dst @ [b']
     in if v' = 0 then dst' else vbi_loop dst' v')"
  by pat_completeness auto
termination
  by (relation "measure snd") auto

declare vbi_loop.simps [simp del]

text \<open>\<open>nat v\<close> is 0 for a negative \<open>v\<close>, which is the clamp the code starts with.\<close>

definition appendVarByteInt :: "bytes \<Rightarrow> int \<Rightarrow> bytes" where
  "appendVarByteInt dst v = vbi_loop dst (nat v)"

definition w_varByteInt :: "int \<Rightarrow> bytes" where
  "w_varByteInt v = appendVarByteInt [] v"

definition varByteIntLen :: "int \<Rightarrow> nat" where
  "varByteIntLen v = (if v < 128 then 1 else if v < 16384 then 2 else if v < 2097152 then 3 else 4)"

definition checkStringLen :: "string \<Rightarrow> unit res" where
  "checkStringLen s = (if 65535 < length s then Inl ErrTooLong else Inr ())"

definition checkBinaryLen :: "bytes \<Rightarrow> unit res" where
  "checkBinaryLen b = (if 65535 < length b then Inl ErrTooLong else Inr ())"

section \<open>Reading as a function of the unread bytes\<close>

definition rest :: "reader \<Rightarrow> bytes" where
  "rest r = drop (pos r) (buf r)"

definition rd_ok :: "reader \<Rightarrow> bool" where
  "rd_ok r \<longleftrightarrow> pos r \<le> length (buf r)"

definition decode_error :: "go_error \<Rightarrow> bool" where
  "decode_error e \<longleftrightarrow> e = ErrMalformed \<or> e = ErrProtocol \<or> (\<exists>v. e = ErrUnsupportedProtocolVersion v)"

lemma decode_error_simps [simp]:
  "decode_error ErrMalformed" "decode_error ErrProtocol"
  "decode_error (ErrUnsupportedProtocolVersion v)" "\<not> decode_error Panic"
  by (auto simp: decode_error_def)

lemma rest_new_reader [simp]: "rest (new_reader b) = b"
  by (simp add: rest_def new_reader_def)

lemma rd_ok_new_reader [simp]: "rd_ok (new_reader b)"
  by (simp add: rd_ok_def new_reader_def)

lemma rest_adv [simp]: "rest (adv n r) = drop n (rest r)"
  by (simp add: rest_def adv_def add.commute)

lemma buf_adv [simp]: "buf (adv n r) = buf r"
  by (simp add: adv_def)

lemma adv_adv [simp]: "adv m (adv n r) = adv (n + m) r"
  by (simp add: adv_def)

lemma adv_0 [simp]: "adv 0 r = r"
  by (simp add: adv_def)

lemma rd_ok_adv: "rd_ok r \<Longrightarrow> n \<le> length (rest r) \<Longrightarrow> rd_ok (adv n r)"
  by (auto simp: rd_ok_def adv_def rest_def)

lemma rd_ok_adv_eq: "rd_ok r \<Longrightarrow> rest r = xs @ ys \<Longrightarrow> rd_ok (adv (length xs) r)"
  by (simp add: rd_ok_adv)

lemma r_empty_iff: "r_empty r \<longleftrightarrow> rest r = []"
  by (simp add: r_empty_def rest_def)

lemma remaining_eq: "rd_ok r \<Longrightarrow> remaining r = int (length (rest r))"
  by (simp add: remaining_def rd_ok_def rest_def of_nat_diff)

lemma remaining_less_iff: "0 < n \<Longrightarrow> remaining r < int n \<longleftrightarrow> length (rest r) < n"
  by (auto simp: remaining_def rest_def)

lemma go_index_rest: "go_index (buf r) (pos r + i) = go_index (rest r) i"
  by (auto simp: go_index_def rest_def)

lemma go_slice_rest: "rd_ok r \<Longrightarrow> go_slice (buf r) (pos r) (pos r + n) = go_slice (rest r) 0 n"
  by (auto simp: go_slice_def rest_def rd_ok_def)

lemma r_byte_eq: "r_byte r = (case rest r of [] \<Rightarrow> Inl ErrMalformed | b # _ \<Rightarrow> Inr (b, adv 1 r))"
  using remaining_less_iff [of 1 r] go_index_rest [of r 0]
  by (auto simp: r_byte_def go_index_def split: list.splits)

lemma r_uint16_eq:
  "r_uint16 r = (case rest r of
      b0 # b1 # _ \<Rightarrow> Inr (push_bit 8 (ucast b0) OR ucast b1, adv 2 r) | _ \<Rightarrow> Inl ErrMalformed)"
  using remaining_less_iff [of 2 r] go_index_rest [of r 0] go_index_rest [of r 1]
  by (auto simp: r_uint16_def go_index_def split: list.splits)

lemma r_uint32_eq:
  "r_uint32 r = (case rest r of
      b0 # b1 # b2 # b3 # _ \<Rightarrow>
        Inr (push_bit 24 (ucast b0) OR push_bit 16 (ucast b1) OR push_bit 8 (ucast b2) OR ucast b3,
             adv 4 r)
    | _ \<Rightarrow> Inl ErrMalformed)"
  using remaining_less_iff [of 4 r] go_index_rest [of r 0] go_index_rest [of r 1]
    go_index_rest [of r 2] go_index_rest [of r 3]
  by (auto simp: r_uint32_def go_index_def eval_nat_numeral split: list.splits)

section \<open>The interface of an encoded field\<close>

text \<open>
  \<open>field dec enc dm\<close>: on any reader position, \<open>dec\<close> succeeds exactly when the unread bytes start
  with \<open>enc v\<close> for a value of the domain \<open>dm\<close>, returns that value and moves past it, and otherwise
  fails with an error of the decoder, never with a panic.
\<close>

locale wire_codec =
  fixes dec :: "reader \<Rightarrow> ('a \<times> reader) res"
    and enc :: "'a \<Rightarrow> bytes"
    and dm :: "'a \<Rightarrow> bool"
  assumes dec_iff: "rd_ok r \<Longrightarrow>
      dec r = Inr (v, r') \<longleftrightarrow> dm v \<and> (\<exists>xs. rest r = enc v @ xs) \<and> r' = adv (length (enc v)) r"
    and dec_err: "rd_ok r \<Longrightarrow> dec r = Inl e \<Longrightarrow> decode_error e"
begin

lemma dec_enc: "rd_ok r \<Longrightarrow> dm v \<Longrightarrow> rest r = enc v @ xs \<Longrightarrow> dec r = Inr (v, adv (length (enc v)) r)"
  using dec_iff by blast

lemma dec_ok:
  "rd_ok r \<Longrightarrow> dec r = Inr (v, r') \<Longrightarrow>
    dm v \<and> rest r = enc v @ rest r' \<and> r' = adv (length (enc v)) r \<and> rd_ok r' \<and> buf r' = buf r"
  by (auto simp: dec_iff rd_ok_adv_eq)

text \<open>No encoding is a proper prefix of another: what follows a field cannot change its value.\<close>

lemma enc_inj:
  assumes "dm v" "dm w" "enc v @ xs = enc w @ ys"
  shows "v = w \<and> xs = ys"
proof -
  let ?r = "new_reader (enc v @ xs)"
  have "dec ?r = Inr (v, adv (length (enc v)) ?r)" "dec ?r = Inr (w, adv (length (enc w)) ?r)"
    using assms dec_enc [of ?r v xs] dec_enc [of ?r w ys] by simp_all
  then have "v = w" by simp
  with assms show ?thesis by simp
qed

end

text \<open>Reading one field after another is a field again.\<close>

locale wire_codec_pair = a: wire_codec dec1 enc1 dm1 + b: wire_codec dec2 enc2 dm2
  for dec1 :: "reader \<Rightarrow> ('a \<times> reader) res" and enc1 :: "'a \<Rightarrow> bytes" and dm1 :: "'a \<Rightarrow> bool"
    and dec2 :: "reader \<Rightarrow> ('b \<times> reader) res" and enc2 :: "'b \<Rightarrow> bytes" and dm2 :: "'b \<Rightarrow> bool"
begin

lemma pair_dec_iff:
  assumes "rd_ok r"
  shows "rbind (dec1 r) (\<lambda>(x, r1). rbind (dec2 r1) (\<lambda>(y, r2). Inr ((x, y), r2))) = Inr ((v, w), r') \<longleftrightarrow>
    (dm1 v \<and> dm2 w) \<and> (\<exists>xs. rest r = (enc1 v @ enc2 w) @ xs) \<and> r' = adv (length (enc1 v @ enc2 w)) r"
    (is "?L \<longleftrightarrow> ?R")
proof
  assume ?L
  then obtain r1 where 1: "dec1 r = Inr (v, r1)" and 2: "dec2 r1 = Inr (w, r')"
    by (auto simp: rbind_Inr_iff)
  from a.dec_ok [OF assms 1] have A: "dm1 v" "rest r = enc1 v @ rest r1" "r1 = adv (length (enc1 v)) r"
    and ok: "rd_ok r1" by blast+
  from b.dec_ok [OF ok 2] have B: "dm2 w" "rest r1 = enc2 w @ rest r'" "r' = adv (length (enc2 w)) r1"
    by blast+
  have "rest r = (enc1 v @ enc2 w) @ rest r'"
    by (metis A(2) B(2) append_assoc)
  moreover have "r' = adv (length (enc1 v @ enc2 w)) r"
    using A(3) B(3) by simp
  ultimately show ?R using A(1) B(1) by blast
next
  assume R: ?R
  then obtain xs where xs: "rest r = enc1 v @ enc2 w @ xs" by auto
  have 1: "dec1 r = Inr (v, adv (length (enc1 v)) r)"
    using R xs assms a.dec_enc by blast
  have "dec2 (adv (length (enc1 v)) r) = Inr (w, adv (length (enc2 w)) (adv (length (enc1 v)) r))"
    by (rule b.dec_enc [where xs = xs]) (use R xs assms in \<open>simp_all add: rd_ok_adv\<close>)
  with 1 R show ?L by simp
qed

lemma pair_dec_err:
  assumes "rd_ok r"
    and "rbind (dec1 r) (\<lambda>(x, r1). rbind (dec2 r1) (\<lambda>(y, r2). Inr ((x, y), r2))) = Inl e"
  shows "decode_error e"
proof (cases "dec1 r")
  case (Inl e1)
  with assms a.dec_err show ?thesis by simp
next
  case (Inr p)
  obtain x r1 where p: "p = (x, r1)" by (cases p)
  with Inr assms have "dec2 r1 = Inl e" by (auto simp: rbind_Inl_iff)
  moreover from Inr p assms a.dec_ok have "rd_ok r1" by blast
  ultimately show ?thesis using b.dec_err by blast
qed

end

sublocale wire_codec_pair \<subseteq> pair: wire_codec
  "\<lambda>r. rbind (dec1 r) (\<lambda>(x, r1). rbind (dec2 r1) (\<lambda>(y, r2). Inr ((x, y), r2)))"
  "\<lambda>(x, y). enc1 x @ enc2 y" "\<lambda>(x, y). dm1 x \<and> dm2 y"
proof (unfold_locales, goal_cases)
  case (1 r v r')
  then show ?case using pair_dec_iff [of r "fst v" "snd v" r'] by (cases v) simp
next
  case (2 r e)
  then show ?case by (rule pair_dec_err)
qed

section \<open>The primitive fields\<close>

lemma and_FF: "v AND 0xFF = take_bit 8 (v :: 'a :: len word)"
  by (simp add: take_bit_eq_mask mask_eq_exp_minus_1)

lemma bit_byte_less: "bit (b :: byte) n \<Longrightarrow> n < 8"
  using bit_imp_le_length by fastforce

lemma uint16_of_bytes:
  "w_uint16 (push_bit 8 (ucast b0) OR ucast b1) = [b0, b1]"
  by (auto simp: w_uint16_def and_FF intro!: bit_word_eqI) (auto simp: bit_simps dest: bit_byte_less)

lemma bytes_of_uint16:
  "push_bit 8 (ucast (ucast (drop_bit 8 v) :: byte)) OR ucast (ucast (v AND 0xFF) :: byte) = (v :: u16)"
  by (rule bit_word_eqI) (auto simp: and_FF bit_simps dest: bit_byte_less)

lemma uint32_of_bytes:
  "w_uint32 (push_bit 24 (ucast b0) OR push_bit 16 (ucast b1) OR push_bit 8 (ucast b2) OR ucast b3)
    = [b0, b1, b2, b3]"
  by (auto simp: w_uint32_def and_FF intro!: bit_word_eqI) (auto simp: bit_simps dest: bit_byte_less)

lemma bytes_of_uint32:
  "push_bit 24 (ucast (ucast (drop_bit 24 v) :: byte)) OR
   push_bit 16 (ucast (ucast (drop_bit 16 v AND 0xFF) :: byte)) OR
   push_bit 8 (ucast (ucast (drop_bit 8 v AND 0xFF) :: byte)) OR
   ucast (ucast (v AND 0xFF) :: byte) = (v :: u32)"
  (is "?lhs = v")
proof (rule bit_word_eqI)
  fix n assume "n < LENGTH(32)"
  then consider "n < 8" | "8 \<le> n" "n < 16" | "16 \<le> n" "n < 24" | "24 \<le> n" "n < 32"
    by fastforce
  then show "bit ?lhs n = bit v n"
    by cases (auto simp: and_FF bit_simps dest: bit_byte_less)
qed

lemma numeral_4_eq_4: "4 = Suc (Suc (Suc (Suc 0)))"
  by simp

interpretation c_byte: wire_codec r_byte w_byte "\<lambda>_. True"
  by unfold_locales (auto simp: r_byte_eq w_byte_def split: list.splits)

interpretation c_uint16: wire_codec r_uint16 w_uint16 "\<lambda>_. True"
proof (unfold_locales, goal_cases)
  case (1 r v r')
  show ?case
    by (auto simp: r_uint16_eq uint16_of_bytes split: list.splits)
       (auto simp: w_uint16_def bytes_of_uint16 numeral_2_eq_2)
qed (auto simp: r_uint16_eq split: list.splits)

interpretation c_uint32: wire_codec r_uint32 w_uint32 "\<lambda>_. True"
proof (unfold_locales, goal_cases)
  case (1 r v r')
  show ?case
    by (auto simp: r_uint32_eq uint32_of_bytes split: list.splits)
       (auto simp: w_uint32_def bytes_of_uint32 numeral_4_eq_4)
qed (auto simp: r_uint32_eq split: list.splits)

lemma length_w_uint16 [simp]: "length (w_uint16 v) = 2"
  by (simp add: w_uint16_def)

lemma length_w_uint32 [simp]: "length (w_uint32 v) = 4"
  by (simp add: w_uint32_def)

lemma length_w_byte [simp]: "length (w_byte v) = 1"
  by (simp add: w_byte_def)

definition wf_binary :: "bytes \<Rightarrow> bool" where
  "wf_binary b \<longleftrightarrow> length b \<le> 65535"

definition wf_string :: "string \<Rightarrow> bool" where
  "wf_string s \<longleftrightarrow> length s \<le> 65535 \<and> validateUTF8 s = Inr ()"

lemma len16:
  assumes "n \<le> 65535"
  shows "n AND 65535 = n" "unat (of_nat n :: u16) = n"
proof -
  have "n AND 65535 = take_bit 16 n"
    by (simp add: take_bit_eq_mask mask_eq_exp_minus_1)
  with assms show "n AND 65535 = n" by (simp add: take_bit_nat_eq_self_iff)
  from assms show "unat (of_nat n :: u16) = n" by (simp add: unat_of_nat)
qed

lemma unat_u16_le: "unat (n :: u16) \<le> 65535"
proof -
  have "unat n < 2 ^ LENGTH(16)" by (rule unsigned_less)
  then show ?thesis by simp
qed

lemma r_binary_eq:
  assumes "rd_ok r"
  shows "r_binary r = rbind (r_uint16 r) (\<lambda>(n, r').
    if length (rest r') < unat n then Inl ErrMalformed
    else Inr (take (unat n) (rest r'), adv (unat n) r'))"
  unfolding r_binary_def
proof (rule rbind_cong [OF refl])
  fix p assume "r_uint16 r = Inr p"
  then obtain n r' where p: "p = (n, r')" "r_uint16 r = Inr (n, r')" by (cases p) auto
  then have ok: "rd_ok r'" using c_uint16.dec_ok [OF assms] by blast
  have "remaining r' < int (unat n) \<longleftrightarrow> length (rest r') < unat n"
    by (simp only: remaining_eq [OF ok] of_nat_less_iff)
  with ok show "(case p of (n, r') \<Rightarrow>
      if remaining r' < int (unat n) then Inl ErrMalformed
      else rbind (go_slice (buf r') (pos r') (pos r' + unat n)) (\<lambda>b. Inr (b, adv (unat n) r'))) =
    (case p of (n, r') \<Rightarrow>
      if length (rest r') < unat n then Inl ErrMalformed
      else Inr (take (unat n) (rest r'), adv (unat n) r'))"
    by (simp add: p go_slice_rest) (simp add: go_slice_def)
qed

lemma r_binary_ok:
  assumes r: "rd_ok r" and b: "r_binary r = Inr (v, r')"
  shows "wf_binary v \<and> (\<exists>xs. rest r = w_binary v @ xs) \<and> r' = adv (length (w_binary v)) r"
proof -
  obtain n r1 where n: "r_uint16 r = Inr (n, r1)"
    using b by (cases "r_uint16 r") (auto simp: r_binary_def)
  with b have le: "unat n \<le> length (rest r1)" and v: "v = take (unat n) (rest r1)"
    and r': "r' = adv (unat n) r1"
    by (simp_all add: r_binary_eq [OF r] split: if_splits)
  have r1: "rest r = w_uint16 n @ rest r1" "r1 = adv 2 r"
    using c_uint16.dec_ok [OF r n] unfolding length_w_uint16 by blast+
  have len: "length v = unat n" using le v by simp
  then have w: "w_binary v = w_uint16 n @ v"
    using len16 [OF unat_u16_le [of n]] by (simp add: w_binary_def)
  have "rest r = w_binary v @ drop (unat n) (rest r1)"
    unfolding w r1(1) by (simp add: v)
  moreover have "r' = adv (length (w_binary v)) r"
    unfolding w r' r1(2) by (simp add: len)
  ultimately show ?thesis
    using len unat_u16_le [of n] unfolding wf_binary_def by auto
qed

lemma r_binary_enc:
  assumes r: "rd_ok r" and len: "length v \<le> 65535" and xs: "rest r = w_binary v @ xs"
  shows "r_binary r = Inr (v, adv (length (w_binary v)) r)"
proof -
  have xs': "rest r = w_uint16 (of_nat (length v)) @ v @ xs"
    using xs len by (simp add: w_binary_def len16)
  show ?thesis
    unfolding r_binary_eq [OF r] c_uint16.dec_enc [OF r TrueI xs']
    by (simp add: xs' len16(2) [OF len] w_binary_def del: unat_of_nat)
qed

interpretation c_binary: wire_codec r_binary w_binary wf_binary
proof (unfold_locales, goal_cases)
  case (1 r v r')
  then show ?case
    using r_binary_ok [of r v r'] r_binary_enc [of r v] unfolding wf_binary_def by blast
next
  case (2 r e)
  then show ?case
    by (cases "r_uint16 r") (auto simp: r_binary_eq dest: c_uint16.dec_err split: if_splits)
qed

lemma w_string_binary: "w_string s = w_binary (bytes_of_string s)"
  by (simp add: w_string_def w_binary_def)

lemma validateUTF8_err: "validateUTF8 s = Inl e \<Longrightarrow> e = ErrMalformed"
  by (auto simp: validateUTF8_def split: option.splits if_splits)

interpretation c_string: wire_codec r_string w_string wf_string
proof (unfold_locales, goal_cases)
  case (1 r v r')
  have "r_string r = Inr (v, r') \<longleftrightarrow> r_binary r = Inr (bytes_of_string v, r') \<and> validateUTF8 v = Inr ()"
    by (auto simp: r_string_def rbind_Inr_iff)
  also have "\<dots> \<longleftrightarrow> wf_string v \<and> (\<exists>xs. rest r = w_string v @ xs) \<and> r' = adv (length (w_string v)) r"
    using c_binary.dec_iff [OF 1] by (auto simp: wf_string_def wf_binary_def w_string_binary)
  finally show ?case .
next
  case (2 r e)
  then show ?case
    using c_binary.dec_err [OF 2(1)] by (auto simp: r_string_def rbind_Inl_iff dest: validateUTF8_err)
qed

interpretation c_string2: wire_codec_pair r_string w_string wf_string r_string w_string wf_string
  by unfold_locales

definition wf_pair :: "string \<times> string \<Rightarrow> bool" where
  "wf_pair = (\<lambda>(k, v). wf_string k \<and> wf_string v)"

interpretation c_pair: wire_codec r_stringPair "\<lambda>(k, v). w_stringPair k v" wf_pair
  using c_string2.pair.wire_codec_axioms
  by (simp add: r_stringPair_def [abs_def] w_stringPair_def wf_pair_def)

section \<open>Variable Byte Integers\<close>

text \<open>The encoding as a recursion on the value, without the accumulator.\<close>

fun vbi :: "nat \<Rightarrow> bytes" where
  "vbi v = (if v < 128 then [of_nat v] else (of_nat (v mod 128) OR 0x80) # vbi (v div 128))"

declare vbi.simps [simp del]

lemma vbi_loop_eq: "vbi_loop dst v = dst @ vbi v"
proof (induction dst v rule: vbi_loop.induct)
  case (1 dst v)
  then show ?case
    by (cases "v < 128") (simp_all add: vbi_loop.simps [of dst] vbi.simps [of v] Let_def div_greater_zero_iff)
qed

lemma appendVarByteInt_eq: "appendVarByteInt dst v = dst @ vbi (nat v)"
  by (simp add: appendVarByteInt_def vbi_loop_eq)

lemma w_varByteInt_eq: "w_varByteInt v = vbi (nat v)"
  by (simp add: w_varByteInt_def appendVarByteInt_eq)

lemma vbi_Nil [simp]: "vbi v \<noteq> []"
  by (simp add: vbi.simps)

lemma length_vbi_le: "v < 128 ^ Suc k \<Longrightarrow> length (vbi v) \<le> Suc k"
proof (induction k arbitrary: v)
  case (Suc k)
  have "v div 128 < 128 ^ Suc k" using Suc.prems by (simp add: less_mult_imp_div_less)
  from Suc.IH [OF this] show ?case by (simp add: vbi.simps [of v])
qed (simp add: vbi.simps)

text \<open>The two halves of a byte of the encoding.\<close>

lemma unat_byte_less: "unat (b :: byte) < 256"
proof -
  have "unat b < 2 ^ LENGTH(8)" by (rule unsigned_less)
  then show ?thesis by simp
qed

lemma byte_and_7F: "unat (b AND 0x7F :: byte) = unat b mod 128"
proof -
  have "b AND 0x7F = take_bit 7 b" by (simp add: take_bit_eq_mask mask_eq_exp_minus_1)
  then have "unat (b AND 0x7F) = take_bit 7 (unat b)" by (simp only: unsigned_take_bit_eq)
  then show ?thesis by (simp add: take_bit_eq_mod)
qed

lemma byte_bit_7: "bit (b :: byte) 7 \<longleftrightarrow> 128 \<le> unat b"
proof -
  have "bit b 7 \<longleftrightarrow> bit (unat b) 7" by (simp add: bit_unsigned_iff)
  also have "\<dots> \<longleftrightarrow> odd (unat b div 128)" by (simp add: bit_iff_odd)
  also have "\<dots> \<longleftrightarrow> 128 \<le> unat b"
  proof (cases "unat b < 128")
    case False
    then have "unat b div 128 = 1" using unat_byte_less [of b] by simp
    with False show ?thesis by simp
  qed simp
  finally show ?thesis .
qed

lemma byte_and_80: "(b :: byte) AND 0x80 = 0 \<longleftrightarrow> unat b < 128"
  using and_exp_eq_0_iff_not_bit [of b 7] byte_bit_7 [of b] by (simp add: not_le)

lemma byte_or_80:
  assumes "n < 128"
  shows "unat (of_nat n OR 0x80 :: byte) = n + 128"
proof -
  have "(of_nat n OR 0x80 :: byte) = set_bit 7 (of_nat n)"
    by (simp add: set_bit_eq_or)
  moreover have "\<not> bit (of_nat n :: byte) 7"
    using assms by (simp add: byte_bit_7 unat_of_nat)
  ultimately have "(of_nat n OR 0x80 :: byte) = of_nat (n + 128)"
    by (simp add: set_bit_eq)
  then have "unat (of_nat n OR 0x80 :: byte) = (n + 128) mod 2 ^ LENGTH(8)"
    by (simp only: unat_of_nat)
  with assms show ?thesis by simp
qed

lemma vbi_Cons_iff:
  "vbi v @ xs = b # bs \<longleftrightarrow>
    (if unat b < 128 then v = unat b \<and> xs = bs
     else 128 \<le> v \<and> v mod 128 = unat b mod 128 \<and> vbi (v div 128) @ xs = bs)"
proof (cases "v < 128")
  case True
  then have "unat (of_nat v :: byte) = v" by (simp add: unat_of_nat)
  then have "(of_nat v :: byte) = b \<longleftrightarrow> v = unat b" by (simp add: word_unat_eq_iff)
  with True show ?thesis by (auto simp: vbi.simps [of v])
next
  case False
  let ?h = "of_nat (v mod 128) OR 0x80 :: byte"
  have h: "unat ?h = v mod 128 + 128" by (simp add: byte_or_80)
  have "?h = b \<longleftrightarrow> unat ?h = unat b" by (simp add: word_unat_eq_iff)
  also have "\<dots> \<longleftrightarrow> 128 \<le> unat b \<and> v mod 128 = unat b mod 128"
    using h unat_byte_less [of b] by (auto simp: le_mod_geq)
  finally show ?thesis using False by (auto simp: vbi.simps [of v])
qed

text \<open>One byte of the loop: a final byte ends it, a continuation byte contributes its low seven bits.\<close>

lemma varByteInt_loop_final:
  assumes "rest r = b # bs" "i < 4" "unat b < 128"
  shows "varByteInt_loop i a m r =
    (if 0 < i \<and> unat b = 0 then Inl ErrMalformed else Inr (a + unat b * 2 ^ m, adv 1 r))"
  using assms
  by (simp add: varByteInt_loop.simps [of i] r_byte_eq byte_and_7F byte_and_80 push_bit_eq_mult
      unsigned_eq_0_iff)

lemma varByteInt_loop_cont:
  assumes "rest r = b # bs" "i < 4" "128 \<le> unat b"
  shows "varByteInt_loop i a m r =
    varByteInt_loop (Suc i) (a + (unat b mod 128) * 2 ^ m) (m + 7) (adv 1 r)"
  using assms
  by (simp add: varByteInt_loop.simps [of i] r_byte_eq byte_and_7F byte_and_80 push_bit_eq_mult)

text \<open>What the loop, entered at byte \<open>i\<close> with the sum \<open>a\<close>, returns when the unread bytes encode \<open>v\<close>.\<close>

definition vbi_reads :: "nat \<Rightarrow> nat \<Rightarrow> nat \<Rightarrow> reader \<Rightarrow> nat \<Rightarrow> reader \<Rightarrow> nat \<Rightarrow> bool" where
  "vbi_reads i a m r w r' v \<longleftrightarrow>
    v < 128 ^ (4 - i) \<and> (0 < i \<longrightarrow> 0 < v) \<and> w = a + v * 2 ^ m \<and>
    (\<exists>xs. rest r = vbi v @ xs) \<and> r' = adv (length (vbi v)) r"

lemma vbi_prefix_final:
  assumes "unat b < 128"
  shows "(\<exists>xs. b # bs = vbi v @ xs) \<longleftrightarrow> v = unat b"
proof -
  have "(\<exists>xs. b # bs = vbi v @ xs) \<longleftrightarrow> (\<exists>xs. vbi v @ xs = b # bs)" by metis
  with assms show ?thesis by (simp add: vbi_Cons_iff)
qed

lemma vbi_prefix_cont:
  assumes "\<not> unat b < 128"
  shows "(\<exists>xs. b # bs = vbi v @ xs) \<longleftrightarrow>
    128 \<le> v \<and> v mod 128 = unat b mod 128 \<and> (\<exists>xs. bs = vbi (v div 128) @ xs)"
proof -
  have "(\<exists>xs. b # bs = vbi v @ xs) \<longleftrightarrow> (\<exists>xs. vbi v @ xs = b # bs)" by metis
  also have "\<dots> \<longleftrightarrow> 128 \<le> v \<and> v mod 128 = unat b mod 128 \<and> (\<exists>xs. vbi (v div 128) @ xs = bs)"
    using assms by (simp add: vbi_Cons_iff)
  finally show ?thesis by metis
qed

lemma vbi_reads_final:
  assumes "rest r = b # bs" "i < 4" "unat b < 128"
  shows "vbi_reads i a m r w r' v \<longleftrightarrow>
    v = unat b \<and> (0 < i \<longrightarrow> unat b \<noteq> 0) \<and> w = a + unat b * 2 ^ m \<and> r' = adv 1 r"
proof -
  have "(128::nat) ^ 1 \<le> 128 ^ (4 - i)" using assms by (intro power_increasing) auto
  then have "unat b < 128 ^ (4 - i)" using assms(3) by simp
  moreover have "length (vbi (unat b)) = 1" using assms(3) by (simp add: vbi.simps)
  ultimately show ?thesis
    unfolding vbi_reads_def assms(1) vbi_prefix_final [OF assms(3)] by auto
qed

lemma vbi_reads_cont:
  assumes "rest r = b # bs" "i < 4" "\<not> unat b < 128"
  shows "vbi_reads i a m r w r' v \<longleftrightarrow>
    128 \<le> v \<and> v mod 128 = unat b mod 128 \<and>
    vbi_reads (Suc i) (a + (unat b mod 128) * 2 ^ m) (m + 7) (adv 1 r) w r' (v div 128)"
proof (cases "128 \<le> v \<and> v mod 128 = unat b mod 128")
  case True
  have "(128::nat) ^ (4 - i) = 128 ^ (4 - Suc i) * 128"
    using assms(2) by (metis Suc_diff_Suc power_Suc2)
  then have lim: "v < 128 ^ (4 - i) \<longleftrightarrow> v div 128 < 128 ^ (4 - Suc i)"
    by (simp add: div_less_iff_less_mult)
  have "v * 2 ^ m = (unat b mod 128 + v div 128 * 128) * 2 ^ m"
    using True by (metis mod_div_mult_eq)
  also have "\<dots> = (unat b mod 128) * 2 ^ m + v div 128 * 2 ^ (m + 7)"
    by (simp add: add_mult_distrib power_add)
  finally have sum: "a + v * 2 ^ m = a + (unat b mod 128) * 2 ^ m + v div 128 * 2 ^ (m + 7)"
    by (simp only: add.assoc)
  have ad: "adv (length (vbi v)) r = adv (length (vbi (v div 128))) (adv 1 r)"
    using True by (simp add: vbi.simps [of v])
  have "0 < v div 128" "0 < v" using True by (auto simp: div_greater_zero_iff)
  moreover have "(\<exists>xs. rest r = vbi v @ xs) \<longleftrightarrow> (\<exists>xs. rest (adv 1 r) = vbi (v div 128) @ xs)"
    using True vbi_prefix_cont [OF assms(3), of bs v] by (simp add: assms(1))
  ultimately show ?thesis
    unfolding vbi_reads_def lim sum ad using True by simp
next
  case False
  then have "\<nexists>xs. rest r = vbi v @ xs"
    using vbi_prefix_cont [OF assms(3), of bs v] unfolding assms(1) by blast
  with False show ?thesis unfolding vbi_reads_def by blast
qed

lemma varByteInt_loop_iff:
  "varByteInt_loop i a m r = Inr (w, r') \<longleftrightarrow> (\<exists>v. vbi_reads i a m r w r' v)"
proof (induction "4 - i" arbitrary: i a m r)
  case 0
  then show ?case by (simp add: varByteInt_loop.simps [of i] vbi_reads_def)
next
  case (Suc n)
  then have i: "i < 4" by simp
  show ?case
  proof (cases "rest r")
    case Nil
    with i show ?thesis by (simp add: varByteInt_loop.simps [of i] r_byte_eq vbi_reads_def)
  next
    case (Cons b bs)
    show ?thesis
    proof (cases "unat b < 128")
      case True
      then show ?thesis
        using varByteInt_loop_final [OF Cons i True] vbi_reads_final [OF Cons i True] by auto
    next
      case False
      let ?Q = "vbi_reads (Suc i) (a + (unat b mod 128) * 2 ^ m) (m + 7) (adv 1 r) w r'"
      have "(\<exists>v. vbi_reads i a m r w r' v) \<longleftrightarrow> (\<exists>v'. ?Q v')"
      proof
        assume "\<exists>v'. ?Q v'"
        then obtain v' where v': "?Q v'" by blast
        then have "0 < v'" by (simp add: vbi_reads_def)
        with v' have "vbi_reads i a m r w r' (128 * v' + unat b mod 128)"
          unfolding vbi_reads_cont [OF Cons i False] by simp
        then show "\<exists>v. vbi_reads i a m r w r' v" by blast
      qed (use vbi_reads_cont [OF Cons i False] in blast)
      with Suc.hyps(1) [of "Suc i"] Suc.hyps(2) varByteInt_loop_cont [OF Cons i] False
      show ?thesis by (simp add: not_less)
    qed
  qed
qed

lemma varByteInt_loop_err:
  "varByteInt_loop i a m r = Inl e \<Longrightarrow> e = ErrMalformed"
proof (induction i a m r rule: varByteInt_loop.induct)
  case (1 i a m r)
  show ?case
  proof (cases "rest r")
    case Nil
    with 1(2) show ?thesis by (simp add: varByteInt_loop.simps [of i] r_byte_eq split: if_splits)
  next
    case (Cons b bs)
    with 1(2) 1(1) [of "(b, adv 1 r)" b "adv 1 r"] show ?thesis
      by (simp add: varByteInt_loop.simps [of i] r_byte_eq Let_def split: if_splits)
  qed
qed

definition wf_vbi :: "nat \<Rightarrow> bool" where
  "wf_vbi v \<longleftrightarrow> v \<le> MaxVarByteInt"

interpretation c_vbi: wire_codec r_varByteInt "\<lambda>v. w_varByteInt (int v)" wf_vbi
proof (unfold_locales, goal_cases)
  case (1 r v r')
  show ?case
    by (auto simp: r_varByteInt_def varByteInt_loop_iff vbi_reads_def wf_vbi_def MaxVarByteInt_def
        w_varByteInt_eq)
next
  case (2 r e)
  then show ?case by (auto simp: r_varByteInt_def dest: varByteInt_loop_err)
qed

end
