(* ===== verification/Properties.thy ===== *)
theory Properties
  imports Codec
begin

text \<open>
  MQTT v5 properties: \<^verbatim>\<open>src/packet/properties.go\<close>. \<open>properties\<close> is the Go struct field by field
  (an optional scalar, a Go pointer, is an \<open>option\<close>; an absent string or byte slice is the empty
  one). \<open>readProperties\<close> and \<open>readProperty\<close> are the decoder, \<open>props_encode\<close> is the method
  \<^verbatim>\<open>encode\<close>, whose receiver may be \<^verbatim>\<open>nil\<close>.

  The proofs go through the list of the properties a value carries (\<open>items\<close>): encoding writes the
  items that are legal in the packet, in order, and decoding sets them one by one.
\<close>

section \<open>Identifiers and contexts\<close>

abbreviation (input) propPayloadFormat :: nat where "propPayloadFormat \<equiv> 0x01"
abbreviation (input) propMessageExpiry :: nat where "propMessageExpiry \<equiv> 0x02"
abbreviation (input) propContentType :: nat where "propContentType \<equiv> 0x03"
abbreviation (input) propResponseTopic :: nat where "propResponseTopic \<equiv> 0x08"
abbreviation (input) propCorrelationData :: nat where "propCorrelationData \<equiv> 0x09"
abbreviation (input) propSubscriptionID :: nat where "propSubscriptionID \<equiv> 0x0B"
abbreviation (input) propSessionExpiry :: nat where "propSessionExpiry \<equiv> 0x11"
abbreviation (input) propAssignedClientID :: nat where "propAssignedClientID \<equiv> 0x12"
abbreviation (input) propServerKeepAlive :: nat where "propServerKeepAlive \<equiv> 0x13"
abbreviation (input) propAuthMethod :: nat where "propAuthMethod \<equiv> 0x15"
abbreviation (input) propAuthData :: nat where "propAuthData \<equiv> 0x16"
abbreviation (input) propRequestProblemInfo :: nat where "propRequestProblemInfo \<equiv> 0x17"
abbreviation (input) propWillDelayInterval :: nat where "propWillDelayInterval \<equiv> 0x18"
abbreviation (input) propRequestResponse :: nat where "propRequestResponse \<equiv> 0x19"
abbreviation (input) propResponseInfo :: nat where "propResponseInfo \<equiv> 0x1A"
abbreviation (input) propServerReference :: nat where "propServerReference \<equiv> 0x1C"
abbreviation (input) propReasonString :: nat where "propReasonString \<equiv> 0x1F"
abbreviation (input) propReceiveMaximum :: nat where "propReceiveMaximum \<equiv> 0x21"
abbreviation (input) propTopicAliasMaximum :: nat where "propTopicAliasMaximum \<equiv> 0x22"
abbreviation (input) propTopicAlias :: nat where "propTopicAlias \<equiv> 0x23"
abbreviation (input) propMaximumQoS :: nat where "propMaximumQoS \<equiv> 0x24"
abbreviation (input) propRetainAvailable :: nat where "propRetainAvailable \<equiv> 0x25"
abbreviation (input) propUser :: nat where "propUser \<equiv> 0x26"
abbreviation (input) propMaximumPacketSize :: nat where "propMaximumPacketSize \<equiv> 0x27"
abbreviation (input) propWildcardSubAvail :: nat where "propWildcardSubAvail \<equiv> 0x28"
abbreviation (input) propSubIDAvail :: nat where "propSubIDAvail \<equiv> 0x29"
abbreviation (input) propSharedSubAvail :: nat where "propSharedSubAvail \<equiv> 0x2A"

abbreviation (input) willContext :: ptype where "willContext \<equiv> 0"

definition propContexts :: "(nat \<times> ptype list) list" where
  "propContexts = [
    (propPayloadFormat, [PUBLISH, willContext]),
    (propMessageExpiry, [PUBLISH, willContext]),
    (propContentType, [PUBLISH, willContext]),
    (propResponseTopic, [PUBLISH, willContext]),
    (propCorrelationData, [PUBLISH, willContext]),
    (propSubscriptionID, [PUBLISH, SUBSCRIBE]),
    (propSessionExpiry, [CONNECT, CONNACK, DISCONNECT]),
    (propAssignedClientID, [CONNACK]),
    (propServerKeepAlive, [CONNACK]),
    (propAuthMethod, [CONNECT, CONNACK, AUTH]),
    (propAuthData, [CONNECT, CONNACK, AUTH]),
    (propRequestProblemInfo, [CONNECT]),
    (propWillDelayInterval, [willContext]),
    (propRequestResponse, [CONNECT]),
    (propResponseInfo, [CONNACK]),
    (propServerReference, [CONNACK, DISCONNECT]),
    (propReasonString, [CONNACK, PUBACK, PUBREC, PUBREL, PUBCOMP,
       SUBACK, UNSUBACK, DISCONNECT, AUTH]),
    (propReceiveMaximum, [CONNECT, CONNACK]),
    (propTopicAliasMaximum, [CONNECT, CONNACK]),
    (propTopicAlias, [PUBLISH]),
    (propMaximumQoS, [CONNACK]),
    (propRetainAvailable, [CONNACK]),
    (propUser, [CONNECT, CONNACK, PUBLISH, willContext, PUBACK, PUBREC, PUBREL, PUBCOMP,
       SUBSCRIBE, SUBACK, UNSUBSCRIBE, UNSUBACK, DISCONNECT, AUTH]),
    (propMaximumPacketSize, [CONNECT, CONNACK]),
    (propWildcardSubAvail, [CONNACK]),
    (propSubIDAvail, [CONNACK]),
    (propSharedSubAvail, [CONNACK])]"

definition allowedIn :: "nat \<Rightarrow> ptype \<Rightarrow> bool" where
  "allowedIn p t = (case map_of propContexts p of None \<Rightarrow> False | Some cs \<Rightarrow> t \<in> set cs)"

section \<open>The property record\<close>

type_synonym UserProperty = "string \<times> string"

record properties =
  PayloadFormat :: "byte option"
  MessageExpiryInterval :: "u32 option"
  ContentType :: "string"
  ResponseTopic :: "string"
  CorrelationData :: "bytes"
  SubscriptionIdentifiers :: "int list"
  SessionExpiryInterval :: "u32 option"
  AssignedClientID :: "string"
  ServerKeepAlive :: "u16 option"
  AuthenticationMethod :: "string"
  AuthenticationData :: "bytes"
  RequestProblemInfo :: "byte option"
  WillDelayInterval :: "u32 option"
  RequestResponseInfo :: "byte option"
  ResponseInformation :: "string"
  ServerReference :: "string"
  ReasonString :: "string"
  ReceiveMaximum :: "u16 option"
  TopicAliasMaximum :: "u16 option"
  TopicAlias :: "u16 option"
  MaximumQoS :: "byte option"
  RetainAvailable :: "byte option"
  User :: "UserProperty list"
  MaximumPacketSize :: "u32 option"
  WildcardSubAvailable :: "byte option"
  SubIDAvailable :: "byte option"
  SharedSubAvailable :: "byte option"

definition empty_props :: properties where
  "empty_props = \<lparr>
     PayloadFormat = None,
     MessageExpiryInterval = None,
     ContentType = [],
     ResponseTopic = [],
     CorrelationData = [],
     SubscriptionIdentifiers = [],
     SessionExpiryInterval = None,
     AssignedClientID = [],
     ServerKeepAlive = None,
     AuthenticationMethod = [],
     AuthenticationData = [],
     RequestProblemInfo = None,
     WillDelayInterval = None,
     RequestResponseInfo = None,
     ResponseInformation = [],
     ServerReference = [],
     ReasonString = [],
     ReceiveMaximum = None,
     TopicAliasMaximum = None,
     TopicAlias = None,
     MaximumQoS = None,
     RetainAvailable = None,
     User = [],
     MaximumPacketSize = None,
     WildcardSubAvailable = None,
     SubIDAvailable = None,
     SharedSubAvailable = None\<rparr>"

section \<open>Decoding\<close>

definition readProperty :: "reader \<Rightarrow> properties \<Rightarrow> nat \<Rightarrow> (properties \<times> reader) res" where
  "readProperty pr p i =
    (if i = propPayloadFormat then
       rbind (r_byte pr) (\<lambda>(v, pr'). if 1 < v then Inl ErrProtocol else Inr (p\<lparr>PayloadFormat := Some v\<rparr>, pr'))
    else if i = propMessageExpiry then
       rbind (r_uint32 pr) (\<lambda>(v, pr'). Inr (p\<lparr>MessageExpiryInterval := Some v\<rparr>, pr'))
    else if i = propContentType then
       rbind (r_string pr) (\<lambda>(v, pr'). Inr (p\<lparr>ContentType := v\<rparr>, pr'))
    else if i = propResponseTopic then
       rbind (r_string pr) (\<lambda>(v, pr'). Inr (p\<lparr>ResponseTopic := v\<rparr>, pr'))
    else if i = propCorrelationData then
       rbind (r_binary pr) (\<lambda>(v, pr'). Inr (p\<lparr>CorrelationData := v\<rparr>, pr'))
    else if i = propSubscriptionID then
       rbind (r_varByteInt pr) (\<lambda>(v, pr'). if v = 0 then Inl ErrProtocol else Inr (p\<lparr>SubscriptionIdentifiers := SubscriptionIdentifiers p @ [int v]\<rparr>, pr'))
    else if i = propSessionExpiry then
       rbind (r_uint32 pr) (\<lambda>(v, pr'). Inr (p\<lparr>SessionExpiryInterval := Some v\<rparr>, pr'))
    else if i = propAssignedClientID then
       rbind (r_string pr) (\<lambda>(v, pr'). Inr (p\<lparr>AssignedClientID := v\<rparr>, pr'))
    else if i = propServerKeepAlive then
       rbind (r_uint16 pr) (\<lambda>(v, pr'). Inr (p\<lparr>ServerKeepAlive := Some v\<rparr>, pr'))
    else if i = propAuthMethod then
       rbind (r_string pr) (\<lambda>(v, pr'). Inr (p\<lparr>AuthenticationMethod := v\<rparr>, pr'))
    else if i = propAuthData then
       rbind (r_binary pr) (\<lambda>(v, pr'). Inr (p\<lparr>AuthenticationData := v\<rparr>, pr'))
    else if i = propRequestProblemInfo then
       rbind (r_byte pr) (\<lambda>(v, pr'). if 1 < v then Inl ErrProtocol else Inr (p\<lparr>RequestProblemInfo := Some v\<rparr>, pr'))
    else if i = propWillDelayInterval then
       rbind (r_uint32 pr) (\<lambda>(v, pr'). Inr (p\<lparr>WillDelayInterval := Some v\<rparr>, pr'))
    else if i = propRequestResponse then
       rbind (r_byte pr) (\<lambda>(v, pr'). if 1 < v then Inl ErrProtocol else Inr (p\<lparr>RequestResponseInfo := Some v\<rparr>, pr'))
    else if i = propResponseInfo then
       rbind (r_string pr) (\<lambda>(v, pr'). Inr (p\<lparr>ResponseInformation := v\<rparr>, pr'))
    else if i = propServerReference then
       rbind (r_string pr) (\<lambda>(v, pr'). Inr (p\<lparr>ServerReference := v\<rparr>, pr'))
    else if i = propReasonString then
       rbind (r_string pr) (\<lambda>(v, pr'). Inr (p\<lparr>ReasonString := v\<rparr>, pr'))
    else if i = propReceiveMaximum then
       rbind (r_uint16 pr) (\<lambda>(v, pr'). if v = 0 then Inl ErrProtocol else Inr (p\<lparr>ReceiveMaximum := Some v\<rparr>, pr'))
    else if i = propTopicAliasMaximum then
       rbind (r_uint16 pr) (\<lambda>(v, pr'). Inr (p\<lparr>TopicAliasMaximum := Some v\<rparr>, pr'))
    else if i = propTopicAlias then
       rbind (r_uint16 pr) (\<lambda>(v, pr'). if v = 0 then Inl ErrProtocol else Inr (p\<lparr>TopicAlias := Some v\<rparr>, pr'))
    else if i = propMaximumQoS then
       rbind (r_byte pr) (\<lambda>(v, pr'). if 1 < v then Inl ErrProtocol else Inr (p\<lparr>MaximumQoS := Some v\<rparr>, pr'))
    else if i = propRetainAvailable then
       rbind (r_byte pr) (\<lambda>(v, pr'). if 1 < v then Inl ErrProtocol else Inr (p\<lparr>RetainAvailable := Some v\<rparr>, pr'))
    else if i = propUser then
       rbind (r_stringPair pr) (\<lambda>(v, pr'). Inr (p\<lparr>User := User p @ [v]\<rparr>, pr'))
    else if i = propMaximumPacketSize then
       rbind (r_uint32 pr) (\<lambda>(v, pr'). if v = 0 then Inl ErrProtocol else Inr (p\<lparr>MaximumPacketSize := Some v\<rparr>, pr'))
    else if i = propWildcardSubAvail then
       rbind (r_byte pr) (\<lambda>(v, pr'). if 1 < v then Inl ErrProtocol else Inr (p\<lparr>WildcardSubAvailable := Some v\<rparr>, pr'))
    else if i = propSubIDAvail then
       rbind (r_byte pr) (\<lambda>(v, pr'). if 1 < v then Inl ErrProtocol else Inr (p\<lparr>SubIDAvailable := Some v\<rparr>, pr'))
    else if i = propSharedSubAvail then
       rbind (r_byte pr) (\<lambda>(v, pr'). if 1 < v then Inl ErrProtocol else Inr (p\<lparr>SharedSubAvailable := Some v\<rparr>, pr'))
     else Inl ErrMalformed)"

text \<open>Every property read moves the reader forward, so the loop over the property bytes ends.\<close>

lemma r_varByteInt_less:
  assumes "\<not> r_empty pr" "r_varByteInt pr = Inr (v, pr')"
  shows "length (rest pr') < length (rest pr)" "rd_ok pr'"
proof -
  have ok: "rd_ok pr" using assms(1) by (simp add: r_empty_def rd_ok_def)
  have "rest pr = w_varByteInt (int v) @ rest pr'" "rd_ok pr'"
    using c_vbi.dec_ok [OF ok assms(2)] by blast+
  then show "length (rest pr') < length (rest pr)" "rd_ok pr'"
    by (simp_all add: w_varByteInt_eq)
qed

lemma wire_rest_le:
  assumes "wire_codec dec enc dm" "rd_ok r" "dec r = Inr (v, r')"
  shows "length (rest r') \<le> length (rest r)"
  using wire_codec.dec_ok [OF assms] by (metis length_append le_add2)

lemmas field_rest_le =
  wire_rest_le [OF c_byte.wire_codec_axioms] wire_rest_le [OF c_uint16.wire_codec_axioms]
  wire_rest_le [OF c_uint32.wire_codec_axioms] wire_rest_le [OF c_vbi.wire_codec_axioms]
  wire_rest_le [OF c_string.wire_codec_axioms] wire_rest_le [OF c_binary.wire_codec_axioms]
  wire_rest_le [OF c_pair.wire_codec_axioms]

lemma readProperty_rest_le:
  assumes ok: "rd_ok pr" and r: "readProperty pr p i = Inr (p', pr')"
  shows "length (rest pr') \<le> length (rest pr)"
  using r unfolding readProperty_def
  by (auto simp: rbind_Inr_iff split: if_splits intro: field_rest_le [OF ok])

function readProps_loop :: "ptype \<Rightarrow> reader \<Rightarrow> properties \<Rightarrow> nat set \<Rightarrow> properties res" where
  "readProps_loop ctx pr p seen =
    (if r_empty pr then Inr p
     else
       rbind (r_varByteInt pr) (\<lambda>(raw, pr1).
       if \<not> allowedIn raw ctx then Inl ErrMalformed
       else if raw \<in> seen \<and> \<not> (raw = propUser \<or> (raw = propSubscriptionID \<and> ctx = PUBLISH))
       then Inl ErrProtocol
       else
         rbind (readProperty pr1 p raw) (\<lambda>(p', pr2).
         readProps_loop ctx pr2 p' (insert raw seen))))"
  by pat_completeness auto
termination
proof (relation "measure (\<lambda>(_, pr, _, _). length (rest pr))", goal_cases)
  case (2 ctx pr p seen x raw pr1 y p' pr2)
  then have "length (rest pr1) < length (rest pr)" "rd_ok pr1"
    using r_varByteInt_less by blast+
  with 2 readProperty_rest_le [of pr1 p raw p' pr2] show ?case by simp
qed simp

declare readProps_loop.simps [simp del]

definition readProperties :: "reader \<Rightarrow> ptype \<Rightarrow> (properties \<times> reader) res" where
  "readProperties r ctx =
    rbind (r_varByteInt r) (\<lambda>(n, r1).
    if remaining r1 < int n then Inl ErrMalformed
    else if n = 0 then Inr (empty_props, r1)
    else
      rbind (go_slice (buf r1) (pos r1) (pos r1 + n)) (\<lambda>b.
      rbind (readProps_loop ctx (new_reader b) empty_props {}) (\<lambda>p.
      Inr (p, adv n r1))))"

section \<open>Encoding\<close>

definition put :: "ptype \<Rightarrow> nat \<Rightarrow> bytes \<Rightarrow> bytes res" where
  "put ctx i b = Inr (if allowedIn i ctx then w_byte (of_nat i) @ b else [])"

definition put_opt :: "ptype \<Rightarrow> nat \<Rightarrow> ('a \<Rightarrow> bytes) \<Rightarrow> 'a option \<Rightarrow> bytes res" where
  "put_opt ctx i enc x = (case x of None \<Rightarrow> Inr [] | Some v \<Rightarrow> put ctx i (enc v))"

definition put_string :: "ptype \<Rightarrow> nat \<Rightarrow> string \<Rightarrow> bytes res" where
  "put_string ctx i s =
    (if s \<noteq> [] then rbind (checkStringLen s) (\<lambda>_. put ctx i (w_string s)) else Inr [])"

definition put_binary :: "ptype \<Rightarrow> nat \<Rightarrow> bytes \<Rightarrow> bytes res" where
  "put_binary ctx i b =
    (if 0 < length b then rbind (checkBinaryLen b) (\<lambda>_. put ctx i (w_binary b)) else Inr [])"

definition put_subid :: "ptype \<Rightarrow> int \<Rightarrow> bytes res" where
  "put_subid ctx v =
    (if v < 1 \<or> int MaxVarByteInt < v then Inl ErrProtocol
     else put ctx propSubscriptionID (w_varByteInt v))"

definition put_user :: "ptype \<Rightarrow> UserProperty \<Rightarrow> bytes res" where
  "put_user ctx up =
    rbind (checkStringLen (fst up)) (\<lambda>_.
    rbind (checkStringLen (snd up)) (\<lambda>_.
    put ctx propUser (w_stringPair (fst up) (snd up))))"

definition props_body :: "properties \<Rightarrow> ptype \<Rightarrow> bytes res" where
  "props_body p ctx = cat_res (
     [put_opt ctx propPayloadFormat w_byte (PayloadFormat p),
      put_opt ctx propMessageExpiry w_uint32 (MessageExpiryInterval p),
      put_string ctx propContentType (ContentType p),
      put_string ctx propResponseTopic (ResponseTopic p),
      put_binary ctx propCorrelationData (CorrelationData p)] @
     map (put_subid ctx) (SubscriptionIdentifiers p) @
     [put_opt ctx propSessionExpiry w_uint32 (SessionExpiryInterval p),
      put_string ctx propAssignedClientID (AssignedClientID p),
      put_opt ctx propServerKeepAlive w_uint16 (ServerKeepAlive p),
      put_string ctx propAuthMethod (AuthenticationMethod p),
      put_binary ctx propAuthData (AuthenticationData p),
      put_opt ctx propRequestProblemInfo w_byte (RequestProblemInfo p),
      put_opt ctx propWillDelayInterval w_uint32 (WillDelayInterval p),
      put_opt ctx propRequestResponse w_byte (RequestResponseInfo p),
      put_string ctx propResponseInfo (ResponseInformation p),
      put_string ctx propServerReference (ServerReference p),
      put_string ctx propReasonString (ReasonString p),
      put_opt ctx propReceiveMaximum w_uint16 (ReceiveMaximum p),
      put_opt ctx propTopicAliasMaximum w_uint16 (TopicAliasMaximum p),
      put_opt ctx propTopicAlias w_uint16 (TopicAlias p),
      put_opt ctx propMaximumQoS w_byte (MaximumQoS p),
      put_opt ctx propRetainAvailable w_byte (RetainAvailable p)] @
     map (put_user ctx) (User p) @
     [put_opt ctx propMaximumPacketSize w_uint32 (MaximumPacketSize p),
      put_opt ctx propWildcardSubAvail w_byte (WildcardSubAvailable p),
      put_opt ctx propSubIDAvail w_byte (SubIDAvailable p),
      put_opt ctx propSharedSubAvail w_byte (SharedSubAvailable p)])"

definition props_encode :: "properties option \<Rightarrow> ptype \<Rightarrow> bytes res" where
  "props_encode po ctx =
    (case po of
       None \<Rightarrow> Inr (w_varByteInt 0)
     | Some p \<Rightarrow>
         rbind (props_body p ctx) (\<lambda>b. Inr (w_varByteInt (int (length b)) @ b)))"
section \<open>Properties as a list of items\<close>

datatype pkind = KByte | KU16 | KU32 | KVbi | KStr | KBin | KPair

datatype pval = PByte byte | PU16 u16 | PU32 u32 | PVbi nat | PStr string | PBin bytes | PPair UserProperty

fun kind_of :: "pval \<Rightarrow> pkind" where
  "kind_of (PByte _) = KByte"
| "kind_of (PU16 _) = KU16"
| "kind_of (PU32 _) = KU32"
| "kind_of (PVbi _) = KVbi"
| "kind_of (PStr _) = KStr"
| "kind_of (PBin _) = KBin"
| "kind_of (PPair _) = KPair"

fun enc_pval :: "pval \<Rightarrow> bytes" where
  "enc_pval (PByte v) = w_byte v"
| "enc_pval (PU16 v) = w_uint16 v"
| "enc_pval (PU32 v) = w_uint32 v"
| "enc_pval (PVbi v) = w_varByteInt (int v)"
| "enc_pval (PStr v) = w_string v"
| "enc_pval (PBin v) = w_binary v"
| "enc_pval (PPair v) = w_stringPair (fst v) (snd v)"

fun wf_pval :: "pval \<Rightarrow> bool" where
  "wf_pval (PVbi v) = wf_vbi v"
| "wf_pval (PStr v) = wf_string v"
| "wf_pval (PBin v) = wf_binary v"
| "wf_pval (PPair v) = wf_pair v"
| "wf_pval _ = True"

definition tag :: "('a \<Rightarrow> pval) \<Rightarrow> ('a \<times> reader) res \<Rightarrow> (pval \<times> reader) res" where
  "tag c m = rbind m (\<lambda>(v, r). Inr (c v, r))"

fun rd_pval :: "pkind \<Rightarrow> reader \<Rightarrow> (pval \<times> reader) res" where
  "rd_pval KByte r = tag PByte (r_byte r)"
| "rd_pval KU16 r = tag PU16 (r_uint16 r)"
| "rd_pval KU32 r = tag PU32 (r_uint32 r)"
| "rd_pval KVbi r = tag PVbi (r_varByteInt r)"
| "rd_pval KStr r = tag PStr (r_string r)"
| "rd_pval KBin r = tag PBin (r_binary r)"
| "rd_pval KPair r = tag PPair (r_stringPair r)"

definition prop_kinds :: "(nat \<times> pkind) list" where
  "prop_kinds = [
    (propPayloadFormat, KByte), (propMessageExpiry, KU32), (propContentType, KStr),
    (propResponseTopic, KStr), (propCorrelationData, KBin), (propSubscriptionID, KVbi),
    (propSessionExpiry, KU32), (propAssignedClientID, KStr), (propServerKeepAlive, KU16),
    (propAuthMethod, KStr), (propAuthData, KBin), (propRequestProblemInfo, KByte),
    (propWillDelayInterval, KU32), (propRequestResponse, KByte), (propResponseInfo, KStr),
    (propServerReference, KStr), (propReasonString, KStr), (propReceiveMaximum, KU16),
    (propTopicAliasMaximum, KU16), (propTopicAlias, KU16), (propMaximumQoS, KByte),
    (propRetainAvailable, KByte), (propUser, KPair), (propMaximumPacketSize, KU32),
    (propWildcardSubAvail, KByte), (propSubIDAvail, KByte), (propSharedSubAvail, KByte)]"

definition ok_val :: "nat \<Rightarrow> pval \<Rightarrow> bool" where
  "ok_val i v = (case v of
      PByte b \<Rightarrow> i \<in> {propPayloadFormat, propRequestProblemInfo, propRequestResponse, propMaximumQoS,
        propRetainAvailable, propWildcardSubAvail, propSubIDAvail, propSharedSubAvail} \<longrightarrow> b \<le> 1
    | PU16 h \<Rightarrow> i \<in> {propReceiveMaximum, propTopicAlias} \<longrightarrow> h \<noteq> 0
    | PU32 w \<Rightarrow> i = propMaximumPacketSize \<longrightarrow> w \<noteq> 0
    | PVbi n \<Rightarrow> n \<noteq> 0
    | _ \<Rightarrow> True)"

definition set_prop :: "nat \<Rightarrow> pval \<Rightarrow> properties \<Rightarrow> properties" where
  "set_prop i v p = (case v of
      PByte b \<Rightarrow>
        if i = propPayloadFormat then p\<lparr>PayloadFormat := Some b\<rparr>
        else if i = propRequestProblemInfo then p\<lparr>RequestProblemInfo := Some b\<rparr>
        else if i = propRequestResponse then p\<lparr>RequestResponseInfo := Some b\<rparr>
        else if i = propMaximumQoS then p\<lparr>MaximumQoS := Some b\<rparr>
        else if i = propRetainAvailable then p\<lparr>RetainAvailable := Some b\<rparr>
        else if i = propWildcardSubAvail then p\<lparr>WildcardSubAvailable := Some b\<rparr>
        else if i = propSubIDAvail then p\<lparr>SubIDAvailable := Some b\<rparr>
        else if i = propSharedSubAvail then p\<lparr>SharedSubAvailable := Some b\<rparr>
        else p
    | PU16 h \<Rightarrow>
        if i = propServerKeepAlive then p\<lparr>ServerKeepAlive := Some h\<rparr>
        else if i = propReceiveMaximum then p\<lparr>ReceiveMaximum := Some h\<rparr>
        else if i = propTopicAliasMaximum then p\<lparr>TopicAliasMaximum := Some h\<rparr>
        else if i = propTopicAlias then p\<lparr>TopicAlias := Some h\<rparr>
        else p
    | PU32 w \<Rightarrow>
        if i = propMessageExpiry then p\<lparr>MessageExpiryInterval := Some w\<rparr>
        else if i = propSessionExpiry then p\<lparr>SessionExpiryInterval := Some w\<rparr>
        else if i = propWillDelayInterval then p\<lparr>WillDelayInterval := Some w\<rparr>
        else if i = propMaximumPacketSize then p\<lparr>MaximumPacketSize := Some w\<rparr>
        else p
    | PVbi n \<Rightarrow>
        if i = propSubscriptionID then p\<lparr>SubscriptionIdentifiers := SubscriptionIdentifiers p @ [int n]\<rparr>
        else p
    | PStr s \<Rightarrow>
        if i = propContentType then p\<lparr>ContentType := s\<rparr>
        else if i = propResponseTopic then p\<lparr>ResponseTopic := s\<rparr>
        else if i = propAssignedClientID then p\<lparr>AssignedClientID := s\<rparr>
        else if i = propAuthMethod then p\<lparr>AuthenticationMethod := s\<rparr>
        else if i = propResponseInfo then p\<lparr>ResponseInformation := s\<rparr>
        else if i = propServerReference then p\<lparr>ServerReference := s\<rparr>
        else if i = propReasonString then p\<lparr>ReasonString := s\<rparr>
        else p
    | PBin d \<Rightarrow>
        if i = propCorrelationData then p\<lparr>CorrelationData := d\<rparr>
        else if i = propAuthData then p\<lparr>AuthenticationData := d\<rparr>
        else p
    | PPair u \<Rightarrow>
        if i = propUser then p\<lparr>User := User p @ [u]\<rparr>
        else p
    )"

definition opt_item :: "nat \<Rightarrow> ('a \<Rightarrow> pval) \<Rightarrow> 'a option \<Rightarrow> (nat \<times> pval) list" where
  "opt_item i c x = (case x of None \<Rightarrow> [] | Some v \<Rightarrow> [(i, c v)])"

definition seq_item :: "nat \<Rightarrow> ('a list \<Rightarrow> pval) \<Rightarrow> 'a list \<Rightarrow> (nat \<times> pval) list" where
  "seq_item i c x = (if x = [] then [] else [(i, c x)])"

definition items :: "properties \<Rightarrow> (nat \<times> pval) list" where
  "items p =
     opt_item propPayloadFormat PByte (PayloadFormat p) @
     opt_item propMessageExpiry PU32 (MessageExpiryInterval p) @
     seq_item propContentType PStr (ContentType p) @
     seq_item propResponseTopic PStr (ResponseTopic p) @
     seq_item propCorrelationData PBin (CorrelationData p) @
     map (\<lambda>n. (propSubscriptionID, PVbi (nat n))) (SubscriptionIdentifiers p) @
     opt_item propSessionExpiry PU32 (SessionExpiryInterval p) @
     seq_item propAssignedClientID PStr (AssignedClientID p) @
     opt_item propServerKeepAlive PU16 (ServerKeepAlive p) @
     seq_item propAuthMethod PStr (AuthenticationMethod p) @
     seq_item propAuthData PBin (AuthenticationData p) @
     opt_item propRequestProblemInfo PByte (RequestProblemInfo p) @
     opt_item propWillDelayInterval PU32 (WillDelayInterval p) @
     opt_item propRequestResponse PByte (RequestResponseInfo p) @
     seq_item propResponseInfo PStr (ResponseInformation p) @
     seq_item propServerReference PStr (ServerReference p) @
     seq_item propReasonString PStr (ReasonString p) @
     opt_item propReceiveMaximum PU16 (ReceiveMaximum p) @
     opt_item propTopicAliasMaximum PU16 (TopicAliasMaximum p) @
     opt_item propTopicAlias PU16 (TopicAlias p) @
     opt_item propMaximumQoS PByte (MaximumQoS p) @
     opt_item propRetainAvailable PByte (RetainAvailable p) @
     map (\<lambda>u. (propUser, PPair u)) (User p) @
     opt_item propMaximumPacketSize PU32 (MaximumPacketSize p) @
     opt_item propWildcardSubAvail PByte (WildcardSubAvailable p) @
     opt_item propSubIDAvail PByte (SubIDAvailable p) @
     opt_item propSharedSubAvail PByte (SharedSubAvailable p)"

text \<open>What survives encoding for a packet type: the fields legal in it.\<close>

definition props_restrict :: "ptype \<Rightarrow> properties \<Rightarrow> properties" where
  "props_restrict ctx p = \<lparr>
     PayloadFormat = (if allowedIn propPayloadFormat ctx then PayloadFormat p else None),
     MessageExpiryInterval = (if allowedIn propMessageExpiry ctx then MessageExpiryInterval p else None),
     ContentType = (if allowedIn propContentType ctx then ContentType p else []),
     ResponseTopic = (if allowedIn propResponseTopic ctx then ResponseTopic p else []),
     CorrelationData = (if allowedIn propCorrelationData ctx then CorrelationData p else []),
     SubscriptionIdentifiers = (if allowedIn propSubscriptionID ctx then SubscriptionIdentifiers p else []),
     SessionExpiryInterval = (if allowedIn propSessionExpiry ctx then SessionExpiryInterval p else None),
     AssignedClientID = (if allowedIn propAssignedClientID ctx then AssignedClientID p else []),
     ServerKeepAlive = (if allowedIn propServerKeepAlive ctx then ServerKeepAlive p else None),
     AuthenticationMethod = (if allowedIn propAuthMethod ctx then AuthenticationMethod p else []),
     AuthenticationData = (if allowedIn propAuthData ctx then AuthenticationData p else []),
     RequestProblemInfo = (if allowedIn propRequestProblemInfo ctx then RequestProblemInfo p else None),
     WillDelayInterval = (if allowedIn propWillDelayInterval ctx then WillDelayInterval p else None),
     RequestResponseInfo = (if allowedIn propRequestResponse ctx then RequestResponseInfo p else None),
     ResponseInformation = (if allowedIn propResponseInfo ctx then ResponseInformation p else []),
     ServerReference = (if allowedIn propServerReference ctx then ServerReference p else []),
     ReasonString = (if allowedIn propReasonString ctx then ReasonString p else []),
     ReceiveMaximum = (if allowedIn propReceiveMaximum ctx then ReceiveMaximum p else None),
     TopicAliasMaximum = (if allowedIn propTopicAliasMaximum ctx then TopicAliasMaximum p else None),
     TopicAlias = (if allowedIn propTopicAlias ctx then TopicAlias p else None),
     MaximumQoS = (if allowedIn propMaximumQoS ctx then MaximumQoS p else None),
     RetainAvailable = (if allowedIn propRetainAvailable ctx then RetainAvailable p else None),
     User = (if allowedIn propUser ctx then User p else []),
     MaximumPacketSize = (if allowedIn propMaximumPacketSize ctx then MaximumPacketSize p else None),
     WildcardSubAvailable = (if allowedIn propWildcardSubAvail ctx then WildcardSubAvailable p else None),
     SubIDAvailable = (if allowedIn propSubIDAvail ctx then SubIDAvailable p else None),
     SharedSubAvailable = (if allowedIn propSharedSubAvail ctx then SharedSubAvailable p else None)\<rparr>"
section \<open>One property\<close>

lemma tag_codec:
  assumes "wire_codec dec enc dm" "inj c"
    and "\<And>v. enc' (c v) = enc v" "\<And>v. dm' (c v) = dm v" "\<And>w. dm' w \<Longrightarrow> \<exists>v. w = c v"
  shows "wire_codec (\<lambda>r. tag c (dec r)) enc' dm'"
proof (unfold_locales, goal_cases)
  case (1 r w r')
  have "tag c (dec r) = Inr (w, r') \<longleftrightarrow> (\<exists>v. w = c v \<and> dec r = Inr (v, r'))"
    by (auto simp: tag_def rbind_Inr_iff)
  also have "\<dots> \<longleftrightarrow> (\<exists>v. w = c v \<and> dm v \<and> (\<exists>xs. rest r = enc v @ xs) \<and> r' = adv (length (enc v)) r)"
    using wire_codec.dec_iff [OF assms(1) 1] by blast
  also have "\<dots> \<longleftrightarrow> dm' w \<and> (\<exists>xs. rest r = enc' w @ xs) \<and> r' = adv (length (enc' w)) r"
    using assms(3-5) by metis
  finally show ?case .
next
  case (2 r e)
  then show ?case
    using wire_codec.dec_err [OF assms(1)] by (auto simp: tag_def rbind_Inl_iff)
qed

lemma kind_of_exhaust:
  "kind_of v = KByte \<Longrightarrow> \<exists>x. v = PByte x" "kind_of v = KU16 \<Longrightarrow> \<exists>x. v = PU16 x"
  "kind_of v = KU32 \<Longrightarrow> \<exists>x. v = PU32 x" "kind_of v = KVbi \<Longrightarrow> \<exists>x. v = PVbi x"
  "kind_of v = KStr \<Longrightarrow> \<exists>x. v = PStr x" "kind_of v = KBin \<Longrightarrow> \<exists>x. v = PBin x"
  "kind_of v = KPair \<Longrightarrow> \<exists>x. v = PPair x"
  by (cases v; simp)+

lemma rd_pval_fun:
  "rd_pval KByte = (\<lambda>r. tag PByte (r_byte r))" "rd_pval KU16 = (\<lambda>r. tag PU16 (r_uint16 r))"
  "rd_pval KU32 = (\<lambda>r. tag PU32 (r_uint32 r))" "rd_pval KVbi = (\<lambda>r. tag PVbi (r_varByteInt r))"
  "rd_pval KStr = (\<lambda>r. tag PStr (r_string r))" "rd_pval KBin = (\<lambda>r. tag PBin (r_binary r))"
  "rd_pval KPair = (\<lambda>r. tag PPair (r_stringPair r))"
  by (rule ext, simp)+

lemmas pval_codecs =
  tag_codec [OF c_byte.wire_codec_axioms] tag_codec [OF c_uint16.wire_codec_axioms]
  tag_codec [OF c_uint32.wire_codec_axioms] tag_codec [OF c_vbi.wire_codec_axioms]
  tag_codec [OF c_string.wire_codec_axioms] tag_codec [OF c_binary.wire_codec_axioms]
  tag_codec [OF c_pair.wire_codec_axioms]

lemma rd_pval_codec: "wire_codec (rd_pval k) enc_pval (\<lambda>v. kind_of v = k \<and> wf_pval v)"
  by (cases k; simp only: rd_pval_fun; rule pval_codecs)
     (auto intro: injI dest: kind_of_exhaust simp: case_prod_beta)

interpretation c_pval: wire_codec "rd_pval k" enc_pval "\<lambda>v. kind_of v = k \<and> wf_pval v" for k
  by (rule rd_pval_codec)

lemma tag_bind: "rbind (tag c m) f = rbind m (\<lambda>(v, r). f (c v, r))"
  by (cases m) (auto simp: tag_def)

text \<open>\<^verbatim>\<open>readProperty\<close> reads a value of the property's type, checks its range and stores it.\<close>

lemma readProperty_eq:
  assumes "map_of prop_kinds i = Some k"
  shows "readProperty pr p i =
    rbind (rd_pval k pr) (\<lambda>(v, pr'). if ok_val i v then Inr (set_prop i v p, pr') else Inl ErrProtocol)"
proof -
  have "(i, k) \<in> set prop_kinds" using assms by (rule map_of_SomeD)
  then show ?thesis
    unfolding prop_kinds_def
    by (elim set_ConsD [THEN disjE]; clarsimp simp: readProperty_def tag_bind;
        intro rbind_cong [OF refl]; auto simp: ok_val_def set_prop_def not_less dest: leD)
qed

section \<open>The property loop\<close>

definition enc_item :: "nat \<times> pval \<Rightarrow> bytes" where
  "enc_item = (\<lambda>(i, v). w_byte (of_nat i) @ enc_pval v)"

definition item_ok :: "ptype \<Rightarrow> nat \<times> pval \<Rightarrow> bool" where
  "item_ok ctx = (\<lambda>(i, v).
    allowedIn i ctx \<and> map_of prop_kinds i = Some (kind_of v) \<and> wf_pval v \<and> ok_val i v)"

definition repeatable :: "ptype \<Rightarrow> nat \<Rightarrow> bool" where
  "repeatable ctx i \<longleftrightarrow> i = propUser \<or> (i = propSubscriptionID \<and> ctx = PUBLISH)"

fun fresh :: "ptype \<Rightarrow> nat set \<Rightarrow> (nat \<times> pval) list \<Rightarrow> bool" where
  "fresh ctx seen [] = True"
| "fresh ctx seen ((i, v) # xs) = ((i \<in> seen \<longrightarrow> repeatable ctx i) \<and> fresh ctx (insert i seen) xs)"

abbreviation set_props :: "(nat \<times> pval) list \<Rightarrow> properties \<Rightarrow> properties" where
  "set_props \<equiv> fold (\<lambda>(i, v). set_prop i v)"

lemma allowedIn_kind: "allowedIn i ctx \<Longrightarrow> i < 128 \<and> (\<exists>k. map_of prop_kinds i = Some k)"
proof -
  assume "allowedIn i ctx"
  then have "i \<in> fst ` set propContexts"
    by (auto simp: allowedIn_def split: option.splits dest!: map_of_SomeD intro: rev_image_eqI)
  then show ?thesis
    by (auto simp: propContexts_def prop_kinds_def)
qed

lemma w_varByteInt_byte: "i < 128 \<Longrightarrow> w_varByteInt (int i) = w_byte (of_nat i)"
  by (simp add: w_varByteInt_eq vbi.simps w_byte_def)

lemma loop_read_iff:
  assumes "rd_ok pr" "allowedIn i ctx"
  shows "(\<exists>pr1. r_varByteInt pr = Inr (i, pr1) \<and> readProperty pr1 p i = Inr (p', pr2)) \<longleftrightarrow>
    (\<exists>v xs. item_ok ctx (i, v) \<and> rest pr = enc_item (i, v) @ xs \<and>
       pr2 = adv (length (enc_item (i, v))) pr \<and> p' = set_prop i v p)"
proof -
  obtain k where i: "i < 128" and k: "map_of prop_kinds i = Some k"
    using allowedIn_kind [OF assms(2)] by blast
  have 1: "r_varByteInt pr = Inr (i, pr1) \<longleftrightarrow>
      (\<exists>xs. rest pr = w_byte (of_nat i) @ xs) \<and> pr1 = adv 1 pr" for pr1
    using c_vbi.dec_iff [OF assms(1), of i pr1] i
    by (auto simp: w_varByteInt_byte wf_vbi_def MaxVarByteInt_def)
  have 2: "readProperty (adv 1 pr) p i = Inr (p', pr2) \<longleftrightarrow>
      (\<exists>v. kind_of v = k \<and> wf_pval v \<and> ok_val i v \<and> (\<exists>xs. rest (adv 1 pr) = enc_pval v @ xs) \<and>
        pr2 = adv (length (enc_pval v)) (adv 1 pr) \<and> p' = set_prop i v p)"
    if "rd_ok (adv 1 pr)"
    unfolding readProperty_eq [OF k] rbind_Inr_iff
    using c_pval.dec_iff [OF that, of k] by (auto split: if_splits)
  show ?thesis
  proof (cases "rest pr")
    case Nil
    then show ?thesis by (simp add: 1 enc_item_def w_byte_def)
  next
    case (Cons b bs)
    then have "rd_ok (adv 1 pr)" using assms(1) by (simp add: rd_ok_adv)
    from 2 [OF this] show ?thesis
      using assms(2) k by (auto simp: 1 Cons enc_item_def item_ok_def w_byte_def)
  qed
qed

text \<open>The loop accepts exactly the concatenations of legal items without forbidden repetition, and
  stores them in order.\<close>

lemma readProps_loop_items:
  assumes "rd_ok pr" "rest pr = concat (map enc_item xs)" "\<forall>x \<in> set xs. item_ok ctx x"
    and "fresh ctx seen xs"
  shows "readProps_loop ctx pr p seen = Inr (set_props xs p)"
  using assms
proof (induction xs arbitrary: pr p seen)
  case Nil
  then show ?case by (simp add: readProps_loop.simps r_empty_iff)
next
  case (Cons x xs)
  obtain i v where x: "x = (i, v)" by (cases x)
  let ?n = "length (enc_item (i, v))"
  have al: "allowedIn i ctx" using Cons.prems(3) by (simp add: x item_ok_def)
  have rest: "rest pr = enc_item (i, v) @ concat (map enc_item xs)" using Cons.prems(2) by (simp add: x)
  then obtain pr1 where "r_varByteInt pr = Inr (i, pr1)"
    and "readProperty pr1 p i = Inr (set_prop i v p, adv ?n pr)"
    using loop_read_iff [OF Cons.prems(1) al, of p "set_prop i v p" "adv ?n pr"] Cons.prems(3)
    by (auto simp: x)
  moreover have "readProps_loop ctx (adv ?n pr) (set_prop i v p) (insert i seen) =
      Inr (set_props xs (set_prop i v p))"
    by (rule Cons.IH) (use Cons.prems rest in \<open>auto simp: x intro: rd_ok_adv\<close>)
  moreover have "\<not> r_empty pr" using rest by (simp add: r_empty_iff enc_item_def w_byte_def)
  ultimately show ?case
    using al Cons.prems(4) by (simp add: readProps_loop.simps [of ctx pr] x repeatable_def)
qed

lemma readProps_loop_step:
  assumes "readProps_loop ctx pr p seen = Inr q" "\<not> r_empty pr"
  obtains raw pr1 p' pr2 where "r_varByteInt pr = Inr (raw, pr1)" "allowedIn raw ctx"
    "raw \<in> seen \<longrightarrow> repeatable ctx raw" "readProperty pr1 p raw = Inr (p', pr2)"
    "readProps_loop ctx pr2 p' (insert raw seen) = Inr q"
  using assms
  by (auto simp: readProps_loop.simps [of ctx pr] rbind_Inr_iff repeatable_def split: if_splits)

lemma readProps_loop_sound:
  assumes "rd_ok pr" "readProps_loop ctx pr p seen = Inr q"
  shows "\<exists>xs. rest pr = concat (map enc_item xs) \<and> (\<forall>x \<in> set xs. item_ok ctx x) \<and>
    fresh ctx seen xs \<and> q = set_props xs p"
  using assms
proof (induction "length (rest pr)" arbitrary: pr p seen rule: less_induct)
  case less
  show ?case
  proof (cases "r_empty pr")
    case True
    with less.prems show ?thesis
      by (intro exI [of _ "[]"]) (simp add: readProps_loop.simps [of ctx pr] r_empty_iff)
  next
    case False
    from readProps_loop_step [OF less.prems(2) False] obtain raw pr1 p' pr2
      where raw: "r_varByteInt pr = Inr (raw, pr1)" and al: "allowedIn raw ctx"
        and seen: "raw \<in> seen \<longrightarrow> repeatable ctx raw"
        and rp: "readProperty pr1 p raw = Inr (p', pr2)"
        and loop: "readProps_loop ctx pr2 p' (insert raw seen) = Inr q" .
    from loop_read_iff [OF less.prems(1) al, of p p' pr2] raw rp
    obtain v ys where v: "item_ok ctx (raw, v)" "rest pr = enc_item (raw, v) @ ys"
      "pr2 = adv (length (enc_item (raw, v))) pr" "p' = set_prop raw v p" by blast
    then have rest2: "rest pr2 = ys" by simp
    have "rd_ok pr2" using v less.prems(1) by (simp add: rd_ok_adv)
    moreover have "length (rest pr2) < length (rest pr)" using v(2) rest2 by (simp add: enc_item_def)
    ultimately obtain xs where xs: "ys = concat (map enc_item xs)" "\<forall>x \<in> set xs. item_ok ctx x"
      "fresh ctx (insert raw seen) xs" "q = set_props xs p'"
      using less.hyps [OF _ _ loop] rest2 by blast
    have "rest pr = concat (map enc_item ((raw, v) # xs))" using v(2) xs(1) by simp
    moreover have "\<forall>x \<in> set ((raw, v) # xs). item_ok ctx x" using v(1) xs(2) by simp
    moreover have "fresh ctx seen ((raw, v) # xs)" using seen xs(3) by simp
    moreover have "q = set_props ((raw, v) # xs) p" using v(4) xs(4) by simp
    ultimately show ?thesis by blast
  qed
qed

lemma readProperty_err:
  assumes "rd_ok pr" "readProperty pr p i = Inl e" "map_of prop_kinds i = Some k"
  shows "decode_error e"
  using assms c_pval.dec_err [OF assms(1), of k] unfolding readProperty_eq [OF assms(3)]
  by (auto simp: rbind_Inl_iff split: if_splits)

lemma readProps_loop_err:
  assumes "rd_ok pr" "readProps_loop ctx pr p seen = Inl e"
  shows "decode_error e"
  using assms
proof (induction ctx pr p seen rule: readProps_loop.induct)
  case (1 ctx pr p seen)
  from 1(3) have ne: "\<not> r_empty pr" by (auto simp: readProps_loop.simps [of ctx pr])
  show ?case
  proof (cases "r_varByteInt pr")
    case (Inl e')
    with 1(3) ne c_vbi.dec_err [OF 1(2)] show ?thesis by (simp add: readProps_loop.simps [of ctx pr])
  next
    case (Inr a)
    then obtain raw pr1 where raw: "r_varByteInt pr = Inr (raw, pr1)" by (cases a) auto
    have ok1: "rd_ok pr1" using r_varByteInt_less [OF ne raw] by blast
    show ?thesis
    proof (cases "allowedIn raw ctx \<and> (raw \<in> seen \<longrightarrow> repeatable ctx raw)")
      case False
      with 1(3) ne raw show ?thesis
        by (auto simp: readProps_loop.simps [of ctx pr] repeatable_def split: if_splits)
    next
      case True
      then obtain k where k: "map_of prop_kinds raw = Some k" using allowedIn_kind by blast
      show ?thesis
      proof (cases "readProperty pr1 p raw")
        case (Inl e')
        with 1(3) ne raw True readProperty_err [OF ok1 Inl k] show ?thesis
          by (simp add: readProps_loop.simps [of ctx pr] repeatable_def split: if_splits)
      next
        case (Inr b)
        then obtain p' pr2 where b: "readProperty pr1 p raw = Inr (p', pr2)" by (cases b) auto
        with loop_read_iff [OF 1(2), of raw ctx p p' pr2] raw True obtain v ys
          where "rest pr = enc_item (raw, v) @ ys" "pr2 = adv (length (enc_item (raw, v))) pr" by blast
        then have "rd_ok pr2" using 1(2) by (simp add: rd_ok_adv)
        moreover have "readProps_loop ctx pr2 p' (insert raw seen) = Inl e"
          using 1(3) ne raw True b by (simp add: readProps_loop.simps [of ctx pr] repeatable_def split: if_splits)
        ultimately show ?thesis
          using 1(1) [OF ne raw refl _ _ b refl] True by (simp add: repeatable_def)
      qed
    qed
  qed
qed

definition enc_items :: "(nat \<times> pval) list \<Rightarrow> bytes" where
  "enc_items xs = concat (map enc_item xs)"

definition enc_block :: "(nat \<times> pval) list \<Rightarrow> bytes" where
  "enc_block xs = w_varByteInt (int (length (enc_items xs))) @ enc_items xs"

definition items_ok :: "ptype \<Rightarrow> (nat \<times> pval) list \<Rightarrow> bool" where
  "items_ok ctx xs \<longleftrightarrow>
    length (enc_items xs) \<le> MaxVarByteInt \<and> (\<forall>x \<in> set xs. item_ok ctx x) \<and> fresh ctx {} xs"

lemma enc_items_Nil_iff: "enc_items xs = [] \<longleftrightarrow> xs = []"
  by (cases xs) (auto simp: enc_items_def enc_item_def w_byte_def)

lemma readProperties_eq:
  assumes "rd_ok r"
  shows "readProperties r ctx = rbind (r_varByteInt r) (\<lambda>(n, r1).
    if length (rest r1) < n then Inl ErrMalformed
    else rbind (readProps_loop ctx (new_reader (take n (rest r1))) empty_props {}) (\<lambda>p.
         Inr (p, adv n r1)))"
  unfolding readProperties_def
proof (rule rbind_cong [OF refl])
  fix a assume "r_varByteInt r = Inr a"
  then obtain n r1 where a: "a = (n, r1)" "r_varByteInt r = Inr (n, r1)" by (cases a) auto
  then have ok: "rd_ok r1" using c_vbi.dec_ok [OF assms] by blast
  have "remaining r1 < int n \<longleftrightarrow> length (rest r1) < n"
    by (simp only: remaining_eq [OF ok] of_nat_less_iff)
  moreover have "readProps_loop ctx (new_reader []) empty_props {} = Inr empty_props"
    by (simp add: readProps_loop.simps r_empty_iff)
  ultimately show "(case a of (n, r1) \<Rightarrow>
      if remaining r1 < int n then Inl ErrMalformed
      else if n = 0 then Inr (empty_props, r1)
      else rbind (go_slice (buf r1) (pos r1) (pos r1 + n)) (\<lambda>b.
           rbind (readProps_loop ctx (new_reader b) empty_props {}) (\<lambda>p. Inr (p, adv n r1)))) =
    (case a of (n, r1) \<Rightarrow>
      if length (rest r1) < n then Inl ErrMalformed
      else rbind (readProps_loop ctx (new_reader (take n (rest r1))) empty_props {}) (\<lambda>p.
           Inr (p, adv n r1)))"
    by (simp add: a go_slice_rest [OF ok]) (simp add: go_slice_def)
qed

text \<open>A property block is accepted exactly when it is the encoding of a list of legal items.\<close>

lemma readProperties_enc:
  assumes "rd_ok r" "items_ok ctx xs" "rest r = enc_block xs @ ys"
  shows "readProperties r ctx = Inr (set_props xs empty_props, adv (length (enc_block xs)) r)"
proof -
  let ?b = "enc_items xs" and ?n = "length (enc_items xs)"
  have 1: "r_varByteInt r = Inr (?n, adv (length (w_varByteInt (int ?n))) r)"
    using c_vbi.dec_enc [of r ?n "?b @ ys"] assms by (simp add: enc_block_def items_ok_def wf_vbi_def)
  have "readProps_loop ctx (new_reader ?b) empty_props {} = Inr (set_props xs empty_props)"
    by (rule readProps_loop_items) (use assms(2) in \<open>auto simp: items_ok_def enc_items_def\<close>)
  with 1 show ?thesis
    by (simp add: readProperties_eq [OF assms(1)] assms(3) enc_block_def)
qed

lemma readProperties_ok:
  assumes "rd_ok r" "readProperties r ctx = Inr (p, r')"
  shows "\<exists>xs ys. items_ok ctx xs \<and> rest r = enc_block xs @ ys \<and> p = set_props xs empty_props \<and>
    r' = adv (length (enc_block xs)) r"
proof -
  obtain n r1 where n: "r_varByteInt r = Inr (n, r1)" and le: "n \<le> length (rest r1)"
    and loop: "readProps_loop ctx (new_reader (take n (rest r1))) empty_props {} = Inr p"
    and r': "r' = adv n r1"
    using assms(2) by (auto simp: readProperties_eq [OF assms(1)] rbind_Inr_iff not_less split: if_splits)
  have vb: "wf_vbi n" "rest r = w_varByteInt (int n) @ rest r1" "r1 = adv (length (w_varByteInt (int n))) r"
    using c_vbi.dec_ok [OF assms(1) n] by blast+
  obtain xs where xs: "take n (rest r1) = enc_items xs" "\<forall>x \<in> set xs. item_ok ctx x"
    "fresh ctx {} xs" "p = set_props xs empty_props"
    using readProps_loop_sound [OF _ loop] by (auto simp: enc_items_def)
  have len: "length (enc_items xs) = n" using xs(1) le by (metis length_take min.absorb2)
  have "rest r = enc_block xs @ drop n (rest r1)"
    unfolding enc_block_def len vb(2) xs(1) [symmetric] by (simp add: le)
  moreover have "r' = adv (length (enc_block xs)) r"
    unfolding enc_block_def len r' vb(3) by (simp add: len)
  ultimately show ?thesis
    using xs len vb(1) unfolding items_ok_def wf_vbi_def by blast
qed

lemma readProperties_err:
  assumes "rd_ok r" "readProperties r ctx = Inl e"
  shows "decode_error e"
proof (cases "r_varByteInt r")
  case (Inl e')
  with assms c_vbi.dec_err [OF assms(1)] show ?thesis by (simp add: readProperties_eq)
next
  case (Inr a)
  obtain n r1 where "a = (n, r1)" by (cases a)
  with Inr assms readProps_loop_err [of "new_reader (take n (rest r1))"] show ?thesis
    by (auto simp: readProperties_eq rbind_Inl_iff split: if_splits)
qed

section \<open>What the encoder emits\<close>

fun len_ok :: "pval \<Rightarrow> bool" where
  "len_ok (PStr s) \<longleftrightarrow> length s \<le> 65535"
| "len_ok (PBin d) \<longleftrightarrow> length d \<le> 65535"
| "len_ok (PPair u) \<longleftrightarrow> length (fst u) \<le> 65535 \<and> length (snd u) \<le> 65535"
| "len_ok (PVbi n) \<longleftrightarrow> 1 \<le> n \<and> n \<le> MaxVarByteInt"
| "len_ok _ \<longleftrightarrow> True"

abbreviation legal :: "ptype \<Rightarrow> (nat \<times> pval) list \<Rightarrow> (nat \<times> pval) list" where
  "legal ctx xs \<equiv> filter (\<lambda>x. allowedIn (fst x) ctx) xs"

text \<open>A run of emitters that stands for the items \<open>xs\<close>.\<close>

definition emits :: "ptype \<Rightarrow> bytes res \<Rightarrow> (nat \<times> pval) list \<Rightarrow> bool" where
  "emits ctx m xs \<longleftrightarrow>
    (if \<forall>x \<in> set xs. len_ok (snd x) then m = Inr (enc_items (legal ctx xs))
     else m = Inl ErrTooLong \<or> m = Inl ErrProtocol)"

lemma enc_items_append [simp]: "enc_items (xs @ ys) = enc_items xs @ enc_items ys"
  by (simp add: enc_items_def)

lemma enc_items_Cons: "enc_items (x # xs) = enc_item x @ enc_items xs"
  by (simp add: enc_items_def)

lemma enc_items_Nil [simp]: "enc_items [] = []"
  by (simp add: enc_items_def)

lemma emits_Nil: "emits ctx (cat_res []) []"
  by (simp add: emits_def)

lemma emits_Cons:
  assumes "emits ctx m xs" "emits ctx (cat_res ms) ys"
  shows "emits ctx (cat_res (m # ms)) (xs @ ys)"
  using assms by (auto simp: emits_def ball_Un split: if_splits)

lemma emits_last: "emits ctx m xs \<Longrightarrow> emits ctx (cat_res [m]) xs"
  using emits_Cons [OF _ emits_Nil] by fastforce

lemma emits_map:
  assumes "\<And>u. emits ctx (f u) [g u]" "emits ctx (cat_res ms) ys"
  shows "emits ctx (cat_res (map f us @ ms)) (map g us @ ys)"
proof (induction us)
  case (Cons u us)
  from emits_Cons [OF assms(1) Cons.IH] show ?case by simp
qed (simp add: assms)

lemma emits_put_opt:
  assumes "\<And>v. enc v = enc_pval (c v)" "\<And>v. len_ok (c v)"
  shows "emits ctx (put_opt ctx i enc x) (opt_item i c x)"
  using assms by (cases x) (auto simp: emits_def put_opt_def put_def opt_item_def enc_items_def enc_item_def)

lemma emits_put_string: "emits ctx (put_string ctx i s) (seq_item i PStr s)"
  by (auto simp: emits_def put_string_def put_def seq_item_def enc_items_def enc_item_def checkStringLen_def)

lemma emits_put_binary: "emits ctx (put_binary ctx i b) (seq_item i PBin b)"
  by (auto simp: emits_def put_binary_def put_def seq_item_def enc_items_def enc_item_def checkBinaryLen_def)

lemma emits_put_subid: "emits ctx (put_subid ctx n) [(propSubscriptionID, PVbi (nat n))]"
  by (auto simp: emits_def put_subid_def put_def enc_items_def enc_item_def)

lemma emits_put_user: "emits ctx (put_user ctx u) [(propUser, PPair u)]"
  by (auto simp: emits_def put_user_def put_def enc_items_def enc_item_def checkStringLen_def)

lemmas emits_rules =
  emits_Cons emits_last emits_map emits_put_string emits_put_binary emits_put_subid emits_put_user
  emits_put_opt

lemma props_body_emits: "emits ctx (props_body p ctx) (items p)"
  unfolding props_body_def items_def append_Cons append_Nil
  by (intro emits_rules) simp_all

lemma props_encode_Some:
  "props_encode (Some p) ctx = Inr b \<longleftrightarrow>
    (\<forall>x \<in> set (items p). len_ok (snd x)) \<and> b = enc_block (legal ctx (items p))"
  using props_body_emits [of ctx p] by (auto simp: emits_def props_encode_def enc_block_def split: if_splits)

lemma props_encode_None: "props_encode None ctx = Inr (enc_block [])"
  by (simp add: props_encode_def enc_block_def)

text \<open>The items of a record come in the order of their identifiers.\<close>

definition ranked :: "ptype \<Rightarrow> nat \<Rightarrow> (nat \<times> pval) list \<Rightarrow> bool" where
  "ranked ctx i xs \<longleftrightarrow>
    sorted_wrt (\<lambda>x y. fst x < fst y \<or> (fst x = fst y \<and> repeatable ctx (fst x))) xs \<and>
    (\<forall>x \<in> set xs. i \<le> fst x)"

lemma ranked_chunk:
  assumes "set xs \<subseteq> {i} \<times> UNIV" "repeatable ctx i \<or> length xs \<le> 1" "ranked ctx j ys" "i < j"
  shows "ranked ctx i (xs @ ys)"
proof -
  have "sorted_wrt (\<lambda>x y. fst x < fst y \<or> (fst x = fst y \<and> repeatable ctx (fst x))) xs"
  proof (cases "repeatable ctx i")
    case True
    with assms(1) show ?thesis
      by (induction xs) auto
  next
    case False
    with assms(2) show ?thesis by (cases xs) auto
  qed
  with assms show ?thesis by (fastforce simp: ranked_def sorted_wrt_append)
qed

lemma ranked_opt: "ranked ctx j ys \<Longrightarrow> i < j \<Longrightarrow> ranked ctx i (opt_item i c x @ ys)"
  by (rule ranked_chunk) (auto simp: opt_item_def split: option.splits)

lemma ranked_seq: "ranked ctx j ys \<Longrightarrow> i < j \<Longrightarrow> ranked ctx i (seq_item i c x @ ys)"
  by (rule ranked_chunk) (auto simp: seq_item_def)

lemma ranked_map:
  "ranked ctx j ys \<Longrightarrow> i < j \<Longrightarrow> repeatable ctx i \<or> length us \<le> 1 \<Longrightarrow>
    ranked ctx i (map (\<lambda>u. (i, c u)) us @ ys)"
  by (rule ranked_chunk) auto

lemma ranked_last: "ranked ctx i (opt_item i c x)"
  by (auto simp: ranked_def opt_item_def split: option.splits)

lemma ranked_items:
  assumes "repeatable ctx propSubscriptionID \<or> length (SubscriptionIdentifiers p) \<le> 1"
  shows "ranked ctx 1 (items p)"
  unfolding items_def
  by ((rule ranked_opt ranked_seq ranked_map ranked_last)+)
     (use assms in \<open>simp_all add: repeatable_def\<close>)

lemma ranked_fresh:
  "ranked ctx i xs \<Longrightarrow> \<forall>j \<in> seen. \<forall>x \<in> set xs. j < fst x \<or> (j = fst x \<and> repeatable ctx j) \<Longrightarrow>
    fresh ctx seen xs"
proof (induction xs arbitrary: seen)
  case (Cons x xs)
  then show ?case by (cases x) (fastforce simp: ranked_def)
qed simp

lemma ranked_legal: "ranked ctx i xs \<Longrightarrow> ranked ctx i (legal ctx xs)"
  by (auto simp: ranked_def sorted_wrt_filter)

section \<open>Setting the items of a record restores it\<close>

definition or_else :: "'a option \<Rightarrow> 'a option \<Rightarrow> 'a option" where
  "or_else x y = (case x of None \<Rightarrow> y | Some _ \<Rightarrow> x)"

definition or_seq :: "'a list \<Rightarrow> 'a list \<Rightarrow> 'a list" where
  "or_seq x y = (if x = [] then y else x)"

lemma or_else_simps [simp]: "or_else None y = y" "or_else (Some v) y = Some v" "or_else x None = x"
  by (simp_all add: or_else_def split: option.splits)

lemma or_seq_simps [simp]: "or_seq [] y = y" "x \<noteq> [] \<Longrightarrow> or_seq x y = x" "or_seq x [] = x"
  by (simp_all add: or_seq_def)

lemma set_legal_items:
  "set_props (legal ctx (opt_item propPayloadFormat PByte xB)) q =
    q\<lparr>PayloadFormat := if allowedIn propPayloadFormat ctx then or_else xB (PayloadFormat q) else PayloadFormat q\<rparr>"
  "set_props (legal ctx (opt_item propMessageExpiry PU32 xW)) q =
    q\<lparr>MessageExpiryInterval := if allowedIn propMessageExpiry ctx then or_else xW (MessageExpiryInterval q) else MessageExpiryInterval q\<rparr>"
  "set_props (legal ctx (seq_item propContentType PStr xS)) q =
    q\<lparr>ContentType := if allowedIn propContentType ctx then or_seq xS (ContentType q) else ContentType q\<rparr>"
  "set_props (legal ctx (seq_item propResponseTopic PStr xS)) q =
    q\<lparr>ResponseTopic := if allowedIn propResponseTopic ctx then or_seq xS (ResponseTopic q) else ResponseTopic q\<rparr>"
  "set_props (legal ctx (seq_item propCorrelationData PBin xD)) q =
    q\<lparr>CorrelationData := if allowedIn propCorrelationData ctx then or_seq xD (CorrelationData q) else CorrelationData q\<rparr>"
  "set_props (legal ctx (opt_item propSessionExpiry PU32 xW)) q =
    q\<lparr>SessionExpiryInterval := if allowedIn propSessionExpiry ctx then or_else xW (SessionExpiryInterval q) else SessionExpiryInterval q\<rparr>"
  "set_props (legal ctx (seq_item propAssignedClientID PStr xS)) q =
    q\<lparr>AssignedClientID := if allowedIn propAssignedClientID ctx then or_seq xS (AssignedClientID q) else AssignedClientID q\<rparr>"
  "set_props (legal ctx (opt_item propServerKeepAlive PU16 xH)) q =
    q\<lparr>ServerKeepAlive := if allowedIn propServerKeepAlive ctx then or_else xH (ServerKeepAlive q) else ServerKeepAlive q\<rparr>"
  "set_props (legal ctx (seq_item propAuthMethod PStr xS)) q =
    q\<lparr>AuthenticationMethod := if allowedIn propAuthMethod ctx then or_seq xS (AuthenticationMethod q) else AuthenticationMethod q\<rparr>"
  "set_props (legal ctx (seq_item propAuthData PBin xD)) q =
    q\<lparr>AuthenticationData := if allowedIn propAuthData ctx then or_seq xD (AuthenticationData q) else AuthenticationData q\<rparr>"
  "set_props (legal ctx (opt_item propRequestProblemInfo PByte xB)) q =
    q\<lparr>RequestProblemInfo := if allowedIn propRequestProblemInfo ctx then or_else xB (RequestProblemInfo q) else RequestProblemInfo q\<rparr>"
  "set_props (legal ctx (opt_item propWillDelayInterval PU32 xW)) q =
    q\<lparr>WillDelayInterval := if allowedIn propWillDelayInterval ctx then or_else xW (WillDelayInterval q) else WillDelayInterval q\<rparr>"
  "set_props (legal ctx (opt_item propRequestResponse PByte xB)) q =
    q\<lparr>RequestResponseInfo := if allowedIn propRequestResponse ctx then or_else xB (RequestResponseInfo q) else RequestResponseInfo q\<rparr>"
  "set_props (legal ctx (seq_item propResponseInfo PStr xS)) q =
    q\<lparr>ResponseInformation := if allowedIn propResponseInfo ctx then or_seq xS (ResponseInformation q) else ResponseInformation q\<rparr>"
  "set_props (legal ctx (seq_item propServerReference PStr xS)) q =
    q\<lparr>ServerReference := if allowedIn propServerReference ctx then or_seq xS (ServerReference q) else ServerReference q\<rparr>"
  "set_props (legal ctx (seq_item propReasonString PStr xS)) q =
    q\<lparr>ReasonString := if allowedIn propReasonString ctx then or_seq xS (ReasonString q) else ReasonString q\<rparr>"
  "set_props (legal ctx (opt_item propReceiveMaximum PU16 xH)) q =
    q\<lparr>ReceiveMaximum := if allowedIn propReceiveMaximum ctx then or_else xH (ReceiveMaximum q) else ReceiveMaximum q\<rparr>"
  "set_props (legal ctx (opt_item propTopicAliasMaximum PU16 xH)) q =
    q\<lparr>TopicAliasMaximum := if allowedIn propTopicAliasMaximum ctx then or_else xH (TopicAliasMaximum q) else TopicAliasMaximum q\<rparr>"
  "set_props (legal ctx (opt_item propTopicAlias PU16 xH)) q =
    q\<lparr>TopicAlias := if allowedIn propTopicAlias ctx then or_else xH (TopicAlias q) else TopicAlias q\<rparr>"
  "set_props (legal ctx (opt_item propMaximumQoS PByte xB)) q =
    q\<lparr>MaximumQoS := if allowedIn propMaximumQoS ctx then or_else xB (MaximumQoS q) else MaximumQoS q\<rparr>"
  "set_props (legal ctx (opt_item propRetainAvailable PByte xB)) q =
    q\<lparr>RetainAvailable := if allowedIn propRetainAvailable ctx then or_else xB (RetainAvailable q) else RetainAvailable q\<rparr>"
  "set_props (legal ctx (opt_item propMaximumPacketSize PU32 xW)) q =
    q\<lparr>MaximumPacketSize := if allowedIn propMaximumPacketSize ctx then or_else xW (MaximumPacketSize q) else MaximumPacketSize q\<rparr>"
  "set_props (legal ctx (opt_item propWildcardSubAvail PByte xB)) q =
    q\<lparr>WildcardSubAvailable := if allowedIn propWildcardSubAvail ctx then or_else xB (WildcardSubAvailable q) else WildcardSubAvailable q\<rparr>"
  "set_props (legal ctx (opt_item propSubIDAvail PByte xB)) q =
    q\<lparr>SubIDAvailable := if allowedIn propSubIDAvail ctx then or_else xB (SubIDAvailable q) else SubIDAvailable q\<rparr>"
  "set_props (legal ctx (opt_item propSharedSubAvail PByte xB)) q =
    q\<lparr>SharedSubAvailable := if allowedIn propSharedSubAvail ctx then or_else xB (SharedSubAvailable q) else SharedSubAvailable q\<rparr>"
  by (simp_all add: opt_item_def seq_item_def set_prop_def split: option.splits)

text \<open>On a record that lacks the field, the field is set or left at its zero value.\<close>

lemma set_legal_new:
  "PayloadFormat q = None \<Longrightarrow> set_props (legal ctx (opt_item propPayloadFormat PByte xB)) q =
    q\<lparr>PayloadFormat := if allowedIn propPayloadFormat ctx then xB else None\<rparr>"
  "MessageExpiryInterval q = None \<Longrightarrow> set_props (legal ctx (opt_item propMessageExpiry PU32 xW)) q =
    q\<lparr>MessageExpiryInterval := if allowedIn propMessageExpiry ctx then xW else None\<rparr>"
  "ContentType q = [] \<Longrightarrow> set_props (legal ctx (seq_item propContentType PStr xS)) q =
    q\<lparr>ContentType := if allowedIn propContentType ctx then xS else []\<rparr>"
  "ResponseTopic q = [] \<Longrightarrow> set_props (legal ctx (seq_item propResponseTopic PStr xS)) q =
    q\<lparr>ResponseTopic := if allowedIn propResponseTopic ctx then xS else []\<rparr>"
  "CorrelationData q = [] \<Longrightarrow> set_props (legal ctx (seq_item propCorrelationData PBin xD)) q =
    q\<lparr>CorrelationData := if allowedIn propCorrelationData ctx then xD else []\<rparr>"
  "SessionExpiryInterval q = None \<Longrightarrow> set_props (legal ctx (opt_item propSessionExpiry PU32 xW)) q =
    q\<lparr>SessionExpiryInterval := if allowedIn propSessionExpiry ctx then xW else None\<rparr>"
  "AssignedClientID q = [] \<Longrightarrow> set_props (legal ctx (seq_item propAssignedClientID PStr xS)) q =
    q\<lparr>AssignedClientID := if allowedIn propAssignedClientID ctx then xS else []\<rparr>"
  "ServerKeepAlive q = None \<Longrightarrow> set_props (legal ctx (opt_item propServerKeepAlive PU16 xH)) q =
    q\<lparr>ServerKeepAlive := if allowedIn propServerKeepAlive ctx then xH else None\<rparr>"
  "AuthenticationMethod q = [] \<Longrightarrow> set_props (legal ctx (seq_item propAuthMethod PStr xS)) q =
    q\<lparr>AuthenticationMethod := if allowedIn propAuthMethod ctx then xS else []\<rparr>"
  "AuthenticationData q = [] \<Longrightarrow> set_props (legal ctx (seq_item propAuthData PBin xD)) q =
    q\<lparr>AuthenticationData := if allowedIn propAuthData ctx then xD else []\<rparr>"
  "RequestProblemInfo q = None \<Longrightarrow> set_props (legal ctx (opt_item propRequestProblemInfo PByte xB)) q =
    q\<lparr>RequestProblemInfo := if allowedIn propRequestProblemInfo ctx then xB else None\<rparr>"
  "WillDelayInterval q = None \<Longrightarrow> set_props (legal ctx (opt_item propWillDelayInterval PU32 xW)) q =
    q\<lparr>WillDelayInterval := if allowedIn propWillDelayInterval ctx then xW else None\<rparr>"
  "RequestResponseInfo q = None \<Longrightarrow> set_props (legal ctx (opt_item propRequestResponse PByte xB)) q =
    q\<lparr>RequestResponseInfo := if allowedIn propRequestResponse ctx then xB else None\<rparr>"
  "ResponseInformation q = [] \<Longrightarrow> set_props (legal ctx (seq_item propResponseInfo PStr xS)) q =
    q\<lparr>ResponseInformation := if allowedIn propResponseInfo ctx then xS else []\<rparr>"
  "ServerReference q = [] \<Longrightarrow> set_props (legal ctx (seq_item propServerReference PStr xS)) q =
    q\<lparr>ServerReference := if allowedIn propServerReference ctx then xS else []\<rparr>"
  "ReasonString q = [] \<Longrightarrow> set_props (legal ctx (seq_item propReasonString PStr xS)) q =
    q\<lparr>ReasonString := if allowedIn propReasonString ctx then xS else []\<rparr>"
  "ReceiveMaximum q = None \<Longrightarrow> set_props (legal ctx (opt_item propReceiveMaximum PU16 xH)) q =
    q\<lparr>ReceiveMaximum := if allowedIn propReceiveMaximum ctx then xH else None\<rparr>"
  "TopicAliasMaximum q = None \<Longrightarrow> set_props (legal ctx (opt_item propTopicAliasMaximum PU16 xH)) q =
    q\<lparr>TopicAliasMaximum := if allowedIn propTopicAliasMaximum ctx then xH else None\<rparr>"
  "TopicAlias q = None \<Longrightarrow> set_props (legal ctx (opt_item propTopicAlias PU16 xH)) q =
    q\<lparr>TopicAlias := if allowedIn propTopicAlias ctx then xH else None\<rparr>"
  "MaximumQoS q = None \<Longrightarrow> set_props (legal ctx (opt_item propMaximumQoS PByte xB)) q =
    q\<lparr>MaximumQoS := if allowedIn propMaximumQoS ctx then xB else None\<rparr>"
  "RetainAvailable q = None \<Longrightarrow> set_props (legal ctx (opt_item propRetainAvailable PByte xB)) q =
    q\<lparr>RetainAvailable := if allowedIn propRetainAvailable ctx then xB else None\<rparr>"
  "MaximumPacketSize q = None \<Longrightarrow> set_props (legal ctx (opt_item propMaximumPacketSize PU32 xW)) q =
    q\<lparr>MaximumPacketSize := if allowedIn propMaximumPacketSize ctx then xW else None\<rparr>"
  "WildcardSubAvailable q = None \<Longrightarrow> set_props (legal ctx (opt_item propWildcardSubAvail PByte xB)) q =
    q\<lparr>WildcardSubAvailable := if allowedIn propWildcardSubAvail ctx then xB else None\<rparr>"
  "SubIDAvailable q = None \<Longrightarrow> set_props (legal ctx (opt_item propSubIDAvail PByte xB)) q =
    q\<lparr>SubIDAvailable := if allowedIn propSubIDAvail ctx then xB else None\<rparr>"
  "SharedSubAvailable q = None \<Longrightarrow> set_props (legal ctx (opt_item propSharedSubAvail PByte xB)) q =
    q\<lparr>SharedSubAvailable := if allowedIn propSharedSubAvail ctx then xB else None\<rparr>"
  by (simp_all add: set_legal_items del: One_nat_def)

lemma set_legal_subids:
  "\<forall>n \<in> set us. 0 \<le> n \<Longrightarrow> SubscriptionIdentifiers q = ss \<Longrightarrow>
    set_props (legal ctx (map (\<lambda>n. (propSubscriptionID, PVbi (nat n))) us)) q =
    q\<lparr>SubscriptionIdentifiers := ss @
        (if allowedIn propSubscriptionID ctx then us else [])\<rparr>"
  by (induction us arbitrary: q ss) (auto simp: set_prop_def)

lemma set_legal_users:
  "User q = ss \<Longrightarrow> set_props (legal ctx (map (\<lambda>u. (propUser, PPair u)) us)) q =
    q\<lparr>User := ss @ (if allowedIn propUser ctx then us else [])\<rparr>"
  by (induction us arbitrary: q ss) (auto simp: set_prop_def)

lemma empty_props_sel [simp]:
  "PayloadFormat empty_props = None"
  "MessageExpiryInterval empty_props = None"
  "ContentType empty_props = []"
  "ResponseTopic empty_props = []"
  "CorrelationData empty_props = []"
  "SubscriptionIdentifiers empty_props = []"
  "SessionExpiryInterval empty_props = None"
  "AssignedClientID empty_props = []"
  "ServerKeepAlive empty_props = None"
  "AuthenticationMethod empty_props = []"
  "AuthenticationData empty_props = []"
  "RequestProblemInfo empty_props = None"
  "WillDelayInterval empty_props = None"
  "RequestResponseInfo empty_props = None"
  "ResponseInformation empty_props = []"
  "ServerReference empty_props = []"
  "ReasonString empty_props = []"
  "ReceiveMaximum empty_props = None"
  "TopicAliasMaximum empty_props = None"
  "TopicAlias empty_props = None"
  "MaximumQoS empty_props = None"
  "RetainAvailable empty_props = None"
  "User empty_props = []"
  "MaximumPacketSize empty_props = None"
  "WildcardSubAvailable empty_props = None"
  "SubIDAvailable empty_props = None"
  "SharedSubAvailable empty_props = None"
  by (simp_all add: empty_props_def)

lemma set_props_items:
  assumes "\<forall>n \<in> set (SubscriptionIdentifiers p). 0 \<le> n"
  shows "set_props (legal ctx (items p)) empty_props = props_restrict ctx p"
  unfolding items_def filter_append fold_append o_apply props_restrict_def
  by (simp add: set_legal_new set_legal_subids [OF assms] set_legal_users del: One_nat_def)

section \<open>The round trip\<close>

definition props_wf :: "ptype \<Rightarrow> properties \<Rightarrow> bool" where
  "props_wf ctx p \<longleftrightarrow>
    (\<forall>(i, v) \<in> set (items p). allowedIn i ctx \<longrightarrow> wf_pval v \<and> ok_val i v) \<and>
    (ctx = SUBSCRIBE \<longrightarrow> length (SubscriptionIdentifiers p) \<le> 1)"

lemma ball_opt_item:
  "(\<forall>x \<in> set (opt_item i c x'). Q x) \<longleftrightarrow> (case x' of None \<Rightarrow> True | Some v \<Rightarrow> Q (i, c v))"
  by (simp add: opt_item_def split: option.split)

lemma ball_seq_item: "(\<forall>x \<in> set (seq_item i c x'). Q x) \<longleftrightarrow> (x' \<noteq> [] \<longrightarrow> Q (i, c x'))"
  by (simp add: seq_item_def)

lemma items_kind: "\<forall>(i, v) \<in> set (items p). map_of prop_kinds i = Some (kind_of v)"
  unfolding items_def set_append ball_Un ball_opt_item ball_seq_item
  by (intro conjI) (simp_all add: prop_kinds_def split: option.split)

lemma legal_no_subids:
  assumes "\<not> allowedIn propSubscriptionID ctx"
  shows "legal ctx (items p) = legal ctx (items (p\<lparr>SubscriptionIdentifiers := []\<rparr>))"
  using assms by (simp add: items_def)

lemma allowedIn_subid: "allowedIn propSubscriptionID ctx \<longleftrightarrow> ctx = PUBLISH \<or> ctx = SUBSCRIBE"
  by (auto simp: allowedIn_def propContexts_def)

lemma ranked_legal_items:
  assumes "ctx = SUBSCRIBE \<longrightarrow> length (SubscriptionIdentifiers p) \<le> 1"
  shows "ranked ctx 1 (legal ctx (items p))"
proof (cases "ctx = PUBLISH \<or> ctx = SUBSCRIBE")
  case True
  with assms show ?thesis by (intro ranked_legal ranked_items) (auto simp: repeatable_def)
next
  case False
  then have "legal ctx (items p) = legal ctx (items (p\<lparr>SubscriptionIdentifiers := []\<rparr>))"
    by (intro legal_no_subids) (simp add: allowedIn_subid)
  moreover have "ranked ctx 1 (legal ctx (items (p\<lparr>SubscriptionIdentifiers := []\<rparr>)))"
    by (intro ranked_legal ranked_items) simp
  ultimately show ?thesis by simp
qed

lemma items_ok_legal:
  assumes "props_wf ctx p" "length (enc_items (legal ctx (items p))) \<le> MaxVarByteInt"
  shows "items_ok ctx (legal ctx (items p))"
  unfolding items_ok_def
proof (intro conjI)
  show "\<forall>x \<in> set (legal ctx (items p)). item_ok ctx x"
    using assms(1) items_kind [of p] by (fastforce simp: item_ok_def props_wf_def)
  show "fresh ctx {} (legal ctx (items p))"
    by (rule ranked_fresh [OF ranked_legal_items]) (use assms(1) in \<open>auto simp: props_wf_def\<close>)
qed (rule assms(2))

text \<open>The properties a receiver sees: those of the packet, restricted to what is legal in it.\<close>

definition norm_props :: "ptype \<Rightarrow> properties option \<Rightarrow> properties" where
  "norm_props ctx po = (case po of None \<Rightarrow> empty_props | Some p \<Rightarrow> props_restrict ctx p)"

definition wf_props :: "ptype \<Rightarrow> properties option \<Rightarrow> bool" where
  "wf_props ctx po = (case po of None \<Rightarrow> True | Some p \<Rightarrow> props_wf ctx p)"

lemma subids_nonneg:
  assumes "\<forall>x \<in> set (items p). len_ok (snd x)"
  shows "\<forall>n \<in> set (SubscriptionIdentifiers p). 0 \<le> n"
proof
  fix n assume "n \<in> set (SubscriptionIdentifiers p)"
  then have "(propSubscriptionID, PVbi (nat n)) \<in> set (items p)" by (simp add: items_def)
  with assms have "1 \<le> nat n" by fastforce
  then show "0 \<le> n" by simp
qed

lemma props_roundtrip:
  assumes "rd_ok r" "wf_props ctx po" "props_encode po ctx = Inr b" "length b \<le> MaxVarByteInt"
    and "rest r = b @ ys"
  shows "readProperties r ctx = Inr (norm_props ctx po, adv (length b) r)"
proof (cases po)
  case None
  then have "b = enc_block []" using assms(3) by (simp add: props_encode_None)
  moreover have "items_ok ctx []" by (simp add: items_ok_def)
  ultimately show ?thesis
    using readProperties_enc [OF assms(1)] assms(5) None by (simp add: norm_props_def)
next
  case (Some p)
  then have len: "\<forall>x \<in> set (items p). len_ok (snd x)" and b: "b = enc_block (legal ctx (items p))"
    using assms(3) by (simp_all add: props_encode_Some)
  have "items_ok ctx (legal ctx (items p))"
    by (rule items_ok_legal) (use assms(2,4) b Some in \<open>auto simp: wf_props_def enc_block_def\<close>)
  from readProperties_enc [OF assms(1) this] show ?thesis
    using assms(5) set_props_items [OF subids_nonneg [OF len]] by (simp add: b Some norm_props_def)
qed

section \<open>Decoded properties are well-formed\<close>

text \<open>The values a record holds for one identifier.\<close>

definition get_prop :: "nat \<Rightarrow> properties \<Rightarrow> pval list" where
  "get_prop i p =
    (if i = propPayloadFormat then map snd (opt_item propPayloadFormat PByte (PayloadFormat p))
     else if i = propMessageExpiry then map snd (opt_item propMessageExpiry PU32 (MessageExpiryInterval p))
     else if i = propContentType then map snd (seq_item propContentType PStr (ContentType p))
     else if i = propResponseTopic then map snd (seq_item propResponseTopic PStr (ResponseTopic p))
     else if i = propCorrelationData then map snd (seq_item propCorrelationData PBin (CorrelationData p))
     else if i = propSubscriptionID then map (\<lambda>n. PVbi (nat n)) (SubscriptionIdentifiers p)
     else if i = propSessionExpiry then map snd (opt_item propSessionExpiry PU32 (SessionExpiryInterval p))
     else if i = propAssignedClientID then map snd (seq_item propAssignedClientID PStr (AssignedClientID p))
     else if i = propServerKeepAlive then map snd (opt_item propServerKeepAlive PU16 (ServerKeepAlive p))
     else if i = propAuthMethod then map snd (seq_item propAuthMethod PStr (AuthenticationMethod p))
     else if i = propAuthData then map snd (seq_item propAuthData PBin (AuthenticationData p))
     else if i = propRequestProblemInfo then map snd (opt_item propRequestProblemInfo PByte (RequestProblemInfo p))
     else if i = propWillDelayInterval then map snd (opt_item propWillDelayInterval PU32 (WillDelayInterval p))
     else if i = propRequestResponse then map snd (opt_item propRequestResponse PByte (RequestResponseInfo p))
     else if i = propResponseInfo then map snd (seq_item propResponseInfo PStr (ResponseInformation p))
     else if i = propServerReference then map snd (seq_item propServerReference PStr (ServerReference p))
     else if i = propReasonString then map snd (seq_item propReasonString PStr (ReasonString p))
     else if i = propReceiveMaximum then map snd (opt_item propReceiveMaximum PU16 (ReceiveMaximum p))
     else if i = propTopicAliasMaximum then map snd (opt_item propTopicAliasMaximum PU16 (TopicAliasMaximum p))
     else if i = propTopicAlias then map snd (opt_item propTopicAlias PU16 (TopicAlias p))
     else if i = propMaximumQoS then map snd (opt_item propMaximumQoS PByte (MaximumQoS p))
     else if i = propRetainAvailable then map snd (opt_item propRetainAvailable PByte (RetainAvailable p))
     else if i = propUser then map PPair (User p)
     else if i = propMaximumPacketSize then map snd (opt_item propMaximumPacketSize PU32 (MaximumPacketSize p))
     else if i = propWildcardSubAvail then map snd (opt_item propWildcardSubAvail PByte (WildcardSubAvailable p))
     else if i = propSubIDAvail then map snd (opt_item propSubIDAvail PByte (SubIDAvailable p))
     else if i = propSharedSubAvail then map snd (opt_item propSharedSubAvail PByte (SharedSubAvailable p))
     else [])"

lemma map_Pair_item [simp]:
  "map (\<lambda>x. (i, snd x)) (opt_item i c x) = opt_item i c x"
  "map (\<lambda>x. (i, snd x)) (seq_item i d y) = seq_item i d y"
  by (simp_all add: opt_item_def seq_item_def split: option.split)

lemma items_get: "items p = concat (map (\<lambda>i. map (Pair i) (get_prop i p)) (map fst prop_kinds))"
  by (simp add: items_def prop_kinds_def get_prop_def comp_def del: One_nat_def)

lemma get_prop_other: "j \<noteq> i \<Longrightarrow> get_prop j (set_prop i v p) = get_prop j p"
  by (cases v) (simp_all add: set_prop_def get_prop_def)

lemma get_prop_same:
  assumes "map_of prop_kinds i = Some (kind_of v)"
  shows "set (get_prop i (set_prop i v p)) \<subseteq> insert v (set (get_prop i p))"
proof -
  have "(i, kind_of v) \<in> set prop_kinds" using assms by (rule map_of_SomeD)
  then show ?thesis
    by (cases v) (auto simp: prop_kinds_def set_prop_def get_prop_def opt_item_def seq_item_def)
qed

lemma set_prop_items:
  assumes "map_of prop_kinds i = Some (kind_of v)" "\<forall>x \<in> set (items p). Q x" "Q (i, v)"
  shows "\<forall>x \<in> set (items (set_prop i v p)). Q x"
proof -
  have "w \<in> set (get_prop j p) \<or> (j, w) = (i, v)" if "w \<in> set (get_prop j (set_prop i v p))" for j w
    using that get_prop_other [of j i v p] get_prop_same [OF assms(1), of p] by (cases "j = i") auto
  with assms(2,3) show ?thesis by (fastforce simp: items_get)
qed

lemma set_props_item_ok:
  assumes "\<forall>x \<in> set xs. item_ok ctx x" "\<forall>x \<in> set (items p). item_ok ctx x"
  shows "\<forall>x \<in> set (items (set_props xs p)). item_ok ctx x"
  using assms
proof (induction xs arbitrary: p)
  case (Cons x xs)
  obtain i v where x: "x = (i, v)" by (cases x)
  with Cons.prems have "map_of prop_kinds i = Some (kind_of v)" "item_ok ctx (i, v)"
    by (simp_all add: item_ok_def)
  from Cons.IH [OF _ set_prop_items [OF this(1) Cons.prems(2) this(2)]] Cons.prems(1)
  show ?case by (simp add: x)
qed simp

lemma subids_set_prop:
  "length (SubscriptionIdentifiers (set_prop i v p)) \<le>
    length (SubscriptionIdentifiers p) + (if i = propSubscriptionID then 1 else 0)"
  by (cases v) (simp_all add: set_prop_def)

lemma subids_fresh:
  assumes "fresh ctx seen xs" "\<not> repeatable ctx propSubscriptionID"
  shows "length (SubscriptionIdentifiers (set_props xs p)) \<le>
    length (SubscriptionIdentifiers p) + (if propSubscriptionID \<in> seen then 0 else 1)"
  using assms
proof (induction xs arbitrary: p seen)
  case (Cons x xs)
  obtain i v where x: "x = (i, v)" by (cases x)
  from Cons.prems have "i \<in> seen \<longrightarrow> repeatable ctx i" "fresh ctx (insert i seen) xs"
    by (simp_all add: x)
  with Cons.IH [of "insert i seen" "set_prop i v p"] Cons.prems(2) subids_set_prop [of i v p]
  show ?case by (auto simp: x split: if_splits)
qed simp

lemma items_empty [simp]: "items empty_props = []"
  by (simp add: items_def empty_props_def opt_item_def seq_item_def)

lemma get_prop_empty:
  "get_prop propPayloadFormat p = [] \<longleftrightarrow> PayloadFormat p = None"
  "get_prop propMessageExpiry p = [] \<longleftrightarrow> MessageExpiryInterval p = None"
  "get_prop propContentType p = [] \<longleftrightarrow> ContentType p = []"
  "get_prop propResponseTopic p = [] \<longleftrightarrow> ResponseTopic p = []"
  "get_prop propCorrelationData p = [] \<longleftrightarrow> CorrelationData p = []"
  "get_prop propSubscriptionID p = [] \<longleftrightarrow> SubscriptionIdentifiers p = []"
  "get_prop propSessionExpiry p = [] \<longleftrightarrow> SessionExpiryInterval p = None"
  "get_prop propAssignedClientID p = [] \<longleftrightarrow> AssignedClientID p = []"
  "get_prop propServerKeepAlive p = [] \<longleftrightarrow> ServerKeepAlive p = None"
  "get_prop propAuthMethod p = [] \<longleftrightarrow> AuthenticationMethod p = []"
  "get_prop propAuthData p = [] \<longleftrightarrow> AuthenticationData p = []"
  "get_prop propRequestProblemInfo p = [] \<longleftrightarrow> RequestProblemInfo p = None"
  "get_prop propWillDelayInterval p = [] \<longleftrightarrow> WillDelayInterval p = None"
  "get_prop propRequestResponse p = [] \<longleftrightarrow> RequestResponseInfo p = None"
  "get_prop propResponseInfo p = [] \<longleftrightarrow> ResponseInformation p = []"
  "get_prop propServerReference p = [] \<longleftrightarrow> ServerReference p = []"
  "get_prop propReasonString p = [] \<longleftrightarrow> ReasonString p = []"
  "get_prop propReceiveMaximum p = [] \<longleftrightarrow> ReceiveMaximum p = None"
  "get_prop propTopicAliasMaximum p = [] \<longleftrightarrow> TopicAliasMaximum p = None"
  "get_prop propTopicAlias p = [] \<longleftrightarrow> TopicAlias p = None"
  "get_prop propMaximumQoS p = [] \<longleftrightarrow> MaximumQoS p = None"
  "get_prop propRetainAvailable p = [] \<longleftrightarrow> RetainAvailable p = None"
  "get_prop propUser p = [] \<longleftrightarrow> User p = []"
  "get_prop propMaximumPacketSize p = [] \<longleftrightarrow> MaximumPacketSize p = None"
  "get_prop propWildcardSubAvail p = [] \<longleftrightarrow> WildcardSubAvailable p = None"
  "get_prop propSubIDAvail p = [] \<longleftrightarrow> SubIDAvailable p = None"
  "get_prop propSharedSubAvail p = [] \<longleftrightarrow> SharedSubAvailable p = None"
  by (simp_all add: get_prop_def opt_item_def seq_item_def split: option.split)

lemma restrict_legal:
  assumes "\<forall>x \<in> set (items p). allowedIn (fst x) ctx"
  shows "props_restrict ctx p = p"
proof -
  have absent: "get_prop i p = []" if "\<not> allowedIn i ctx" "i \<in> set (map fst prop_kinds)" for i
  proof (rule ccontr)
    assume "get_prop i p \<noteq> []"
    then obtain v where "v \<in> set (get_prop i p)" by (cases "get_prop i p") auto
    with that(2) have "(i, v) \<in> set (items p)" by (force simp: items_get)
    with assms that(1) show False by force
  qed
  have
    "\<not> allowedIn propPayloadFormat ctx \<Longrightarrow> PayloadFormat p = None"
    "\<not> allowedIn propMessageExpiry ctx \<Longrightarrow> MessageExpiryInterval p = None"
    "\<not> allowedIn propContentType ctx \<Longrightarrow> ContentType p = []"
    "\<not> allowedIn propResponseTopic ctx \<Longrightarrow> ResponseTopic p = []"
    "\<not> allowedIn propCorrelationData ctx \<Longrightarrow> CorrelationData p = []"
    "\<not> allowedIn propSubscriptionID ctx \<Longrightarrow> SubscriptionIdentifiers p = []"
    "\<not> allowedIn propSessionExpiry ctx \<Longrightarrow> SessionExpiryInterval p = None"
    "\<not> allowedIn propAssignedClientID ctx \<Longrightarrow> AssignedClientID p = []"
    "\<not> allowedIn propServerKeepAlive ctx \<Longrightarrow> ServerKeepAlive p = None"
    "\<not> allowedIn propAuthMethod ctx \<Longrightarrow> AuthenticationMethod p = []"
    "\<not> allowedIn propAuthData ctx \<Longrightarrow> AuthenticationData p = []"
    "\<not> allowedIn propRequestProblemInfo ctx \<Longrightarrow> RequestProblemInfo p = None"
    "\<not> allowedIn propWillDelayInterval ctx \<Longrightarrow> WillDelayInterval p = None"
    "\<not> allowedIn propRequestResponse ctx \<Longrightarrow> RequestResponseInfo p = None"
    "\<not> allowedIn propResponseInfo ctx \<Longrightarrow> ResponseInformation p = []"
    "\<not> allowedIn propServerReference ctx \<Longrightarrow> ServerReference p = []"
    "\<not> allowedIn propReasonString ctx \<Longrightarrow> ReasonString p = []"
    "\<not> allowedIn propReceiveMaximum ctx \<Longrightarrow> ReceiveMaximum p = None"
    "\<not> allowedIn propTopicAliasMaximum ctx \<Longrightarrow> TopicAliasMaximum p = None"
    "\<not> allowedIn propTopicAlias ctx \<Longrightarrow> TopicAlias p = None"
    "\<not> allowedIn propMaximumQoS ctx \<Longrightarrow> MaximumQoS p = None"
    "\<not> allowedIn propRetainAvailable ctx \<Longrightarrow> RetainAvailable p = None"
    "\<not> allowedIn propUser ctx \<Longrightarrow> User p = []"
    "\<not> allowedIn propMaximumPacketSize ctx \<Longrightarrow> MaximumPacketSize p = None"
    "\<not> allowedIn propWildcardSubAvail ctx \<Longrightarrow> WildcardSubAvailable p = None"
    "\<not> allowedIn propSubIDAvail ctx \<Longrightarrow> SubIDAvailable p = None"
    "\<not> allowedIn propSharedSubAvail ctx \<Longrightarrow> SharedSubAvailable p = None"
    unfolding get_prop_empty [symmetric] by (rule absent; simp add: prop_kinds_def)+
  then show ?thesis by (intro properties.equality) (simp_all add: props_restrict_def)
qed

text \<open>Whatever bytes were decoded, the result holds legal, in-range values only; encoding it for the
  same packet type drops nothing.\<close>

lemma readProperties_wf:
  assumes "rd_ok r" "readProperties r ctx = Inr (p, r')"
  shows "props_wf ctx p" "props_restrict ctx p = p"
proof -
  obtain xs where xs: "items_ok ctx xs" "p = set_props xs empty_props"
    using readProperties_ok [OF assms] by blast
  then have ok: "\<forall>x \<in> set (items p). item_ok ctx x"
    using set_props_item_ok [of xs ctx empty_props] by (simp add: items_ok_def)
  have "length (SubscriptionIdentifiers p) \<le> 1" if "ctx = SUBSCRIBE"
    using subids_fresh [of ctx "{}" xs empty_props] that xs by (simp add: items_ok_def repeatable_def)
  with ok show "props_wf ctx p"
    by (fastforce simp: props_wf_def item_ok_def)
  show "props_restrict ctx p = p"
    by (rule restrict_legal) (use ok in \<open>fastforce simp: item_ok_def\<close>)
qed

end
