(* ===== verification/Packets.thy ===== *)
theory Packets
  imports Properties
begin

text \<open>
  The fifteen MQTT control packets: \<^verbatim>\<open>src/packet/connect.go\<close>, \<^verbatim>\<open>connack.go\<close>, \<^verbatim>\<open>publish.go\<close>,
  \<^verbatim>\<open>ack.go\<close>, \<^verbatim>\<open>subscribe.go\<close>, \<^verbatim>\<open>suback.go\<close> and \<^verbatim>\<open>control.go\<close>. Each Go struct is a record, each
  \<^verbatim>\<open>decodeX\<close> a function on the reader and each \<^verbatim>\<open>encode\<close> method a function into the header flags and
  the body. A nil-able byte slice whose nil-ness matters (the CONNECT password) is an \<open>option\<close>.
\<close>

section \<open>Packet types\<close>

record will =
  wl_Topic :: string
  wl_Payload :: bytes
  wl_QoS :: QoS
  wl_Retain :: bool
  wl_Properties :: "properties option"

record connect =
  cn_ClientID :: string
  cn_CleanStart :: bool
  cn_KeepAlive :: u16
  cn_Will :: "will option"
  cn_Username :: string
  cn_Password :: "bytes option"
  cn_Properties :: "properties option"
  cn_ProtocolVersion :: byte

record connack =
  ca_SessionPresent :: bool
  ca_ReasonCode :: ReasonCode
  ca_Properties :: "properties option"

record publish =
  pb_Dup :: bool
  pb_QoS :: QoS
  pb_Retain :: bool
  pb_Topic :: string
  pb_PacketID :: u16
  pb_Properties :: "properties option"
  pb_Payload :: bytes

record ack =
  ak_PacketID :: u16
  ak_ReasonCode :: ReasonCode
  ak_Properties :: "properties option"

record subscription =
  sb_Filter :: string
  sb_QoS :: QoS
  sb_NoLocal :: bool
  sb_RetainAsPublished :: bool
  sb_RetainHandling :: byte

record subscribe =
  su_PacketID :: u16
  su_Properties :: "properties option"
  su_Subscriptions :: "subscription list"

record unsubscribe =
  un_PacketID :: u16
  un_Properties :: "properties option"
  un_Filters :: "string list"

text \<open>SUBACK and UNSUBACK have the same fields, as have DISCONNECT and AUTH.\<close>

record reason_list =
  rl_PacketID :: u16
  rl_Properties :: "properties option"
  rl_ReasonCodes :: "ReasonCode list"

record reason =
  rs_ReasonCode :: ReasonCode
  rs_Properties :: "properties option"

datatype packet =
    Connect connect
  | Connack connack
  | Publish publish
  | Puback ack
  | Pubrec ack
  | Pubrel ack
  | Pubcomp ack
  | Subscribe subscribe
  | Suback reason_list
  | Unsubscribe unsubscribe
  | Unsuback reason_list
  | Pingreq
  | Pingresp
  | Disconnect reason
  | Auth reason

fun packet_Type :: "packet \<Rightarrow> ptype" where
  "packet_Type (Connect _) = CONNECT"
| "packet_Type (Connack _) = CONNACK"
| "packet_Type (Publish _) = PUBLISH"
| "packet_Type (Puback _) = PUBACK"
| "packet_Type (Pubrec _) = PUBREC"
| "packet_Type (Pubrel _) = PUBREL"
| "packet_Type (Pubcomp _) = PUBCOMP"
| "packet_Type (Subscribe _) = SUBSCRIBE"
| "packet_Type (Suback _) = SUBACK"
| "packet_Type (Unsubscribe _) = UNSUBSCRIBE"
| "packet_Type (Unsuback _) = UNSUBACK"
| "packet_Type Pingreq = PINGREQ"
| "packet_Type Pingresp = PINGRESP"
| "packet_Type (Disconnect _) = DISCONNECT"
| "packet_Type (Auth _) = AUTH"

section \<open>CONNECT\<close>

abbreviation (input) ProtocolVersion5 :: byte where "ProtocolVersion5 \<equiv> 5"

definition protocolName :: string where
  "protocolName = ''MQTT''"

text \<open>The optional payload fields: read when the flag bit is set.\<close>

definition r_opt :: "bool \<Rightarrow> (reader \<Rightarrow> ('a \<times> reader) res) \<Rightarrow> reader \<Rightarrow> ('a option \<times> reader) res" where
  "r_opt b dec r = (if b then rbind (dec r) (\<lambda>(v, r'). Inr (Some v, r')) else Inr (None, r))"

definition decodeWill :: "QoS \<Rightarrow> bool \<Rightarrow> reader \<Rightarrow> (will \<times> reader) res" where
  "decodeWill willQoS willRetain r =
    rbind (readProperties r willContext) (\<lambda>(wprops, r1).
    rbind (r_string r1) (\<lambda>(wtopic, r2).
    rbind (r_binary r2) (\<lambda>(payload, r3).
    Inr (\<lparr>wl_Topic = wtopic, wl_Payload = payload, wl_QoS = willQoS, wl_Retain = willRetain,
          wl_Properties = Some wprops\<rparr>, r3))))"

definition decodeConnect :: "reader \<Rightarrow> connect res" where
  "decodeConnect r =
    rbind (r_string r) (\<lambda>(name, r1).
    if name \<noteq> protocolName then Inl ErrMalformed else
    rbind (r_byte r1) (\<lambda>(version, r2).
    if version \<noteq> ProtocolVersion5 then Inl (ErrUnsupportedProtocolVersion version) else
    rbind (r_byte r2) (\<lambda>(flags, r3).
    if flags AND 0x01 \<noteq> 0 then Inl ErrMalformed else
    let cleanStart = (flags AND 0x02 \<noteq> 0);
        willFlag = (flags AND 0x04 \<noteq> 0);
        willQoS = drop_bit 3 flags AND 0x03;
        willRetain = (flags AND 0x20 \<noteq> 0);
        hasPassword = (flags AND 0x40 \<noteq> 0);
        hasUsername = (flags AND 0x80 \<noteq> 0)
    in
    if \<not> willFlag \<and> willQoS \<noteq> 0 then Inl ErrMalformed
    else if \<not> willFlag \<and> willRetain then Inl ErrMalformed
    else if willFlag \<and> \<not> QoS_Valid willQoS then Inl ErrMalformed
    else
    rbind (r_uint16 r3) (\<lambda>(keepAlive, r4).
    rbind (readProperties r4 CONNECT) (\<lambda>(props, r5).
    if 0 < length (AuthenticationData props) \<and> AuthenticationMethod props = [] then Inl ErrProtocol else
    rbind (r_string r5) (\<lambda>(clientID, r6).
    rbind (r_opt willFlag (decodeWill willQoS willRetain) r6) (\<lambda>(wl, r7).
    rbind (r_opt hasUsername r_string r7) (\<lambda>(username, r8).
    rbind (r_opt hasPassword r_binary r8) (\<lambda>(password, r9).
    if \<not> r_empty r9 then Inl ErrMalformed else
    Inr \<lparr>cn_ClientID = clientID, cn_CleanStart = cleanStart, cn_KeepAlive = keepAlive, cn_Will = wl,
         cn_Username = (case username of None \<Rightarrow> [] | Some u \<Rightarrow> u),
         cn_Password = (case password of None \<Rightarrow> None | Some p \<Rightarrow> if p = [] then None else Some p),
         cn_Properties = Some props, cn_ProtocolVersion = version\<rparr>)))))))))"

definition connect_flags :: "connect \<Rightarrow> byte res" where
  "connect_flags c =
    (let f0 = (if cn_CleanStart c then 0x02 else 0) in
     rbind
       (case cn_Will c of
          None \<Rightarrow> Inr f0
        | Some w \<Rightarrow>
            if \<not> QoS_Valid (wl_QoS w) then Inl ErrMalformed
            else Inr (f0 OR (0x04 OR push_bit 3 (wl_QoS w)) OR (if wl_Retain w then 0x20 else 0)))
       (\<lambda>f1. Inr (f1 OR (if cn_Username c \<noteq> [] then 0x80 else 0)
                     OR (if cn_Password c \<noteq> None then 0x40 else 0))))"

definition connect_encode :: "connect \<Rightarrow> (byte \<times> bytes) res" where
  "connect_encode c =
    rbind (checkStringLen (cn_ClientID c)) (\<lambda>_.
    rbind (connect_flags c) (\<lambda>flags.
    rbind (props_encode (cn_Properties c) CONNECT) (\<lambda>pb.
    rbind (case cn_Will c of
             None \<Rightarrow> Inr []
           | Some w \<Rightarrow>
               rbind (checkStringLen (wl_Topic w)) (\<lambda>_.
               rbind (checkBinaryLen (wl_Payload w)) (\<lambda>_.
               rbind (props_encode (wl_Properties w) willContext) (\<lambda>wpb.
               Inr (wpb @ w_string (wl_Topic w) @ w_binary (wl_Payload w)))))) (\<lambda>wb.
    rbind (if cn_Username c \<noteq> [] then
             rbind (checkStringLen (cn_Username c)) (\<lambda>_. Inr (w_string (cn_Username c)))
           else Inr []) (\<lambda>ub.
    rbind (case cn_Password c of
             None \<Rightarrow> Inr []
           | Some p \<Rightarrow> rbind (checkBinaryLen p) (\<lambda>_. Inr (w_binary p))) (\<lambda>pwb.
    Inr (0, w_string protocolName @ w_byte ProtocolVersion5 @ w_byte flags @ w_uint16 (cn_KeepAlive c) @
            pb @ w_string (cn_ClientID c) @ wb @ ub @ pwb)))))))"

section \<open>CONNACK\<close>

definition decodeConnack :: "reader \<Rightarrow> connack res" where
  "decodeConnack r =
    rbind (r_byte r) (\<lambda>(ackFlags, r1).
    if ackFlags AND 0xFE \<noteq> 0 then Inl ErrMalformed else
    rbind (r_byte r1) (\<lambda>(code, r2).
    rbind (readProperties r2 CONNACK) (\<lambda>(props, r3).
    if \<not> r_empty r3 then Inl ErrMalformed else
    Inr \<lparr>ca_SessionPresent = (ackFlags AND 0x01 \<noteq> 0), ca_ReasonCode = code, ca_Properties = Some props\<rparr>)))"

definition connack_encode :: "connack \<Rightarrow> (byte \<times> bytes) res" where
  "connack_encode c =
    (let ackFlags = (if ca_SessionPresent c \<and> \<not> IsError (ca_ReasonCode c) then 0x01 else 0) in
     rbind (props_encode (ca_Properties c) CONNACK) (\<lambda>pb.
     Inr (0, w_byte ackFlags @ w_byte (ca_ReasonCode c) @ pb)))"

section \<open>PUBLISH\<close>

definition decodePublish :: "byte \<Rightarrow> reader \<Rightarrow> publish res" where
  "decodePublish flags r =
    (let dup = (flags AND 0x08 \<noteq> 0);
         qos = drop_bit 1 flags AND 0x03;
         retain = (flags AND 0x01 \<noteq> 0)
     in
     if \<not> QoS_Valid qos then Inl ErrMalformed
     else if qos = QoS0 \<and> dup then Inl ErrMalformed
     else
     rbind (r_string r) (\<lambda>(topic, r1).
     rbind (if QoS0 < qos then
              rbind (r_uint16 r1) (\<lambda>(i, r2). if i = 0 then Inl ErrProtocol else Inr (i, r2))
            else Inr (0, r1)) (\<lambda>(packetID, r2).
     rbind (readProperties r2 PUBLISH) (\<lambda>(props, r3).
     if topic = [] \<and> TopicAlias props = None then Inl ErrProtocol else
     rbind (go_slice (buf r3) (pos r3) (length (buf r3))) (\<lambda>payload.
     Inr \<lparr>pb_Dup = dup, pb_QoS = qos, pb_Retain = retain, pb_Topic = topic, pb_PacketID = packetID,
          pb_Properties = Some props, pb_Payload = payload\<rparr>)))))"

definition publish_encode :: "publish \<Rightarrow> (byte \<times> bytes) res" where
  "publish_encode p =
    (if \<not> QoS_Valid (pb_QoS p) then Inl ErrMalformed else
     rbind (checkStringLen (pb_Topic p)) (\<lambda>_.
     let flags = (if pb_Dup p \<and> pb_QoS p \<noteq> QoS0 then 0x08 else 0) OR push_bit 1 (pb_QoS p)
                 OR (if pb_Retain p then 0x01 else 0)
     in
     rbind (props_encode (pb_Properties p) PUBLISH) (\<lambda>pb.
     Inr (flags, w_string (pb_Topic p) @
                 (if QoS0 < pb_QoS p then w_uint16 (pb_PacketID p) else []) @ pb @ pb_Payload p))))"

section \<open>PUBACK, PUBREC, PUBREL and PUBCOMP\<close>

definition decodeAck :: "ptype \<Rightarrow> reader \<Rightarrow> packet res" where
  "decodeAck t r =
    rbind (r_uint16 r) (\<lambda>(i, r1).
    rbind (if r_empty r1 then Inr ((Success, empty_props), r1)
           else
             rbind (r_byte r1) (\<lambda>(code, r2).
             if r_empty r2 then Inr ((code, empty_props), r2)
             else rbind (readProperties r2 t) (\<lambda>(props, r3). Inr ((code, props), r3))))
      (\<lambda>((code, props), r3).
    if \<not> r_empty r3 then Inl ErrMalformed else
    let a = \<lparr>ak_PacketID = i, ak_ReasonCode = code, ak_Properties = Some props\<rparr> in
    Inr (if t = PUBACK then Puback a else if t = PUBREC then Pubrec a
         else if t = PUBREL then Pubrel a else Pubcomp a)))"

text \<open>\<^verbatim>\<open>noProps\<close>: the encoded property block is the single byte 0.\<close>

definition noProps :: "bytes \<Rightarrow> bool res" where
  "noProps pb = (if length pb = 1 then rbind (go_index pb 0) (\<lambda>b. Inr (b = 0)) else Inr False)"

definition ack_encode :: "ptype \<Rightarrow> ack \<Rightarrow> (byte \<times> bytes) res" where
  "ack_encode t a =
    rbind (props_encode (ak_Properties a) t) (\<lambda>pb.
    rbind (noProps pb) (\<lambda>np.
    rbind (go_index reservedFlags (unat t)) (\<lambda>rf.
    if ak_ReasonCode a = Success \<and> np then Inr (rf, w_uint16 (ak_PacketID a))
    else if np then Inr (rf, w_uint16 (ak_PacketID a) @ w_byte (ak_ReasonCode a))
    else Inr (rf, w_uint16 (ak_PacketID a) @ w_byte (ak_ReasonCode a) @ pb))))"

section \<open>SUBSCRIBE and UNSUBSCRIBE\<close>

abbreviation (input) RetainSendAlways :: byte where "RetainSendAlways \<equiv> 0"
abbreviation (input) RetainSendOnNew :: byte where "RetainSendOnNew \<equiv> 1"
abbreviation (input) RetainSendNever :: byte where "RetainSendNever \<equiv> 2"

text \<open>One round of the loop over the Topic Filters.\<close>

definition readSubscription :: "reader \<Rightarrow> (subscription \<times> reader) res" where
  "readSubscription r =
    rbind (r_string r) (\<lambda>(fltr, r1).
    rbind (r_byte r1) (\<lambda>(opts, r2).
    if opts AND 0xC0 \<noteq> 0 then Inl ErrMalformed else
    let sub = \<lparr>sb_Filter = fltr, sb_QoS = opts AND 0x03, sb_NoLocal = (opts AND 0x04 \<noteq> 0),
               sb_RetainAsPublished = (opts AND 0x08 \<noteq> 0),
               sb_RetainHandling = drop_bit 4 opts AND 0x03\<rparr> in
    if \<not> QoS_Valid (sb_QoS sub) then Inl ErrProtocol
    else if RetainSendNever < sb_RetainHandling sub then Inl ErrProtocol
    else Inr (sub, r2)))"

definition sub_opts :: "subscription \<Rightarrow> byte" where
  "sub_opts sub =
    (sb_QoS sub OR push_bit 4 (sb_RetainHandling sub)) OR (if sb_NoLocal sub then 0x04 else 0)
    OR (if sb_RetainAsPublished sub then 0x08 else 0)"

definition w_subscription :: "subscription \<Rightarrow> bytes" where
  "w_subscription sub = w_string (sb_Filter sub) @ w_byte (sub_opts sub)"

definition encodeSubscription :: "subscription \<Rightarrow> bytes res" where
  "encodeSubscription sub =
    rbind (checkStringLen (sb_Filter sub)) (\<lambda>_.
    if \<not> QoS_Valid (sb_QoS sub) then Inl ErrProtocol
    else if RetainSendNever < sb_RetainHandling sub then Inl ErrProtocol
    else Inr (w_subscription sub))"

definition subscribe_encode :: "subscribe \<Rightarrow> (byte \<times> bytes) res" where
  "subscribe_encode s =
    (if su_Subscriptions s = [] then Inl ErrProtocol else
     rbind (props_encode (su_Properties s) SUBSCRIBE) (\<lambda>pb.
     rbind (cat_res (map encodeSubscription (su_Subscriptions s))) (\<lambda>sb.
     rbind (go_index reservedFlags (unat SUBSCRIBE)) (\<lambda>rf.
     Inr (rf, w_uint16 (su_PacketID s) @ pb @ sb)))))"

definition unsubscribe_encode :: "unsubscribe \<Rightarrow> (byte \<times> bytes) res" where
  "unsubscribe_encode u =
    (if un_Filters u = [] then Inl ErrProtocol else
     rbind (props_encode (un_Properties u) UNSUBSCRIBE) (\<lambda>pb.
     rbind (cat_res (map (\<lambda>f. rbind (checkStringLen f) (\<lambda>_. Inr (w_string f))) (un_Filters u))) (\<lambda>fb.
     rbind (go_index reservedFlags (unat UNSUBSCRIBE)) (\<lambda>rf.
     Inr (rf, w_uint16 (un_PacketID u) @ pb @ fb)))))"

text \<open>A field that consumes at least one byte makes the decode loops end.\<close>

lemma wire_rest_less:
  assumes "wire_codec dec enc dm" "\<And>v. enc v \<noteq> []" "\<not> r_empty r" "dec r = Inr (v, r')"
  shows "length (rest r') < length (rest r)"
proof -
  have "rd_ok r" using assms(3) by (simp add: r_empty_def rd_ok_def)
  then have "rest r = enc v @ rest r'" using wire_codec.dec_ok [OF assms(1) _ assms(4)] by blast
  with assms(2) show ?thesis by simp
qed

lemma readSubscription_less:
  assumes "\<not> r_empty r" "readSubscription r = Inr (s, r')"
  shows "length (rest r') < length (rest r)"
proof -
  obtain f r1 opts where 1: "r_string r = Inr (f, r1)" and 2: "r_byte r1 = Inr (opts, r')"
    using assms(2) by (auto simp: readSubscription_def rbind_Inr_iff Let_def split: if_splits)
  have "rd_ok r" using assms(1) by (simp add: r_empty_def rd_ok_def)
  from c_string.dec_ok [OF this 1] have "rd_ok r1" "rest r = w_string f @ rest r1" by blast+
  moreover from c_byte.dec_ok [OF this(1) 2] have "rest r1 = w_byte opts @ rest r'" by blast
  ultimately show ?thesis by simp
qed

function subscriptions_loop :: "reader \<Rightarrow> subscription list \<Rightarrow> subscription list res" where
  "subscriptions_loop r acc =
    (if r_empty r then Inr acc
     else rbind (readSubscription r) (\<lambda>(sub, r'). subscriptions_loop r' (acc @ [sub])))"
  by pat_completeness auto
termination
  by (relation "measure (\<lambda>(r, _). length (rest r))") (auto dest: readSubscription_less)

function filters_loop :: "reader \<Rightarrow> string list \<Rightarrow> string list res" where
  "filters_loop r acc =
    (if r_empty r then Inr acc
     else rbind (r_string r) (\<lambda>(f, r'). filters_loop r' (acc @ [f])))"
  by pat_completeness auto
termination
  by (relation "measure (\<lambda>(r, _). length (rest r))")
     (auto dest: wire_rest_less [OF c_string.wire_codec_axioms, rotated] simp: w_string_def w_uint16_def)

function codes_loop :: "reader \<Rightarrow> ReasonCode list \<Rightarrow> ReasonCode list res" where
  "codes_loop r acc =
    (if r_empty r then Inr acc
     else rbind (r_byte r) (\<lambda>(b, r'). codes_loop r' (acc @ [b])))"
  by pat_completeness auto
termination
  by (relation "measure (\<lambda>(r, _). length (rest r))")
     (auto dest: wire_rest_less [OF c_byte.wire_codec_axioms, rotated] simp: w_byte_def)

declare subscriptions_loop.simps [simp del] filters_loop.simps [simp del] codes_loop.simps [simp del]

definition decodeSubscribe :: "reader \<Rightarrow> subscribe res" where
  "decodeSubscribe r =
    rbind (r_uint16 r) (\<lambda>(i, r1).
    if i = 0 then Inl ErrProtocol else
    rbind (readProperties r1 SUBSCRIBE) (\<lambda>(props, r2).
    rbind (subscriptions_loop r2 []) (\<lambda>subs.
    if length subs = 0 then Inl ErrProtocol else
    Inr \<lparr>su_PacketID = i, su_Properties = Some props, su_Subscriptions = subs\<rparr>)))"

definition decodeUnsubscribe :: "reader \<Rightarrow> unsubscribe res" where
  "decodeUnsubscribe r =
    rbind (r_uint16 r) (\<lambda>(i, r1).
    if i = 0 then Inl ErrProtocol else
    rbind (readProperties r1 UNSUBSCRIBE) (\<lambda>(props, r2).
    rbind (filters_loop r2 []) (\<lambda>fs.
    if length fs = 0 then Inl ErrProtocol else
    Inr \<lparr>un_PacketID = i, un_Properties = Some props, un_Filters = fs\<rparr>)))"

section \<open>SUBACK and UNSUBACK\<close>

definition decodeReasonCodeList :: "reader \<Rightarrow> ptype \<Rightarrow> reason_list res" where
  "decodeReasonCodeList r t =
    rbind (r_uint16 r) (\<lambda>(i, r1).
    rbind (readProperties r1 t) (\<lambda>(props, r2).
    rbind (codes_loop r2 []) (\<lambda>codes.
    if length codes = 0 then Inl ErrProtocol else
    Inr \<lparr>rl_PacketID = i, rl_Properties = Some props, rl_ReasonCodes = codes\<rparr>)))"

definition encodeReasonCodeList :: "ptype \<Rightarrow> reason_list \<Rightarrow> (byte \<times> bytes) res" where
  "encodeReasonCodeList t s =
    (if rl_ReasonCodes s = [] then Inl ErrProtocol else
     rbind (props_encode (rl_Properties s) t) (\<lambda>pb.
     Inr (0, w_uint16 (rl_PacketID s) @ pb @ concat (map w_byte (rl_ReasonCodes s)))))"

section \<open>PINGREQ, PINGRESP, DISCONNECT and AUTH\<close>

definition decodeDisconnect :: "reader \<Rightarrow> reason res" where
  "decodeDisconnect r =
    (if r_empty r then Inr \<lparr>rs_ReasonCode = 0, rs_Properties = Some empty_props\<rparr> else
     rbind (r_byte r) (\<lambda>(code, r1).
     if r_empty r1 then Inr \<lparr>rs_ReasonCode = code, rs_Properties = Some empty_props\<rparr> else
     rbind (readProperties r1 DISCONNECT) (\<lambda>(props, r2).
     if \<not> r_empty r2 then Inl ErrMalformed else
     Inr \<lparr>rs_ReasonCode = code, rs_Properties = Some props\<rparr>)))"

definition disconnect_encode :: "reason \<Rightarrow> (byte \<times> bytes) res" where
  "disconnect_encode d =
    rbind (props_encode (rs_Properties d) DISCONNECT) (\<lambda>pb.
    rbind (noProps pb) (\<lambda>np.
    if rs_ReasonCode d = NormalDisconnection \<and> np then Inr (0, [])
    else if np then Inr (0, w_byte (rs_ReasonCode d))
    else Inr (0, w_byte (rs_ReasonCode d) @ pb)))"

definition decodeAuth :: "reader \<Rightarrow> reason res" where
  "decodeAuth r =
    (if r_empty r then Inr \<lparr>rs_ReasonCode = 0, rs_Properties = Some empty_props\<rparr> else
     rbind (r_byte r) (\<lambda>(code, r1).
     if r_empty r1 then Inr \<lparr>rs_ReasonCode = code, rs_Properties = Some empty_props\<rparr> else
     rbind (readProperties r1 AUTH) (\<lambda>(props, r2).
     if \<not> r_empty r2 then Inl ErrMalformed else
     Inr \<lparr>rs_ReasonCode = code, rs_Properties = Some props\<rparr>)))"

definition auth_encode :: "reason \<Rightarrow> (byte \<times> bytes) res" where
  "auth_encode a =
    rbind (props_encode (rs_Properties a) AUTH) (\<lambda>pb.
    rbind (noProps pb) (\<lambda>np.
    if rs_ReasonCode a = Success \<and> np then Inr (0, [])
    else if np then Inr (0, w_byte (rs_ReasonCode a))
    else Inr (0, w_byte (rs_ReasonCode a) @ pb)))"

section \<open>All packets\<close>

fun packet_encode :: "packet \<Rightarrow> (byte \<times> bytes) res" where
  "packet_encode (Connect c) = connect_encode c"
| "packet_encode (Connack c) = connack_encode c"
| "packet_encode (Publish p) = publish_encode p"
| "packet_encode (Puback a) = ack_encode PUBACK a"
| "packet_encode (Pubrec a) = ack_encode PUBREC a"
| "packet_encode (Pubrel a) = ack_encode PUBREL a"
| "packet_encode (Pubcomp a) = ack_encode PUBCOMP a"
| "packet_encode (Subscribe s) = subscribe_encode s"
| "packet_encode (Suback s) = encodeReasonCodeList SUBACK s"
| "packet_encode (Unsubscribe u) = unsubscribe_encode u"
| "packet_encode (Unsuback u) = encodeReasonCodeList UNSUBACK u"
| "packet_encode Pingreq = Inr (0, [])"
| "packet_encode Pingresp = Inr (0, [])"
| "packet_encode (Disconnect d) = disconnect_encode d"
| "packet_encode (Auth a) = auth_encode a"

definition map_res :: "('a \<Rightarrow> 'b) \<Rightarrow> 'a res \<Rightarrow> 'b res" where
  "map_res f m = rbind m (\<lambda>x. Inr (f x))"

definition decode_body :: "ptype \<Rightarrow> byte \<Rightarrow> bytes \<Rightarrow> packet res" where
  "decode_body t flags body =
    (let r = new_reader body in
     if t = CONNECT then map_res Connect (decodeConnect r)
     else if t = CONNACK then map_res Connack (decodeConnack r)
     else if t = PUBLISH then map_res Publish (decodePublish flags r)
     else if t = PUBACK \<or> t = PUBREC \<or> t = PUBREL \<or> t = PUBCOMP then decodeAck t r
     else if t = SUBSCRIBE then map_res Subscribe (decodeSubscribe r)
     else if t = SUBACK then map_res Suback (decodeReasonCodeList r SUBACK)
     else if t = UNSUBSCRIBE then map_res Unsubscribe (decodeUnsubscribe r)
     else if t = UNSUBACK then map_res Unsuback (decodeReasonCodeList r UNSUBACK)
     else if t = PINGREQ then (if remaining r \<noteq> 0 then Inl ErrMalformed else Inr Pingreq)
     else if t = PINGRESP then (if remaining r \<noteq> 0 then Inl ErrMalformed else Inr Pingresp)
     else if t = DISCONNECT then map_res Disconnect (decodeDisconnect r)
     else if t = AUTH then map_res Auth (decodeAuth r)
     else Inl ErrMalformed)"

end
