(* ===== verification/Packet_Roundtrip.thy ===== *)
theory Packet_Roundtrip
  imports Packets
begin

text \<open>
  What the packet decoders and encoders promise each other: every decoder either returns a
  well-formed packet or one of the decoder's errors (never a panic), and decoding the body an encoder
  produced gives the packet back, up to the normalisation the encoder documents (fields not legal in
  the packet are dropped).
\<close>

section \<open>Running a decoder\<close>

context wire_codec
begin

text \<open>Reading a field in front of a continuation.\<close>

lemma run:
  assumes "rd_ok r" "rest r = enc v @ xs" "dm v"
    and "\<And>r'. rd_ok r' \<Longrightarrow> rest r' = xs \<Longrightarrow> F v r' = Inr res"
  shows "rbind (dec r) (\<lambda>(v, r'). F v r') = Inr res"
proof -
  have "dec r = Inr (v, adv (length (enc v)) r)" using assms(1-3) dec_enc by blast
  moreover have "rd_ok (adv (length (enc v)) r)" "rest (adv (length (enc v)) r) = xs"
    using assms(1,2) by (simp_all add: rd_ok_adv)
  ultimately show ?thesis using assms(4) by simp
qed

end

lemma run_props:
  assumes "rd_ok r" "rest r = b @ xs" "wf_props ctx po" "props_encode po ctx = Inr b"
    and "length b \<le> MaxVarByteInt"
    and "\<And>r'. rd_ok r' \<Longrightarrow> rest r' = xs \<Longrightarrow> F (norm_props ctx po) r' = Inr res"
  shows "rbind (readProperties r ctx) (\<lambda>(p, r'). F p r') = Inr res"
proof -
  have "readProperties r ctx = Inr (norm_props ctx po, adv (length b) r)"
    using assms(1-5) props_roundtrip by blast
  moreover have "rd_ok (adv (length b) r)" "rest (adv (length b) r) = xs"
    using assms(1,2) by (simp_all add: rd_ok_adv)
  ultimately show ?thesis using assms(6) by simp
qed

section \<open>Fields repeated to the end of the body\<close>

locale wire_loop = wire_codec dec enc dm
  for dec :: "reader \<Rightarrow> ('a \<times> reader) res" and enc :: "'a \<Rightarrow> bytes" and dm :: "'a \<Rightarrow> bool" +
  fixes loop :: "reader \<Rightarrow> 'a list \<Rightarrow> 'a list res"
  assumes loop_eq: "loop r acc =
      (if r_empty r then Inr acc else rbind (dec r) (\<lambda>(v, r'). loop r' (acc @ [v])))"
    and enc_ne: "enc v \<noteq> []"
begin

lemma loop_enc:
  "rd_ok r \<Longrightarrow> rest r = concat (map enc vs) \<Longrightarrow> \<forall>v \<in> set vs. dm v \<Longrightarrow> loop r acc = Inr (acc @ vs)"
proof (induction vs arbitrary: r acc)
  case Nil
  then show ?case by (simp add: loop_eq r_empty_iff)
next
  case (Cons v vs)
  have "rbind (dec r) (\<lambda>(v, r'). loop r' (acc @ [v])) = Inr (acc @ v # vs)"
    by (rule run [where v = v and xs = "concat (map enc vs)"])
       (use Cons.prems Cons.IH [of _ "acc @ [v]"] in simp_all)
  moreover have "\<not> r_empty r" using Cons.prems(2) enc_ne by (simp add: r_empty_iff)
  ultimately show ?case by (simp add: loop_eq [of r])
qed

lemma loop_ok:
  "rd_ok r \<Longrightarrow> loop r acc = Inr ws \<Longrightarrow>
    \<exists>vs. ws = acc @ vs \<and> rest r = concat (map enc vs) \<and> (\<forall>v \<in> set vs. dm v)"
proof (induction "length (rest r)" arbitrary: r acc rule: less_induct)
  case less
  show ?case
  proof (cases "r_empty r")
    case True
    with less.prems show ?thesis by (intro exI [of _ "[]"]) (simp add: loop_eq [of r] r_empty_iff)
  next
    case False
    with less.prems obtain v r' where d: "dec r = Inr (v, r')" and l: "loop r' (acc @ [v]) = Inr ws"
      by (auto simp: loop_eq [of r] rbind_Inr_iff)
    from dec_ok [OF less.prems(1) d] have "dm v" "rd_ok r'" and rest: "rest r = enc v @ rest r'" by blast+
    moreover from rest enc_ne have "length (rest r') < length (rest r)" by simp
    ultimately obtain vs where "ws = acc @ v # vs" "rest r' = concat (map enc vs)" "\<forall>v \<in> set vs. dm v"
      using less.hyps [OF _ _ l] by fastforce
    with rest \<open>dm v\<close> show ?thesis by (intro exI [of _ "v # vs"]) simp
  qed
qed

lemma loop_err: "rd_ok r \<Longrightarrow> loop r acc = Inl e \<Longrightarrow> decode_error e"
proof (induction "length (rest r)" arbitrary: r acc rule: less_induct)
  case less
  then have ne: "\<not> r_empty r" by (auto simp: loop_eq [of r])
  show ?case
  proof (cases "dec r")
    case (Inl e')
    with less.prems ne show ?thesis by (simp add: loop_eq [of r] dec_err)
  next
    case (Inr a)
    then obtain v r' where d: "dec r = Inr (v, r')" by (cases a) auto
    from dec_ok [OF less.prems(1) d] have "rd_ok r'" and rest: "rest r = enc v @ rest r'" by blast+
    moreover from rest enc_ne have "length (rest r') < length (rest r)" by simp
    moreover have "loop r' (acc @ [v]) = Inl e" using less.prems(2) ne d by (simp add: loop_eq [of r])
    ultimately show ?thesis using less.hyps by blast
  qed
qed

end

interpretation l_filters: wire_loop r_string w_string wf_string filters_loop
  by unfold_locales (simp_all add: filters_loop.simps w_string_def w_uint16_def)

interpretation l_codes: wire_loop r_byte w_byte "\<lambda>_. True" codes_loop
  by unfold_locales (simp_all add: codes_loop.simps w_byte_def)

section \<open>Subscription options\<close>

definition wf_subscription :: "subscription \<Rightarrow> bool" where
  "wf_subscription s \<longleftrightarrow>
    wf_string (sb_Filter s) \<and> QoS_Valid (sb_QoS s) \<and> sb_RetainHandling s \<le> RetainSendNever"

lemma le2_cases: "(q :: byte) \<le> 2 \<longleftrightarrow> q = 0 \<or> q = 1 \<or> q = 2"
proof -
  have "q \<le> 2 \<longleftrightarrow> unat q \<le> 2" by (simp add: word_le_nat_alt)
  also have "\<dots> \<longleftrightarrow> unat q = 0 \<or> unat q = 1 \<or> unat q = 2" by auto
  also have "\<dots> \<longleftrightarrow> q = 0 \<or> q = 1 \<or> q = 2"
    by (simp add: word_unat_eq_iff)
  finally show ?thesis .
qed

lemma QoS_Valid_cases: "QoS_Valid q \<longleftrightarrow> q = 0 \<or> q = 1 \<or> q = 2"
  by (simp add: QoS_Valid_def le2_cases)

text \<open>The options byte determines the options and, its reserved bits being 0, is determined by them.\<close>

lemma sub_opts_dec:
  assumes "QoS_Valid (sb_QoS s)" "sb_RetainHandling s \<le> 2"
  shows "sub_opts s AND 0xC0 = 0" "sub_opts s AND 0x03 = sb_QoS s"
    "(sub_opts s AND 0x04 \<noteq> 0) = sb_NoLocal s" "(sub_opts s AND 0x08 \<noteq> 0) = sb_RetainAsPublished s"
    "drop_bit 4 (sub_opts s) AND 0x03 = sb_RetainHandling s"
  using assms unfolding sub_opts_def QoS_Valid_cases le2_cases
  by (auto split: if_splits)

lemma byte_bit_mask:
  "(b :: byte) AND 0x04 \<noteq> 0 \<longleftrightarrow> bit b 2" "b AND 0x08 \<noteq> 0 \<longleftrightarrow> bit b 3"
  using and_exp_eq_0_iff_not_bit [of b 2] and_exp_eq_0_iff_not_bit [of b 3] by simp_all

lemma sub_opts_enc:
  assumes "opts AND 0xC0 = 0"
  shows "sub_opts \<lparr>sb_Filter = f, sb_QoS = opts AND 0x03, sb_NoLocal = (opts AND 0x04 \<noteq> 0),
      sb_RetainAsPublished = (opts AND 0x08 \<noteq> 0), sb_RetainHandling = drop_bit 4 opts AND 0x03\<rparr> = opts"
proof (rule bit_word_eqI)
  fix n assume "n < LENGTH(8)"
  then have "n \<in> {0, 1, 2, 3, 4, 5, 6, 7}" by auto
  moreover have "\<not> bit (opts AND 0xC0) 6" "\<not> bit (opts AND 0xC0) 7" using assms by simp_all
  then have "\<not> bit opts 6" "\<not> bit opts 7" by (simp_all add: bit_simps)
  ultimately show "bit (sub_opts \<lparr>sb_Filter = f, sb_QoS = opts AND 0x03, sb_NoLocal = (opts AND 0x04 \<noteq> 0),
      sb_RetainAsPublished = (opts AND 0x08 \<noteq> 0), sb_RetainHandling = drop_bit 4 opts AND 0x03\<rparr>) n = bit opts n"
    unfolding sub_opts_def byte_bit_mask by (auto simp: bit_simps)
qed

lemma readSubscription_iff:
  "readSubscription r = Inr (s, r') \<longleftrightarrow>
    (\<exists>r1. r_string r = Inr (sb_Filter s, r1) \<and> r_byte r1 = Inr (sub_opts s, r')) \<and>
    QoS_Valid (sb_QoS s) \<and> sb_RetainHandling s \<le> 2" (is "?L \<longleftrightarrow> ?R")
proof
  assume ?L
  then show ?R
    by (auto simp: readSubscription_def rbind_Inr_iff Let_def sub_opts_enc not_less split: if_splits)
next
  assume R: ?R
  then obtain r1 where "r_string r = Inr (sb_Filter s, r1)" "r_byte r1 = Inr (sub_opts s, r')" by blast
  then show ?L
    using R sub_opts_dec [of s] by (simp add: readSubscription_def Let_def not_less)
qed

interpretation c_subscription: wire_codec readSubscription w_subscription wf_subscription
proof (unfold_locales, goal_cases)
  case (1 r s r')
  have "(\<exists>r1. r_string r = Inr (sb_Filter s, r1) \<and> r_byte r1 = Inr (sub_opts s, r')) \<longleftrightarrow>
    wf_string (sb_Filter s) \<and> (\<exists>xs. rest r = w_subscription s @ xs) \<and> r' = adv (length (w_subscription s)) r"
    (is "?L \<longleftrightarrow> ?R")
  proof
    assume ?L
    then obtain r1 where 2: "r_string r = Inr (sb_Filter s, r1)" and 3: "r_byte r1 = Inr (sub_opts s, r')"
      by blast
    from c_string.dec_ok [OF 1 2] have A: "wf_string (sb_Filter s)" "rest r = w_string (sb_Filter s) @ rest r1"
      "r1 = adv (length (w_string (sb_Filter s))) r" "rd_ok r1" by blast+
    from c_byte.dec_ok [OF A(4) 3] have B: "rest r1 = w_byte (sub_opts s) @ rest r'"
      "r' = adv (length (w_byte (sub_opts s))) r1" by blast+
    have "rest r = w_subscription s @ rest r'" unfolding w_subscription_def A(2) B(1) by simp
    moreover have "r' = adv (length (w_subscription s)) r" unfolding w_subscription_def B(2) A(3) by simp
    ultimately show ?R using A(1) by blast
  next
    assume R: ?R
    then obtain xs where xs: "rest r = w_string (sb_Filter s) @ w_byte (sub_opts s) @ xs"
      by (auto simp: w_subscription_def)
    let ?r1 = "adv (length (w_string (sb_Filter s))) r"
    have "r_string r = Inr (sb_Filter s, ?r1)"
      using c_string.dec_enc [OF 1 _ xs] R by simp
    moreover have "r_byte ?r1 = Inr (sub_opts s, adv (length (w_byte (sub_opts s))) ?r1)"
      by (rule c_byte.dec_enc [where xs = xs]) (use xs 1 in \<open>simp_all add: rd_ok_adv\<close>)
    ultimately show ?L using R by (simp add: w_subscription_def)
  qed
  then show ?case by (auto simp: readSubscription_iff wf_subscription_def)
next
  case (2 r e)
  show ?case
  proof (cases "r_string r")
    case (Inl e')
    with 2 c_string.dec_err show ?thesis by (simp add: readSubscription_def)
  next
    case (Inr a)
    then obtain f r1 where f: "r_string r = Inr (f, r1)" by (cases a) auto
    then have "rd_ok r1" using c_string.dec_ok [OF 2(1)] by blast
    with c_byte.dec_err [of r1] 2(2) f show ?thesis
      by (cases "r_byte r1") (auto simp: readSubscription_def Let_def split: if_splits)
  qed
qed

interpretation l_subs: wire_loop readSubscription w_subscription wf_subscription subscriptions_loop
  by unfold_locales (simp_all add: subscriptions_loop.simps w_subscription_def w_byte_def)

section \<open>Well-formed packets\<close>

definition wf_will :: "will \<Rightarrow> bool" where
  "wf_will w \<longleftrightarrow> wf_string (wl_Topic w) \<and> wf_binary (wl_Payload w) \<and> QoS_Valid (wl_QoS w) \<and>
    wf_props willContext (wl_Properties w)"

definition wf_connect :: "connect \<Rightarrow> bool" where
  "wf_connect c \<longleftrightarrow> wf_string (cn_ClientID c) \<and> wf_props CONNECT (cn_Properties c) \<and>
    (let p = norm_props CONNECT (cn_Properties c) in
     AuthenticationData p \<noteq> [] \<longrightarrow> AuthenticationMethod p \<noteq> []) \<and>
    (\<forall>w. cn_Will c = Some w \<longrightarrow> wf_will w) \<and> wf_string (cn_Username c) \<and>
    (\<forall>p. cn_Password c = Some p \<longrightarrow> wf_binary p)"

definition wf_publish :: "publish \<Rightarrow> bool" where
  "wf_publish p \<longleftrightarrow> QoS_Valid (pb_QoS p) \<and> wf_string (pb_Topic p) \<and>
    (QoS0 < pb_QoS p \<longrightarrow> pb_PacketID p \<noteq> 0) \<and> wf_props PUBLISH (pb_Properties p) \<and>
    (pb_Topic p = [] \<longrightarrow> TopicAlias (norm_props PUBLISH (pb_Properties p)) \<noteq> None)"

fun wf_packet :: "packet \<Rightarrow> bool" where
  "wf_packet (Connect c) = wf_connect c"
| "wf_packet (Connack c) = wf_props CONNACK (ca_Properties c)"
| "wf_packet (Publish p) = wf_publish p"
| "wf_packet (Puback a) = wf_props PUBACK (ak_Properties a)"
| "wf_packet (Pubrec a) = wf_props PUBREC (ak_Properties a)"
| "wf_packet (Pubrel a) = wf_props PUBREL (ak_Properties a)"
| "wf_packet (Pubcomp a) = wf_props PUBCOMP (ak_Properties a)"
| "wf_packet (Subscribe s) = (su_PacketID s \<noteq> 0 \<and> wf_props SUBSCRIBE (su_Properties s) \<and>
     su_Subscriptions s \<noteq> [] \<and> (\<forall>x \<in> set (su_Subscriptions s). wf_subscription x))"
| "wf_packet (Suback s) = (wf_props SUBACK (rl_Properties s) \<and> rl_ReasonCodes s \<noteq> [])"
| "wf_packet (Unsubscribe u) = (un_PacketID u \<noteq> 0 \<and> wf_props UNSUBSCRIBE (un_Properties u) \<and>
     un_Filters u \<noteq> [] \<and> (\<forall>x \<in> set (un_Filters u). wf_string x))"
| "wf_packet (Unsuback s) = (wf_props UNSUBACK (rl_Properties s) \<and> rl_ReasonCodes s \<noteq> [])"
| "wf_packet Pingreq = True"
| "wf_packet Pingresp = True"
| "wf_packet (Disconnect d) = wf_props DISCONNECT (rs_Properties d)"
| "wf_packet (Auth a) = wf_props AUTH (rs_Properties a)"

text \<open>What the receiver of an encoded packet sees.\<close>

definition norm_will :: "will \<Rightarrow> will" where
  "norm_will w = w\<lparr>wl_Properties := Some (norm_props willContext (wl_Properties w))\<rparr>"

definition norm_connect :: "connect \<Rightarrow> connect" where
  "norm_connect c = c\<lparr>cn_Properties := Some (norm_props CONNECT (cn_Properties c)),
     cn_Will := map_option norm_will (cn_Will c),
     cn_Password := (if cn_Password c = Some [] then None else cn_Password c),
     cn_ProtocolVersion := ProtocolVersion5\<rparr>"

definition norm_publish :: "publish \<Rightarrow> publish" where
  "norm_publish p = p\<lparr>pb_Dup := (pb_Dup p \<and> pb_QoS p \<noteq> QoS0),
     pb_PacketID := (if pb_QoS p = QoS0 then 0 else pb_PacketID p),
     pb_Properties := Some (norm_props PUBLISH (pb_Properties p))\<rparr>"

definition norm_ack :: "ptype \<Rightarrow> ack \<Rightarrow> ack" where
  "norm_ack t a = a\<lparr>ak_Properties := Some (norm_props t (ak_Properties a))\<rparr>"

definition norm_rl :: "ptype \<Rightarrow> reason_list \<Rightarrow> reason_list" where
  "norm_rl t s = s\<lparr>rl_Properties := Some (norm_props t (rl_Properties s))\<rparr>"

definition norm_rs :: "ptype \<Rightarrow> reason \<Rightarrow> reason" where
  "norm_rs t s = s\<lparr>rs_Properties := Some (norm_props t (rs_Properties s))\<rparr>"

fun norm_packet :: "packet \<Rightarrow> packet" where
  "norm_packet (Connect c) = Connect (norm_connect c)"
| "norm_packet (Connack c) = Connack (c\<lparr>ca_SessionPresent := (ca_SessionPresent c \<and> \<not> IsError (ca_ReasonCode c)),
     ca_Properties := Some (norm_props CONNACK (ca_Properties c))\<rparr>)"
| "norm_packet (Publish p) = Publish (norm_publish p)"
| "norm_packet (Puback a) = Puback (norm_ack PUBACK a)"
| "norm_packet (Pubrec a) = Pubrec (norm_ack PUBREC a)"
| "norm_packet (Pubrel a) = Pubrel (norm_ack PUBREL a)"
| "norm_packet (Pubcomp a) = Pubcomp (norm_ack PUBCOMP a)"
| "norm_packet (Subscribe s) = Subscribe (s\<lparr>su_Properties := Some (norm_props SUBSCRIBE (su_Properties s))\<rparr>)"
| "norm_packet (Suback s) = Suback (norm_rl SUBACK s)"
| "norm_packet (Unsubscribe u) = Unsubscribe (u\<lparr>un_Properties := Some (norm_props UNSUBSCRIBE (un_Properties u))\<rparr>)"
| "norm_packet (Unsuback s) = Unsuback (norm_rl UNSUBACK s)"
| "norm_packet Pingreq = Pingreq"
| "norm_packet Pingresp = Pingresp"
| "norm_packet (Disconnect d) = Disconnect (norm_rs DISCONNECT d)"
| "norm_packet (Auth a) = Auth (norm_rs AUTH a)"

section \<open>Decoding: errors and results\<close>

text \<open>A decoder's outcome: a decoder error, or a result with the property.\<close>

definition dec_post :: "'a res \<Rightarrow> ('a \<Rightarrow> bool) \<Rightarrow> bool" where
  "dec_post m Q = (case m of Inl e \<Rightarrow> decode_error e | Inr x \<Rightarrow> Q x)"

lemma post_Inr: "Q x \<Longrightarrow> dec_post (Inr x) Q"
  by (simp add: dec_post_def)

lemma post_Inl: "decode_error e \<Longrightarrow> dec_post (Inl e) Q"
  by (simp add: dec_post_def)

lemma post_if: "(b \<Longrightarrow> dec_post m Q) \<Longrightarrow> (\<not> b \<Longrightarrow> dec_post n Q) \<Longrightarrow> dec_post (if b then m else n) Q"
  by simp

lemma post_bind: "dec_post m R \<Longrightarrow> (\<And>x. R x \<Longrightarrow> dec_post (F x) Q) \<Longrightarrow> dec_post (rbind m F) Q"
  by (cases m) (simp_all add: dec_post_def)

lemma post_map: "dec_post m (\<lambda>x. Q (f x)) \<Longrightarrow> dec_post (map_res f m) Q"
  unfolding map_res_def by (erule post_bind) (simp add: dec_post_def)

context wire_codec
begin

lemma dec_field: "rd_ok r \<Longrightarrow> dec_post (dec r) (\<lambda>(v, r'). dm v \<and> rd_ok r')"
  by (auto simp: dec_post_def split: sum.split dest: dec_err dec_ok)

lemma field_post:
  "rd_ok r \<Longrightarrow> (\<And>v r'. dm v \<Longrightarrow> rd_ok r' \<Longrightarrow> dec_post (F v r') Q) \<Longrightarrow>
    dec_post (rbind (dec r) (\<lambda>(v, r'). F v r')) Q"
  by (rule post_bind [OF dec_field]) auto

end

context wire_loop
begin

lemma loop_post:
  "rd_ok r \<Longrightarrow> (\<And>vs. \<forall>v \<in> set vs. dm v \<Longrightarrow> dec_post (F vs) Q) \<Longrightarrow> dec_post (rbind (loop r []) F) Q"
  by (rule post_bind [where R = "\<lambda>vs. \<forall>v \<in> set vs. dm v"])
     (auto simp: dec_post_def split: sum.split dest: loop_err loop_ok)

end

lemma props_post:
  assumes "rd_ok r"
    and "\<And>p r'. wf_props ctx (Some p) \<Longrightarrow> norm_props ctx (Some p) = p \<Longrightarrow> rd_ok r' \<Longrightarrow> dec_post (F p r') Q"
  shows "dec_post (rbind (readProperties r ctx) (\<lambda>(p, r'). F p r')) Q"
proof (rule post_bind [where R = "\<lambda>(p, r'). wf_props ctx (Some p) \<and> norm_props ctx (Some p) = p \<and> rd_ok r'"])
  show "dec_post (readProperties r ctx)
      (\<lambda>(p, r'). wf_props ctx (Some p) \<and> norm_props ctx (Some p) = p \<and> rd_ok r')"
  proof (cases "readProperties r ctx")
    case (Inl e)
    with assms(1) readProperties_err show ?thesis by (simp add: dec_post_def)
  next
    case (Inr a)
    then obtain p r' where a: "readProperties r ctx = Inr (p, r')" by (cases a) auto
    have "rd_ok r'" using readProperties_ok [OF assms(1) a] assms(1) by (auto simp: rd_ok_adv)
    with a readProperties_wf [OF assms(1) a] show ?thesis
      by (simp add: dec_post_def wf_props_def norm_props_def)
  qed
qed (use assms(2) in auto)

lemma opt_post:
  assumes "b \<Longrightarrow> dec_post (dec r) (\<lambda>(v, r'). K v \<and> rd_ok r')" "rd_ok r"
    and "\<And>x r'. (\<forall>v. x = Some v \<longrightarrow> K v) \<Longrightarrow> rd_ok r' \<Longrightarrow> dec_post (F x r') Q"
  shows "dec_post (rbind (r_opt b dec r) (\<lambda>(x, r'). F x r')) Q"
proof (rule post_bind [where R = "\<lambda>(x, r'). (\<forall>v. x = Some v \<longrightarrow> K v) \<and> rd_ok r'"])
  show "dec_post (r_opt b dec r) (\<lambda>(x, r'). (\<forall>v. x = Some v \<longrightarrow> K v) \<and> rd_ok r')"
    using assms(1,2) by (cases "dec r") (auto simp: r_opt_def dec_post_def)
qed (use assms(3) in auto)

lemmas post_rules =
  post_Inr post_Inl post_if c_byte.field_post c_uint16.field_post c_string.field_post
  c_binary.field_post props_post l_subs.loop_post l_filters.loop_post l_codes.loop_post

lemma decodeWill_post:
  assumes "rd_ok r" "QoS_Valid q"
  shows "dec_post (decodeWill q rt r) (\<lambda>(w, r'). (wf_will w \<and> norm_will w = w) \<and> rd_ok r')"
  unfolding decodeWill_def
  by (auto intro!: post_rules assms simp: wf_will_def norm_will_def assms)

lemma wf_string_Nil [simp]: "wf_string []"
  by (simp add: wf_string_def validateUTF8_def bytes_of_string_def)

lemma decoded_connect:
  assumes "wf_string cid" "wf_props CONNECT (Some props)" "norm_props CONNECT (Some props) = props"
    and "\<not> (0 < length (AuthenticationData props) \<and> AuthenticationMethod props = [])"
    and "\<forall>w. wl = Some w \<longrightarrow> wf_will w \<and> norm_will w = w"
    and "\<forall>u. un = Some u \<longrightarrow> wf_string u" "\<forall>p. pw = Some p \<longrightarrow> wf_binary p"
    and c: "c = \<lparr>cn_ClientID = cid, cn_CleanStart = cs, cn_KeepAlive = ka, cn_Will = wl,
      cn_Username = (case un of None \<Rightarrow> [] | Some u \<Rightarrow> u),
      cn_Password = (case pw of None \<Rightarrow> None | Some p \<Rightarrow> if p = [] then None else Some p),
      cn_Properties = Some props, cn_ProtocolVersion = 5\<rparr>"
  shows "wf_connect c \<and> norm_connect c = c"
proof
  have "map_option norm_will wl = wl" using assms(5) by (cases wl) auto
  then show "norm_connect c = c"
    using assms(3) by (cases pw) (simp_all add: norm_connect_def c)
  show "wf_connect c"
    using assms(1-7) by (cases pw; cases un) (auto simp: wf_connect_def c)
qed

lemma decodeConnect_post:
  assumes "rd_ok r"
  shows "dec_post (decodeConnect r) (\<lambda>c. wf_connect c \<and> norm_connect c = c)"
  unfolding decodeConnect_def Let_def
  by (rule c_string.field_post [OF assms] c_byte.field_post c_uint16.field_post post_if post_Inl props_post
      c_string.field_post opt_post [where K = "\<lambda>w. wf_will w \<and> norm_will w = w"]
      opt_post [OF c_string.dec_field] opt_post [OF c_binary.dec_field] decodeWill_post post_Inr
      decoded_connect | assumption | (simp; fail))+

lemma decodeConnack_post:
  assumes "rd_ok r"
  shows "dec_post (decodeConnack r) (\<lambda>c. wf_props CONNACK (ca_Properties c))"
  unfolding decodeConnack_def by (auto intro!: post_rules assms)

lemma QoS0_less: "QoS0 < (q :: byte) \<longleftrightarrow> q \<noteq> 0"
  by (metis word_not_simps(1) word_gt_0)

lemma decodePublish_post:
  assumes "rd_ok r"
  shows "dec_post (decodePublish flags r) (\<lambda>p. wf_publish p \<and> norm_publish p = p)"
proof -
  have pid: "dec_post (if QoS0 < q then
        rbind (r_uint16 r1) (\<lambda>(i, r2). if i = 0 then Inl ErrProtocol else Inr (i, r2))
      else Inr (0, r1)) (\<lambda>(i, r2). (if q = 0 then i = 0 else i \<noteq> 0) \<and> rd_ok r2)"
    if "rd_ok r1" for q :: byte and r1
    using that by (auto intro!: post_rules simp: QoS0_less)
  have slice: "dec_post (rbind (go_slice (buf r') (pos r') (length (buf r'))) (\<lambda>x. Inr (G x))) R"
    if "rd_ok r'" "\<And>x. R (G x)" for r' R and G :: "bytes \<Rightarrow> publish"
    using that by (simp add: go_slice_def rd_ok_def dec_post_def)
  show ?thesis
    unfolding decodePublish_def Let_def
    by (rule post_if post_Inl c_string.field_post [OF assms] post_bind [OF pid] props_post slice
          | assumption | (simp; fail) | (auto intro!: post_if post_Inl props_post slice
            simp: wf_publish_def norm_publish_def QoS0_less split: if_splits; fail))+
qed

lemma decodeAck_post:
  assumes "rd_ok r" "t \<in> {PUBACK, PUBREC, PUBREL, PUBCOMP}"
  shows "dec_post (decodeAck t r) (\<lambda>p. packet_Type p = t \<and> wf_packet p \<and> norm_packet p = p)"
proof -
  have nil: "wf_props t (Some empty_props)" "norm_props t (Some empty_props) = empty_props" for t
    by (auto simp: wf_props_def props_wf_def norm_props_def restrict_legal)
  have pr: "dec_post (if r_empty r1 then Inr ((Success, empty_props), r1)
           else rbind (r_byte r1) (\<lambda>(code, r2).
             if r_empty r2 then Inr ((code, empty_props), r2)
             else rbind (readProperties r2 t) (\<lambda>(props, r3). Inr ((code, props), r3))))
      (\<lambda>((code, p), r3). wf_props t (Some p) \<and> norm_props t (Some p) = p)" if "rd_ok r1" for r1
    using that nil by (auto intro!: post_rules)
  show ?thesis
    unfolding decodeAck_def Let_def
    by (rule c_uint16.field_post [OF assms(1)], rule post_bind [OF pr], assumption)
       (use assms(2) in \<open>auto intro!: post_rules simp: norm_ack_def\<close>)
qed

lemma decodeSubscribe_post:
  assumes "rd_ok r"
  shows "dec_post (decodeSubscribe r) (\<lambda>s. wf_packet (Subscribe s) \<and> norm_packet (Subscribe s) = Subscribe s)"
  unfolding decodeSubscribe_def by (auto intro!: post_rules assms)

lemma decodeUnsubscribe_post:
  assumes "rd_ok r"
  shows "dec_post (decodeUnsubscribe r)
    (\<lambda>u. wf_packet (Unsubscribe u) \<and> norm_packet (Unsubscribe u) = Unsubscribe u)"
  unfolding decodeUnsubscribe_def by (auto intro!: post_rules assms)

lemma decodeReasonCodeList_post:
  assumes "rd_ok r"
  shows "dec_post (decodeReasonCodeList r t)
    (\<lambda>s. wf_props t (rl_Properties s) \<and> rl_ReasonCodes s \<noteq> [] \<and> norm_rl t s = s)"
  unfolding decodeReasonCodeList_def by (auto intro!: post_rules assms simp: norm_rl_def)

lemma decodeReason_post:
  assumes "rd_ok r"
  shows "dec_post (decodeDisconnect r) (\<lambda>d. wf_props DISCONNECT (rs_Properties d) \<and> norm_rs DISCONNECT d = d)"
    "dec_post (decodeAuth r) (\<lambda>d. wf_props AUTH (rs_Properties d) \<and> norm_rs AUTH d = d)"
proof -
  have nil: "wf_props t (Some empty_props)" "norm_props t (Some empty_props) = empty_props" for t
    by (auto simp: wf_props_def props_wf_def norm_props_def restrict_legal)
  show "dec_post (decodeDisconnect r) (\<lambda>d. wf_props DISCONNECT (rs_Properties d) \<and> norm_rs DISCONNECT d = d)"
    "dec_post (decodeAuth r) (\<lambda>d. wf_props AUTH (rs_Properties d) \<and> norm_rs AUTH d = d)"
    unfolding decodeDisconnect_def decodeAuth_def by (auto intro!: post_rules assms simp: norm_rs_def nil)
qed

text \<open>Every outcome of the body decoder.\<close>

lemma decode_body_post:
  "dec_post (decode_body t flags body)
    (\<lambda>p. packet_Type p = t \<and> wf_packet p \<and> (t \<noteq> CONNACK \<longrightarrow> norm_packet p = p))"
proof -
  have ok: "rd_ok (new_reader body)" by simp
  have mono: "dec_post m Q \<Longrightarrow> (\<And>x. Q x \<Longrightarrow> R x) \<Longrightarrow> dec_post m R" for m :: "'a res" and Q R
    by (cases m) (simp_all add: dec_post_def)
  show ?thesis
    unfolding decode_body_def Let_def
    by (intro post_if post_map)
       (auto intro!: post_rules
          intro: mono [OF decodeConnect_post [OF ok]] mono [OF decodeConnack_post [OF ok]]
            mono [OF decodePublish_post [OF ok]] mono [OF decodeAck_post [OF ok]]
            mono [OF decodeSubscribe_post [OF ok]] mono [OF decodeUnsubscribe_post [OF ok]]
            mono [OF decodeReasonCodeList_post [OF ok]] mono [OF decodeReason_post(1) [OF ok]]
            mono [OF decodeReason_post(2) [OF ok]])
qed

section \<open>Encoding and decoding\<close>

lemma run_props_last:
  assumes "rd_ok r" "rest r = b" "wf_props ctx po" "props_encode po ctx = Inr b"
    and "length b \<le> MaxVarByteInt"
    and "\<And>r'. rd_ok r' \<Longrightarrow> rest r' = [] \<Longrightarrow> F (norm_props ctx po) r' = Inr res"
  shows "rbind (readProperties r ctx) (\<lambda>(p, r'). F p r') = Inr res"
  by (rule run_props [where xs = "[]", OF assms(1) _ assms(3,4,5)]) (use assms(2,6) in auto)

lemma run_if: "\<not> b \<Longrightarrow> m = y \<Longrightarrow> (if b then n else m) = y"
  by simp

lemma connack_roundtrip:
  assumes "wf_props CONNACK (ca_Properties c)" "connack_encode c = Inr (fl, body)"
    and "length body \<le> MaxVarByteInt"
  shows "map_res Connack (decodeConnack (new_reader body)) = Inr (norm_packet (Connack c))"
proof -
  define sp where "sp = (ca_SessionPresent c \<and> \<not> IsError (ca_ReasonCode c))"
  define f where "f = (if sp then 1 else 0 :: byte)"
  have f: "f AND 0xFE = 0" "(f AND 0x01 \<noteq> 0) = sp" by (simp_all add: f_def)
  obtain pb where pb: "props_encode (ca_Properties c) CONNACK = Inr pb"
    and body: "body = w_byte f @ w_byte (ca_ReasonCode c) @ pb"
    using assms(2) by (auto simp: connack_encode_def rbind_Inr_iff Let_def f_def sp_def)
  have len: "length pb \<le> MaxVarByteInt" using assms(3) by (simp add: body)
  have "decodeConnack (new_reader body) = Inr (c\<lparr>ca_SessionPresent := sp,
      ca_Properties := Some (norm_props CONNACK (ca_Properties c))\<rparr>)"
    unfolding decodeConnack_def body
    by (rule c_byte.run run_if run_props_last [OF _ _ assms(1) pb len] | assumption
        | (simp add: f r_empty_iff; fail))+
  then show ?thesis by (simp add: map_res_def sp_def)
qed

lemma publish_flags:
  assumes "QoS_Valid q" "f = (if d \<and> q \<noteq> 0 then 0x08 else 0) OR push_bit 1 q OR (if rt then 0x01 else 0)"
  shows "(f AND 0x08 \<noteq> 0) = (d \<and> q \<noteq> 0)" "drop_bit 1 f AND 0x03 = q" "(f AND 0x01 \<noteq> 0) = rt"
  using assms by (auto simp: QoS_Valid_cases)

lemma publish_roundtrip:
  assumes "wf_publish p" "publish_encode p = Inr (f, body)" "length body \<le> MaxVarByteInt"
  shows "decodePublish f (new_reader body) = Inr (norm_publish p)"
proof -
  have wf: "QoS_Valid (pb_QoS p)" "wf_string (pb_Topic p)" "wf_props PUBLISH (pb_Properties p)"
    and pid: "pb_QoS p \<noteq> 0 \<longrightarrow> pb_PacketID p \<noteq> 0"
    and al: "pb_Topic p = [] \<longrightarrow> TopicAlias (norm_props PUBLISH (pb_Properties p)) \<noteq> None"
    using assms(1) by (auto simp: wf_publish_def QoS0_less)
  obtain pb where pb: "props_encode (pb_Properties p) PUBLISH = Inr pb"
    and body: "body = w_string (pb_Topic p) @
        (if QoS0 < pb_QoS p then w_uint16 (pb_PacketID p) else []) @ pb @ pb_Payload p"
    and f: "f = (if pb_Dup p \<and> pb_QoS p \<noteq> 0 then 0x08 else 0) OR push_bit 1 (pb_QoS p)
        OR (if pb_Retain p then 0x01 else 0)"
    using assms(2) by (auto simp: publish_encode_def rbind_Inr_iff Let_def split: if_splits)
  note fl = publish_flags [OF wf(1) f]
  have len: "length pb \<le> MaxVarByteInt" using assms(3) by (simp add: body)
  have pidr: "rbind (if QoS0 < pb_QoS p then
        rbind (r_uint16 r1) (\<lambda>(i, r2). if i = 0 then Inl ErrProtocol else Inr (i, r2))
      else Inr (0, r1)) (\<lambda>(i, r2). G i r2) = Inr res"
    if "rd_ok r1" "rest r1 = (if QoS0 < pb_QoS p then w_uint16 (pb_PacketID p) else []) @ xs"
      and "\<And>r2. rd_ok r2 \<Longrightarrow> rest r2 = xs \<Longrightarrow> G (if pb_QoS p = 0 then 0 else pb_PacketID p) r2 = Inr res"
    for r1 xs and res :: publish and G
  proof (cases "pb_QoS p = 0")
    case False
    with that have "r_uint16 r1 = Inr (pb_PacketID p, adv (length (w_uint16 (pb_PacketID p))) r1)"
      by (intro c_uint16.dec_enc [where xs = xs]) (simp_all add: QoS0_less)
    with False that pid show ?thesis by (simp add: QoS0_less rd_ok_adv)
  qed (use that in simp)
  have slice: "rbind (go_slice (buf r') (pos r') (length (buf r'))) G = Inr res"
    if "rd_ok r'" "G (rest r') = Inr res" for r' and res :: publish and G
    using that by (simp add: go_slice_def rd_ok_def rest_def)
  show ?thesis
    unfolding decodePublish_def Let_def body fl
    by (rule c_string.run run_if pidr run_props [OF _ _ wf(3) pb len] slice | assumption
        | (simp add: wf al norm_publish_def; fail) | (use al in auto; fail))+
qed

lemma noProps_eq: "noProps pb = Inr (pb = [0])"
  by (auto simp: noProps_def go_index_def length_Suc_conv)

lemma props_encode_zero:
  assumes "wf_props ctx po" "props_encode po ctx = Inr [0]"
  shows "norm_props ctx po = empty_props"
proof -
  have "enc_block [] = [0]" by (simp add: enc_block_def w_varByteInt_eq vbi.simps)
  then have "props_encode None ctx = Inr [0]" by (simp add: props_encode_None)
  then have "readProperties (new_reader [0]) ctx = Inr (norm_props ctx None, adv 1 (new_reader [0]))"
    using props_roundtrip [of "new_reader [0]" ctx None "[0]" "[]"]
    by (simp add: wf_props_def MaxVarByteInt_def)
  moreover have "readProperties (new_reader [0]) ctx = Inr (norm_props ctx po, adv 1 (new_reader [0]))"
    using props_roundtrip [of "new_reader [0]" ctx po "[0]" "[]"] assms
    by (simp add: MaxVarByteInt_def)
  ultimately show ?thesis by (simp add: norm_props_def)
qed

lemma props_encode_ne: "props_encode po ctx = Inr b \<Longrightarrow> b \<noteq> []"
  by (cases po) (auto simp: props_encode_None props_encode_Some enc_block_def w_varByteInt_eq)

lemma run_empty: "\<not> r_empty r \<Longrightarrow> m = y \<Longrightarrow> (if r_empty r then n else m) = y"
  by simp

text \<open>The tail shared by PUBACK, PUBREC, PUBREL, PUBCOMP, DISCONNECT and AUTH: an optional reason
  code and optional properties, in the shortest of the three permitted forms.\<close>

lemma reason_tail:
  assumes wf: "wf_props t po" and pb: "props_encode po t = Inr pb" and len: "length pb \<le> MaxVarByteInt"
    and r: "rd_ok r" "rest r = (if code = 0 \<and> pb = [0] then [] else if pb = [0] then w_byte code
      else w_byte code @ pb)"
  shows "(if r_empty r then Inr ((0, empty_props), r)
     else rbind (r_byte r) (\<lambda>(code, r2).
       if r_empty r2 then Inr ((code, empty_props), r2)
       else rbind (readProperties r2 t) (\<lambda>(props, r3). Inr ((code, props), r3)))) =
    Inr ((code, norm_props t po), adv (length (rest r)) r)"
proof (cases "pb = [0]")
  case True
  then have "norm_props t po = empty_props" using props_encode_zero wf pb by blast
  with True r show ?thesis
    by (cases "code = 0") (auto simp: r_empty_iff w_byte_def r_byte_eq)
next
  case False
  have "r_byte r = Inr (code, adv 1 r)" using r False by (simp add: r_byte_eq w_byte_def)
  moreover have "readProperties (adv 1 r) t = Inr (norm_props t po, adv (length pb) (adv 1 r))"
    by (rule props_roundtrip [OF _ wf pb len, where ys = "[]"])
       (use r False in \<open>simp_all add: rd_ok_adv w_byte_def\<close>)
  ultimately show ?thesis
    using r False props_encode_ne [OF pb] by (simp add: r_empty_iff w_byte_def)
qed

lemma ack_roundtrip:
  assumes "wf_props t (ak_Properties a)" "ack_encode t a = Inr (fl, body)" "length body \<le> MaxVarByteInt"
  shows "decodeAck t (new_reader body) = Inr
      (if t = PUBACK then Puback (norm_ack t a) else if t = PUBREC then Pubrec (norm_ack t a)
       else if t = PUBREL then Pubrel (norm_ack t a) else Pubcomp (norm_ack t a))"
proof -
  obtain pb where pb: "props_encode (ak_Properties a) t = Inr pb"
    and body: "body = w_uint16 (ak_PacketID a) @ (if ak_ReasonCode a = 0 \<and> pb = [0] then []
      else if pb = [0] then w_byte (ak_ReasonCode a) else w_byte (ak_ReasonCode a) @ pb)"
    using assms(2) by (auto simp: ack_encode_def rbind_Inr_iff noProps_eq split: if_splits)
  have len: "length pb \<le> MaxVarByteInt"
    using assms(3) by (auto simp: body MaxVarByteInt_def split: if_splits)
  show ?thesis
    unfolding decodeAck_def body
  proof (rule c_uint16.run)
    fix r' assume r': "rd_ok r'" "rest r' = (if ak_ReasonCode a = 0 \<and> pb = [0] then []
      else if pb = [0] then w_byte (ak_ReasonCode a) else w_byte (ak_ReasonCode a) @ pb)"
    show "rbind (if r_empty r' then Inr ((Success, empty_props), r')
         else rbind (r_byte r') (\<lambda>(code, r2).
           if r_empty r2 then Inr ((code, empty_props), r2)
           else rbind (readProperties r2 t) (\<lambda>(props, r3). Inr ((code, props), r3))))
      (\<lambda>((code, props), r3). if \<not> r_empty r3 then Inl ErrMalformed else
        let a' = \<lparr>ak_PacketID = ak_PacketID a, ak_ReasonCode = code, ak_Properties = Some props\<rparr> in
        Inr (if t = PUBACK then Puback a' else if t = PUBREC then Pubrec a'
          else if t = PUBREL then Pubrel a' else Pubcomp a')) =
      Inr (if t = PUBACK then Puback (norm_ack t a) else if t = PUBREC then Pubrec (norm_ack t a)
        else if t = PUBREL then Pubrel (norm_ack t a) else Pubcomp (norm_ack t a))"
      unfolding reason_tail [OF assms(1) pb len r'] by (simp add: r_empty_iff norm_ack_def)
  qed simp_all
qed

lemma reason_decoder:
  assumes "wf_props t (rs_Properties d)" "props_encode (rs_Properties d) t = Inr pb"
    and "length pb \<le> MaxVarByteInt" "rd_ok r"
    and "rest r = (if rs_ReasonCode d = 0 \<and> pb = [0] then [] else if pb = [0] then w_byte (rs_ReasonCode d)
      else w_byte (rs_ReasonCode d) @ pb)"
  shows "(if r_empty r then Inr \<lparr>rs_ReasonCode = 0, rs_Properties = Some empty_props\<rparr> else
     rbind (r_byte r) (\<lambda>(code, r1).
     if r_empty r1 then Inr \<lparr>rs_ReasonCode = code, rs_Properties = Some empty_props\<rparr> else
     rbind (readProperties r1 t) (\<lambda>(props, r2).
     if \<not> r_empty r2 then Inl ErrMalformed else
     Inr \<lparr>rs_ReasonCode = code, rs_Properties = Some props\<rparr>))) = Inr (norm_rs t d)"
proof -
  let ?m = "if r_empty r then Inr ((0, empty_props), r)
     else rbind (r_byte r) (\<lambda>(code, r2).
       if r_empty r2 then Inr ((code, empty_props), r2)
       else rbind (readProperties r2 t) (\<lambda>(props, r3). Inr ((code, props), r3)))"
  have m: "?m = Inr ((rs_ReasonCode d, norm_props t (rs_Properties d)), adv (length (rest r)) r)"
    by (rule reason_tail [OF assms])
  have "(if r_empty r then Inr \<lparr>rs_ReasonCode = 0, rs_Properties = Some empty_props\<rparr> else
     rbind (r_byte r) (\<lambda>(code, r1).
     if r_empty r1 then Inr \<lparr>rs_ReasonCode = code, rs_Properties = Some empty_props\<rparr> else
     rbind (readProperties r1 t) (\<lambda>(props, r2).
     if \<not> r_empty r2 then Inl ErrMalformed else
     Inr \<lparr>rs_ReasonCode = code, rs_Properties = Some props\<rparr>))) =
    rbind ?m (\<lambda>((code, props), r3). if \<not> r_empty r3 then Inl ErrMalformed else
      Inr \<lparr>rs_ReasonCode = code, rs_Properties = Some props\<rparr>)"
  proof (cases "r_byte r")
    case (Inr a)
    obtain code r2 where "a = (code, r2)" by (cases a)
    with Inr show ?thesis by (cases "readProperties r2 t") auto
  qed simp
  then show ?thesis unfolding m by (simp add: norm_rs_def r_empty_iff)
qed

lemma disconnect_roundtrip:
  assumes "wf_props DISCONNECT (rs_Properties d)" "disconnect_encode d = Inr (fl, body)"
    and "length body \<le> MaxVarByteInt"
  shows "decodeDisconnect (new_reader body) = Inr (norm_rs DISCONNECT d)"
proof -
  obtain pb where pb: "props_encode (rs_Properties d) DISCONNECT = Inr pb"
    and body: "body = (if rs_ReasonCode d = 0 \<and> pb = [0] then []
      else if pb = [0] then w_byte (rs_ReasonCode d) else w_byte (rs_ReasonCode d) @ pb)"
    using assms(2) by (auto simp: disconnect_encode_def rbind_Inr_iff noProps_eq split: if_splits)
  have "length pb \<le> MaxVarByteInt"
    using assms(3) by (auto simp: body MaxVarByteInt_def split: if_splits)
  then show ?thesis
    unfolding decodeDisconnect_def by (rule reason_decoder [OF assms(1) pb]) (simp_all add: body)
qed

lemma auth_roundtrip:
  assumes "wf_props AUTH (rs_Properties d)" "auth_encode d = Inr (fl, body)"
    and "length body \<le> MaxVarByteInt"
  shows "decodeAuth (new_reader body) = Inr (norm_rs AUTH d)"
proof -
  obtain pb where pb: "props_encode (rs_Properties d) AUTH = Inr pb"
    and body: "body = (if rs_ReasonCode d = 0 \<and> pb = [0] then []
      else if pb = [0] then w_byte (rs_ReasonCode d) else w_byte (rs_ReasonCode d) @ pb)"
    using assms(2) by (auto simp: auth_encode_def rbind_Inr_iff noProps_eq split: if_splits)
  have "length pb \<le> MaxVarByteInt"
    using assms(3) by (auto simp: body MaxVarByteInt_def split: if_splits)
  then show ?thesis
    unfolding decodeAuth_def by (rule reason_decoder [OF assms(1) pb]) (simp_all add: body)
qed

lemma cat_res_map:
  "cat_res (map f xs) = Inr b \<longleftrightarrow> (\<exists>bs. list_all2 (\<lambda>x y. f x = Inr y) xs bs \<and> b = concat bs)"
proof (induction xs arbitrary: b)
  case (Cons x xs)
  show ?case
    by (auto simp: rbind_Inr_iff Cons.IH list_all2_Cons1) (metis concat.simps(2))
qed auto

lemma cat_res_map_enc:
  assumes "cat_res (map f xs) = Inr b" "\<And>x y. f x = Inr y \<Longrightarrow> y = enc x"
  shows "b = concat (map enc xs)"
proof -
  obtain bs where "list_all2 (\<lambda>x y. f x = Inr y) xs bs" "b = concat bs"
    using assms(1) by (auto simp: cat_res_map)
  moreover from this(1) have "bs = map enc xs"
    by (induction rule: list_all2_induct) (auto dest: assms(2))
  ultimately show ?thesis by simp
qed

context wire_loop
begin

lemma run_loop:
  assumes "rd_ok r" "rest r = concat (map enc vs)" "\<forall>v \<in> set vs. dm v" "F vs = Inr res"
  shows "rbind (loop r []) F = Inr res"
  using loop_enc [OF assms(1-3), of "[]"] assms(4) by simp

end

lemma subscribe_roundtrip:
  assumes "wf_packet (Subscribe s)" "subscribe_encode s = Inr (fl, body)" "length body \<le> MaxVarByteInt"
  shows "map_res Subscribe (decodeSubscribe (new_reader body)) = Inr (norm_packet (Subscribe s))"
proof -
  have wf: "su_PacketID s \<noteq> 0" "wf_props SUBSCRIBE (su_Properties s)" "su_Subscriptions s \<noteq> []"
    "\<forall>x \<in> set (su_Subscriptions s). wf_subscription x" using assms(1) by simp_all
  obtain pb sb where pb: "props_encode (su_Properties s) SUBSCRIBE = Inr pb"
    and sb: "cat_res (map encodeSubscription (su_Subscriptions s)) = Inr sb"
    and body: "body = w_uint16 (su_PacketID s) @ pb @ sb"
    using assms(2) by (auto simp: subscribe_encode_def rbind_Inr_iff split: if_splits)
  have sb: "sb = concat (map w_subscription (su_Subscriptions s))"
    by (rule cat_res_map_enc [OF sb]) (auto simp: encodeSubscription_def rbind_Inr_iff split: if_splits)
  have len: "length pb \<le> MaxVarByteInt" using assms(3) by (simp add: body)
  have "decodeSubscribe (new_reader body) =
      Inr (s\<lparr>su_Properties := Some (norm_props SUBSCRIBE (su_Properties s))\<rparr>)"
    unfolding decodeSubscribe_def body sb
    by (rule c_uint16.run run_if run_props [OF _ _ wf(2) pb len] l_subs.run_loop [OF _ _ wf(4)] | assumption
        | (simp add: wf; fail))+
  then show ?thesis by (simp add: map_res_def)
qed

lemma unsubscribe_roundtrip:
  assumes "wf_packet (Unsubscribe u)" "unsubscribe_encode u = Inr (fl, body)"
    and "length body \<le> MaxVarByteInt"
  shows "map_res Unsubscribe (decodeUnsubscribe (new_reader body)) = Inr (norm_packet (Unsubscribe u))"
proof -
  have wf: "un_PacketID u \<noteq> 0" "wf_props UNSUBSCRIBE (un_Properties u)" "un_Filters u \<noteq> []"
    "\<forall>x \<in> set (un_Filters u). wf_string x" using assms(1) by simp_all
  obtain pb sb where pb: "props_encode (un_Properties u) UNSUBSCRIBE = Inr pb"
    and sb: "cat_res (map (\<lambda>f. rbind (checkStringLen f) (\<lambda>_. Inr (w_string f))) (un_Filters u)) = Inr sb"
    and body: "body = w_uint16 (un_PacketID u) @ pb @ sb"
    using assms(2) by (auto simp: unsubscribe_encode_def rbind_Inr_iff split: if_splits)
  have sb: "sb = concat (map w_string (un_Filters u))"
    by (rule cat_res_map_enc [OF sb]) (auto simp: rbind_Inr_iff)
  have len: "length pb \<le> MaxVarByteInt" using assms(3) by (simp add: body)
  have "decodeUnsubscribe (new_reader body) =
      Inr (u\<lparr>un_Properties := Some (norm_props UNSUBSCRIBE (un_Properties u))\<rparr>)"
    unfolding decodeUnsubscribe_def body sb
    by (rule c_uint16.run run_if run_props [OF _ _ wf(2) pb len] l_filters.run_loop [OF _ _ wf(4)] | assumption
        | (simp add: wf; fail))+
  then show ?thesis by (simp add: map_res_def)
qed

lemma reason_list_roundtrip:
  assumes "wf_props t (rl_Properties s)" "rl_ReasonCodes s \<noteq> []"
    and "encodeReasonCodeList t s = Inr (fl, body)" "length body \<le> MaxVarByteInt"
  shows "decodeReasonCodeList (new_reader body) t = Inr (norm_rl t s)"
proof -
  obtain pb where pb: "props_encode (rl_Properties s) t = Inr pb"
    and body: "body = w_uint16 (rl_PacketID s) @ pb @ concat (map w_byte (rl_ReasonCodes s))"
    using assms(3) by (auto simp: encodeReasonCodeList_def rbind_Inr_iff split: if_splits)
  have len: "length pb \<le> MaxVarByteInt" using assms(4) by (simp add: body)
  show ?thesis
    unfolding decodeReasonCodeList_def body
    by (rule c_uint16.run run_if run_props [OF _ _ assms(1) pb len] l_codes.run_loop | assumption
        | (simp add: assms(2) norm_rl_def; fail))+
qed

text \<open>The CONNECT flags byte says which payload fields follow.\<close>

lemma connect_flags_dec:
  assumes "connect_flags c = Inr f"
  shows "f AND 0x01 = 0" "(f AND 0x02 \<noteq> 0) = cn_CleanStart c" "(f AND 0x04 \<noteq> 0) = (cn_Will c \<noteq> None)"
    "drop_bit 3 f AND 0x03 = (case cn_Will c of None \<Rightarrow> 0 | Some w \<Rightarrow> wl_QoS w)"
    "(f AND 0x20 \<noteq> 0) = (case cn_Will c of None \<Rightarrow> False | Some w \<Rightarrow> wl_Retain w)"
    "(f AND 0x40 \<noteq> 0) = (cn_Password c \<noteq> None)" "(f AND 0x80 \<noteq> 0) = (cn_Username c \<noteq> [])"
proof -
  have *: "f AND 0x01 = 0 \<and> (f AND 0x02 \<noteq> 0) = cs \<and> (f AND 0x04 \<noteq> 0) = wf \<and> drop_bit 3 f AND 0x03 = q \<and>
    (f AND 0x20 \<noteq> 0) = rt \<and> (f AND 0x40 \<noteq> 0) = pw \<and> (f AND 0x80 \<noteq> 0) = un"
    if "f = (((if cs then 0x02 else 0) OR (if wf then 0x04 OR push_bit 3 q else 0) OR (if rt then 0x20 else 0))
      OR (if un then 0x80 else 0)) OR (if pw then 0x40 else 0)" "q = 0 \<or> q = 1 \<or> q = 2" "\<not> wf \<longrightarrow> q = 0"
    for f q :: byte and cs wf rt un pw
    using that by (cases cs; cases wf; cases rt; cases un; cases pw) auto
  have "f = (((if cn_CleanStart c then 0x02 else 0)
        OR (if cn_Will c \<noteq> None then 0x04 OR push_bit 3 (case cn_Will c of None \<Rightarrow> 0 | Some w \<Rightarrow> wl_QoS w) else 0)
        OR (if case cn_Will c of None \<Rightarrow> False | Some w \<Rightarrow> wl_Retain w then 0x20 else 0))
      OR (if cn_Username c \<noteq> [] then 0x80 else 0)) OR (if cn_Password c \<noteq> None then 0x40 else 0)"
    using assms unfolding connect_flags_def Let_def
    by (cases "cn_Will c") (simp_all add: or.assoc split: if_split_asm)
  moreover have "(case cn_Will c of None \<Rightarrow> 0 | Some w \<Rightarrow> wl_QoS w) \<in> {0, 1, 2}"
    using assms by (auto simp: connect_flags_def QoS_Valid_cases split: option.splits if_split_asm)
  ultimately show "f AND 0x01 = 0" "(f AND 0x02 \<noteq> 0) = cn_CleanStart c"
    "(f AND 0x04 \<noteq> 0) = (cn_Will c \<noteq> None)"
    "drop_bit 3 f AND 0x03 = (case cn_Will c of None \<Rightarrow> 0 | Some w \<Rightarrow> wl_QoS w)"
    "(f AND 0x20 \<noteq> 0) = (case cn_Will c of None \<Rightarrow> False | Some w \<Rightarrow> wl_Retain w)"
    "(f AND 0x40 \<noteq> 0) = (cn_Password c \<noteq> None)" "(f AND 0x80 \<noteq> 0) = (cn_Username c \<noteq> [])"
    using * [of f "cn_CleanStart c" "cn_Will c \<noteq> None"
      "case cn_Will c of None \<Rightarrow> 0 | Some w \<Rightarrow> wl_QoS w"
      "case cn_Will c of None \<Rightarrow> False | Some w \<Rightarrow> wl_Retain w" "cn_Username c \<noteq> []" "cn_Password c \<noteq> None"]
    by (auto split: option.splits)
qed

text \<open>An optional payload field in front of a continuation.\<close>

lemma run_opt:
  assumes "rd_ok r" "rest r = (case x of None \<Rightarrow> [] | Some v \<Rightarrow> enc v) @ xs" "b \<longleftrightarrow> x \<noteq> None"
    and "\<And>v. x = Some v \<Longrightarrow> rd_ok r \<Longrightarrow> rest r = enc v @ xs \<Longrightarrow> dec r = Inr (nv v, adv (length (enc v)) r)"
    and "\<And>r'. rd_ok r' \<Longrightarrow> rest r' = xs \<Longrightarrow> F (map_option nv x) r' = Inr res"
  shows "rbind (r_opt b dec r) (\<lambda>(y, r'). F y r') = Inr res"
proof (cases x)
  case None
  with assms(1-3) assms(5) [of r] show ?thesis by (simp add: r_opt_def)
next
  case (Some v)
  with assms(1,2) have "rest (adv (length (enc v)) r) = xs" "rd_ok (adv (length (enc v)) r)"
    by (simp_all add: rd_ok_adv)
  with Some assms(1-3) assms(4) [OF Some] assms(5) show ?thesis by (simp add: r_opt_def)
qed

lemma run_will:
  assumes "wf_will w" "props_encode (wl_Properties w) willContext = Inr wpb" "length wpb \<le> MaxVarByteInt"
    and "rd_ok r" "rest r = (wpb @ w_string (wl_Topic w) @ w_binary (wl_Payload w)) @ xs"
  shows "decodeWill (wl_QoS w) (wl_Retain w) r =
    Inr (norm_will w, adv (length (wpb @ w_string (wl_Topic w) @ w_binary (wl_Payload w))) r)"
proof -
  have wf: "wf_string (wl_Topic w)" "wf_binary (wl_Payload w)" "wf_props willContext (wl_Properties w)"
    using assms(1) by (simp_all add: wf_will_def)
  have 1: "readProperties r willContext =
      Inr (norm_props willContext (wl_Properties w), adv (length wpb) r)"
    by (rule props_roundtrip [OF assms(4) wf(3) assms(2,3)]) (use assms(5) in simp)
  have 2: "r_string (adv (length wpb) r) = Inr (wl_Topic w, adv (length (w_string (wl_Topic w))) (adv (length wpb) r))"
    by (rule c_string.dec_enc) (use assms(4,5) wf in \<open>simp_all add: rd_ok_adv\<close>)
  have 3: "r_binary (adv (length (wpb @ w_string (wl_Topic w))) r) =
      Inr (wl_Payload w, adv (length (w_binary (wl_Payload w))) (adv (length (wpb @ w_string (wl_Topic w))) r))"
    by (rule c_binary.dec_enc) (use assms(4,5) wf in \<open>simp_all add: rd_ok_adv\<close>)
  from 1 2 3 show ?thesis by (simp add: decodeWill_def norm_will_def add.assoc)
qed

definition w_will :: "will \<Rightarrow> bytes" where
  "w_will w = (case props_encode (wl_Properties w) willContext of Inl _ \<Rightarrow> [] | Inr wpb \<Rightarrow> wpb)
    @ w_string (wl_Topic w) @ w_binary (wl_Payload w)"

definition opt_enc :: "('a \<Rightarrow> bytes) \<Rightarrow> 'a option \<Rightarrow> bytes" where
  "opt_enc enc x = (case x of None \<Rightarrow> [] | Some v \<Rightarrow> enc v)"

definition username_opt :: "connect \<Rightarrow> string option" where
  "username_opt c = (if cn_Username c = [] then None else Some (cn_Username c))"

lemma connect_encode_bytes:
  assumes "connect_encode c = Inr (fl, body)"
  obtains f pb where "connect_flags c = Inr f" "props_encode (cn_Properties c) CONNECT = Inr pb"
    "\<And>w. cn_Will c = Some w \<Longrightarrow> \<exists>wpb. props_encode (wl_Properties w) willContext = Inr wpb"
    "body = w_string protocolName @ w_byte ProtocolVersion5 @ w_byte f @ w_uint16 (cn_KeepAlive c) @
      pb @ w_string (cn_ClientID c) @ opt_enc w_will (cn_Will c) @ opt_enc w_string (username_opt c) @
      opt_enc w_binary (cn_Password c)"
proof -
  obtain f pb wb ub pwb where f: "connect_flags c = Inr f"
    and pb: "props_encode (cn_Properties c) CONNECT = Inr pb"
    and wb: "(case cn_Will c of None \<Rightarrow> Inr []
           | Some w \<Rightarrow>
               rbind (checkStringLen (wl_Topic w)) (\<lambda>_.
               rbind (checkBinaryLen (wl_Payload w)) (\<lambda>_.
               rbind (props_encode (wl_Properties w) willContext) (\<lambda>wpb.
               Inr (wpb @ w_string (wl_Topic w) @ w_binary (wl_Payload w)))))) = Inr wb"
    and ub: "(if cn_Username c \<noteq> [] then
             rbind (checkStringLen (cn_Username c)) (\<lambda>_. Inr (w_string (cn_Username c)))
           else Inr []) = Inr ub"
    and pwb: "(case cn_Password c of None \<Rightarrow> Inr []
           | Some p \<Rightarrow> rbind (checkBinaryLen p) (\<lambda>_. Inr (w_binary p))) = Inr pwb"
    and body: "body = w_string protocolName @ w_byte ProtocolVersion5 @ w_byte f @ w_uint16 (cn_KeepAlive c) @
      pb @ w_string (cn_ClientID c) @ wb @ ub @ pwb"
    using assms unfolding connect_encode_def rbind_Inr_iff by auto
  have "wb = opt_enc w_will (cn_Will c)"
    using wb by (cases "cn_Will c") (auto simp: opt_enc_def w_will_def rbind_Inr_iff)
  moreover have "ub = opt_enc w_string (username_opt c)"
    using ub by (auto simp: opt_enc_def username_opt_def rbind_Inr_iff split: if_splits)
  moreover have "pwb = opt_enc w_binary (cn_Password c)"
    using pwb by (cases "cn_Password c") (auto simp: opt_enc_def rbind_Inr_iff)
  moreover have "\<And>w. cn_Will c = Some w \<Longrightarrow> \<exists>wpb. props_encode (wl_Properties w) willContext = Inr wpb"
    using wb by (auto simp: rbind_Inr_iff)
  ultimately show ?thesis using that [OF f pb] body by blast
qed

lemma wf_protocolName: "wf_string protocolName"
  by (simp add: wf_string_def protocolName_def validateUTF8_def bytes_of_string_def)

lemma connect_roundtrip:
  assumes "wf_connect c" "connect_encode c = Inr (fl, body)" "length body \<le> MaxVarByteInt"
  shows "decodeConnect (new_reader body) = Inr (norm_connect c)"
proof -
  have wf: "wf_string (cn_ClientID c)" "wf_props CONNECT (cn_Properties c)" "wf_string (cn_Username c)"
    and wl: "\<And>w. cn_Will c = Some w \<Longrightarrow> wf_will w"
    and pw: "\<And>p. cn_Password c = Some p \<Longrightarrow> wf_binary p"
    and auth: "\<not> (0 < length (AuthenticationData (norm_props CONNECT (cn_Properties c))) \<and>
      AuthenticationMethod (norm_props CONNECT (cn_Properties c)) = [])"
    using assms(1) by (auto simp: wf_connect_def Let_def)
  obtain f pb where f: "connect_flags c = Inr f" and pb: "props_encode (cn_Properties c) CONNECT = Inr pb"
    and wpb: "\<And>w. cn_Will c = Some w \<Longrightarrow> \<exists>wpb. props_encode (wl_Properties w) willContext = Inr wpb"
    and body: "body = w_string protocolName @ w_byte ProtocolVersion5 @ w_byte f @ w_uint16 (cn_KeepAlive c) @
      pb @ w_string (cn_ClientID c) @ opt_enc w_will (cn_Will c) @ opt_enc w_string (username_opt c) @
      opt_enc w_binary (cn_Password c) @ []"
    using connect_encode_bytes [OF assms(2)] by (metis append_Nil2)
  note fl = connect_flags_dec [OF f]
  have len: "length pb \<le> MaxVarByteInt" using assms(3) by (simp add: body)
  have will: "decodeWill (case cn_Will c of None \<Rightarrow> 0 | Some w \<Rightarrow> wl_QoS w)
      (case cn_Will c of None \<Rightarrow> False | Some w \<Rightarrow> wl_Retain w) r = Inr (norm_will w, adv (length (w_will w)) r)"
    if w: "cn_Will c = Some w" and r: "rd_ok r" "rest r = w_will w @ xs" for w r xs
  proof -
    obtain b where b: "props_encode (wl_Properties w) willContext = Inr b" using wpb [OF w] by blast
    have "length b \<le> MaxVarByteInt" using assms(3) by (simp add: body opt_enc_def w w_will_def b)
    from run_will [OF wl [OF w] b this r(1)] w r(2) show ?thesis by (simp add: w_will_def b)
  qed
  have user: "r_string r = Inr (id u, adv (length (w_string u)) r)"
    if "username_opt c = Some u" "rd_ok r" "rest r = w_string u @ xs" for u r xs
    unfolding id_apply using that wf(3)
    by (intro c_string.dec_enc [where xs = xs]) (auto simp: username_opt_def split: if_splits)
  have pass: "r_binary r = Inr (id p, adv (length (w_binary p)) r)"
    if "cn_Password c = Some p" "rd_ok r" "rest r = w_binary p @ xs" for p r xs
    unfolding id_apply using that pw by (intro c_binary.dec_enc [where xs = xs]) auto
  have qv: "\<not> (cn_Will c \<noteq> None \<and> \<not> QoS_Valid (case cn_Will c of None \<Rightarrow> 0 | Some w \<Rightarrow> wl_QoS w))"
    using wl by (cases "cn_Will c") (auto simp: wf_will_def)
  have res: "(case map_option id (username_opt c) of None \<Rightarrow> [] | Some u \<Rightarrow> u) = cn_Username c"
    "(case map_option id (cn_Password c) of None \<Rightarrow> None | Some p \<Rightarrow> if p = [] then None else Some p) =
      (if cn_Password c = Some [] then None else cn_Password c)"
    by (auto simp: username_opt_def split: option.splits)
  show ?thesis
    unfolding decodeConnect_def Let_def fl body
    apply (rule c_string.run [OF rd_ok_new_reader _ wf_protocolName], rule rest_new_reader)
    apply (rule run_if, simp)
    apply (rule c_byte.run, assumption, assumption, simp)
    apply (rule run_if, simp)
    apply (rule c_byte.run, assumption, assumption, simp)
    unfolding fl
    apply (rule run_if, simp)
    apply (rule run_if, simp split: option.splits)
    apply (rule run_if, simp split: option.splits)
    apply (rule run_if, rule qv)
    apply (rule c_uint16.run, assumption, assumption, simp)
    apply (rule run_props [OF _ _ wf(2) pb len], assumption, assumption)
    apply (rule run_if, rule auth)
    apply (rule c_string.run [OF _ _ wf(1)], assumption, assumption)
    apply (rule run_opt [where x = "cn_Will c" and enc = w_will and nv = norm_will], assumption,
        simp only: opt_enc_def, simp, erule will, assumption, assumption)
    apply (rule run_opt [where x = "username_opt c" and enc = w_string and nv = id], assumption,
        simp only: opt_enc_def, simp add: username_opt_def, erule user, assumption, assumption)
    apply (rule run_opt [where x = "cn_Password c" and enc = w_binary and nv = id], assumption,
        simp only: opt_enc_def, simp, erule pass, assumption, assumption)
    apply (rule run_if, simp add: r_empty_iff)
    apply (simp only: res)
    apply (simp add: norm_connect_def)
    done
qed

text \<open>Decoding the body an encoder produced, for every packet type.\<close>

lemma decode_packet_encode:
  assumes "wf_packet p" "packet_encode p = Inr (f, body)" "length body \<le> MaxVarByteInt"
  shows "decode_body (packet_Type p) f body = Inr (norm_packet p)"
proof (cases p)
  case (Connect c)
  with assms connect_roundtrip [of c f body] show ?thesis by (simp add: decode_body_def map_res_def)
next
  case (Publish c)
  with assms publish_roundtrip [of c f body] show ?thesis by (simp add: decode_body_def map_res_def)
next
  case (Disconnect d)
  with assms disconnect_roundtrip [of d f body] show ?thesis by (simp add: decode_body_def map_res_def)
next
  case (Auth d)
  with assms auth_roundtrip [of d f body] show ?thesis by (simp add: decode_body_def map_res_def)
next
  case (Suback s)
  with assms reason_list_roundtrip [of SUBACK s f body] show ?thesis by (simp add: decode_body_def map_res_def)
next
  case (Unsuback s)
  with assms reason_list_roundtrip [of UNSUBACK s f body] show ?thesis by (simp add: decode_body_def map_res_def)
next
  case (Subscribe s)
  with assms subscribe_roundtrip [of s f body] show ?thesis by (simp add: decode_body_def)
next
  case (Unsubscribe s)
  with assms unsubscribe_roundtrip [of s f body] show ?thesis by (simp add: decode_body_def)
qed (use assms in \<open>simp_all add: decode_body_def connack_roundtrip
       ack_roundtrip remaining_eq\<close>)

section \<open>Decoded packets can be encoded\<close>

lemma items_restrict: "\<forall>x \<in> set (items (props_restrict ctx p)). allowedIn (fst x) ctx"
  unfolding items_def set_append ball_Un ball_opt_item ball_seq_item
  by (intro conjI) (simp_all add: props_restrict_def split: option.split)

lemma wf_len_ok: "wf_pval v \<Longrightarrow> ok_val i v \<Longrightarrow> len_ok v"
  by (cases v) (auto simp: wf_string_def wf_binary_def wf_pair_def wf_vbi_def ok_val_def split: prod.splits)

lemma props_encode_decoded:
  assumes "wf_props ctx (Some p)" "norm_props ctx (Some p) = p"
  shows "\<exists>b. props_encode (Some p) ctx = Inr b"
proof -
  have "\<forall>x \<in> set (items p). allowedIn (fst x) ctx"
    using items_restrict [of ctx p] assms(2) by (simp add: norm_props_def)
  then have "\<forall>x \<in> set (items p). len_ok (snd x)"
    using assms(1) wf_len_ok by (fastforce simp: wf_props_def props_wf_def)
  then show ?thesis by (simp add: props_encode_Some)
qed

lemma props_encode_fixed:
  assumes "wf_props ctx po" "po = Some (norm_props ctx po)"
  shows "\<exists>b. props_encode po ctx = Inr b"
  using assms props_encode_decoded [of ctx "norm_props ctx po"] by metis

lemma reservedFlags_ok: "t \<le> 15 \<Longrightarrow> \<exists>f. go_index reservedFlags (unat t) = Inr f" for t :: byte
  by (simp add: go_index_def reservedFlags_def word_le_nat_alt)

lemma cat_res_total: "\<forall>x \<in> set xs. \<exists>b. f x = Inr b \<Longrightarrow> \<exists>b. cat_res (map f xs) = Inr b"
  by (induction xs) fastforce+

lemma upd_fixed:
  "norm_rs t d = d \<Longrightarrow> rs_Properties d = Some (norm_props t (rs_Properties d))"
  "norm_rl t l = l \<Longrightarrow> rl_Properties l = Some (norm_props t (rl_Properties l))"
  "norm_ack t k = k \<Longrightarrow> ak_Properties k = Some (norm_props t (ak_Properties k))"
  "norm_publish p = p \<Longrightarrow> pb_Properties p = Some (norm_props PUBLISH (pb_Properties p))"
  "norm_will w = w \<Longrightarrow> wl_Properties w = Some (norm_props willContext (wl_Properties w))"
  "norm_connect c = c \<Longrightarrow> cn_Properties c = Some (norm_props CONNECT (cn_Properties c))"
  "norm_connect c = c \<Longrightarrow> cn_Will c = map_option norm_will (cn_Will c)"
  by (auto simp: norm_rs_def norm_rl_def norm_ack_def norm_publish_def norm_will_def norm_connect_def
      dest: arg_cong [of _ _ rs_Properties] arg_cong [of _ _ rl_Properties] arg_cong [of _ _ ak_Properties]
        arg_cong [of _ _ pb_Properties] arg_cong [of _ _ wl_Properties] arg_cong [of _ _ cn_Properties]
        arg_cong [of _ _ cn_Will])

lemma wf_string_check: "wf_string s \<Longrightarrow> checkStringLen s = Inr ()"
  by (simp add: wf_string_def checkStringLen_def)

lemma wf_binary_check: "wf_binary b \<Longrightarrow> checkBinaryLen b = Inr ()"
  by (simp add: wf_binary_def checkBinaryLen_def)

lemma connect_encodable:
  assumes "wf_connect c" "norm_connect c = c"
  shows "\<exists>x. connect_encode c = Inr x"
proof -
  have 1: "\<exists>b. props_encode (cn_Properties c) CONNECT = Inr b"
    using assms by (intro props_encode_fixed upd_fixed) (simp_all add: wf_connect_def)
  have 2: "\<exists>b. props_encode (wl_Properties w) willContext = Inr b" if "cn_Will c = Some w" for w
  proof -
    have "norm_will w = w" using upd_fixed(7) [OF assms(2)] that by simp
    with assms(1) that show ?thesis
      by (intro props_encode_fixed upd_fixed) (simp_all add: wf_connect_def wf_will_def)
  qed
  have 3: "\<exists>f. connect_flags c = Inr f"
    using assms(1) by (auto simp: connect_flags_def wf_connect_def wf_will_def split: option.split)
  show ?thesis
    using assms(1) 1 2 3 unfolding connect_encode_def
    by (cases "cn_Will c"; cases "cn_Password c")
       (auto simp: wf_connect_def wf_will_def wf_string_check wf_binary_check)
qed

lemma ack_encodable:
  assumes "wf_props t (ak_Properties k)" "norm_ack t k = k" "t \<le> 15"
  shows "\<exists>x. ack_encode t k = Inr x"
  using props_encode_fixed [OF assms(1) upd_fixed(3) [OF assms(2)]] reservedFlags_ok [OF assms(3)]
  by (auto simp: ack_encode_def noProps_eq)

lemma packet_encodable:
  assumes "wf_packet p" "norm_packet p = p"
  shows "\<exists>x. packet_encode p = Inr x"
proof (cases p)
  case (Connack c)
  then have "ca_Properties c = Some (norm_props CONNACK (ca_Properties c))"
    using assms(2) by (auto dest: arg_cong [of _ _ ca_Properties])
  then have "\<exists>b. props_encode (ca_Properties c) CONNACK = Inr b"
    using assms(1) Connack by (intro props_encode_fixed) simp_all
  with Connack show ?thesis by (auto simp: connack_encode_def Let_def)
next
  case (Publish q)
  with assms have "\<exists>b. props_encode (pb_Properties q) PUBLISH = Inr b"
    by (intro props_encode_fixed upd_fixed) (simp_all add: wf_publish_def)
  with Publish assms(1) show ?thesis by (auto simp: publish_encode_def wf_publish_def wf_string_check Let_def)
next
  case (Subscribe s)
  then have "su_Properties s = Some (norm_props SUBSCRIBE (su_Properties s))"
    using assms(2) by (auto dest: arg_cong [of _ _ su_Properties])
  then have "\<exists>b. props_encode (su_Properties s) SUBSCRIBE = Inr b"
    using assms(1) Subscribe by (intro props_encode_fixed) simp_all
  moreover have "\<exists>b. cat_res (map encodeSubscription (su_Subscriptions s)) = Inr b"
    using assms(1) Subscribe
    by (intro cat_res_total) (auto simp: encodeSubscription_def wf_subscription_def wf_string_check not_less)
  ultimately show ?thesis
    using assms(1) Subscribe by (auto simp: subscribe_encode_def go_index_def reservedFlags_def)
next
  case (Unsubscribe s)
  then have "un_Properties s = Some (norm_props UNSUBSCRIBE (un_Properties s))"
    using assms(2) by (auto dest: arg_cong [of _ _ un_Properties])
  then have "\<exists>b. props_encode (un_Properties s) UNSUBSCRIBE = Inr b"
    using assms(1) Unsubscribe by (intro props_encode_fixed) simp_all
  moreover have "\<exists>b. cat_res (map (\<lambda>f. rbind (checkStringLen f) (\<lambda>_. Inr (w_string f))) (un_Filters s)) = Inr b"
    using assms(1) Unsubscribe by (intro cat_res_total) (auto simp: wf_string_check)
  ultimately show ?thesis
    using assms(1) Unsubscribe by (auto simp: unsubscribe_encode_def go_index_def reservedFlags_def)
next
  case (Suback s)
  with assms have "\<exists>b. props_encode (rl_Properties s) SUBACK = Inr b"
    by (intro props_encode_fixed upd_fixed) simp_all
  with Suback assms(1) show ?thesis by (auto simp: encodeReasonCodeList_def)
next
  case (Unsuback s)
  with assms have "\<exists>b. props_encode (rl_Properties s) UNSUBACK = Inr b"
    by (intro props_encode_fixed upd_fixed) simp_all
  with Unsuback assms(1) show ?thesis by (auto simp: encodeReasonCodeList_def)
next
  case (Disconnect d)
  with assms have "\<exists>b. props_encode (rs_Properties d) DISCONNECT = Inr b"
    by (intro props_encode_fixed upd_fixed) simp_all
  with Disconnect show ?thesis by (auto simp: disconnect_encode_def noProps_eq)
next
  case (Auth d)
  with assms have "\<exists>b. props_encode (rs_Properties d) AUTH = Inr b"
    by (intro props_encode_fixed upd_fixed) simp_all
  with Auth show ?thesis by (auto simp: auth_encode_def noProps_eq)
qed (use assms ack_encodable connect_encodable in \<open>auto simp: word_le_nat_alt\<close>)

end
