(* ===== verification/Packet_IO.thy ===== *)
theory Packet_IO
  imports Packet_Roundtrip
begin

text \<open>
  Framing: \<^verbatim>\<open>src/packet/packet.go\<close>. The \<^verbatim>\<open>bufio.Reader\<close> a connection reads from is a \<open>stream\<close>: the
  bytes that will still arrive and the error reported once they are exhausted (\<^verbatim>\<open>io.EOF\<close> for a closed
  connection, another error for a broken one). \<open>read_packet\<close> is \<^verbatim>\<open>Read\<close>, \<open>encode_packet\<close> is
  \<^verbatim>\<open>Encode\<close>; \<^verbatim>\<open>Write\<close> adds the call to the transport.
\<close>

section \<open>Streams\<close>

record stream =
  sdata :: bytes
  sfin :: go_error

definition ReadByte :: "stream \<Rightarrow> (byte \<times> stream) res" where
  "ReadByte s = (case sdata s of [] \<Rightarrow> Inl (sfin s) | b # bs \<Rightarrow> Inr (b, s\<lparr>sdata := bs\<rparr>))"

text \<open>\<^verbatim>\<open>io.ReadFull\<close>: the end of the stream before the first byte is EOF, later it is ErrUnexpectedEOF.\<close>

definition ReadFull :: "stream \<Rightarrow> nat \<Rightarrow> (bytes \<times> stream) res" where
  "ReadFull s n =
    (if n \<le> length (sdata s) then Inr (take n (sdata s), s\<lparr>sdata := drop n (sdata s)\<rparr>)
     else if sfin s = EOF then Inl (if sdata s = [] then EOF else ErrUnexpectedEOF)
     else Inl (sfin s))"

section \<open>Reading a packet\<close>

definition eof_unexpected :: "'a res \<Rightarrow> 'a res" where
  "eof_unexpected m = (case m of Inl EOF \<Rightarrow> Inl ErrUnexpectedEOF | _ \<Rightarrow> m)"

function remainingLength_loop :: "nat \<Rightarrow> nat \<Rightarrow> nat \<Rightarrow> stream \<Rightarrow> ((nat \<times> nat) \<times> stream) res" where
  "remainingLength_loop i v m s =
    (if i < 4 then
       rbind (eof_unexpected (ReadByte s)) (\<lambda>(b, s').
       let v' = v + push_bit m (unat (b AND 0x7F)) in
       if b AND 0x80 = 0 then
         (if 0 < i \<and> b = 0 then Inl ErrMalformed else Inr ((v', i + 1), s'))
       else remainingLength_loop (Suc i) v' (m + 7) s')
     else Inl ErrMalformed)"
  by pat_completeness auto
termination
  by (relation "measure (\<lambda>(i, _, _, _). 4 - i)") auto

declare remainingLength_loop.simps [simp del]

definition readRemainingLength :: "stream \<Rightarrow> ((nat \<times> nat) \<times> stream) res" where
  "readRemainingLength s = remainingLength_loop 0 0 0 s"

definition read_packet :: "stream \<Rightarrow> u32 \<Rightarrow> (packet \<times> stream) res" where
  "read_packet s maxPacketSize =
    rbind (ReadByte s) (\<lambda>(first, s1).
    let t = drop_bit 4 first; flags = first AND 0x0F in
    if t = 0 then Inl ErrMalformed else
    rbind (if t \<noteq> PUBLISH then rbind (go_index reservedFlags (unat t)) (\<lambda>rf. Inr (flags \<noteq> rf))
           else Inr False) (\<lambda>bad.
    if bad then Inl ErrMalformed else
    rbind (readRemainingLength s1) (\<lambda>((remaining, headerLen), s2).
    if 0 < maxPacketSize \<and> int (unat maxPacketSize) < int (1 + headerLen + remaining)
    then Inl ErrPacketTooLarge
    else
      rbind (eof_unexpected (ReadFull s2 remaining)) (\<lambda>(body, s3).
      rbind (decode_body t flags body) (\<lambda>p. Inr (p, s3))))))"

section \<open>Writing a packet\<close>

definition encode_packet :: "packet \<Rightarrow> bytes res" where
  "encode_packet p =
    rbind (packet_encode p) (\<lambda>(flags, body).
    if MaxVarByteInt < length body then Inl ErrMalformed
    else Inr (appendVarByteInt [push_bit 4 (packet_Type p) OR flags] (int (length body)) @ body))"

definition EncodedLen :: "packet \<Rightarrow> nat res" where
  "EncodedLen p =
    rbind (packet_encode p) (\<lambda>(_, body). Inr (1 + varByteIntLen (int (length body)) + length body))"

text \<open>\<^verbatim>\<open>Write\<close> hands the encoded packet to the transport in one call; the transport is the argument
  \<open>wr\<close>, which takes the bytes and returns its error, if any.\<close>

definition write_packet :: "('w \<Rightarrow> bytes \<Rightarrow> go_error option \<times> 'w) \<Rightarrow> 'w \<Rightarrow> packet \<Rightarrow> go_error option \<times> 'w" where
  "write_packet wr w p = (case encode_packet p of Inl e \<Rightarrow> (Some e, w) | Inr b \<Rightarrow> wr w b)"

section \<open>The Remaining Length\<close>

lemma length_vbi: "v \<le> MaxVarByteInt \<Longrightarrow> length (vbi v) = varByteIntLen (int v)"
proof -
  assume v: "v \<le> MaxVarByteInt"
  have "length (vbi w) = Suc (if w < 128 then 0 else length (vbi (w div 128)))" for w
    by (simp add: vbi.simps [of w])
  note step = this
  consider "v < 128" | "128 \<le> v" "v < 16384" | "16384 \<le> v" "v < 2097152" | "2097152 \<le> v" by linarith
  then show ?thesis
  proof cases
    case 3
    have "v div 128 div 128 < 128" using 3 by (simp add: div_less_iff_less_mult)
    moreover have "\<not> v div 128 < 128" using div_le_mono [OF 3(1), of 128] by simp
    ultimately show ?thesis using 3 by (simp add: step varByteIntLen_def)
  next
    case 4
    have "v div 128 div 128 div 128 < 128" using v by (simp add: MaxVarByteInt_def)
    moreover have "\<not> v div 128 < 128" "\<not> v div 128 div 128 < 128" 
      using div_le_mono [OF 4, of 128] div_le_mono [OF div_le_mono [OF 4, of 128], of 128] by simp_all
    ultimately show ?thesis using 4 by (simp add: step varByteIntLen_def)
  qed (simp_all add: step varByteIntLen_def)
qed

text \<open>The loop over the stream reads what \<^verbatim>\<open>varByteInt\<close> reads from a buffer.\<close>

lemma remainingLength_ok:
  assumes "rest r = sdata s" "varByteInt_loop i a m r = Inr (w, r')"
  shows "remainingLength_loop i a m s =
    Inr ((w, i + (length (sdata s) - length (rest r'))), s\<lparr>sdata := rest r'\<rparr>)
    \<and> length (rest r') < length (sdata s)"
  using assms
proof (induction "4 - i" arbitrary: i a m r s)
  case 0
  then show ?case by (simp add: varByteInt_loop.simps [of i])
next
  case (Suc n)
  then have i: "i < 4" by simp
  obtain b bs where bs: "rest r = b # bs"
    using Suc.prems(2) i by (cases "rest r") (auto simp: varByteInt_loop.simps [of i] r_byte_eq)
  have rb: "eof_unexpected (ReadByte s) = Inr (b, s\<lparr>sdata := bs\<rparr>)"
    using bs Suc.prems(1) by (simp add: ReadByte_def eof_unexpected_def)
  show ?case
  proof (cases "unat b < 128")
    case True
    with Suc.prems(2) varByteInt_loop_final [OF bs i True] have r': "r' = adv 1 r"
      and "\<not> (0 < i \<and> unat b = 0)" "w = a + unat b * 2 ^ m" by (auto split: if_splits)
    moreover from this have "\<not> (0 < i \<and> b = 0)" by auto
    ultimately show ?thesis
      using True rb i bs Suc.prems(1)
      by (simp add: remainingLength_loop.simps [of i] byte_and_80 byte_and_7F push_bit_eq_mult)
  next
    case False
    let ?s = "s\<lparr>sdata := bs\<rparr>"
    have "varByteInt_loop (Suc i) (a + unat b mod 128 * 2 ^ m) (m + 7) (adv 1 r) = Inr (w, r')"
      using varByteInt_loop_cont [OF bs i] Suc.prems(2) False by (simp add: not_less)
    from Suc.hyps(1) [OF _ _ this, of ?s] Suc.hyps(2) bs
    have "remainingLength_loop (Suc i) (a + unat b mod 128 * 2 ^ m) (m + 7) ?s =
        Inr ((w, Suc i + (length bs - length (rest r'))), ?s\<lparr>sdata := rest r'\<rparr>) \<and> length (rest r') < length bs"
      by simp
    with False rb i bs Suc.prems(1) show ?thesis
      by (auto simp: remainingLength_loop.simps [of i] byte_and_80 byte_and_7F push_bit_eq_mult)
  qed
qed

lemma readRemainingLength_enc:
  assumes "n \<le> MaxVarByteInt" "sdata s = vbi n @ xs"
  shows "readRemainingLength s = Inr ((n, length (vbi n)), s\<lparr>sdata := xs\<rparr>)"
proof -
  let ?r = "new_reader (sdata s)"
  have "r_varByteInt ?r = Inr (n, adv (length (vbi n)) ?r)"
    using c_vbi.dec_enc [of ?r n xs] assms by (simp add: wf_vbi_def w_varByteInt_eq)
  then show ?thesis
    using remainingLength_ok [of ?r s 0 0 0 n "adv (length (vbi n)) ?r"] assms(2)
    by (simp add: r_varByteInt_def readRemainingLength_def)
qed

lemma remainingLength_err:
  "remainingLength_loop i a m s = Inl e \<Longrightarrow> e = ErrMalformed \<or> e = ErrUnexpectedEOF \<or> e = sfin s"
proof (induction i a m s rule: remainingLength_loop.induct)
  case (1 i a m s)
  show ?case
  proof (cases "sdata s")
    case Nil
    with 1(2) show ?thesis
      by (cases "sfin s") (auto simp: remainingLength_loop.simps [of i] ReadByte_def eof_unexpected_def
          split: if_splits)
  next
    case (Cons b bs)
    then have rb: "eof_unexpected (ReadByte s) = Inr (b, s\<lparr>sdata := bs\<rparr>)"
      by (simp add: ReadByte_def eof_unexpected_def)
    show ?thesis
    proof (cases "i < 4 \<and> b AND 0x80 \<noteq> 0")
      case True
      with 1(1) [OF _ rb refl refl] 1(2) rb show ?thesis
        by (simp add: remainingLength_loop.simps [of i] Let_def)
    next
      case False
      with 1(2) rb show ?thesis
        by (auto simp: remainingLength_loop.simps [of i] Let_def split: if_splits)
    qed
  qed
qed

text \<open>Whatever length was read, its encoding is what stood in the stream.\<close>

lemma remainingLength_width:
  "remainingLength_loop i a m s = Inr ((w, n), s') \<Longrightarrow> n \<le> 4 \<and> sfin s' = sfin s"
proof (induction i a m s rule: remainingLength_loop.induct)
  case (1 i a m s)
  then obtain b bs where bs: "sdata s = b # bs" and i: "i < 4"
    by (cases "sdata s"; cases "sfin s")
       (auto simp: remainingLength_loop.simps [of i] ReadByte_def eof_unexpected_def split: if_splits)
  then have rb: "eof_unexpected (ReadByte s) = Inr (b, s\<lparr>sdata := bs\<rparr>)"
    by (simp add: ReadByte_def eof_unexpected_def)
  show ?case
  proof (cases "b AND 0x80 = 0")
    case True
    with 1(2) rb i show ?thesis by (auto simp: remainingLength_loop.simps [of i] Let_def split: if_splits)
  next
    case False
    with 1(1) [OF i rb refl refl False] 1(2) rb i show ?thesis
      by (simp add: remainingLength_loop.simps [of i] Let_def)
  qed
qed

section \<open>Reading what was written\<close>

lemma low_nibble_bits: "x \<le> (15 :: byte) \<Longrightarrow> bit x n \<Longrightarrow> n < 4"
proof (rule ccontr)
  assume x: "x \<le> 15" "bit x n" and n: "\<not> n < 4"
  have "unat x < 2 ^ 4" using x(1) by (simp add: word_le_nat_alt)
  then have "take_bit 4 (unat x) = unat x" by (simp add: take_bit_nat_eq_self_iff)
  then have "\<not> bit (unat x) n" using n by (metis bit_take_bit_iff)
  with x(2) show False by (simp add: bit_unsigned_iff)
qed

lemma fixed_header_bits:
  assumes "t \<le> 15" "f \<le> (15 :: byte)"
  shows "drop_bit 4 (push_bit 4 t OR f) = t" "(push_bit 4 t OR f) AND 0x0F = f"
proof -
  note lo = low_nibble_bits [OF assms(1)] low_nibble_bits [OF assms(2)]
  show "drop_bit 4 (push_bit 4 t OR f) = t"
    by (rule bit_word_eqI) (auto simp: bit_simps dest: lo)
  have "x AND 0x0F = take_bit 4 x" for x :: byte by (simp add: take_bit_eq_mask mask_eq_exp_minus_1)
  moreover have "take_bit 4 (push_bit 4 t OR f) = f"
    by (rule bit_word_eqI) (auto simp: bit_simps dest: lo)
  ultimately show "(push_bit 4 t OR f) AND 0x0F = f" by simp
qed

lemma packet_Type_range: "1 \<le> packet_Type p \<and> packet_Type p \<le> 15"
  by (cases p) (simp_all add: word_le_nat_alt)

lemma packet_encode_flags:
  assumes "packet_encode p = Inr (f, body)"
  shows "f \<le> 15 \<and> (packet_Type p \<noteq> PUBLISH \<longrightarrow> go_index reservedFlags (unat (packet_Type p)) = Inr f)"
proof (cases p)
  case (Publish q)
  then have "QoS_Valid (pb_QoS q)" and f: "f = (if pb_Dup q \<and> pb_QoS q \<noteq> 0 then 0x08 else 0)
      OR push_bit 1 (pb_QoS q) OR (if pb_Retain q then 0x01 else 0)"
    using assms by (auto simp: publish_encode_def rbind_Inr_iff Let_def split: if_splits)
  then show ?thesis using Publish by (auto simp: QoS_Valid_cases word_le_nat_alt)
qed (use assms in \<open>auto simp: connect_encode_def connack_encode_def ack_encode_def subscribe_encode_def
      unsubscribe_encode_def encodeReasonCodeList_def disconnect_encode_def auth_encode_def rbind_Inr_iff
      go_index_def reservedFlags_def Let_def word_le_nat_alt split: if_splits\<close>)

lemma read_packet_step:
  assumes "ReadByte s = Inr (h, s1)" "drop_bit 4 h = t" "h AND 0x0F = f" "t \<noteq> 0"
    and "t \<noteq> PUBLISH \<longrightarrow> go_index reservedFlags (unat t) = Inr f"
    and "readRemainingLength s1 = Inr ((n, k), s2)"
  shows "read_packet s mx =
    (if 0 < mx \<and> unat mx < 1 + k + n then Inl ErrPacketTooLarge
     else rbind (eof_unexpected (ReadFull s2 n)) (\<lambda>(body, s3).
       rbind (decode_body t f body) (\<lambda>p. Inr (p, s3))))"
  using assms unfolding read_packet_def Let_def of_nat_less_iff by simp

lemma read_encode:
  assumes "wf_packet p" "encode_packet p = Inr b" "sdata s = b @ xs"
    and "0 < mx \<longrightarrow> length b \<le> unat mx"
  shows "read_packet s mx = Inr (norm_packet p, s\<lparr>sdata := xs\<rparr>)"
proof -
  obtain f body where pe: "packet_encode p = Inr (f, body)" and len: "length body \<le> MaxVarByteInt"
    and b: "b = (push_bit 4 (packet_Type p) OR f) # vbi (length body) @ body"
    using assms(2) by (auto simp: encode_packet_def rbind_Inr_iff appendVarByteInt_eq split: if_splits)
  let ?s1 = "s\<lparr>sdata := vbi (length body) @ body @ xs\<rparr>"
  have t: "packet_Type p \<le> 15" "packet_Type p \<noteq> 0"
    using packet_Type_range [of p] by auto
  have 1: "ReadByte s = Inr (push_bit 4 (packet_Type p) OR f, ?s1)"
    using assms(3) by (simp add: ReadByte_def b)
  have 2: "readRemainingLength ?s1 = Inr ((length body, length (vbi (length body))), s\<lparr>sdata := body @ xs\<rparr>)"
    using readRemainingLength_enc [OF len, of ?s1 "body @ xs"] by simp
  have 3: "decode_body (packet_Type p) f body = Inr (norm_packet p)"
    by (rule decode_packet_encode [OF assms(1) pe len])
  have "f \<le> 15" and 4: "packet_Type p \<noteq> PUBLISH \<longrightarrow> go_index reservedFlags (unat (packet_Type p)) = Inr f"
    using packet_encode_flags [OF pe] by blast+
  note step = read_packet_step [OF 1 fixed_header_bits [OF t(1) \<open>f \<le> 15\<close>] t(2) 4 2, of mx]
  show ?thesis
    unfolding step using assms(4) 3 by (auto simp: b ReadFull_def eof_unexpected_def)
qed

section \<open>Every outcome of a read\<close>

lemma eof_unexpected_err:
  "eof_unexpected m = Inl e \<Longrightarrow> e = ErrUnexpectedEOF \<or> m = Inl e"
  by (cases m) (auto simp: eof_unexpected_def split: go_error.splits)

lemma ReadFull_err: "ReadFull s n = Inl e \<Longrightarrow> e = EOF \<or> e = ErrUnexpectedEOF \<or> e = sfin s"
  by (auto simp: ReadFull_def split: if_splits)

lemma readRemainingLength_fin:
  assumes "readRemainingLength s = Inr ((w, n), s')"
  shows "sfin s' = sfin s"
  using remainingLength_width [of 0 0 0 s w n s'] assms by (simp add: readRemainingLength_def)

lemma read_packet_err:
  assumes "read_packet s mx = Inl e"
  shows "decode_error e \<or> e = ErrPacketTooLarge \<or> e = EOF \<or> e = ErrUnexpectedEOF \<or> e = sfin s"
proof (cases "sdata s")
  case Nil
  with assms show ?thesis by (simp add: read_packet_def ReadByte_def)
next
  case (Cons h bs)
  let ?s1 = "s\<lparr>sdata := bs\<rparr>" and ?t = "drop_bit 4 h" and ?f = "h AND 0x0F"
  have rb: "ReadByte s = Inr (h, ?s1)" by (simp add: ReadByte_def Cons)
  have "unat ?t = unat h div 16" by (simp only: unat_drop_bit_eq) (simp add: drop_bit_eq_div)
  then have "unat ?t < 16" using unat_byte_less [of h] by simp
  then obtain rf where rf: "go_index reservedFlags (unat ?t) = Inr rf"
    by (simp add: go_index_def reservedFlags_def)
  show ?thesis
  proof (cases "?t = 0 \<or> (?t \<noteq> PUBLISH \<and> ?f \<noteq> rf)")
    case True
    with assms rb rf show ?thesis by (auto simp: read_packet_def Let_def split: if_splits)
  next
    case False
    then have ok: "?t \<noteq> 0" "?t \<noteq> PUBLISH \<longrightarrow> go_index reservedFlags (unat ?t) = Inr ?f" using rf by auto
    show ?thesis
    proof (cases "readRemainingLength ?s1")
      case (Inl e')
      then have "e' = e" using assms rb ok by (auto simp: read_packet_def Let_def split: if_splits)
      with Inl remainingLength_err [of 0 0 0 ?s1 e'] show ?thesis
        by (auto simp: readRemainingLength_def)
    next
      case (Inr x)
      then obtain n k s2 where rl: "readRemainingLength ?s1 = Inr ((n, k), s2)" by (cases x) auto
      have fin: "sfin s2 = sfin s" using readRemainingLength_fin [OF rl] by simp
      note step = read_packet_step [OF rb refl refl ok rl, of mx]
      consider "e = ErrPacketTooLarge" | "eof_unexpected (ReadFull s2 n) = Inl e"
        | body where "decode_body ?t ?f body = Inl e"
        using assms unfolding step by (auto simp: rbind_Inl_iff split: if_splits)
      then show ?thesis
      proof cases
        case 2
        with eof_unexpected_err [OF 2] ReadFull_err [of s2 n e] fin show ?thesis by auto
      next
        case 3
        with decode_body_post [of ?t ?f body] show ?thesis by (simp add: dec_post_def)
      qed simp
    qed
  qed
qed

lemma encode_packet_len:
  assumes "encode_packet p = Inr b"
  shows "EncodedLen p = Inr (length b)"
  using assms
  by (auto simp: encode_packet_def EncodedLen_def rbind_Inr_iff appendVarByteInt_eq length_vbi not_less
      split: if_splits)

lemma read_too_large:
  assumes "sdata s = h # vbi n @ xs" "drop_bit 4 h = t" "t \<noteq> 0"
    and "t \<noteq> PUBLISH \<longrightarrow> go_index reservedFlags (unat t) = Inr (h AND 0x0F)"
    and "n \<le> MaxVarByteInt" "0 < mx" "unat mx < 1 + length (vbi n) + n"
  shows "read_packet s mx = Inl ErrPacketTooLarge"
proof -
  let ?s1 = "s\<lparr>sdata := vbi n @ xs\<rparr>"
  have rb: "ReadByte s = Inr (h, ?s1)" using assms(1) by (simp add: ReadByte_def)
  have rl: "readRemainingLength ?s1 = Inr ((n, length (vbi n)), s\<lparr>sdata := xs\<rparr>)"
    using readRemainingLength_enc [OF assms(5), of ?s1 xs] by simp
  show ?thesis
    unfolding read_packet_step [OF rb assms(2) refl assms(3,4) rl] using assms(6,7) by simp
qed

lemma decode_reencode:
  assumes "decode_body t flags body = Inr p" "t \<noteq> CONNACK"
  shows "\<exists>f b. packet_encode p = Inr (f, b) \<and> (length b \<le> MaxVarByteInt \<longrightarrow> decode_body t f b = Inr p)"
proof -
  have p: "packet_Type p = t" "wf_packet p" "norm_packet p = p"
    using decode_body_post [of t flags body] assms by (simp_all add: dec_post_def)
  then obtain f b where "packet_encode p = Inr (f, b)" using packet_encodable by fastforce
  with decode_packet_encode [OF p(2) this] p show ?thesis by auto
qed

end
