(* ===== verification/Topic.thy ===== *)
theory Topic
  imports Prelude
begin

text \<open>
  Topic Names and Topic Filters: \<^verbatim>\<open>src/topic/topic.go\<close> and \<^verbatim>\<open>src/dollar.go\<close>. A topic is a Go string;
  its levels are what \<^verbatim>\<open>strings.Split(s, "/")\<close> returns.
\<close>

section \<open>The string functions used\<close>

fun split_on :: "char \<Rightarrow> string \<Rightarrow> string list" where
  "split_on c [] = [[]]"
| "split_on c (x # xs) =
    (if x = c then [] # split_on c xs
     else (case split_on c xs of [] \<Rightarrow> [[x]] | l # ls \<Rightarrow> (x # l) # ls))"

definition has_prefix :: "string \<Rightarrow> string \<Rightarrow> bool" where
  "has_prefix s p \<longleftrightarrow> take (length p) s = p"

definition has_suffix :: "string \<Rightarrow> string \<Rightarrow> bool" where
  "has_suffix s p \<longleftrightarrow> length p \<le> length s \<and> drop (length s - length p) s = p"

text \<open>\<^verbatim>\<open>strings.Cut(s, sep)\<close> for a one-byte separator: before, after, found.\<close>

definition str_cut :: "char \<Rightarrow> string \<Rightarrow> string \<times> string \<times> bool" where
  "str_cut c s =
    (if c \<in> set s then (takeWhile (\<lambda>x. x \<noteq> c) s, tl (dropWhile (\<lambda>x. x \<noteq> c) s), True) else (s, [], False))"

definition contains_any :: "string \<Rightarrow> char set \<Rightarrow> bool" where
  "contains_any s cs \<longleftrightarrow> (\<exists>c \<in> set s. c \<in> cs)"

section \<open>Validation\<close>

definition MaxLength :: nat where
  "MaxLength = 65535"

definition SharedPrefix :: string where
  "SharedPrefix = ''$share/''"

definition reservedLevels :: "string list" where
  "reservedLevels = [''$retained'', ''$queue'']"

definition reserved :: "string \<Rightarrow> bool" where
  "reserved s \<longleftrightarrow> fst (str_cut CHR ''/'' s) \<in> set reservedLevels"

definition validateCommon :: "string \<Rightarrow> bool \<Rightarrow> unit res" where
  "validateCommon s escaped =
    (if s = [] then Inl ErrInvalid
     else if MaxLength < length s then Inl ErrInvalid
     else if CHR 0x00 \<in> set s then Inl ErrInvalid
     else if escaped then Inr ()
     else if contains_any s {CHR '' '', CHR 0x09, CHR 0x0A, CHR 0x0D, CHR 0x0C, CHR 0x7F} then Inl ErrInvalid
     else if contains_any s {CHR ''*'', CHR ''>''} then Inl ErrInvalid
     else Inr ())"

definition validateName :: "string \<Rightarrow> bool \<Rightarrow> unit res" where
  "validateName name escaped =
    rbind (validateCommon name escaped) (\<lambda>_.
    if contains_any name {CHR ''+'', CHR ''#''} then Inl ErrInvalid
    else if reserved name then Inl ErrInvalid
    else Inr ())"

text \<open>The loop over the levels; the flag is \<^verbatim>\<open>i == len(levels)-1\<close>.\<close>

fun filterLevels_loop :: "string list \<Rightarrow> unit res" where
  "filterLevels_loop [] = Inr ()"
| "filterLevels_loop (level # levels) =
    (if level \<noteq> ''+'' \<and> CHR ''+'' \<in> set level then Inl ErrInvalid
     else if CHR ''#'' \<in> set level \<and> level \<noteq> ''#'' then Inl ErrInvalid
     else if CHR ''#'' \<in> set level \<and> levels \<noteq> [] then Inl ErrInvalid
     else filterLevels_loop levels)"

definition validateFilterLevels :: "string \<Rightarrow> unit res" where
  "validateFilterLevels fltr =
    (if fltr = [] then Inl ErrInvalid else filterLevels_loop (split_on CHR ''/'' fltr))"

definition IsShared :: "string \<Rightarrow> bool" where
  "IsShared f \<longleftrightarrow> has_prefix f SharedPrefix"

definition SplitShared :: "string \<Rightarrow> (string \<times> string) res" where
  "SplitShared f =
    (if \<not> has_prefix f SharedPrefix then Inr ([], f)
     else
       let r = drop (length SharedPrefix) f;
           (share, fltr, found) = str_cut CHR ''/'' r
       in
       if \<not> found then Inl ErrInvalid
       else if share = [] then Inl ErrInvalid
       else if contains_any share {CHR ''+'', CHR ''#''} then Inl ErrInvalid
       else if fltr = [] then Inl ErrInvalid
       else Inr (share, fltr))"

definition validateFilter :: "string \<Rightarrow> bool \<Rightarrow> unit res" where
  "validateFilter fltr escaped =
    rbind (validateCommon fltr escaped) (\<lambda>_.
    if has_prefix fltr SharedPrefix then
      rbind (SplitShared fltr) (\<lambda>(_, rest).
      if reserved rest then Inl ErrInvalid else validateFilterLevels rest)
    else if reserved fltr then Inl ErrInvalid
    else validateFilterLevels fltr)"

section \<open>Matching\<close>

fun match_levels :: "string list \<Rightarrow> string list \<Rightarrow> bool" where
  "match_levels [] ns = (ns = [])"
| "match_levels (level # fs) ns =
    (if level = ''#'' then True
     else case ns of
       [] \<Rightarrow> False
     | n # ns' \<Rightarrow> if level \<noteq> ''+'' \<and> level \<noteq> n then False else match_levels fs ns')"

definition Match_inner :: "string \<Rightarrow> string \<Rightarrow> bool" where
  "Match_inner fltr name =
    (if fltr = [] \<or> name = [] then False
     else if hd name = CHR ''$'' \<and> (hd fltr = CHR ''#'' \<or> hd fltr = CHR ''+'') then False
     else match_levels (split_on CHR ''/'' fltr) (split_on CHR ''/'' name))"

definition Match :: "string \<Rightarrow> string \<Rightarrow> bool" where
  "Match fltr name =
    (if IsShared fltr then
       (case SplitShared fltr of Inl _ \<Rightarrow> False | Inr (_, inner) \<Rightarrow> Match_inner inner name)
     else Match_inner fltr name)"

definition MatchAny :: "string list \<Rightarrow> string \<Rightarrow> bool" where
  "MatchAny filters name \<longleftrightarrow> (\<exists>f \<in> set filters. Match f name)"

section \<open>Restricting \<^verbatim>\<open>$\<close> topics\<close>

definition dollarName :: "string \<Rightarrow> bool" where
  "dollarName name \<longleftrightarrow> has_prefix name ''$''"

definition dollarFilter :: "string \<Rightarrow> bool" where
  "dollarFilter fltr =
    (case SplitShared fltr of
       Inl _ \<Rightarrow> False
     | Inr (share, inner) \<Rightarrow> if share \<noteq> [] then has_prefix inner ''$'' else has_prefix fltr ''$'')"

section \<open>Levels\<close>

lemma split_on_not_Nil [simp]: "split_on c s \<noteq> []"
  by (cases s) (auto split: list.splits)

lemma split_on_no_sep: "c \<notin> set s \<Longrightarrow> split_on c s = [s]"
  by (induction s) auto

text \<open>Joining with a separator is the inverse of splitting at it.\<close>

fun join :: "string \<Rightarrow> string list \<Rightarrow> string" where
  "join d [] = []"
| "join d [l] = l"
| "join d (l # ls) = l @ d @ join d ls"

lemma join_Cons: "ls \<noteq> [] \<Longrightarrow> join d (l # ls) = l @ d @ join d ls"
  by (cases ls) auto

lemma join_split [simp]: "join [c] (split_on c s) = s"
proof (induction s)
  case (Cons x s)
  show ?case
  proof (cases "x = c")
    case False
    obtain l ls where "split_on c s = l # ls" by (cases "split_on c s") auto
    with Cons False show ?thesis by (cases ls) auto
  qed (use Cons in \<open>simp add: join_Cons\<close>)
qed simp

lemma split_append_sep:
  "c \<notin> set l \<Longrightarrow> split_on c (l @ c # s) = l # split_on c s"
  by (induction l) (auto split: list.splits)

lemma split_join:
  "ls \<noteq> [] \<Longrightarrow> \<forall>l \<in> set ls. c \<notin> set l \<Longrightarrow> split_on c (join [c] ls) = ls"
proof (induction ls rule: induct_list012)
  case (3 x y zs)
  then show ?case by (simp add: split_append_sep)
qed (simp_all add: split_on_no_sep)

lemma split_levels_no_sep: "l \<in> set (split_on c s) \<Longrightarrow> c \<notin> set l"
  by (induction s arbitrary: l) (auto split: list.splits if_splits)

lemma cut_split: "fst (str_cut c s) = hd (split_on c s)"
proof (induction s)
  case (Cons x s)
  obtain l ls where "split_on c s = l # ls" by (cases "split_on c s") auto
  with Cons show ?case by (auto simp: str_cut_def split: if_splits)
qed (simp add: str_cut_def)

lemma hd_level: "s \<noteq> [] \<Longrightarrow> hd s \<noteq> c \<Longrightarrow> \<exists>l ls. split_on c s = (hd s # l) # ls"
  by (cases s) (auto split: list.splits)

end
