(* ===== verification/Subject.thy ===== *)
theory Subject
  imports Topic
begin

text \<open>
  The mapping between topics and NATS subjects: \<^verbatim>\<open>src/topic/subject.go\<close> and
  \<^verbatim>\<open>src/subjectcodec.go\<close>. \<open>convert\<close> and \<open>subjectToName\<close> are the two byte loops; the reference
  they are proved against works level by level (\<open>enc_level\<close>), which gives the round trip and the
  correspondence between MQTT and NATS matching.
\<close>

section \<open>Topic to subject\<close>

definition escapeSwitch :: "(char \<times> char) list" where
  "escapeSwitch = [(CHR ''*'', CHR ''s''), (CHR ''>'', CHR ''g''), (CHR '' '', CHR ''p''), (CHR 0x09, CHR ''t''),
     (CHR 0x0A, CHR ''n''), (CHR 0x0D, CHR ''r''), (CHR 0x0C, CHR ''f''), (CHR 0x7F, CHR ''d'')]"

definition escapedChar :: "char \<Rightarrow> char" where
  "escapedChar c = (case map_of escapeSwitch c of Some l \<Rightarrow> l | None \<Rightarrow> CHR 0x00)"

text \<open>The characters of the case of \<^verbatim>\<open>convert\<close> that may be escaped.\<close>

definition escapable :: "char list" where
  "escapable = [CHR ''*'', CHR ''>'', CHR '' '', CHR 0x09, CHR 0x0A, CHR 0x0D, CHR 0x0C, CHR 0x7F]"

definition lastByte :: "string \<Rightarrow> char" where
  "lastByte s = (if s = [] then CHR 0x00 else last s)"

text \<open>The bytes written for one character other than \<^verbatim>\<open>'/'\<close>.\<close>

definition convert_char :: "bool \<Rightarrow> bool \<Rightarrow> char \<Rightarrow> string" where
  "convert_char wildcards escape c =
    (if c = CHR ''.'' then ''//''
     else if c \<in> set escapable then
       (let l = escapedChar c in if escape \<and> l \<noteq> CHR 0x00 then [CHR ''/'', l] else [c])
     else if c = CHR ''+'' then (if wildcards then ''*'' else [c])
     else if c = CHR ''#'' then (if wildcards then ''>'' else [c])
     else [c])"

text \<open>The loop: \<open>i\<close> the index, \<open>b\<close> the builder, the last argument the rest of the topic from \<open>i\<close>.\<close>

fun convert_loop :: "bool \<Rightarrow> bool \<Rightarrow> nat \<Rightarrow> string \<Rightarrow> string \<Rightarrow> string" where
  "convert_loop wildcards escape i b [] = b"
| "convert_loop wildcards escape i b (c # cs) =
    convert_loop wildcards escape (Suc i)
      (if c = CHR ''/'' then
         (if i = 0 \<or> lastByte b = CHR ''.'' then b @ ''/.''
          else if cs = [] \<or> hd cs = CHR ''/'' then b @ ''./''
          else b @ ''.'')
       else b @ convert_char wildcards escape c) cs"

definition convert :: "string \<Rightarrow> bool \<Rightarrow> bool \<Rightarrow> string" where
  "convert mt wildcards escape =
    (let out = convert_loop wildcards escape 0 [] mt in
     if has_suffix out ''.'' then out @ ''/'' else out)"

definition nameToSubject :: "bool \<Rightarrow> string \<Rightarrow> string res" where
  "nameToSubject escape name = rbind (validateName name escape) (\<lambda>_. Inr (convert name False escape))"

definition filterToSubject :: "bool \<Rightarrow> string \<Rightarrow> string res" where
  "filterToSubject escape fltr =
    rbind (validateFilter fltr escape) (\<lambda>_.
    rbind (SplitShared fltr) (\<lambda>(_, inner).
    Inr (convert inner True escape)))"

section \<open>Subject to topic\<close>

definition escapes :: "(char \<times> char) list" where
  "escapes = [(CHR ''s'', CHR ''*''), (CHR ''g'', CHR ''>''), (CHR ''p'', CHR '' ''), (CHR ''t'', CHR 0x09),
     (CHR ''n'', CHR 0x0A), (CHR ''r'', CHR 0x0D), (CHR ''f'', CHR 0x0C), (CHR ''d'', CHR 0x7F)]"

fun subjectToName :: "string \<Rightarrow> string" where
  "subjectToName [] = []"
| "subjectToName (c # cs) =
    (if c = CHR ''/'' then
       (case cs of
          [] \<Rightarrow> []
        | d # ds \<Rightarrow>
            if d = CHR ''.'' then CHR ''/'' # subjectToName ds
            else if d = CHR ''/'' then CHR ''.'' # subjectToName ds
            else (case map_of escapes d of
                    Some e \<Rightarrow> e # subjectToName ds
                  | None \<Rightarrow> subjectToName (d # ds)))
     else if c = CHR ''.'' then CHR ''/'' # subjectToName cs
     else c # subjectToName cs)"

definition ParentSubject :: "string \<Rightarrow> string option" where
  "ParentSubject subject =
    (if length subject < 3 \<or> \<not> has_suffix subject ''.>'' then None
     else Some (take (length subject - 2) subject))"

definition Prefix :: "string \<Rightarrow> string \<Rightarrow> string" where
  "Prefix p subject = (if p = [] then subject else p @ ''.'' @ subject)"

definition TrimPrefix :: "string \<Rightarrow> string \<Rightarrow> string option" where
  "TrimPrefix p subject =
    (if p = [] then Some subject
     else if \<not> has_prefix subject (p @ ''.'') then None
     else Some (drop (length (p @ ''.'')) subject))"

section \<open>The broker's codec\<close>

record subjectCodec =
  escape :: bool

definition codec_validateName :: "subjectCodec \<Rightarrow> string \<Rightarrow> unit res" where
  "codec_validateName k n = (if escape k then validateName n True else validateName n False)"

definition codec_validateFilter :: "subjectCodec \<Rightarrow> string \<Rightarrow> unit res" where
  "codec_validateFilter k f = (if escape k then validateFilter f True else validateFilter f False)"

definition codec_nameToSubject :: "subjectCodec \<Rightarrow> string \<Rightarrow> string res" where
  "codec_nameToSubject k n = (if escape k then nameToSubject True n else nameToSubject False n)"

definition codec_filterToSubject :: "subjectCodec \<Rightarrow> string \<Rightarrow> string res" where
  "codec_filterToSubject k f = (if escape k then filterToSubject True f else filterToSubject False f)"

definition codec_subjectToName :: "subjectCodec \<Rightarrow> string \<Rightarrow> string" where
  "codec_subjectToName k s = subjectToName s"

lemma codec_simps:
  "codec_validateName k n = validateName n (escape k)"
  "codec_validateFilter k f = validateFilter f (escape k)"
  "codec_nameToSubject k n = nameToSubject (escape k) n"
  "codec_filterToSubject k f = filterToSubject (escape k) f"
  by (simp_all add: codec_validateName_def codec_validateFilter_def codec_nameToSubject_def codec_filterToSubject_def)

section \<open>The reference: level by level\<close>

definition enc_level :: "bool \<Rightarrow> bool \<Rightarrow> string \<Rightarrow> string" where
  "enc_level w e l = (if l = [] then ''/'' else concat (map (convert_char w e) l))"

text \<open>The escape letters, and that the two tables are inverse to each other.\<close>

lemma escapedChar_table:
  "c \<in> set escapable \<Longrightarrow>
    escapedChar c \<noteq> CHR 0x00 \<and> escapedChar c \<noteq> CHR ''.'' \<and> escapedChar c \<noteq> CHR ''/'' \<and>
    map_of escapes (escapedChar c) = Some c"
  unfolding escapable_def
  by (elim set_ConsD [THEN disjE]; simp add: escapedChar_def escapeSwitch_def escapes_def)

lemma convert_char_not_dot: "c \<noteq> CHR ''/'' \<Longrightarrow> CHR ''.'' \<notin> set (convert_char w e c)"
proof -
  have "CHR ''.'' \<noteq> escapedChar c" if "c \<in> set escapable" using escapedChar_table [OF that] by metis
  then show ?thesis by (cases "c \<in> set escapable") (simp_all add: convert_char_def Let_def)
qed

lemma convert_char_ne [simp]: "convert_char w e c \<noteq> []"
  by (simp add: convert_char_def Let_def)

lemma last_convert_char: "c \<noteq> CHR ''/'' \<Longrightarrow> last (convert_char w e c) \<noteq> CHR ''.''"
  by (metis convert_char_not_dot convert_char_ne last_in_set)

lemma enc_level_no_dot: "CHR ''/'' \<notin> set l \<Longrightarrow> CHR ''.'' \<notin> set (enc_level w e l)"
  by (induction l) (simp_all add: enc_level_def convert_char_not_dot split: if_splits)

text \<open>The loop in its two states: at the start of a level of which nothing is written yet, and inside
  a level (or behind an empty level that is already written).\<close>

definition tail_out :: "bool \<Rightarrow> bool \<Rightarrow> string \<Rightarrow> string" where
  "tail_out w e s = (case split_on CHR ''/'' s of
     [] \<Rightarrow> []
   | l # ls \<Rightarrow> concat (map (convert_char w e) l) @
       (if ls = [] then [] else ''.'' @ join ''.'' (map (enc_level w e) ls)))"

definition finish :: "string \<Rightarrow> string" where
  "finish out = (if has_suffix out ''.'' then out @ ''/'' else out)"

lemma has_suffix_dot: "has_suffix s ''.'' \<longleftrightarrow> s \<noteq> [] \<and> last s = CHR ''.''"
  by (cases s rule: rev_cases) (auto simp: has_suffix_def)

lemma tail_out_Cons:
  "c \<noteq> CHR ''/'' \<Longrightarrow> tail_out w e (c # s) = convert_char w e c @ tail_out w e s"
  by (auto simp: tail_out_def split: list.splits)

lemma join_Cons_split: "join ''.'' (map (enc_level w e) (l # split_on CHR ''/'' s)) =
    enc_level w e l @ ''.'' @ join ''.'' (map (enc_level w e) (split_on CHR ''/'' s))"
  by (simp add: join_Cons)

lemma level_start:
  assumes "s \<noteq> []" "hd s \<noteq> CHR ''/''"
  shows "join ''.'' (map (enc_level w e) (split_on CHR ''/'' s)) = tail_out w e s"
proof -
  obtain l ls where "split_on CHR ''/'' s = (hd s # l) # ls" using hd_level [OF assms] by blast
  then show ?thesis by (cases ls) (simp_all add: tail_out_def enc_level_def)
qed

lemma level_empty: "tail_out w e s = drop 1 (join ''.'' (map (enc_level w e) (split_on CHR ''/'' s)))"
  if "s = [] \<or> hd s = CHR ''/''"
proof (cases s)
  case (Cons c t)
  with that have "split_on CHR ''/'' s = [] # split_on CHR ''/'' t" by simp
  then show ?thesis by (simp add: tail_out_def enc_level_def join_Cons)
qed (simp add: tail_out_def enc_level_def)

lemma join_level_empty:
  assumes "s = [] \<or> hd s = CHR ''/''"
  shows "join ''.'' (map (enc_level w e) (split_on CHR ''/'' s)) = ''/'' @ tail_out w e s"
proof (cases s)
  case (Cons c t)
  with assms have "split_on CHR ''/'' s = [] # split_on CHR ''/'' t" by simp
  then show ?thesis by (simp add: tail_out_def enc_level_def join_Cons)
qed (simp add: tail_out_def enc_level_def)

lemma convert_loop_states:
  "(i = 0 \<and> b = [] \<and> s \<noteq> [] \<or> b \<noteq> [] \<and> last b = CHR ''.'' \<longrightarrow>
      finish (convert_loop w e i b s) = b @ join ''.'' (map (enc_level w e) (split_on CHR ''/'' s))) \<and>
   (0 < i \<and> b \<noteq> [] \<and> last b \<noteq> CHR ''.'' \<longrightarrow>
      finish (convert_loop w e i b s) = b @ tail_out w e s)"
proof (induction s arbitrary: i b)
  case Nil
  show ?case
    by (auto simp: finish_def has_suffix_dot enc_level_def tail_out_def)
next
  case (Cons c s)
  show ?case
  proof (cases "c = CHR ''/''")
    case False
    let ?b = "b @ convert_char w e c"
    have "finish (convert_loop w e (Suc i) ?b s) = ?b @ tail_out w e s"
      using Cons.IH [of "Suc i" ?b] last_convert_char [OF False] by simp
    moreover have "join ''.'' (map (enc_level w e) (split_on CHR ''/'' (c # s))) = tail_out w e (c # s)"
      by (rule level_start) (use False in simp_all)
    ultimately show ?thesis using False by (simp add: tail_out_Cons)
  next
    case True
    have start: "finish (convert_loop w e (Suc i) (b' @ ''.'') s) =
        b' @ ''.'' @ join ''.'' (map (enc_level w e) (split_on CHR ''/'' s))" for b'
      using Cons.IH [of "Suc i" "b' @ ''.''"] by simp
    have inside: "finish (convert_loop w e (Suc i) (b @ ''./'') s) = b @ ''./'' @ tail_out w e s"
      using Cons.IH [of "Suc i" "b @ ''./''"] by simp
    have hd: "join ''.'' (map (enc_level w e) (split_on CHR ''/'' (c # s))) =
        ''/.'' @ join ''.'' (map (enc_level w e) (split_on CHR ''/'' s))"
      using True by (simp add: join_Cons enc_level_def)
    have tl: "tail_out w e (c # s) = ''.'' @ join ''.'' (map (enc_level w e) (split_on CHR ''/'' s))"
      using True by (simp add: tail_out_def)
    have at: "finish (convert_loop w e i b (c # s)) = b @ join ''.'' (map (enc_level w e) (split_on CHR ''/'' (c # s)))"
      if "i = 0 \<or> lastByte b = CHR ''.''"
      unfolding hd using start [of "b @ ''/''"] that True by simp
    have in_level: "finish (convert_loop w e i b (c # s)) = b @ tail_out w e (c # s)"
      if "\<not> (i = 0 \<or> lastByte b = CHR ''.'')"
    proof (cases "s = [] \<or> hd s = CHR ''/''")
      case True
      then show ?thesis
        unfolding tl join_level_empty [OF True] using inside that \<open>c = CHR ''/''\<close> by simp
    next
      case False
      then show ?thesis unfolding tl using start [of b] that \<open>c = CHR ''/''\<close> by simp
    qed
    from at in_level show ?thesis by (auto simp: lastByte_def simp del: convert_loop.simps)
  qed
qed

theorem convert_levels:
  assumes "mt \<noteq> []"
  shows "convert mt w e = join ''.'' (map (enc_level w e) (split_on CHR ''/'' mt))"
  using convert_loop_states [of 0 "[]" mt w e] assms by (simp add: convert_def finish_def Let_def)

section \<open>Back to the topic\<close>

text \<open>A character's bytes are read back as the character, whatever follows.\<close>

lemma subjectToName_char:
  assumes "c \<noteq> CHR ''/''"
  shows "subjectToName (convert_char False e c @ s) = c # subjectToName s"
proof -
  have t: "escapedChar c \<noteq> CHR 0x00" "escapedChar c \<noteq> CHR ''.''" "escapedChar c \<noteq> CHR ''/''"
    "map_of escapes (escapedChar c) = Some c" if "c \<in> set escapable"
    using escapedChar_table [OF that] by blast+
  have nd: "CHR ''.'' \<notin> set escapable" by (simp add: escapable_def)
  show ?thesis
  proof (cases "c \<in> set escapable")
    case True
    with nd have "c \<noteq> CHR ''.''" by metis
    with True t [OF True] assms show ?thesis by (simp add: convert_char_def Let_def)
  next
    case False
    with assms show ?thesis by (simp add: convert_char_def)
  qed
qed

lemma subjectToName_level:
  "CHR ''/'' \<notin> set l \<Longrightarrow> l \<noteq> [] \<Longrightarrow> subjectToName (enc_level False e l @ s) = l @ subjectToName s"
proof (induction l)
  case (Cons c l)
  then show ?case by (cases "l = []") (auto simp: enc_level_def subjectToName_char)
qed simp

lemma subjectToName_join:
  assumes "ls \<noteq> []" "\<forall>l \<in> set ls. CHR ''/'' \<notin> set l"
  shows "subjectToName (join ''.'' (map (enc_level False e) ls)) = join ''/'' ls"
  using assms
proof (induction ls rule: induct_list012)
  case (2 l)
  then show ?case using subjectToName_level [of l e "[]"] by (cases "l = []") (simp_all add: enc_level_def)
next
  case (3 l l' ls)
  let ?t = "join ''.'' (map (enc_level False e) (l' # ls))"
  have IH: "subjectToName ?t = join ''/'' (l' # ls)" using 3 by simp
  show ?case
  proof (cases "l = []")
    case True
    have "subjectToName (''/.'' @ ?t) = ''/'' @ subjectToName ?t" by simp
    moreover have "enc_level False e [] = ''/''" by (simp add: enc_level_def)
    ultimately show ?thesis using True IH by simp
  next
    case False
    have "subjectToName (enc_level False e l @ ''.'' @ ?t) = l @ subjectToName (''.'' @ ?t)"
      using 3 False by (intro subjectToName_level) auto
    with IH show ?thesis by simp
  qed
qed simp

lemma subjectToName_convert: "subjectToName (convert mt False e) = mt"
proof (cases "mt = []")
  case False
  then show ?thesis
    using subjectToName_join [of "split_on CHR ''/'' mt" e]
    by (simp add: convert_levels split_levels_no_sep)
qed (simp add: convert_def has_suffix_def)

lemma enc_level_inj:
  assumes "enc_level False e l = enc_level False e l'" "CHR ''/'' \<notin> set l" "CHR ''/'' \<notin> set l'"
  shows "l = l'"
  using subjectToName_join [of "[l]" e] subjectToName_join [of "[l']" e] assms by simp

section \<open>NATS subject matching\<close>

text \<open>
  Which subjects a NATS subscription receives is decided by nats-server, not by this program. The
  documented rule: subjects are tokens separated by \<^verbatim>\<open>.\<close>; \<^verbatim>\<open>*\<close> matches one token and \<^verbatim>\<open>>\<close>, as the last
  token, one or more. \<open>nats_matching nm\<close> says that the matching function \<open>nm\<close> follows it.
\<close>

fun tokens_match :: "string list \<Rightarrow> string list \<Rightarrow> bool" where
  "tokens_match [] ts = (ts = [])"
| "tokens_match (p # ps) ts =
    (case ts of
       [] \<Rightarrow> False
     | t # ts' \<Rightarrow> if p = ''>'' \<and> ps = [] then True else (p = ''*'' \<or> p = t) \<and> tokens_match ps ts')"

definition nats_matching :: "(string \<Rightarrow> string \<Rightarrow> bool) \<Rightarrow> bool" where
  "nats_matching nm \<longleftrightarrow> (\<forall>p s. nm p s = tokens_match (split_on CHR ''.'' p) (split_on CHR ''.'' s))"

text \<open>The levels of a valid filter.\<close>

definition level_ok :: "bool \<Rightarrow> string \<Rightarrow> bool" where
  "level_ok e l \<longleftrightarrow> CHR ''/'' \<notin> set l \<and> (l = ''+'' \<or> CHR ''+'' \<notin> set l) \<and> (l = ''#'' \<or> CHR ''#'' \<notin> set l) \<and>
    (e \<or> CHR ''*'' \<notin> set l \<and> CHR ''>'' \<notin> set l)"

lemma convert_char_plain:
  "c \<noteq> CHR ''+'' \<Longrightarrow> c \<noteq> CHR ''#'' \<Longrightarrow> convert_char True e c = convert_char False e c"
  by (simp add: convert_char_def)

lemma enc_level_plain:
  assumes "CHR ''+'' \<notin> set l" "CHR ''#'' \<notin> set l"
  shows "enc_level True e l = enc_level False e l"
proof -
  have "map (convert_char True e) l = map (convert_char False e) l"
    using assms by (intro map_cong refl convert_char_plain) auto
  then show ?thesis unfolding enc_level_def by (simp only:)
qed

lemma enc_level_wild: "enc_level True e ''+'' = ''*''" "enc_level True e ''#'' = ''>''"
  by (simp_all add: enc_level_def convert_char_def escapable_def)

lemma enc_level_single:
  assumes "enc_level False e l = [d]" "l \<noteq> []"
  shows "l = [d] \<and> convert_char False e d = [d]"
proof -
  obtain c l' where l: "l = c # l'" using assms(2) by (cases l) auto
  have "l' = []"
  proof (rule ccontr)
    assume "l' \<noteq> []"
    then obtain c' l'' where "l' = c' # l''" by (cases l') auto
    then have "2 \<le> length (enc_level False e l)"
      using convert_char_ne [of False e c] convert_char_ne [of False e c']
      by (cases "convert_char False e c"; cases "convert_char False e c'") (simp_all add: l enc_level_def)
    with assms(1) show False by simp
  qed
  moreover from this have cc: "convert_char False e c = [d]" using assms(1) by (simp add: l enc_level_def)
  moreover have "c = d"
  proof (cases "c \<in> set escapable")
    case True
    then have "c \<noteq> CHR ''.''" "escapedChar c \<noteq> CHR 0x00" using escapedChar_table [OF True]
      by (auto simp: escapable_def)
    with cc True show ?thesis by (simp add: convert_char_def Let_def split: if_splits)
  next
    case False
    with cc show ?thesis by (simp add: convert_char_def split: if_splits)
  qed
  ultimately show ?thesis using l by simp
qed

text \<open>In a valid filter only the wildcard levels become NATS wildcards.\<close>

lemma enc_level_nats_wild:
  assumes "level_ok e l"
  shows "enc_level True e l = ''*'' \<longleftrightarrow> l = ''+''" "enc_level True e l = ''>'' \<longleftrightarrow> l = ''#''"
proof -
  have wild: "enc_level True e l = [d] \<longleftrightarrow> l = [x]"
    if "(d, x) \<in> {(CHR ''*'', CHR ''+''), (CHR ''>'', CHR ''#'')}" for d x
  proof (cases "l = ''+'' \<or> l = ''#''")
    case True
    with that show ?thesis by (auto simp: enc_level_wild)
  next
    case False
    then have "enc_level True e l = enc_level False e l"
      using assms by (intro enc_level_plain) (auto simp: level_ok_def)
    moreover have "enc_level False e l \<noteq> [d]"
    proof
      assume "enc_level False e l = [d]"
      moreover from this that have "l \<noteq> []" by (auto simp: enc_level_def)
      ultimately have "l = [d]" "convert_char False e d = [d]" using enc_level_single by blast+
      with that assms show False
        by (auto simp: level_ok_def convert_char_def escapable_def Let_def escapedChar_def escapeSwitch_def)
    qed
    ultimately show ?thesis using False that by auto
  qed
  show "enc_level True e l = ''*'' \<longleftrightarrow> l = ''+''" "enc_level True e l = ''>'' \<longleftrightarrow> l = ''#''"
    using wild [of "CHR ''*''" "CHR ''+''"] wild [of "CHR ''>''" "CHR ''#''"] by auto
qed

definition filter_levels_ok :: "bool \<Rightarrow> string list \<Rightarrow> bool" where
  "filter_levels_ok e fs \<longleftrightarrow> (\<forall>l \<in> set fs. level_ok e l) \<and> (\<forall>l \<in> set (butlast fs). l \<noteq> ''#'')"

lemma level_matches:
  assumes "level_ok e l" "l \<noteq> ''#''" "CHR ''/'' \<notin> set n" "CHR ''+'' \<notin> set n" "CHR ''#'' \<notin> set n"
  shows "enc_level True e l = ''*'' \<or> enc_level True e l = enc_level False e n \<longleftrightarrow> l = ''+'' \<or> l = n"
proof (cases "l = ''+''")
  case False
  then have "enc_level True e l = enc_level False e l"
    using assms(1,2) by (intro enc_level_plain) (auto simp: level_ok_def)
  with False assms enc_level_nats_wild(1) [OF assms(1)] show ?thesis
    by (auto simp: level_ok_def dest: enc_level_inj)
qed (simp add: enc_level_wild)

lemma match_levels_tokens:
  assumes "filter_levels_ok e fs" "fs \<noteq> []"
    and "\<forall>n \<in> set ns. CHR ''/'' \<notin> set n \<and> CHR ''+'' \<notin> set n \<and> CHR ''#'' \<notin> set n"
  shows "match_levels fs ns \<longleftrightarrow>
    tokens_match (map (enc_level True e) fs) (map (enc_level False e) ns) \<or>
    (last fs = ''#'' \<and> tokens_match (map (enc_level True e) (butlast fs)) (map (enc_level False e) ns))"
  using assms
proof (induction fs arbitrary: ns rule: induct_list012)
  case (2 l)
  show ?case
  proof (cases "l = ''#''")
    case True
    then show ?thesis by (cases ns) (simp_all add: enc_level_wild)
  next
    case False
    have lo: "level_ok e l" using 2(1) by (simp add: filter_levels_ok_def)
    show ?thesis
    proof (cases ns)
      case (Cons n ns')
      have "enc_level True e l = ''*'' \<or> enc_level True e l = enc_level False e n \<longleftrightarrow> l = ''+'' \<or> l = n"
        using level_matches [OF lo False] 2(3) Cons by simp
      with False Cons enc_level_nats_wild(2) [OF lo] show ?thesis by auto
    qed (simp add: False)
  qed
next
  case (3 l l' fs)
  have lo: "level_ok e l" "l \<noteq> ''#''" using 3(3) by (simp_all add: filter_levels_ok_def)
  have ok': "filter_levels_ok e (l' # fs)" using 3(3) by (auto simp: filter_levels_ok_def)
  show ?case
  proof (cases ns)
    case (Cons n ns')
    have lm: "enc_level True e l = ''*'' \<or> enc_level True e l = enc_level False e n \<longleftrightarrow> l = ''+'' \<or> l = n"
      using level_matches [OF lo] 3(5) Cons by simp
    have IH: "match_levels (l' # fs) ns' \<longleftrightarrow>
      tokens_match (map (enc_level True e) (l' # fs)) (map (enc_level False e) ns') \<or>
      (last (l' # fs) = ''#'' \<and>
        tokens_match (map (enc_level True e) (butlast (l' # fs))) (map (enc_level False e) ns'))"
      by (rule 3(2) [OF ok']) (use 3(5) Cons in auto)
    have ml: "match_levels (l # l' # fs) ns \<longleftrightarrow> (l = ''+'' \<or> l = n) \<and> match_levels (l' # fs) ns'"
      using lo(2) by (simp add: Cons)
    have t1: "tokens_match (map (enc_level True e) (l # l' # fs)) (map (enc_level False e) ns) \<longleftrightarrow>
      (l = ''+'' \<or> l = n) \<and> tokens_match (map (enc_level True e) (l' # fs)) (map (enc_level False e) ns')"
      using lm by (simp add: Cons)
    have t2: "tokens_match (map (enc_level True e) (butlast (l # l' # fs))) (map (enc_level False e) ns) \<longleftrightarrow>
      (l = ''+'' \<or> l = n) \<and>
        tokens_match (map (enc_level True e) (butlast (l' # fs))) (map (enc_level False e) ns')"
      using lm enc_level_nats_wild(2) [OF lo(1)] lo(2) by (simp add: Cons)
    show ?thesis unfolding ml t1 t2 IH by auto
  qed (use lo in simp)
qed simp

text \<open>What validation guarantees.\<close>

lemma filterLevels_ok:
  assumes "filterLevels_loop fs = Inr ()"
  shows "\<forall>l \<in> set fs. (l = ''+'' \<or> CHR ''+'' \<notin> set l) \<and> (l = ''#'' \<or> CHR ''#'' \<notin> set l)"
    and "\<forall>l \<in> set (butlast fs). l \<noteq> ''#''"
  using assms
proof (induction fs)
  case (Cons l fs)
  {
    case 1
    then show ?case using Cons(1) by (simp split: if_splits) metis
  next
    case 2
    then show ?case using Cons(2) by (cases "l = ''#''") (simp_all split: if_splits)
  }
qed simp_all

lemma validateCommon_ok:
  assumes "validateCommon s e = Inr ()"
  shows "s \<noteq> []" "e \<or> CHR ''*'' \<notin> set s \<and> CHR ''>'' \<notin> set s"
  using assms unfolding validateCommon_def contains_any_def by (metis Inl_Inr_False insertCI)+

lemma set_split: "l \<in> set (split_on c s) \<Longrightarrow> set l \<subseteq> set s"
proof (induction s arbitrary: l)
  case (Cons x s)
  obtain m ms where m: "split_on c s = m # ms" by (cases "split_on c s") auto
  show ?case
  proof (cases "x = c")
    case True
    then show ?thesis using Cons by auto
  next
    case False
    with Cons(2) m have "l = x # m \<or> l \<in> set ms" by simp
    with Cons(1) m show ?thesis by fastforce
  qed
qed simp

lemma SplitShared_inner:
  assumes "SplitShared f = Inr (sh, g)"
  shows "set g \<subseteq> set f" "has_prefix f SharedPrefix \<Longrightarrow> g \<noteq> []" "\<not> has_prefix f SharedPrefix \<Longrightarrow> g = f"
proof -
  have d: "set (tl (dropWhile P xs)) \<subseteq> set xs" for P and xs :: string
  proof
    fix x assume "x \<in> set (tl (dropWhile P xs))"
    then have "x \<in> set (dropWhile P xs)" by (cases "dropWhile P xs") auto
    then show "x \<in> set xs" using set_dropWhileD by fastforce
  qed
  show "set g \<subseteq> set f"
    using assms d set_drop_subset [of "length SharedPrefix" f]
    by (auto simp: SplitShared_def str_cut_def Let_def split: if_splits)
  show "has_prefix f SharedPrefix \<Longrightarrow> g \<noteq> []" "\<not> has_prefix f SharedPrefix \<Longrightarrow> g = f"
    using assms by (auto simp: SplitShared_def Let_def split: if_splits prod.splits)
qed

lemma validateFilter_ok:
  assumes "validateFilter f e = Inr ()"
  obtains sh g where "SplitShared f = Inr (sh, g)" "g \<noteq> []" "\<not> reserved g"
    "filter_levels_ok e (split_on CHR ''/'' g)"
proof -
  have c: "validateCommon f e = Inr ()"
    using assms by (cases "validateCommon f e") (simp_all add: validateFilter_def)
  obtain sh g where g: "SplitShared f = Inr (sh, g)"
    using assms c by (cases "SplitShared f") (auto simp: validateFilter_def SplitShared_def split: if_splits)
  note i = SplitShared_inner [OF g]
  have v: "validateFilterLevels g = Inr ()" "\<not> reserved g"
    using assms c g i(3) by (auto simp: validateFilter_def split: if_splits)
  have l: "filterLevels_loop (split_on CHR ''/'' g) = Inr ()" "g \<noteq> []"
    using v by (simp_all add: validateFilterLevels_def split: if_splits)
  have "e \<or> CHR ''*'' \<notin> set l \<and> CHR ''>'' \<notin> set l" if "l \<in> set (split_on CHR ''/'' g)" for l
    using validateCommon_ok(2) [OF c] set_split [OF that] i(1) by blast
  with filterLevels_ok [OF l(1)] have "filter_levels_ok e (split_on CHR ''/'' g)"
    by (simp add: filter_levels_ok_def level_ok_def split_levels_no_sep)
  with g v l that show ?thesis by blast
qed

lemma validateName_ok:
  assumes "validateName n e = Inr ()"
  shows "n \<noteq> []" "CHR ''+'' \<notin> set n" "CHR ''#'' \<notin> set n" "\<not> reserved n"
proof -
  have c: "validateCommon n e = Inr ()" "\<not> contains_any n {CHR ''+'', CHR ''#''}" "\<not> reserved n"
    using assms by (cases "validateCommon n e"; simp add: validateName_def split: if_splits)+
  show "n \<noteq> []" by (rule validateCommon_ok(1) [OF c(1)])
  show "CHR ''+'' \<notin> set n" "CHR ''#'' \<notin> set n" using c(2) unfolding contains_any_def by blast+
  show "\<not> reserved n" by (rule c(3))
qed

section \<open>MQTT matching is NATS matching\<close>

lemma convert_tokens:
  "g \<noteq> [] \<Longrightarrow> split_on CHR ''.'' (convert g w e) = map (enc_level w e) (split_on CHR ''/'' g)"
  using split_join [of "map (enc_level w e) (split_on CHR ''/'' g)" "CHR ''.''"]
  by (simp add: convert_levels enc_level_no_dot split_levels_no_sep)

lemma has_suffix_token:
  assumes "CHR ''.'' \<notin> set t" "t \<noteq> []"
  shows "has_suffix (x @ ''.'' @ t) ''.>'' \<longleftrightarrow> t = ''>''" "\<not> has_suffix t ''.>''"
proof -
  obtain u c where t: "t = u @ [c]" using assms(2) by (cases t rule: rev_cases) auto
  have two: "has_suffix (v @ [a, b]) ''.>'' \<longleftrightarrow> a = CHR ''.'' \<and> b = CHR ''>''" for v a b
    by (simp add: has_suffix_def)
  show "has_suffix (x @ ''.'' @ t) ''.>'' \<longleftrightarrow> t = ''>''"
  proof (cases u rule: rev_cases)
    case Nil
    then show ?thesis using two [of x "CHR ''.''" c] by (simp add: t)
  next
    case (snoc v a)
    then show ?thesis using two [of "x @ ''.'' @ v" a c] assms(1) by (auto simp: t)
  qed
  show "\<not> has_suffix t ''.>''"
  proof (cases u rule: rev_cases)
    case Nil
    then show ?thesis by (simp add: t has_suffix_def)
  next
    case (snoc v a)
    then show ?thesis using two [of v a c] assms(1) by (auto simp: t)
  qed
qed

lemma join_snoc: "ts \<noteq> [] \<Longrightarrow> join d (ts @ [t]) = join d ts @ d @ t"
  by (induction ts rule: induct_list012) simp_all

lemma enc_level_ne: "enc_level w e l \<noteq> []"
proof -
  have "convert_char w e c \<noteq> []" for c by (simp add: convert_char_def Let_def)
  then show ?thesis by (cases l) (simp_all add: enc_level_def)
qed

lemma join_ne: "ts \<noteq> [] \<Longrightarrow> \<forall>t \<in> set ts. t \<noteq> [] \<Longrightarrow> join d ts \<noteq> []"
  by (induction ts rule: induct_list012) simp_all

lemma ParentSubject_convert:
  assumes "g \<noteq> []" "filter_levels_ok e (split_on CHR ''/'' g)"
  shows "ParentSubject (convert g True e) =
    (let fs = split_on CHR ''/'' g in
     if last fs = ''#'' \<and> 2 \<le> length fs then Some (join ''.'' (map (enc_level True e) (butlast fs))) else None)"
proof -
  obtain fs l where fs: "split_on CHR ''/'' g = fs @ [l]" by (cases "split_on CHR ''/'' g" rule: rev_cases) auto
  have lo: "level_ok e l" using assms(2) fs by (simp add: filter_levels_ok_def)
  have t: "CHR ''.'' \<notin> set (enc_level True e l)" "enc_level True e l \<noteq> []"
    using lo by (simp_all add: enc_level_no_dot enc_level_ne level_ok_def)
  have gt: "enc_level True e l = ''>'' \<longleftrightarrow> l = ''#''"
    using enc_level_nats_wild(2) [OF lo] enc_level_wild(2) by metis
  note c = convert_levels [OF assms(1), of True e]
  show ?thesis
  proof (cases "fs = []")
    case True
    then show ?thesis using has_suffix_token(2) [OF t] by (simp add: ParentSubject_def c fs)
  next
    case False
    have j: "join ''.'' (map (enc_level True e) fs) \<noteq> []" using False by (intro join_ne) (auto simp: enc_level_ne)
    have len: "2 \<le> length (fs @ [l])" using False by (cases fs) simp_all
    have c': "convert g True e = join ''.'' (map (enc_level True e) fs) @ ''.'' @ enc_level True e l"
      using False by (simp add: c fs join_snoc)
    show ?thesis
    proof (cases "l = ''#''")
      case True
      have "0 < length (join ''.'' (map (enc_level True e) fs))" using j by blast
      then show ?thesis
        using True len has_suffix_token(1) [OF t] gt by (simp add: ParentSubject_def c' fs enc_level_wild)
    next
      case False
      then show ?thesis using has_suffix_token(1) [OF t] gt by (simp add: ParentSubject_def c' fs)
    qed
  qed
qed

lemma nameToSubject_ok:
  assumes "nameToSubject e n = Inr m"
  shows "validateName n e = Inr ()" "m = convert n False e"
  using assms by (cases "validateName n e"; simp add: nameToSubject_def)+

lemma filterToSubject_ok:
  assumes "filterToSubject e f = Inr s"
  obtains sh g where "SplitShared f = Inr (sh, g)" "g \<noteq> []" "\<not> reserved g"
    "filter_levels_ok e (split_on CHR ''/'' g)" "s = convert g True e"
proof -
  have "validateFilter f e = Inr ()"
    using assms by (cases "validateFilter f e") (simp_all add: filterToSubject_def)
  then obtain sh g where "SplitShared f = Inr (sh, g)" "g \<noteq> []" "\<not> reserved g"
    "filter_levels_ok e (split_on CHR ''/'' g)" by (rule validateFilter_ok)
  moreover have "s = convert g True e"
    using assms calculation(1) \<open>validateFilter f e = Inr ()\<close> by (simp add: filterToSubject_def)
  ultimately show ?thesis using that by blast
qed

lemma Match_SplitShared:
  assumes "SplitShared f = Inr (sh, g)"
  shows "Match f n = Match_inner g n"
  using assms SplitShared_inner(3) [OF assms] by (auto simp: Match_def IsShared_def)

lemma dollarName_hd: "n \<noteq> [] \<Longrightarrow> dollarName n \<longleftrightarrow> hd n = CHR ''$''"
  by (cases n) (auto simp: dollarName_def has_prefix_def)

lemma match_levels_nats:
  assumes "nats_matching nm" "filter_levels_ok e (split_on CHR ''/'' g)" "g \<noteq> []"
    and "n \<noteq> []" "CHR ''+'' \<notin> set n" "CHR ''#'' \<notin> set n"
  defines "s \<equiv> convert g True e" and "m \<equiv> convert n False e"
  shows "match_levels (split_on CHR ''/'' g) (split_on CHR ''/'' n) \<longleftrightarrow>
    nm s m \<or> (\<exists>p. ParentSubject s = Some p \<and> nm p m)"
proof -
  let ?fs = "split_on CHR ''/'' g" and ?ns = "split_on CHR ''/'' n"
  let ?T = "\<lambda>fs. tokens_match (map (enc_level True e) fs) (map (enc_level False e) ?ns)"
  have nm: "nm p q = tokens_match (split_on CHR ''.'' p) (split_on CHR ''.'' q)" for p q
    using assms(1) by (simp add: nats_matching_def)
  have ml: "match_levels ?fs ?ns \<longleftrightarrow> ?T ?fs \<or> (last ?fs = ''#'' \<and> ?T (butlast ?fs))"
    using assms(5,6) set_split by (intro match_levels_tokens assms(2)) (auto simp: split_levels_no_sep)
  have s: "nm s m = ?T ?fs" by (simp add: nm s_def m_def convert_tokens assms)
  have p: "nm (join ''.'' (map (enc_level True e) (butlast ?fs))) m = ?T (butlast ?fs)"
    if "2 \<le> length ?fs"
  proof -
    have "butlast ?fs \<noteq> []" using that by (cases ?fs rule: rev_cases) auto
    moreover have "CHR ''/'' \<notin> set l" if "l \<in> set (butlast ?fs)" for l
      using in_set_butlastD [OF that] by (rule split_levels_no_sep)
    ultimately show ?thesis
      using split_join [of "map (enc_level True e) (butlast ?fs)" "CHR ''.''"]
      by (simp add: nm m_def convert_tokens assms(4) enc_level_no_dot)
  qed
  have one: "\<not> ?T (butlast ?fs)" if "\<not> 2 \<le> length ?fs"
  proof -
    have "butlast ?fs = []" using that by (cases ?fs rule: rev_cases) (auto simp: Suc_le_eq)
    then show ?thesis by simp
  qed
  show ?thesis
    using ml s p one ParentSubject_convert [OF assms(3,2)]
    by (cases "2 \<le> length ?fs"; cases "last ?fs = ''#''") (simp_all add: s_def Let_def)
qed

lemmas topic_eval =
  codec_simps filterToSubject_def nameToSubject_def validateFilter_def validateName_def validateCommon_def
  contains_any_def MaxLength_def has_prefix_def SharedPrefix_def SplitShared_def str_cut_def reserved_def
  reservedLevels_def validateFilterLevels_def convert_def convert_char_def has_suffix_def lastByte_def
  escapable_def escapedChar_def escapeSwitch_def

lemma name_of_subject:
  assumes "codec_nameToSubject k n = Inr s"
  shows "map_option (codec_subjectToName k') (TrimPrefix p (Prefix p s)) = Some n"
proof -
  have "s = convert n False (escape k)" using nameToSubject_ok [OF assms [unfolded codec_simps]] by blast
  then have "codec_subjectToName k' s = n" by (simp add: codec_subjectToName_def subjectToName_convert)
  then show ?thesis by (simp add: TrimPrefix_def Prefix_def has_prefix_def)
qed

section \<open>Properties\<close>

text \<open>C9: a NATS subscription on the subject of a valid filter, together with the one on its parent
  subject when there is one, receives exactly the subjects of the topics the filter matches,
  except for \<^verbatim>\<open>$\<close> topics under a filter that starts with a wildcard, which NATS would deliver.
  What nats-server matches is the parameter \<open>nm\<close>, with its documented rule.\<close>

theorem match_is_nats_matching:
  assumes "nats_matching nm" "codec_filterToSubject k f = Inr s" "codec_nameToSubject k n = Inr m"
    and "SplitShared f = Inr (sh, g)"
  shows "Match f n \<longleftrightarrow>
    (nm s m \<or> (\<exists>p. ParentSubject s = Some p \<and> nm p m)) \<and> \<not> (dollarName n \<and> hd g \<in> {CHR ''+'', CHR ''#''})"
proof -
  from assms(2) obtain sh' g' where g': "SplitShared f = Inr (sh', g')" "g' \<noteq> []"
    "filter_levels_ok (escape k) (split_on CHR ''/'' g')" "s = convert g' True (escape k)"
    unfolding codec_simps by (rule filterToSubject_ok)
  have g: "g \<noteq> []" "filter_levels_ok (escape k) (split_on CHR ''/'' g)" "s = convert g True (escape k)"
    using g' assms(4) by simp_all
  note n = nameToSubject_ok [OF assms(3) [unfolded codec_simps]]
  note vn = validateName_ok [OF n(1)]
  show ?thesis
    using match_levels_nats [OF assms(1) g(2,1) vn(1-3)] g(1) vn(1)
    by (auto simp: Match_SplitShared [OF assms(4)] Match_inner_def dollarName_hd g(3) n(2))
qed

theorem match_is_nats_matching_witness:
  "Match ''$share/g/a.b/#'' ''a.b'' \<and>
   ParentSubject ''a//b.>'' = Some ''a//b'' \<and> tokens_match [''a//b''] [''a//b''] \<and> \<not> tokens_match [''a//b'', ''>''] [''a//b'']"
proof -
  let ?nm = "\<lambda>p s. tokens_match (split_on CHR ''.'' p) (split_on CHR ''.'' s)"
  have p: "ParentSubject ''a//b.>'' = Some ''a//b''" by code_simp
  have "nats_matching ?nm" by (simp add: nats_matching_def)
  moreover have "codec_filterToSubject \<lparr>escape = False\<rparr> ''$share/g/a.b/#'' = Inr ''a//b.>''" by (simp add: topic_eval)
  moreover have "codec_nameToSubject \<lparr>escape = False\<rparr> ''a.b'' = Inr ''a//b''" by (simp add: topic_eval)
  moreover have "SplitShared ''$share/g/a.b/#'' = Inr (''g'', ''a.b/#'')" by code_simp
  ultimately have "Match ''$share/g/a.b/#'' ''a.b'' \<longleftrightarrow>
    (?nm ''a//b.>'' ''a//b'' \<or> (\<exists>p. ParentSubject ''a//b.>'' = Some p \<and> ?nm p ''a//b'')) \<and>
    \<not> (dollarName ''a.b'' \<and> hd ''a.b/#'' \<in> {CHR ''+'', CHR ''#''})"
    by (rule match_is_nats_matching)
  with p show ?thesis by (simp add: dollarName_def has_prefix_def)
qed

text \<open>C10: the topic a subject stands for is recovered exactly, also behind a subject prefix, and whether
  or not the reading broker has the escape option of the writing one.\<close>

theorem subject_roundtrip:
  assumes "codec_nameToSubject k n = Inr s"
  shows "map_option (codec_subjectToName k') (TrimPrefix p (Prefix p s)) = Some n"
  by (rule name_of_subject [OF assms])

theorem subject_roundtrip_witness:
  "codec_nameToSubject \<lparr>escape = True\<rparr> ''/a b//c.d/'' = Inr ''/.a/pb./.c//d./'' \<and>
   map_option (codec_subjectToName \<lparr>escape = False\<rparr>) (TrimPrefix ''mqtt'' (Prefix ''mqtt'' ''/.a/pb./.c//d./'')) =
     Some ''/a b//c.d/''"
proof -
  have "codec_nameToSubject \<lparr>escape = True\<rparr> ''/a b//c.d/'' = Inr ''/.a/pb./.c//d./''" by (simp add: topic_eval)
  then show ?thesis using subject_roundtrip by blast
qed

text \<open>C11: the levels the broker stores its own data under are out of a client's reach: no Topic Name under
  them can be published to, and no filter it accepts, shared or not, matches one.\<close>

theorem reserved_levels_unreachable:
  assumes "reserved n"
  shows "codec_validateName k n \<noteq> Inr () \<and> (codec_validateFilter k f = Inr () \<longrightarrow> \<not> Match f n)"
proof (intro conjI impI)
  show "codec_validateName k n \<noteq> Inr ()" using assms validateName_ok(4) by (auto simp: codec_simps)
next
  assume "codec_validateFilter k f = Inr ()"
  then obtain sh g where g: "SplitShared f = Inr (sh, g)" "g \<noteq> []" "\<not> reserved g"
    unfolding codec_simps by (rule validateFilter_ok)
  have r: "hd (split_on CHR ''/'' n) \<in> set reservedLevels" "hd (split_on CHR ''/'' g) \<notin> set reservedLevels"
    using assms g(3) by (simp_all add: reserved_def cut_split)
  have n: "n \<noteq> [] \<and> hd n = CHR ''$''"
  proof (cases n)
    case (Cons c n')
    then show ?thesis
      using r(1) by (cases "c = CHR ''/''") (auto simp: reservedLevels_def split: list.splits)
  qed (use r(1) in \<open>simp add: reservedLevels_def\<close>)
  obtain l ls where l: "split_on CHR ''/'' g = l # ls" by (cases "split_on CHR ''/'' g") auto
  obtain m ms where m: "split_on CHR ''/'' n = m # ms" by (cases "split_on CHR ''/'' n") auto
  have w: "hd g = hd l" if "l \<noteq> []"
    using that l g(2) by (cases g) (auto split: list.splits if_splits)
  have "l \<noteq> m" using r l m by auto
  then show "\<not> Match f n"
    using n w l m by (auto simp: Match_SplitShared [OF g(1)] Match_inner_def)
qed

theorem reserved_levels_unreachable_witness:
  "codec_validateName \<lparr>escape = False\<rparr> ''$queue/x'' \<noteq> Inr () \<and> \<not> Match ''+/x'' ''$queue/x''"
proof -
  have "reserved ''$queue/x''" "codec_validateFilter \<lparr>escape = False\<rparr> ''+/x'' = Inr ()" by (simp_all add: topic_eval)
  then show ?thesis
    using reserved_levels_unreachable [of "''$queue/x''" "\<lparr>escape = False\<rparr>" "''+/x''"]
    by blast
qed

end
