(* ===== verification/Go_Lib.thy ===== *)
theory Go_Lib
  imports Prelude "HOL-Library.AList" "HOL-Library.Signed_Division"
begin

text \<open>
  What the broker uses of the Go language and standard library beyond strings and bytes: decimal
  conversions (\<^verbatim>\<open>strconv\<close>), times and durations (\<^verbatim>\<open>time\<close>), and maps.

  A Go map is an association list with distinct keys, updated with \<open>AList.update\<close> and
  \<open>AList.delete\<close> and read with \<open>map_of\<close>. Go leaves the order of a \<^verbatim>\<open>range\<close> over a map open; here it
  is the order of the list, and since every theorem is about all lists, it is about every order.
\<close>

section \<open>Decimal numbers\<close>

definition digit :: "nat \<Rightarrow> char" where
  "digit d = char_of (48 + d)"

definition digit_val :: "char \<Rightarrow> nat option" where
  "digit_val c = (let n = of_char c :: nat in if 48 \<le> n \<and> n \<le> 57 then Some (n - 48) else None)"

function FormatUint :: "nat \<Rightarrow> string" where
  "FormatUint n = (if n < 10 then [digit n] else FormatUint (n div 10) @ [digit (n mod 10)])"
  by pat_completeness auto
termination by (relation "measure id") auto

declare FormatUint.simps [simp del]

definition FormatInt :: "int \<Rightarrow> string" where
  "FormatInt i = (if i < 0 then CHR ''-'' # FormatUint (nat (- i)) else FormatUint (nat i))"

fun parse_digits :: "nat \<Rightarrow> string \<Rightarrow> nat option" where
  "parse_digits acc [] = Some acc"
| "parse_digits acc (c # cs) =
    (case digit_val c of None \<Rightarrow> None | Some d \<Rightarrow> parse_digits (acc * 10 + d) cs)"

text \<open>\<^verbatim>\<open>strconv.ParseUint(s, 10, bits)\<close> and \<^verbatim>\<open>strconv.ParseInt(s, 10, 64)\<close>; \<^verbatim>\<open>strconv.Atoi\<close> is the
  latter, since \<^verbatim>\<open>int\<close> has 64 bits on the platforms the broker is built for.\<close>

definition ParseUint :: "nat \<Rightarrow> string \<Rightarrow> nat option" where
  "ParseUint bits s =
    (if s = [] then None
     else case parse_digits 0 s of
       None \<Rightarrow> None
     | Some n \<Rightarrow> if n < 2 ^ bits then Some n else None)"

definition ParseInt :: "string \<Rightarrow> int option" where
  "ParseInt s =
    (case s of
       [] \<Rightarrow> None
     | c # cs \<Rightarrow>
        let neg = c = CHR ''-''; ds = (if c = CHR ''-'' \<or> c = CHR ''+'' then cs else s) in
        if ds = [] then None
        else case parse_digits 0 ds of
          None \<Rightarrow> None
        | Some n \<Rightarrow>
            if neg then (if n \<le> 2 ^ 63 then Some (- int n) else None)
            else (if n < 2 ^ 63 then Some (int n) else None))"

lemma digit_val_digit: "d < 10 \<Longrightarrow> digit_val (digit d) = Some d"
  by (simp add: digit_val_def digit_def)

lemma digit_not_sign: "d < 10 \<Longrightarrow> digit d \<noteq> CHR ''-'' \<and> digit d \<noteq> CHR ''+''"
proof -
  assume "d < 10"
  then have "digit_val (digit d) \<noteq> None" by (simp add: digit_val_digit)
  moreover have "digit_val CHR ''-'' = None" "digit_val CHR ''+'' = None"
    by (simp_all add: digit_val_def)
  ultimately show ?thesis by metis
qed

lemma FormatUint_ne [simp]: "FormatUint n \<noteq> []"
  by (subst FormatUint.simps) simp

lemma parse_digits_append:
  "parse_digits acc (xs @ ys) = (case parse_digits acc xs of None \<Rightarrow> None | Some a \<Rightarrow> parse_digits a ys)"
  by (induction xs arbitrary: acc) (auto split: option.splits)

lemma parse_FormatUint: "parse_digits 0 (FormatUint n) = Some n"
proof (induction n rule: FormatUint.induct)
  case (1 n)
  then show ?case
    by (subst FormatUint.simps) (simp add: parse_digits_append digit_val_digit)
qed

lemma ParseUint_FormatUint: "n < 2 ^ bits \<Longrightarrow> ParseUint bits (FormatUint n) = Some n"
  by (simp add: ParseUint_def parse_FormatUint)

lemma FormatUint_hd: "\<exists>d < 10. hd (FormatUint n) = digit d"
proof (induction n rule: FormatUint.induct)
  case (1 n)
  then show ?case by (subst FormatUint.simps) (auto simp: hd_append)
qed

lemma ParseInt_FormatInt:
  assumes "- (2 ^ 63) \<le> i" "i < 2 ^ 63"
  shows "ParseInt (FormatInt i) = Some i"
proof (cases "i < 0")
  case True
  then show ?thesis using assms by (simp add: ParseInt_def FormatInt_def parse_FormatUint nat_le_iff)
next
  case False
  obtain c cs where c: "FormatUint (nat i) = c # cs" by (cases "FormatUint (nat i)") auto
  have "c \<noteq> CHR ''-'' \<and> c \<noteq> CHR ''+''"
    using FormatUint_hd [of "nat i"] c digit_not_sign by auto
  moreover have "nat i < 2 ^ 63" using assms False by (simp add: nat_less_iff)
  ultimately show ?thesis
    using False parse_FormatUint [of "nat i"] by (simp add: ParseInt_def FormatInt_def c)
qed

section \<open>Times and durations\<close>

text \<open>A \<^verbatim>\<open>time.Time\<close> is its distance from the Unix epoch in nanoseconds, unbounded as Go's is for every
  date in question; a \<^verbatim>\<open>time.Duration\<close> is nanoseconds in 64 bits, and \<^verbatim>\<open>Sub\<close> saturates.\<close>

type_synonym time = int
type_synonym duration = int

definition zeroTime :: time where
  "zeroTime = - 62135596800 * 10 ^ 9"

definition Second :: duration where
  "Second = 10 ^ 9"

definition time_Sub :: "time \<Rightarrow> time \<Rightarrow> duration" where
  "time_Sub t u = max (- (2 ^ 63)) (min (2 ^ 63 - 1) (t - u))"

definition IsZero :: "time \<Rightarrow> bool" where
  "IsZero t \<longleftrightarrow> t = zeroTime"

section \<open>Maps\<close>

type_synonym ('k, 'v) gomap = "('k \<times> 'v) list"

abbreviation get :: "('k, 'v) gomap \<Rightarrow> 'k \<Rightarrow> 'v option" where
  "get m k \<equiv> map_of m k"

definition keys :: "('k, 'v) gomap \<Rightarrow> 'k set" where
  "keys m = fst ` set m"

definition wf_map :: "('k, 'v) gomap \<Rightarrow> bool" where
  "wf_map m \<longleftrightarrow> distinct (map fst m)"

lemma get_update [simp]: "get (AList.update k v m) k' = (if k' = k then Some v else get m k')"
  by (simp add: update_conv')

lemma get_delete [simp]: "get (AList.delete k m) k' = (if k' = k then None else get m k')"
  by (simp add: delete_conv')

lemma wf_update [simp]: "wf_map m \<Longrightarrow> wf_map (AList.update k v m)"
  by (simp add: wf_map_def distinct_update)

lemma wf_delete [simp]: "wf_map m \<Longrightarrow> wf_map (AList.delete k m)"
  by (simp add: wf_map_def distinct_delete)

lemma wf_Nil [simp]: "wf_map []"
  by (simp add: wf_map_def)

lemma wf_filter [simp]: "wf_map m \<Longrightarrow> wf_map (filter P m)"
  by (simp add: wf_map_def distinct_map_filter)

lemma wf_map_vals: "wf_map m \<Longrightarrow> wf_map (map (\<lambda>(k, v). (k, f k v)) m)"
  by (simp add: wf_map_def comp_def case_prod_beta)

lemma in_keys: "k \<in> keys m \<longleftrightarrow> get m k \<noteq> None"
  by (simp add: keys_def map_of_eq_None_iff)

lemma get_mem: "wf_map m \<Longrightarrow> (k, v) \<in> set m \<longleftrightarrow> get m k = Some v"
  by (simp add: wf_map_def)

text \<open>How many entries of a map satisfy a predicate, under updates and deletions.\<close>

definition count_if :: "('k \<Rightarrow> 'v \<Rightarrow> bool) \<Rightarrow> ('k, 'v) gomap \<Rightarrow> nat" where
  "count_if P m = length (filter (\<lambda>(k, v). P k v) m)"

definition here :: "('k \<Rightarrow> 'v \<Rightarrow> bool) \<Rightarrow> 'k \<Rightarrow> 'v option \<Rightarrow> nat" where
  "here P k x = (case x of None \<Rightarrow> 0 | Some v \<Rightarrow> of_bool (P k v))"

lemma here_simps [simp]: "here P k None = 0" "here P k (Some v) = of_bool (P k v)"
  by (simp_all add: here_def)

lemma count_if_Nil [simp]: "count_if P [] = 0"
  by (simp add: count_if_def)

lemma count_delete:
  "wf_map m \<Longrightarrow> count_if P (AList.delete k m) + here P k (get m k) = count_if P m"
proof (induction m)
  case (Cons e m)
  obtain k' v where e: "e = (k', v)" by (cases e)
  have d: "wf_map m" "k' \<notin> fst ` set m" using Cons(2) by (auto simp: wf_map_def e)
  show ?case
  proof (cases "k' = k")
    case True
    have "AList.delete k m = m" using d True by (simp add: AList.delete_eq filter_id_conv case_prod_beta) (metis image_eqI)
    then show ?thesis using True by (simp add: e count_if_def AList.delete_eq)
  next
    case False
    then show ?thesis using Cons(1) [OF d(1)] by (simp add: e count_if_def AList.delete_eq)
  qed
qed (simp add: count_if_def)

lemma count_update:
  "count_if P (AList.update k v m) + here P k (get m k) = count_if P m + of_bool (P k v)"
  by (induction m) (auto simp: count_if_def)

lemma count_here: "here P k (get m k) \<le> count_if P m"
  by (induction m) (auto simp: count_if_def)

end
