(* ===== verification/Message.thy ===== *)
theory Message
  imports Packets Topic Go_Lib
begin

text \<open>
  MQTT metadata on NATS headers: \<^verbatim>\<open>src/message.go\<close>. The header type itself is nats.go's; it
  enters as a parameter (\<open>header_ops\<close>) with the documented behaviour of its four operations
  (\<open>header_laws\<close>).
\<close>

section \<open>NATS messages\<close>

record 'h header_ops =
  h_new :: 'h
  h_Set :: "string \<Rightarrow> string \<Rightarrow> 'h \<Rightarrow> 'h"
  h_Add :: "string \<Rightarrow> string \<Rightarrow> 'h \<Rightarrow> 'h"
  h_Get :: "'h \<Rightarrow> string \<Rightarrow> string"
  h_Values :: "'h \<Rightarrow> string \<Rightarrow> string list"

text \<open>\<^verbatim>\<open>Set\<close> replaces the values of a key by one, \<^verbatim>\<open>Add\<close> appends one, \<^verbatim>\<open>Values\<close> is all of them and \<^verbatim>\<open>Get\<close>
  the first, or the empty string; keys are case-sensitive.\<close>

definition header_laws :: "'h header_ops \<Rightarrow> bool" where
  "header_laws H \<longleftrightarrow>
    (\<forall>k. h_Values H (h_new H) k = []) \<and>
    (\<forall>h k v k'. h_Values H (h_Set H k v h) k' = (if k' = k then [v] else h_Values H h k')) \<and>
    (\<forall>h k v k'. h_Values H (h_Add H k v h) k' = (if k' = k then h_Values H h k @ [v] else h_Values H h k')) \<and>
    (\<forall>h k. h_Get H h k = (case h_Values H h k of [] \<Rightarrow> [] | v # _ \<Rightarrow> v))"

record 'h nats_msg =
  m_Subject :: string
  m_Header :: "'h option"
  m_Data :: bytes

definition hdrQoS :: string where "hdrQoS = ''Mqtt5-Qos''"
definition hdrRetain :: string where "hdrRetain = ''Mqtt5-Retain''"
definition hdrPayloadFormat :: string where "hdrPayloadFormat = ''Mqtt5-Payload-Format''"
definition hdrMessageExpiry :: string where "hdrMessageExpiry = ''Mqtt5-Message-Expiry''"
definition hdrContentType :: string where "hdrContentType = ''Mqtt5-Content-Type''"
definition hdrResponseTopic :: string where "hdrResponseTopic = ''Mqtt5-Response-Topic''"
definition hdrCorrelationData :: string where "hdrCorrelationData = ''Mqtt5-Correlation-Data''"
definition hdrUserProperty :: string where "hdrUserProperty = ''Mqtt5-User''"
definition hdrOrigin :: string where "hdrOrigin = ''Mqtt5-Origin''"
definition hdrMsgID :: string where "hdrMsgID = ''Mqtt5-Msg-Id''"
definition hdrQueueSeq :: string where "hdrQueueSeq = ''Mqtt5-Queue-Seq''"

section \<open>Escaping header values\<close>

definition unsafeHeaderByte :: "char \<Rightarrow> bool" where
  "unsafeHeaderByte ch \<longleftrightarrow> ch = CHR ''%'' \<or> of_char ch < (0x20 :: nat) \<or> of_char ch = (0x7F :: nat)"

definition needsEscape :: "string \<Rightarrow> bool" where
  "needsEscape s \<longleftrightarrow> (\<exists>c \<in> set s. unsafeHeaderByte c)"

definition hex_digits :: string where
  "hex_digits = ''0123456789ABCDEF''"

fun escape_loop :: "string \<Rightarrow> string" where
  "escape_loop [] = []"
| "escape_loop (ch # s) =
    (if unsafeHeaderByte ch then
       CHR ''%'' # hex_digits ! (of_char ch div 16) # hex_digits ! (of_char ch mod 16) # escape_loop s
     else ch # escape_loop s)"

definition escapeHeader :: "string \<Rightarrow> string" where
  "escapeHeader s = (if \<not> needsEscape s then s else escape_loop s)"

definition hexVal :: "char \<Rightarrow> nat option" where
  "hexVal ch =
    (let n = of_char ch :: nat in
     if 48 \<le> n \<and> n \<le> 57 then Some (n - 48)
     else if 65 \<le> n \<and> n \<le> 70 then Some (n - 65 + 10)
     else if 97 \<le> n \<and> n \<le> 102 then Some (n - 97 + 10)
     else None)"

fun unescape_loop :: "string \<Rightarrow> string" where
  "unescape_loop [] = []"
| "unescape_loop (c # s) =
    (if c = CHR ''%'' then
       (case s of
          x # y # s' \<Rightarrow>
            (case (hexVal x, hexVal y) of
               (Some hi, Some lo) \<Rightarrow> char_of (16 * hi + lo) # unescape_loop s'
             | _ \<Rightarrow> c # unescape_loop s)
        | _ \<Rightarrow> c # unescape_loop s)
     else c # unescape_loop s)"

definition unescapeHeader :: "string \<Rightarrow> string" where
  "unescapeHeader s = (if CHR ''%'' \<notin> set s then s else unescape_loop s)"

section \<open>To and from NATS\<close>

text \<open>The header of a message; \<open>mid\<close> is what \<^verbatim>\<open>newMessageID\<close> returned.\<close>

definition user_headers :: "'h header_ops \<Rightarrow> UserProperty list \<Rightarrow> 'h \<Rightarrow> 'h" where
  "user_headers H us h =
    fold (\<lambda>up h. h_Add H hdrUserProperty (escapeHeader (fst up) @ '' '' @ escapeHeader (snd up)) h) us h"

definition props_headers :: "'h header_ops \<Rightarrow> properties \<Rightarrow> 'h \<Rightarrow> 'h" where
  "props_headers H props h =
    (let h = (case PayloadFormat props of None \<Rightarrow> h | Some b \<Rightarrow> h_Set H hdrPayloadFormat (FormatUint (unat b)) h);
         h = (case MessageExpiryInterval props of None \<Rightarrow> h
              | Some i \<Rightarrow> h_Set H hdrMessageExpiry (FormatUint (unat i)) h);
         h = (if ContentType props \<noteq> [] then h_Set H hdrContentType (escapeHeader (ContentType props)) h else h);
         h = (if ResponseTopic props \<noteq> [] then h_Set H hdrResponseTopic (escapeHeader (ResponseTopic props)) h else h);
         h = (if CorrelationData props \<noteq> []
              then h_Set H hdrCorrelationData (escapeHeader (string_of_bytes (CorrelationData props))) h else h)
     in user_headers H (User props) h)"

definition toNATS :: "'h header_ops \<Rightarrow> string \<Rightarrow> string \<Rightarrow> string \<Rightarrow> publish \<Rightarrow> 'h nats_msg" where
  "toNATS H mid subject originClientID p =
    (let h = h_Set H hdrQoS (FormatUint (unat (pb_QoS p))) (h_new H);
         h = h_Set H hdrMsgID mid h;
         h = (if pb_Retain p then h_Set H hdrRetain ''1'' h else h);
         h = (if originClientID \<noteq> [] then h_Set H hdrOrigin (escapeHeader originClientID) h else h);
         h = (case pb_Properties p of None \<Rightarrow> h | Some props \<Rightarrow> props_headers H props h)
     in \<lparr>m_Subject = subject, m_Header = Some h, m_Data = pb_Payload p\<rparr>)"

text \<open>The loop over the User Property values.\<close>

fun parse_users :: "string list \<Rightarrow> UserProperty list" where
  "parse_users [] = []"
| "parse_users (raw # rs) =
    (let (key, val, found) = str_cut CHR '' '' raw in
     if \<not> found then parse_users rs
     else (unescapeHeader key, unescapeHeader val) # parse_users rs)"

definition fromNATS :: "'h header_ops \<Rightarrow> 'h nats_msg \<Rightarrow> QoS \<times> bool \<times> string \<times> properties" where
  "fromNATS H msg =
    (case m_Header msg of
       None \<Rightarrow> (QoS0, False, [], empty_props)
     | Some h \<Rightarrow>
        let v = h_Get H h hdrQoS;
            qos = (if v \<noteq> [] then (case ParseInt v of
                       Some n \<Rightarrow> if 0 \<le> n \<and> n \<le> 2 then of_int n else 0 | None \<Rightarrow> 0) else 0);
            retain = (h_Get H h hdrRetain = ''1'');
            origin = unescapeHeader (h_Get H h hdrOrigin);
            v = h_Get H h hdrPayloadFormat;
            pf = (if v \<noteq> [] then (case ParseInt v of
                       Some n \<Rightarrow> if n = 0 \<or> n = 1 then Some (of_int n) else None | None \<Rightarrow> None) else None);
            v = h_Get H h hdrMessageExpiry;
            ex = (if v \<noteq> [] then (case ParseUint 32 v of Some n \<Rightarrow> Some (of_nat n) | None \<Rightarrow> None) else None);
            v = h_Get H h hdrCorrelationData;
            cd = (if v \<noteq> [] then bytes_of_string (unescapeHeader v) else [])
        in (qos, retain, origin,
            empty_props\<lparr>PayloadFormat := pf, MessageExpiryInterval := ex,
              ContentType := unescapeHeader (h_Get H h hdrContentType),
              ResponseTopic := unescapeHeader (h_Get H h hdrResponseTopic),
              CorrelationData := cd, User := parse_users (h_Values H h hdrUserProperty)\<rparr>))"

text \<open>The properties of a Will that describe the message itself (\<^verbatim>\<open>src/publish.go\<close>); they are the ones
  that travel as headers.\<close>

definition messageProps :: "properties \<Rightarrow> properties" where
  "messageProps src = empty_props\<lparr>PayloadFormat := PayloadFormat src,
     MessageExpiryInterval := MessageExpiryInterval src, ContentType := ContentType src,
     ResponseTopic := ResponseTopic src, CorrelationData := CorrelationData src, User := User src\<rparr>"

definition willProperties :: "will \<Rightarrow> properties option" where
  "willProperties w = map_option messageProps (wl_Properties w)"

section \<open>Escaping is undone\<close>

lemma hexVal_digit: "d < 16 \<Longrightarrow> hexVal (hex_digits ! d) = Some d"
proof -
  assume "d < 16"
  then have "d \<in> {0, 1, 2, 3, 4, 5, 6, 7, 8, 9, 10, 11, 12, 13, 14, 15}" by simp arith
  then show ?thesis by (auto simp: hexVal_def hex_digits_def)
qed

lemma nibbles: "of_char c div (16 :: nat) < 16" "of_char c mod (16 :: nat) < 16"
  using of_char_less_256 [of c] by (simp_all add: less_mult_imp_div_less)

lemma unescape_escape_loop: "unescape_loop (escape_loop s) = s"
proof (induction s)
  case (Cons c s)
  show ?case
  proof (cases "unsafeHeaderByte c")
    case True
    then show ?thesis using Cons by (simp add: hexVal_digit nibbles)
  next
    case False
    then have "c \<noteq> CHR ''%''" by (simp add: unsafeHeaderByte_def)
    then show ?thesis using Cons False by simp
  qed
qed simp

lemma escape_loop_safe: "\<not> needsEscape s \<Longrightarrow> escape_loop s = s"
  by (induction s) (simp_all add: needsEscape_def)

lemma unescape_loop_plain: "CHR ''%'' \<notin> set s \<Longrightarrow> unescape_loop s = s"
  by (induction s) (simp_all add: not_sym)

lemma unescape_escape [simp]: "unescapeHeader (escapeHeader s) = s"
proof -
  have "escapeHeader s = escape_loop s" by (simp add: escapeHeader_def escape_loop_safe)
  moreover have "unescapeHeader t = unescape_loop t" for t
    by (simp add: unescapeHeader_def unescape_loop_plain)
  ultimately show ?thesis by (simp add: unescape_escape_loop)
qed

lemma unescape_Nil [simp]: "unescapeHeader [] = []"
  by (simp add: unescapeHeader_def)

lemma escape_Nil [simp]: "escapeHeader s = [] \<longleftrightarrow> s = []"
  by (cases s) (simp_all add: escapeHeader_def needsEscape_def)

lemma escapeHeader_Nil [simp]: "escapeHeader [] = []" "string_of_bytes [] = []" "bytes_of_string [] = []"
  by (simp_all add: escapeHeader_def needsEscape_def string_of_bytes_def bytes_of_string_def)

lemma escape_loop_chars: "c \<in> set (escape_loop s) \<Longrightarrow> 0x20 \<le> (of_char c :: nat) \<and> of_char c \<noteq> (0x7F :: nat)"
proof (induction s)
  case (Cons d s)
  have hd: "hex_digits ! i \<in> set hex_digits" if "i < 16" for i
    using that by (intro nth_mem) (simp add: hex_digits_def)
  have h: "0x20 \<le> (of_char x :: nat) \<and> of_char x \<noteq> (0x7F :: nat)" if "x \<in> set hex_digits" for x
    using that by (auto simp: hex_digits_def)
  show ?case
    using Cons h [OF hd [OF nibbles(1)], of d] h [OF hd [OF nibbles(2)], of d]
    by (cases "unsafeHeaderByte d") (auto simp: unsafeHeaderByte_def)
qed simp

lemma space_escape: "CHR '' '' \<notin> set s \<Longrightarrow> CHR '' '' \<notin> set (escapeHeader s)"
proof -
  assume a: "CHR '' '' \<notin> set s"
  have "hex_digits ! i \<noteq> CHR '' ''" if "i < 16" for i
    using hexVal_digit [OF that] by (auto simp: hexVal_def)
  then have "hex_digits ! (of_char d div 16) \<noteq> CHR '' ''" "hex_digits ! (of_char d mod 16) \<noteq> CHR '' ''" for d
    using nibbles [of d] by blast+
  with a have "CHR '' '' \<notin> set (escape_loop s)"
    by (induction s) (simp_all add: not_sym)
  then show ?thesis using a by (simp add: escapeHeader_def)
qed

lemma cut_first: "c \<notin> set s \<Longrightarrow> str_cut c (s @ c # t) = (s, t, True)"
  by (induction s) (auto simp: str_cut_def)

lemma parse_users_escaped:
  "\<forall>u \<in> set us. CHR '' '' \<notin> set (fst u) \<Longrightarrow>
    parse_users (map (\<lambda>up. escapeHeader (fst up) @ '' '' @ escapeHeader (snd up)) us) = us"
  by (induction us) (simp_all add: cut_first space_escape)

section \<open>Headers read back\<close>

lemmas hdr_names = hdrQoS_def hdrRetain_def hdrPayloadFormat_def hdrMessageExpiry_def hdrContentType_def
  hdrResponseTopic_def hdrCorrelationData_def hdrUserProperty_def hdrOrigin_def hdrMsgID_def hdrQueueSeq_def

definition all_hdrs :: "string list" where
  "all_hdrs = [hdrQoS, hdrRetain, hdrPayloadFormat, hdrMessageExpiry, hdrContentType, hdrResponseTopic,
     hdrCorrelationData, hdrUserProperty, hdrOrigin, hdrMsgID, hdrQueueSeq]"

lemma hdr_distinct: "distinct all_hdrs"
  by (simp add: all_hdrs_def hdr_names)

lemmas hdr_ne = hdr_distinct [unfolded all_hdrs_def, simplified]
  hdr_distinct [THEN distinct_rev [THEN iffD2], unfolded all_hdrs_def, simplified]

definition values_fold :: "'h header_ops \<Rightarrow> UserProperty list \<Rightarrow> 'h \<Rightarrow> string list" where
  "values_fold H us h = h_Values H h hdrUserProperty @ map (\<lambda>up. escapeHeader (fst up) @ '' '' @ escapeHeader (snd up)) us"

lemma Values_user_headers:
  assumes "header_laws H"
  shows "h_Values H (user_headers H us h) k =
    (if k = hdrUserProperty then values_fold H us h else h_Values H h k)"
  using assms unfolding user_headers_def
  by (induction us arbitrary: h) (simp_all add: header_laws_def values_fold_def)

lemma Values_Set: "header_laws H \<Longrightarrow> h_Values H (h_Set H k v h) k' = (if k' = k then [v] else h_Values H h k')"
  by (simp add: header_laws_def)

lemma Values_new: "header_laws H \<Longrightarrow> h_Values H (h_new H) k = []"
  by (simp add: header_laws_def)

lemma Get_Values: "header_laws H \<Longrightarrow> h_Get H h k = (case h_Values H h k of [] \<Rightarrow> [] | v # _ \<Rightarrow> v)"
  by (simp add: header_laws_def)

lemma Values_if_Set:
  "header_laws H \<Longrightarrow> h_Values H (if b then h_Set H k v h else h) k' = (if k' = k \<and> b then [v] else h_Values H h k')"
  by (simp add: Values_Set)

lemma Values_opt_Set:
  "header_laws H \<Longrightarrow> h_Values H (case x of None \<Rightarrow> h | Some y \<Rightarrow> h_Set H k (f y) h) k' =
    (if k' = k \<and> x \<noteq> None then [f (the x)] else h_Values H h k')"
  by (cases x) (simp_all add: Values_Set)

text \<open>The header \<open>h\<close> carries the message \<open>p\<close> of client \<open>og\<close>: what is found under each name.\<close>

definition carries_base :: "'h header_ops \<Rightarrow> 'h \<Rightarrow> string \<Rightarrow> publish \<Rightarrow> bool" where
  "carries_base H h og p \<longleftrightarrow>
    h_Get H h hdrQoS = FormatUint (unat (pb_QoS p)) \<and>
    h_Get H h hdrRetain = (if pb_Retain p then ''1'' else []) \<and>
    h_Get H h hdrOrigin = escapeHeader og"

definition carries_props :: "'h header_ops \<Rightarrow> 'h \<Rightarrow> properties \<Rightarrow> bool" where
  "carries_props H h q \<longleftrightarrow>
    h_Get H h hdrPayloadFormat = (case PayloadFormat q of None \<Rightarrow> [] | Some b \<Rightarrow> FormatUint (unat b)) \<and>
    h_Get H h hdrMessageExpiry = (case MessageExpiryInterval q of None \<Rightarrow> [] | Some i \<Rightarrow> FormatUint (unat i)) \<and>
    h_Get H h hdrContentType = escapeHeader (ContentType q) \<and>
    h_Get H h hdrResponseTopic = escapeHeader (ResponseTopic q) \<and>
    h_Get H h hdrCorrelationData = escapeHeader (string_of_bytes (CorrelationData q)) \<and>
    h_Values H h hdrUserProperty = map (\<lambda>up. escapeHeader (fst up) @ '' '' @ escapeHeader (snd up)) (User q)"

lemma props_headers_other:
  assumes "header_laws H" "k \<notin> {hdrPayloadFormat, hdrMessageExpiry, hdrContentType, hdrResponseTopic,
    hdrCorrelationData, hdrUserProperty}"
  shows "h_Values H (props_headers H q h) k = h_Values H h k"
  using assms(2)
  by (simp add: props_headers_def Let_def Values_user_headers [OF assms(1)] Values_if_Set [OF assms(1)]
      Values_opt_Set [OF assms(1)])

lemma props_headers_carry:
  assumes "header_laws H" "\<And>k. k \<notin> {hdrQoS, hdrRetain, hdrOrigin, hdrMsgID} \<Longrightarrow> h_Values H h k = []"
  shows "carries_props H (props_headers H q h) q"
  unfolding carries_props_def props_headers_def Let_def Get_Values [OF assms(1)]
    Values_user_headers [OF assms(1)] values_fold_def Values_if_Set [OF assms(1)] Values_opt_Set [OF assms(1)]
  by (intro conjI; (cases "PayloadFormat q")?; (cases "MessageExpiryInterval q")?) (simp_all add: hdr_ne assms(2))

lemma toNATS_carries:
  assumes "header_laws H"
  obtains h where "m_Header (toNATS H mid sj og p) = Some h" "carries_base H h og p"
    "carries_props H h (case pb_Properties p of None \<Rightarrow> empty_props | Some q \<Rightarrow> q)"
proof -
  define b where "b = (let h = h_Set H hdrQoS (FormatUint (unat (pb_QoS p))) (h_new H);
         h = h_Set H hdrMsgID mid h;
         h = (if pb_Retain p then h_Set H hdrRetain ''1'' h else h)
     in if og \<noteq> [] then h_Set H hdrOrigin (escapeHeader og) h else h)"
  have bv: "h_Values H b k = (if k = hdrOrigin \<and> og \<noteq> [] then [escapeHeader og]
      else if k = hdrRetain \<and> pb_Retain p then [''1''] else if k = hdrMsgID then [mid]
      else if k = hdrQoS then [FormatUint (unat (pb_QoS p))] else [])" for k
    by (simp add: b_def Let_def Values_if_Set [OF assms] Values_Set [OF assms] Values_new [OF assms] hdr_ne)
  define h where "h = (case pb_Properties p of None \<Rightarrow> b | Some q \<Rightarrow> props_headers H q b)"
  have other: "h_Values H h k = h_Values H b k" if "k \<in> {hdrQoS, hdrRetain, hdrOrigin}" for k
    using that by (auto simp: h_def props_headers_other [OF assms] hdr_ne split: option.split)
  have "carries_base H h og p"
    by (simp add: carries_base_def Get_Values [OF assms] other bv hdr_ne)
  moreover have "carries_props H h (case pb_Properties p of None \<Rightarrow> empty_props | Some q \<Rightarrow> q)"
  proof (cases "pb_Properties p")
    case None
    then show ?thesis
      by (simp add: h_def carries_props_def Get_Values [OF assms] bv hdr_ne empty_props_def)
  next
    case (Some q)
    then show ?thesis using props_headers_carry [OF assms, of b q] by (simp add: h_def bv)
  qed
  moreover have "m_Header (toNATS H mid sj og p) = Some h"
    unfolding toNATS_def h_def b_def Let_def nats_msg.simps by (rule refl)
  ultimately show ?thesis using that by blast
qed

lemma ParseInt_small: "n < 2 ^ 63 \<Longrightarrow> ParseInt (FormatUint n) = Some (int n)"
  using ParseInt_FormatInt [of "int n"] by (simp add: FormatInt_def)

definition forwardable :: "publish \<Rightarrow> bool" where
  "forwardable p \<longleftrightarrow> pb_QoS p \<le> 2 \<and>
    (\<forall>q. pb_Properties p = Some q \<longrightarrow>
      (\<forall>b. PayloadFormat q = Some b \<longrightarrow> b \<le> 1) \<and> (\<forall>u \<in> set (User q). CHR '' '' \<notin> set (fst u)))"

lemma byte_le_2:
  assumes "(q :: byte) \<le> 2"
  shows "unat q < 2 ^ 63" "int (unat q) \<le> 2" "of_int (int (unat q)) = q"
proof -
  have u: "unat q \<le> 2" using assms by (simp add: word_le_nat_alt)
  then show "unat q < 2 ^ 63" by simp
  show "int (unat q) \<le> 2" using u by linarith
  show "of_int (int (unat q)) = q" by simp
qed

lemma byte_le_1: "(b :: byte) \<le> 1 \<Longrightarrow> int (unat b) = 0 \<or> int (unat b) = 1"
proof -
  assume "b \<le> 1"
  then have "unat b \<le> 1" by (simp add: word_le_nat_alt)
  then show ?thesis by linarith
qed

text \<open>The header value of each optional property is read back.\<close>

lemma qos_back:
  assumes "(q :: byte) \<le> 2"
  shows "(case ParseInt (FormatUint (unat q)) of
    Some n \<Rightarrow> if 0 \<le> n \<and> n \<le> 2 then of_int n else 0 | None \<Rightarrow> 0) = q"
  unfolding ParseInt_small [OF byte_le_2(1) [OF assms]] option.case
  using byte_le_2(2,3) [OF assms] by (simp only: of_nat_0_le_iff simp_thms if_True)

lemma pf_back:
  assumes "(b :: byte) \<le> 1"
  shows "(case ParseInt (FormatUint (unat b)) of
    Some n \<Rightarrow> if n = 0 \<or> n = 1 then Some (of_int n) else None | None \<Rightarrow> None) = Some b"
proof -
  have "b \<le> 2" using assms by (simp add: word_le_nat_alt)
  note b = byte_le_2 [OF this]
  show ?thesis
    unfolding ParseInt_small [OF b(1)] option.case using byte_le_1 [OF assms] b(3) by (simp only: if_True)
qed

lemma expiry_back: "(case ParseUint 32 (FormatUint (unat (i :: u32))) of Some n \<Rightarrow> Some (of_nat n) | None \<Rightarrow> None) = Some i"
proof -
  have "unat i < 2 ^ 32" using unsigned_less [of i] by simp
  then show ?thesis by (simp add: ParseUint_FormatUint)
qed

lemma fromNATS_carries:
  assumes "m_Header msg = Some h" "carries_base H h og p" "carries_props H h q"
    and "pb_QoS p \<le> 2" "\<And>b. PayloadFormat q = Some b \<Longrightarrow> b \<le> 1" "\<forall>u \<in> set (User q). CHR '' '' \<notin> set (fst u)"
  shows "fromNATS H msg = (pb_QoS p, pb_Retain p, og, messageProps q)"
proof -
  have pf: "(case ParseInt (FormatUint (unat b)) of
      Some n \<Rightarrow> if n = 0 \<or> n = 1 then Some (of_int n) else None | None \<Rightarrow> None) = Some b"
    if "PayloadFormat q = Some b" for b
    using assms(5) [OF that] by (rule pf_back)
  note g = assms(2,3) [unfolded carries_base_def carries_props_def]
  have eqs:
    "(if h_Get H h hdrQoS \<noteq> [] then (case ParseInt (h_Get H h hdrQoS) of
       Some n \<Rightarrow> if 0 \<le> n \<and> n \<le> 2 then of_int n else 0 | None \<Rightarrow> 0) else 0) = pb_QoS p"
    "(h_Get H h hdrRetain = ''1'') = pb_Retain p" "unescapeHeader (h_Get H h hdrOrigin) = og"
    "(if h_Get H h hdrPayloadFormat \<noteq> [] then (case ParseInt (h_Get H h hdrPayloadFormat) of
       Some n \<Rightarrow> if n = 0 \<or> n = 1 then Some (of_int n) else None | None \<Rightarrow> None) else None) = PayloadFormat q"
    "(if h_Get H h hdrMessageExpiry \<noteq> [] then (case ParseUint 32 (h_Get H h hdrMessageExpiry) of
       Some n \<Rightarrow> Some (of_nat n) | None \<Rightarrow> None) else None) = MessageExpiryInterval q"
    "unescapeHeader (h_Get H h hdrContentType) = ContentType q"
    "unescapeHeader (h_Get H h hdrResponseTopic) = ResponseTopic q"
    "(if h_Get H h hdrCorrelationData \<noteq> []
       then bytes_of_string (unescapeHeader (h_Get H h hdrCorrelationData)) else []) = CorrelationData q"
    "parse_users (h_Values H h hdrUserProperty) = User q"
    using g qos_back [OF assms(4)] pf expiry_back parse_users_escaped [OF assms(6)]
    by (simp_all split: option.split)
  show ?thesis
    unfolding fromNATS_def assms(1) option.case Let_def eqs messageProps_def by (rule refl)
qed

lemma fromNATS_toNATS:
  assumes "header_laws H" "forwardable p"
  shows "fromNATS H (toNATS H mid sj og p) =
      (pb_QoS p, pb_Retain p, og, case pb_Properties p of None \<Rightarrow> empty_props | Some q \<Rightarrow> messageProps q) \<and>
    m_Data (toNATS H mid sj og p) = pb_Payload p \<and> m_Subject (toNATS H mid sj og p) = sj"
proof (intro conjI)
  let ?q = "case pb_Properties p of None \<Rightarrow> empty_props | Some q \<Rightarrow> q"
  obtain h where "m_Header (toNATS H mid sj og p) = Some h" "carries_base H h og p" "carries_props H h ?q"
    by (rule toNATS_carries [OF assms(1)])
  then have "fromNATS H (toNATS H mid sj og p) = (pb_QoS p, pb_Retain p, og, messageProps ?q)"
    by (rule fromNATS_carries)
      (use assms(2) in \<open>auto simp: forwardable_def empty_props_def split: option.splits\<close>)
  moreover have "messageProps empty_props = empty_props" by (simp add: messageProps_def empty_props_def)
  ultimately show "fromNATS H (toNATS H mid sj og p) =
      (pb_QoS p, pb_Retain p, og, case pb_Properties p of None \<Rightarrow> empty_props | Some q \<Rightarrow> messageProps q)"
    by (simp split: option.split)
  show "m_Data (toNATS H mid sj og p) = pb_Payload p" "m_Subject (toNATS H mid sj og p) = sj"
    by (simp_all add: toNATS_def Let_def)
qed

section \<open>Properties\<close>


text \<open>A header type with the documented behaviour: an association list of value lists.\<close>

definition alist_header :: "(string, string list) gomap header_ops" where
  "alist_header = \<lparr>
     h_new = [],
     h_Set = (\<lambda>k v. AList.update k [v]),
     h_Add = (\<lambda>k v h. AList.update k ((case get h k of None \<Rightarrow> [] | Some vs \<Rightarrow> vs) @ [v]) h),
     h_Get = (\<lambda>h k. case (case get h k of None \<Rightarrow> [] | Some vs \<Rightarrow> vs) of [] \<Rightarrow> [] | v # _ \<Rightarrow> v),
     h_Values = (\<lambda>h k. case get h k of None \<Rightarrow> [] | Some vs \<Rightarrow> vs)\<rparr>"

lemma alist_header_laws: "header_laws alist_header"
  by (simp add: header_laws_def alist_header_def split: option.split)

definition sample_publish :: publish where
  "sample_publish = \<lparr>pb_Dup = False, pb_QoS = 1, pb_Retain = True, pb_Topic = ''a'', pb_PacketID = 7,
     pb_Properties = Some (empty_props\<lparr>ContentType := ''100%'', User := [(''k'', ''a b''), (''k'', ''c'')]\<rparr>),
     pb_Payload = [1, 2]\<rparr>"



text \<open>C14: an escaped value cannot break the line framing of the NATS protocol: it has no control character, so
  in particular no CR or LF, whatever bytes the client sent.\<close>

theorem escaped_header_framing:
  "\<forall>c \<in> set (escapeHeader s). 0x20 \<le> (of_char c :: nat) \<and> of_char c \<noteq> (0x7F :: nat)"
proof -
  have "0x20 \<le> (of_char c :: nat) \<and> of_char c \<noteq> (0x7F :: nat)" if "c \<in> set s" "\<not> needsEscape s" for c
    using that by (simp add: needsEscape_def unsafeHeaderByte_def) (metis leI)
  then show ?thesis using escape_loop_chars by (auto simp: escapeHeader_def)
qed

theorem escaped_header_framing_witness:
  "escapeHeader [CHR ''a'', CHR 0x0D, CHR 0x0A] = ''a%0D%0A'' \<and> 0x20 \<le> (of_char CHR ''%'' :: nat)"
proof -
  have e: "escapeHeader [CHR ''a'', CHR 0x0D, CHR 0x0A] = ''a%0D%0A''"
    by (simp add: escapeHeader_def needsEscape_def unsafeHeaderByte_def hex_digits_def)
  have "CHR ''%'' \<in> set (escapeHeader [CHR ''a'', CHR 0x0D, CHR 0x0A])" unfolding e by simp
  from bspec [OF escaped_header_framing this] e show ?thesis by blast
qed

end
