(* ===== verification/Expiry.thy ===== *)
theory Expiry
  imports Message
begin

text \<open>
  The Message Expiry Interval: \<^verbatim>\<open>src/expiry.go\<close>, with the \<^verbatim>\<open>delivery\<close> of \<^verbatim>\<open>src/conn.go\<close> it acts on. The
  current time is an argument (\<open>now\<close>). A pointer to a subscription is its address in the session's
  store of subscriptions.
\<close>

section \<open>Arrival times\<close>

definition hdrArrived :: string where "hdrArrived = ''Mqtt5-Arrived''"
definition hdrPublishedAt :: string where "hdrPublishedAt = ''Mqtt5-Published-At''"

definition parse_time :: "string \<Rightarrow> time option" where
  "parse_time v = (if v \<noteq> [] then ParseInt v else None)"

definition arrivedAt :: "'h header_ops \<Rightarrow> 'h nats_msg \<Rightarrow> time \<Rightarrow> bool \<Rightarrow> time" where
  "arrivedAt H msg now publisherClock =
    (case m_Header msg of
       None \<Rightarrow> now
     | Some h \<Rightarrow>
        (case parse_time (h_Get H h hdrArrived) of
           Some ns \<Rightarrow> ns
         | None \<Rightarrow>
            if publisherClock then
              (case parse_time (h_Get H h hdrPublishedAt) of
                 Some ns \<Rightarrow> if ns < now then ns else now
               | None \<Rightarrow> now)
            else now))"

definition setArrived :: "'h header_ops \<Rightarrow> 'h option \<Rightarrow> time \<Rightarrow> 'h" where
  "setArrived H h at = h_Set H hdrArrived (FormatInt at) (case h of None \<Rightarrow> h_new H | Some h \<Rightarrow> h)"

section \<open>What is left of an interval\<close>

definition remainingExpiry :: "u32 \<Rightarrow> time \<Rightarrow> time \<Rightarrow> u32 \<times> bool" where
  "remainingExpiry interval arrived now =
    (let waitedSeconds = time_Sub now arrived sdiv Second in
     if waitedSeconds \<le> 0 then (interval, False)
     else if waitedSeconds \<ge> uint interval then (0, True)
     else (interval - of_int waitedSeconds, False))"

type_synonym sub_ref = nat

record delivery =
  d_sub :: "sub_ref option"
  d_id :: string
  d_seq :: u64
  d_topic :: string
  d_payload :: bytes
  d_qos :: QoS
  d_retain :: bool
  d_props :: "properties option"
  d_arrived :: time
  d_expiry :: "u32 option"
  d_quotaHeld :: bool
  d_ackSubject :: string
  d_held :: bool
  d_recordSeq :: u64

definition applyExpiry :: "time \<Rightarrow> delivery \<Rightarrow> delivery \<times> bool" where
  "applyExpiry now d =
    (case d_props d of
       None \<Rightarrow> (d, False)
     | Some props \<Rightarrow>
        (case MessageExpiryInterval props of
           None \<Rightarrow> (d, False)
         | Some i \<Rightarrow>
            let d = (case d_expiry d of None \<Rightarrow> d\<lparr>d_expiry := Some i\<rparr> | Some _ \<Rightarrow> d);
                (remaining, expired) = remainingExpiry (the (d_expiry d)) (d_arrived d) now in
            if expired then (d, True)
            else (d\<lparr>d_props := Some (props\<lparr>MessageExpiryInterval := Some remaining\<rparr>)\<rparr>, False)))"

section \<open>Lemmas\<close>

lemma Second_pos: "0 < Second"
  by (simp add: Second_def)

lemma sdiv_pos: "0 \<le> a \<Longrightarrow> 0 < b \<Longrightarrow> (a :: int) sdiv b = a div b"
  by (simp add: signed_divide_int_def sgn_if)

lemma sdiv_neg: "a \<le> 0 \<Longrightarrow> 0 < b \<Longrightarrow> (a :: int) sdiv b \<le> 0"
  by (auto simp: signed_divide_int_def sgn_if pos_imp_zdiv_nonneg_iff)

lemma time_Sub_sign: "time_Sub t u \<le> 0 \<longleftrightarrow> t \<le> u"
  by (auto simp: time_Sub_def)

lemma time_Sub_exact: "0 \<le> t - u \<Longrightarrow> t - u < 2 ^ 63 \<Longrightarrow> time_Sub t u = t - u"
  by (simp add: time_Sub_def)

lemma time_Sub_mono: "t \<le> t' \<Longrightarrow> time_Sub t u \<le> time_Sub t' u"
  by (simp add: time_Sub_def)

lemma waited_mono:
  assumes "t \<le> t'"
  shows "time_Sub t u sdiv Second \<le> time_Sub t' u sdiv Second \<or> time_Sub t u sdiv Second \<le> 0"
proof (cases "time_Sub t u \<le> 0")
  case True
  then show ?thesis using sdiv_neg [OF _ Second_pos] by blast
next
  case False
  then show ?thesis
    using time_Sub_mono [OF assms, of u] Second_pos
    by (simp add: sdiv_pos zdiv_mono1)
qed

lemma remainingExpiry_cases:
  obtains (fresh) "time_Sub now arrived sdiv Second \<le> 0" "remainingExpiry i arrived now = (i, False)"
  | (expired) "0 < time_Sub now arrived sdiv Second" "uint i \<le> time_Sub now arrived sdiv Second"
      "remainingExpiry i arrived now = (0, True)"
  | (waiting) "0 < time_Sub now arrived sdiv Second" "time_Sub now arrived sdiv Second < uint i"
      "remainingExpiry i arrived now = (i - of_int (time_Sub now arrived sdiv Second), False)"
      "uint (fst (remainingExpiry i arrived now)) = uint i - time_Sub now arrived sdiv Second"
proof -
  let ?w = "time_Sub now arrived sdiv Second"
  consider "?w \<le> 0" | "0 < ?w" "uint i \<le> ?w" | "0 < ?w" "?w < uint i" by linarith
  then show ?thesis
  proof cases
    case 3
    have "uint i < 2 ^ LENGTH(32)" by (rule unsigned_less)
    then have lt: "uint i < 2 ^ 32" by simp
    have w: "uint (of_int ?w :: u32) = ?w" using 3 lt by (simp add: uint_word_of_int_eq take_bit_int_eq_self)
    have "uint (i - of_int ?w :: u32) = uint i - ?w"
      using 3 w uint_sub_lem [of "of_int ?w" i] by simp
    then show ?thesis using 3 waiting by (simp add: remainingExpiry_def Let_def)
  qed (use fresh expired in \<open>simp_all add: remainingExpiry_def Let_def\<close>)
qed

lemma applyExpiry_Some:
  assumes "d_props d = Some q" "MessageExpiryInterval q = Some i"
  defines "e \<equiv> (case d_expiry d of None \<Rightarrow> i | Some e \<Rightarrow> e)"
  shows "applyExpiry t d =
    (if snd (remainingExpiry e (d_arrived d) t) then (d\<lparr>d_expiry := Some e\<rparr>, True)
     else (d\<lparr>d_expiry := Some e,
       d_props := Some (q\<lparr>MessageExpiryInterval := Some (fst (remainingExpiry e (d_arrived d) t))\<rparr>)\<rparr>, False))"
proof (cases "d_expiry d")
  case None
  then show ?thesis by (simp add: applyExpiry_def assms Let_def case_prod_beta)
next
  case (Some x)
  then have "d\<lparr>d_expiry := Some x\<rparr> = d" by (cases d) simp
  with Some show ?thesis by (simp add: applyExpiry_def assms Let_def case_prod_beta)
qed

lemma applyExpiry_None:
  "d_props d = None \<or> (\<exists>q. d_props d = Some q \<and> MessageExpiryInterval q = None) \<Longrightarrow> applyExpiry t d = (d, False)"
  by (auto simp: applyExpiry_def)

lemma applyExpiry_again:
  assumes "applyExpiry t1 d = (d1, False)"
  shows "snd (applyExpiry t2 d1) = snd (applyExpiry t2 d) \<and>
    (\<not> snd (applyExpiry t2 d) \<longrightarrow> fst (applyExpiry t2 d1) = fst (applyExpiry t2 d))"
proof (cases "\<exists>q i. d_props d = Some q \<and> MessageExpiryInterval q = Some i")
  case True
  then obtain q i where q: "d_props d = Some q" "MessageExpiryInterval q = Some i" by blast
  define e where "e = (case d_expiry d of None \<Rightarrow> i | Some e \<Rightarrow> e)"
  note ap = applyExpiry_Some [OF q, folded e_def]
  define r where "r = (\<lambda>t. fst (remainingExpiry e (d_arrived d) t))"
  have d1: "d1 = d\<lparr>d_expiry := Some e, d_props := Some (q\<lparr>MessageExpiryInterval := Some (r t1)\<rparr>)\<rparr>"
    using assms ap [of t1] by (simp add: r_def split: if_splits)
  have p: "d_props d1 = Some (q\<lparr>MessageExpiryInterval := Some (r t1)\<rparr>)"
    "MessageExpiryInterval (q\<lparr>MessageExpiryInterval := Some (r t1)\<rparr>) = Some (r t1)"
    by (simp_all add: d1)
  show ?thesis
    using applyExpiry_Some [OF p, of t2] ap [of t2] by (simp add: d1)
next
  case False
  then have "d_props d = None \<or> (\<exists>q. d_props d = Some q \<and> MessageExpiryInterval q = None)"
    by (metis not_None_eq)
  then have "applyExpiry t d = (d, False)" for t by (rule applyExpiry_None)
  with assms show ?thesis by simp
qed

section \<open>Properties\<close>

text \<open>C15: the interval sent is the one received less the whole seconds waited, and the message has expired
  exactly when it has waited its whole interval, counted in whole seconds; a clock that reads
  earlier than the arrival takes nothing off.\<close>

theorem expiry_counts_down:
  assumes "now - arrived < 2 ^ 63"
  defines "w \<equiv> max 0 (now - arrived) div Second"
  shows "(snd (remainingExpiry i arrived now) \<longleftrightarrow> 0 < w \<and> uint i \<le> w) \<and>
    (\<not> snd (remainingExpiry i arrived now) \<longrightarrow> uint (fst (remainingExpiry i arrived now)) = uint i - w)"
proof -
  have w: "0 \<le> w" "time_Sub now arrived sdiv Second \<le> 0 \<Longrightarrow> w = 0"
    "0 < time_Sub now arrived sdiv Second \<Longrightarrow> time_Sub now arrived sdiv Second = w"
  proof -
    show "0 \<le> w" using Second_pos by (simp add: w_def pos_imp_zdiv_nonneg_iff)
    have p: "time_Sub now arrived sdiv Second = w" if "arrived \<le> now"
      using that assms(1) Second_pos by (simp add: time_Sub_exact sdiv_pos w_def)
    have n: "time_Sub now arrived sdiv Second \<le> 0 \<and> w = 0" if "now \<le> arrived"
      using that sdiv_neg [OF _ Second_pos] by (simp add: time_Sub_sign w_def)
    show "time_Sub now arrived sdiv Second \<le> 0 \<Longrightarrow> w = 0"
      using p n \<open>0 \<le> w\<close> by (cases "arrived \<le> now") auto
    show "0 < time_Sub now arrived sdiv Second \<Longrightarrow> time_Sub now arrived sdiv Second = w"
      using p n by (cases "arrived \<le> now") auto
  qed
  show ?thesis by (cases rule: remainingExpiry_cases [of now arrived i]) (use w in auto)
qed

theorem expiry_counts_down_witness:
  "snd (remainingExpiry 2 0 (2 * Second)) \<and> uint (fst (remainingExpiry 2 0 1300000000)) = 1"
proof -
  have "snd (remainingExpiry 2 0 (2 * Second)) \<longleftrightarrow>
      0 < max 0 (2 * Second - 0) div Second \<and> uint (2 :: u32) \<le> max 0 (2 * Second - 0) div Second"
    by (rule expiry_counts_down [THEN conjunct1]) (simp add: Second_def)
  moreover have "\<not> snd (remainingExpiry 2 0 1300000000)"
    by (simp add: remainingExpiry_def time_Sub_def Second_def signed_divide_int_def)
  then have "uint (fst (remainingExpiry 2 0 1300000000)) = uint (2 :: u32) - max 0 (1300000000 - 0) div Second"
    by (intro expiry_counts_down [THEN conjunct2, rule_format]) simp_all
  ultimately show ?thesis by (simp add: Second_def)
qed

text \<open>C16: a delivery whose interval is worked out again, for a resend, gets what it would have got if it had
  been worked out only then: the wait is always taken off the interval the message arrived with.\<close>

theorem expiry_resend_exact:
  assumes "applyExpiry t1 d = (d1, False)"
  shows "snd (applyExpiry t2 d1) = snd (applyExpiry t2 d) \<and>
    (\<not> snd (applyExpiry t2 d) \<longrightarrow> fst (applyExpiry t2 d1) = fst (applyExpiry t2 d))"
  using applyExpiry_again [OF assms] by metis

definition sample_delivery :: delivery where
  "sample_delivery = \<lparr>d_sub = None, d_id = [], d_seq = 0, d_topic = ''a'', d_payload = [], d_qos = 1, d_retain = False,
     d_props = Some (empty_props\<lparr>MessageExpiryInterval := Some 10\<rparr>), d_arrived = 0, d_expiry = None,
     d_quotaHeld = False, d_ackSubject = [], d_held = False, d_recordSeq = 0\<rparr>"

lemma sample_applied:
  "applyExpiry (3 * Second) sample_delivery =
    (sample_delivery\<lparr>d_expiry := Some 10, d_props := Some (empty_props\<lparr>MessageExpiryInterval := Some 7\<rparr>)\<rparr>, False)"
  by (simp add: applyExpiry_def sample_delivery_def remainingExpiry_def time_Sub_def Second_def
      signed_divide_int_def Let_def)

theorem expiry_resend_exact_witness:
  "fst (applyExpiry (5 * Second) (sample_delivery\<lparr>d_expiry := Some 10,
      d_props := Some (empty_props\<lparr>MessageExpiryInterval := Some 7\<rparr>)\<rparr>)) =
    sample_delivery\<lparr>d_expiry := Some 10, d_props := Some (empty_props\<lparr>MessageExpiryInterval := Some 5\<rparr>)\<rparr>"
proof -
  have e: "applyExpiry (5 * Second) sample_delivery =
    (sample_delivery\<lparr>d_expiry := Some 10, d_props := Some (empty_props\<lparr>MessageExpiryInterval := Some 5\<rparr>)\<rparr>, False)"
    by (simp add: applyExpiry_def sample_delivery_def remainingExpiry_def time_Sub_def Second_def
        signed_divide_int_def Let_def)
  then have "\<not> snd (applyExpiry (5 * Second) sample_delivery)" by simp
  then show ?thesis using expiry_resend_exact [OF sample_applied, of "5 * Second"] by (simp only: e fst_conv snd_conv simp_thms)
qed

end
