(* ===== verification/Dedupe.thy ===== *)
theory Dedupe
  imports Go_Lib
begin

text \<open>
  Message ids of refused publishes: \<^verbatim>\<open>src/durable_dedupe.go\<close>. SHA-256 is the argument \<open>sha\<close>; what the code
  relies on is that it tells the publishes in question apart (\<open>collision_free\<close>).
\<close>

section \<open>The table\<close>

record pendingPublish =
  pp_id :: string
  pp_sum :: bytes

type_synonym publishIDs = "(u16, pendingPublish) gomap option"

definition publishSum :: "(bytes \<Rightarrow> bytes) \<Rightarrow> string \<Rightarrow> bytes \<Rightarrow> bytes" where
  "publishSum sha topicName payload = sha (bytes_of_string topicName @ [0] @ payload)"

definition idFor :: "(bytes \<Rightarrow> bytes) \<Rightarrow> u16 \<Rightarrow> bool \<Rightarrow> string \<Rightarrow> bytes \<Rightarrow> string \<Rightarrow> publishIDs \<Rightarrow> string \<times> publishIDs" where
  "idFor sha packetID dup topicName payload fresh p =
    (let sum = publishSum sha topicName payload;
         pending = (case p of None \<Rightarrow> [] | Some m \<Rightarrow> m);
         new = (fresh, Some (AList.update packetID \<lparr>pp_id = fresh, pp_sum = sum\<rparr> pending)) in
     case get pending packetID of
       Some e \<Rightarrow> if dup \<and> pp_sum e = sum then (pp_id e, p) else new
     | None \<Rightarrow> new)"

definition id_done :: "u16 \<Rightarrow> publishIDs \<Rightarrow> publishIDs" where
  "id_done packetID p = map_option (AList.delete packetID) p"

section \<open>A session's publishes\<close>

datatype pub_event =
    Pub (packet: u16) (dup: bool) (name: string) (load: bytes) (fresh: string)
  | Acked u16

fun pub_ids :: "(bytes \<Rightarrow> bytes) \<Rightarrow> pub_event list \<Rightarrow> publishIDs \<Rightarrow> string list \<times> publishIDs" where
  "pub_ids sha [] p = ([], p)"
| "pub_ids sha (Pub i d n b f # es) p =
    (let (x, p1) = idFor sha i d n b f p; (xs, p2) = pub_ids sha es p1 in (x # xs, p2))"
| "pub_ids sha (Acked i # es) p = pub_ids sha es (id_done i p)"

text \<open>The specification remembers, for each Packet Identifier, the publish that is not yet acknowledged and the
  id it was given; a publish keeps that id exactly when it is marked DUP and is the same message.\<close>

fun spec_ids :: "pub_event list \<Rightarrow> (u16 \<Rightarrow> (string \<times> bytes \<times> string) option) \<Rightarrow> string list" where
  "spec_ids [] open' = []"
| "spec_ids (Pub i d n b f # es) open' =
    (case open' i of
       Some (n', b', x) \<Rightarrow>
         if d \<and> n = n' \<and> b = b' then x # spec_ids es open'
         else f # spec_ids es (open'(i \<mapsto> (n, b, f)))
     | None \<Rightarrow> f # spec_ids es (open'(i \<mapsto> (n, b, f))))"
| "spec_ids (Acked i # es) open' = spec_ids es (open'(i := None))"

definition pubs :: "pub_event list \<Rightarrow> (string \<times> bytes) set" where
  "pubs es = {(n, b). \<exists>i d f. Pub i d n b f \<in> set es}"

text \<open>The digest tells the publishes in \<open>S\<close> apart, and no topic name holds a zero byte (which \<^verbatim>\<open>validateName\<close>
  refuses), so the zero byte separates name and payload.\<close>

definition collision_free :: "(bytes \<Rightarrow> bytes) \<Rightarrow> (string \<times> bytes) set \<Rightarrow> bool" where
  "collision_free sha S \<longleftrightarrow> inj_on sha ((\<lambda>(n, b). bytes_of_string n @ [0] @ b) ` S) \<and> (\<forall>(n, b) \<in> S. CHR 0x00 \<notin> set n)"

section \<open>Refinement\<close>

lemma zero_byte: "(of_nat (of_char c) :: byte) = 0 \<longleftrightarrow> c = CHR 0x00"
proof
  assume "(of_nat (of_char c) :: byte) = 0"
  then have "unat (of_nat (of_char c) :: byte) = 0" by (simp only: unsigned_0)
  then have z: "(of_char c :: nat) = 0" using of_char_less_256 [of c] by (simp add: unat_of_nat)
  have "c = char_of (of_char c :: nat)" by simp
  also have "\<dots> = CHR 0x00" unfolding z by (simp add: char_of_def)
  finally show "c = CHR 0x00" .
qed simp

lemma sep_inj: "x \<notin> set xs \<Longrightarrow> x \<notin> set ys \<Longrightarrow> xs @ x # a = ys @ x # b \<longleftrightarrow> xs = ys \<and> a = b"
proof (induction xs arbitrary: ys)
  case Nil
  then show ?case by (cases ys) auto
next
  case (Cons y xs)
  then show ?case by (cases ys) auto
qed

lemma join_inj:
  assumes "CHR 0x00 \<notin> set n" "CHR 0x00 \<notin> set n'"
  shows "bytes_of_string n @ [0] @ b = bytes_of_string n' @ [0] @ b' \<longleftrightarrow> n = n' \<and> b = b'"
proof -
  have z: "0 \<notin> set (bytes_of_string m)" if "CHR 0x00 \<notin> set m" for m
  proof
    assume "0 \<in> set (bytes_of_string m)"
    then obtain c where c: "c \<in> set m" "0 = (of_nat (of_char c) :: byte)"
      unfolding bytes_of_string_def set_map by (elim imageE)
    from c(2) [symmetric] have "c = CHR 0x00" by (rule zero_byte [THEN iffD1])
    with c(1) that show False by blast
  qed
  have "bytes_of_string n = bytes_of_string n' \<longleftrightarrow> n = n'" by (metis string_of_bytes_of_string)
  then show ?thesis
    using sep_inj [OF z [OF assms(1)] z [OF assms(2)], of b b'] by simp
qed

lemma sum_inj:
  assumes "collision_free sha S" "(n, b) \<in> S" "(n', b') \<in> S"
  shows "publishSum sha n b = publishSum sha n' b' \<longleftrightarrow> n = n' \<and> b = b'"
proof -
  have i: "inj_on sha ((\<lambda>(n, b). bytes_of_string n @ [0] @ b) ` S)" and z: "\<forall>(n, b) \<in> S. CHR 0x00 \<notin> set n"
    using assms(1) by (simp_all add: collision_free_def)
  have m: "bytes_of_string x @ [0] @ y \<in> (\<lambda>(n, b). bytes_of_string n @ [0] @ b) ` S" if "(x, y) \<in> S" for x y
    using that by (intro image_eqI [of _ _ "(x, y)"]) simp_all
  have "publishSum sha n b = publishSum sha n' b' \<longleftrightarrow> bytes_of_string n @ [0] @ b = bytes_of_string n' @ [0] @ b'"
    unfolding publishSum_def by (rule inj_on_eq_iff [OF i m [OF assms(2)] m [OF assms(3)]])
  also have "\<dots> \<longleftrightarrow> n = n' \<and> b = b'" by (rule join_inj) (use z assms(2,3) in auto)
  finally show ?thesis .
qed

text \<open>The table holds the digest of the open publish of each identifier.\<close>

definition related :: "(bytes \<Rightarrow> bytes) \<Rightarrow> (string \<times> bytes) set \<Rightarrow> publishIDs \<Rightarrow> (u16 \<Rightarrow> (string \<times> bytes \<times> string) option) \<Rightarrow> bool" where
  "related sha S p open' \<longleftrightarrow>
    (\<forall>i. get (case p of None \<Rightarrow> [] | Some m \<Rightarrow> m) i =
      map_option (\<lambda>(n, b, x). \<lparr>pp_id = x, pp_sum = publishSum sha n b\<rparr>) (open' i)) \<and>
    (\<forall>i n b x. open' i = Some (n, b, x) \<longrightarrow> (n, b) \<in> S)"

lemma related_new:
  "related sha S p open' \<Longrightarrow> (n, b) \<in> S \<Longrightarrow>
    related sha S (Some (AList.update i \<lparr>pp_id = f, pp_sum = publishSum sha n b\<rparr> (case p of None \<Rightarrow> [] | Some m \<Rightarrow> m)))
      (open'(i \<mapsto> (n, b, f)))"
  by (auto simp: related_def)

lemma related_done: "related sha S p open' \<Longrightarrow> related sha S (id_done i p) (open'(i := None))"
  by (auto simp: related_def id_done_def split: option.splits)

lemma pub_ids_spec:
  assumes "collision_free sha S" "pubs es \<subseteq> S" "related sha S p open'"
  shows "fst (pub_ids sha es p) = spec_ids es open'"
  using assms(2,3)
proof (induction es arbitrary: p open')
  case (Cons e es)
  have "pubs es \<subseteq> pubs (e # es)" unfolding pubs_def by auto
  with Cons.prems(1) have sub: "pubs es \<subseteq> S" by blast
  show ?case
  proof (cases e)
    case (Pub i d n b f)
    have "(n, b) \<in> pubs (e # es)" by (simp add: pubs_def Pub) blast
    with Cons.prems(1) have nb: "(n, b) \<in> S" by blast
    let ?p = "Some (AList.update i \<lparr>pp_id = f, pp_sum = publishSum sha n b\<rparr> (case p of None \<Rightarrow> [] | Some m \<Rightarrow> m))"
    have IH: "fst (pub_ids sha es ?p) = spec_ids es (open'(i \<mapsto> (n, b, f)))"
      by (rule Cons.IH [OF sub related_new [OF Cons.prems(2) nb]])
    show ?thesis
    proof (cases "open' i")
      case None
      then have "idFor sha i d n b f p = (f, ?p)"
        using Cons.prems(2) by (simp add: idFor_def related_def Let_def)
      then show ?thesis using None IH by (simp add: Pub case_prod_beta)
    next
      case (Some t)
      obtain n' b' x where t: "t = (n', b', x)" by (cases t)
      have nb': "(n', b') \<in> S" using Cons.prems(2) Some t unfolding related_def by blast
      have g: "get (case p of None \<Rightarrow> [] | Some m \<Rightarrow> m) i = Some \<lparr>pp_id = x, pp_sum = publishSum sha n' b'\<rparr>"
        using Cons.prems(2) Some t by (simp add: related_def)
      have "idFor sha i d n b f p = (if d \<and> n = n' \<and> b = b' then (x, p) else (f, ?p))"
        using sum_inj [OF assms(1) nb' nb] by (auto simp: idFor_def g Let_def)
      then show ?thesis
        using Some t IH Cons.IH [OF sub Cons.prems(2)] by (simp add: Pub case_prod_beta)
    qed
  next
    case (Acked i)
    show ?thesis unfolding Acked pub_ids.simps spec_ids.simps by (rule Cons.IH [OF sub related_done [OF Cons.prems(2)]])
  qed
qed simp

section \<open>Properties\<close>

text \<open>C19: a publish is given the id of an earlier one exactly when it is the retransmission of it: same Packet
  Identifier, marked DUP, same topic and payload, not acknowledged and nothing else sent under that identifier
  since. So a retry is recognised and two different messages never share an id.\<close>

theorem publish_ids_refine:
  assumes "collision_free sha (pubs es)"
  shows "fst (pub_ids sha es None) = spec_ids es (\<lambda>_. None)"
  by (rule pub_ids_spec [OF assms subset_refl]) (simp add: related_def)

theorem publish_ids_refine_witness:
  "fst (pub_ids (\<lambda>b. b) [Pub 1 False ''t'' [5] ''a'', Pub 1 True ''t'' [5] ''b'', Acked 1, Pub 1 True ''t'' [5] ''c''] None) =
    [''a'', ''a'', ''c'']"
proof -
  let ?es = "[Pub 1 False ''t'' [5] ''a'', Pub 1 True ''t'' [5] ''b'', Acked 1, Pub 1 True ''t'' [5] ''c'']"
  have "pubs ?es = {(''t'', [5])}" by (auto simp: pubs_def)
  then have "collision_free (\<lambda>b. b) (pubs ?es)" by (simp add: collision_free_def)
  from publish_ids_refine [OF this] show ?thesis by simp
qed

end
