(* ===== verification/Session_Flow.thy ===== *)
theory Session_Flow
  imports Expiry Subject Dedupe "HOL-Library.Multiset"
begin

text \<open>
  The session state of \<^verbatim>\<open>src/session.go\<close> that QoS 1 and 2 rest on: Packet Identifiers, the in-flight set,
  the withdrawn and resent identifiers, and the identifiers of received QoS 2 messages. The Go struct
  \<^verbatim>\<open>session\<close> is a record that the theories of its other parts extend; an operation defined here works on
  the whole session.

  Each method holds \<^verbatim>\<open>s.mu\<close> throughout, so a method is one step. A pointer to a connection is a number. What
  a method does through \<^verbatim>\<open>s.holds\<close> is returned as a list of calls (\<open>hold_call\<close>); \<open>s_holds\<close> says
  whether \<^verbatim>\<open>s.holds\<close> is non-nil.
\<close>

section \<open>State\<close>

type_synonym conn_ref = nat

record outbound =
  ob_packetID :: u16
  ob_qos :: QoS
  ob_msgID :: string
  ob_awaitingPubcomp :: bool
  ob_publish :: "publish option"
  ob_arrived :: time
  ob_expiry :: "u32 option"
  ob_seq :: u64
  ob_queueSeq :: u64
  ob_blobKey :: string
  ob_blobAt :: time
  ob_quotaHeld :: bool
  ob_resentOn :: "conn_ref option"
  ob_ackSubject :: string
  ob_heldSince :: time

record ackOwed =
  ao_conn :: conn_ref
  ao_typ :: ptype
  ao_written :: bool
  ao_quota :: bool

record withdrawal =
  wd_madeAt :: u64
  wd_owed :: ptype
  wd_quotaHolder :: "conn_ref option"

record session_base =
  s_clientID :: string
  s_instance :: string
  s_holds :: bool
  s_identity :: string
  s_username :: string
  s_conn :: "conn_ref option"
  s_expirySeconds :: u32
  s_disconnectedAt :: time
  s_discarded :: bool

record session_flow = session_base +
  s_nextPacketID :: u16
  s_inflight :: "(u16, outbound) gomap"
  s_deadBlobs :: "string list"
  s_sendSeq :: u64
  s_receivedQoS2 :: "(u16, unit) gomap"
  s_qos2Forwarding :: "(u16, unit) gomap"
  s_publishIDs :: publishIDs
  s_withdrawn :: "(u16, withdrawal) gomap"
  s_attaches :: u64
  s_resent :: "(u16, ackOwed) gomap"

datatype hold_call = HoldAck string | HoldBack "string list"

section \<open>Packet Identifiers and the in-flight set\<close>

definition owedAck :: "outbound \<Rightarrow> ptype" where
  "owedAck o' = (if ob_qos o' = QoS1 then PUBACK else PUBCOMP)"

definition forgetStaleWithdrawals :: "'a session_flow_scheme \<Rightarrow> 'a session_flow_scheme" where
  "forgetStaleWithdrawals s =
    s\<lparr>s_withdrawn := filter (\<lambda>(i, w). \<not> 2 \<le> s_attaches s - wd_madeAt w) (s_withdrawn s)\<rparr>"

definition id_free :: "'a session_flow_scheme \<Rightarrow> u16 \<Rightarrow> bool" where
  "id_free s i \<longleftrightarrow> get (s_inflight s) i = None \<and> get (s_withdrawn s) i = None"

text \<open>The loop of \<^verbatim>\<open>nextID\<close>; the argument counts the rounds that are left.\<close>

definition advance :: "u16 \<Rightarrow> u16" where
  "advance p = (if p + 1 = 0 then 1 else p + 1)"

fun nextID_loop :: "nat \<Rightarrow> 'a session_flow_scheme \<Rightarrow> u16 option \<times> 'a session_flow_scheme" where
  "nextID_loop 0 s = (None, s)"
| "nextID_loop (Suc n) s =
    (let i = advance (s_nextPacketID s); s = s\<lparr>s_nextPacketID := i\<rparr> in
     if id_free s i then (Some i, s) else nextID_loop n s)"

definition nextID :: "'a session_flow_scheme \<Rightarrow> u16 option \<times> 'a session_flow_scheme" where
  "nextID s = nextID_loop 0xFFFF s"

definition trackInflight :: "outbound \<Rightarrow> 'a session_flow_scheme \<Rightarrow> 'a session_flow_scheme" where
  "trackInflight o' s =
    (let q = s_sendSeq s + 1 in
     s\<lparr>s_sendSeq := q, s_inflight := AList.update (ob_packetID o') (o'\<lparr>ob_seq := q\<rparr>) (s_inflight s)\<rparr>)"

definition unacknowledged :: "'a session_flow_scheme \<Rightarrow> outbound list" where
  "unacknowledged s = sort_key ob_seq (map snd (s_inflight s))"

definition inflightEntry :: "'a session_flow_scheme \<Rightarrow> u16 \<Rightarrow> outbound option" where
  "inflightEntry s i = get (s_inflight s) i"

definition retireBlobLocked :: "outbound \<Rightarrow> 'a session_flow_scheme \<Rightarrow> outbound \<times> 'a session_flow_scheme" where
  "retireBlobLocked o' s =
    (if ob_blobKey o' \<noteq> [] then (o'\<lparr>ob_blobKey := []\<rparr>, s\<lparr>s_deadBlobs := s_deadBlobs s @ [ob_blobKey o']\<rparr>) else (o', s))"

section \<open>Resends\<close>

definition newOwed :: "conn_ref \<Rightarrow> outbound \<Rightarrow> ackOwed" where
  "newOwed c o' = \<lparr>ao_conn = c, ao_typ = owedAck o', ao_written = False, ao_quota = False\<rparr>"

definition takeQuotaSlot :: "conn_ref \<Rightarrow> u16 \<Rightarrow> 'a session_flow_scheme \<Rightarrow> bool \<times> 'a session_flow_scheme" where
  "takeQuotaSlot c i s =
    (case get (s_inflight s) i of
       None \<Rightarrow> (False, s)
     | Some o' \<Rightarrow> (True,
         s\<lparr>s_inflight := AList.update i (o'\<lparr>ob_quotaHeld := True, ob_resentOn := Some c\<rparr>) (s_inflight s),
           s_resent := AList.update i (newOwed c o') (s_resent s)\<rparr>))"

definition markResent :: "conn_ref \<Rightarrow> u16 \<Rightarrow> 'a session_flow_scheme \<Rightarrow> bool \<times> 'a session_flow_scheme" where
  "markResent c i s =
    (case get (s_inflight s) i of
       None \<Rightarrow> (False, s)
     | Some o' \<Rightarrow> (True,
         s\<lparr>s_inflight := AList.update i (o'\<lparr>ob_resentOn := Some c\<rparr>) (s_inflight s),
           s_resent := AList.update i (newOwed c o') (s_resent s)\<rparr>))"

text \<open>\<^verbatim>\<open>ok\<close> and \<^verbatim>\<open>quota\<close>.\<close>

definition session_forgetResent :: "conn_ref \<Rightarrow> u16 \<Rightarrow> ptype \<Rightarrow> 'a session_flow_scheme \<Rightarrow> (bool \<times> bool) \<times> 'a session_flow_scheme" where
  "session_forgetResent c i t s =
    (case get (s_resent s) i of
       None \<Rightarrow> ((False, False), s)
     | Some r \<Rightarrow>
         if ao_conn r \<noteq> c \<or> ao_typ r \<noteq> t then ((False, False), s)
         else ((True, ao_quota r), s\<lparr>s_resent := AList.delete i (s_resent s)\<rparr>))"

definition markResentWritten :: "conn_ref \<Rightarrow> u16 \<Rightarrow> 'a session_flow_scheme \<Rightarrow> 'a session_flow_scheme" where
  "markResentWritten c i s =
    (case get (s_resent s) i of
       None \<Rightarrow> s
     | Some r \<Rightarrow> if ao_conn r = c then s\<lparr>s_resent := AList.update i (r\<lparr>ao_written := True\<rparr>) (s_resent s)\<rparr> else s)"

definition abandonResend :: "conn_ref \<Rightarrow> u16 \<Rightarrow> 'a session_flow_scheme \<Rightarrow> 'a session_flow_scheme" where
  "abandonResend c i s =
    (case get (s_resent s) i of
       None \<Rightarrow> s
     | Some r \<Rightarrow> if ao_conn r = c then s\<lparr>s_resent := AList.delete i (s_resent s)\<rparr> else s)"

section \<open>Completing an exchange\<close>

definition awaitPubcomp :: "u16 \<Rightarrow> 'a session_flow_scheme \<Rightarrow> 'a session_flow_scheme" where
  "awaitPubcomp i s =
    (case get (s_inflight s) i of
       None \<Rightarrow> s
     | Some o' \<Rightarrow> s\<lparr>s_inflight := AList.update i (o'\<lparr>ob_awaitingPubcomp := True\<rparr>) (s_inflight s)\<rparr>)"

definition heldGroupMessage :: "'a session_flow_scheme \<Rightarrow> u16 \<Rightarrow> bool" where
  "heldGroupMessage s i = (case get (s_inflight s) i of None \<Rightarrow> False | Some o' \<Rightarrow> ob_ackSubject o' \<noteq> [])"

definition hold_ack :: "'a session_flow_scheme \<Rightarrow> string \<Rightarrow> hold_call list" where
  "hold_ack s subject = (if subject \<noteq> [] \<and> s_holds s then [HoldAck subject] else [])"

definition hold_back :: "'a session_flow_scheme \<Rightarrow> string list \<Rightarrow> hold_call list" where
  "hold_back s subjects = (if subjects \<noteq> [] \<and> s_holds s then [HoldBack subjects] else [])"

definition settleOwned :: "u16 \<Rightarrow> 'a session_flow_scheme \<Rightarrow> hold_call list \<times> 'a session_flow_scheme" where
  "settleOwned i s =
    (case get (s_inflight s) i of
       Some o' \<Rightarrow>
         if ob_awaitingPubcomp o' then
           (hold_ack s (ob_ackSubject o'),
            s\<lparr>s_inflight := AList.update i (o'\<lparr>ob_ackSubject := []\<rparr>) (s_inflight s)\<rparr>)
         else ([], s)
     | None \<Rightarrow> ([], s))"

text \<open>The two adjustments \<^verbatim>\<open>completeInflightLocked\<close> makes after it has removed the entry \<open>o'\<close>: the slot goes to a
  resend that has not been written (first), or stays with the connection that resent it (second).\<close>

definition overtaken :: "conn_ref \<Rightarrow> outbound \<Rightarrow> ackOwed option \<Rightarrow> bool" where
  "overtaken c o' r =
    (case r of
       None \<Rightarrow> False
     | Some r \<Rightarrow> ao_conn r = c \<and> \<not> ao_written r \<and> \<not> ao_quota r \<and> ob_quotaHeld o' \<and> ob_resentOn o' = Some c)"

definition displaced :: "conn_ref \<Rightarrow> outbound \<Rightarrow> bool" where
  "displaced c o' \<longleftrightarrow> ob_resentOn o' \<noteq> None \<and> ob_resentOn o' \<noteq> Some c"

definition completeInflightLocked :: "conn_ref \<Rightarrow> u16 \<Rightarrow> 'a session_flow_scheme \<Rightarrow> outbound option \<times> 'a session_flow_scheme" where
  "completeInflightLocked c i s =
    (case get (s_inflight s) i of
       None \<Rightarrow> (None, s)
     | Some o' \<Rightarrow>
         let (o', s) = retireBlobLocked o' (s\<lparr>s_inflight := AList.delete i (s_inflight s)\<rparr>);
             over = overtaken c o' (get (s_resent s) i);
             done' = (if over then o'\<lparr>ob_quotaHeld := False\<rparr> else o');
             s = (if over then s\<lparr>s_resent := AList.update i ((the (get (s_resent s) i))\<lparr>ao_quota := True\<rparr>) (s_resent s)\<rparr> else s)
         in
         if displaced c o' then
           (Some (done'\<lparr>ob_quotaHeld := False\<rparr>),
            s\<lparr>s_withdrawn := AList.update i
              \<lparr>wd_madeAt = s_attaches s, wd_owed = owedAck o',
               wd_quotaHolder = (if ob_quotaHeld o' then ob_resentOn o' else None)\<rparr> (s_withdrawn s)\<rparr>)
         else (Some done', s))"

definition completeInflight :: "conn_ref \<Rightarrow> u16 \<Rightarrow> 'a session_flow_scheme \<Rightarrow> outbound option \<times> hold_call list \<times> 'a session_flow_scheme" where
  "completeInflight c i s =
    (let (d, s') = completeInflightLocked c i s in
     (d, (case d of None \<Rightarrow> [] | Some o' \<Rightarrow> hold_ack s' (ob_ackSubject o')), s'))"

section \<open>Withdrawing\<close>

definition withdraw_of :: "'a session_flow_scheme \<Rightarrow> outbound \<Rightarrow> withdrawal" where
  "withdraw_of s o' = \<lparr>wd_madeAt = s_attaches s, wd_owed = owedAck o',
     wd_quotaHolder = (if ob_quotaHeld o' then s_conn s else None)\<rparr>"

definition withdraw_entry :: "u16 \<Rightarrow> outbound \<Rightarrow> 'a session_flow_scheme \<Rightarrow> 'a session_flow_scheme" where
  "withdraw_entry i o' s =
    (let (o', s) = retireBlobLocked o' (s\<lparr>s_inflight := AList.delete i (s_inflight s)\<rparr>) in
     s\<lparr>s_withdrawn := AList.update i (withdraw_of s o') (s_withdrawn s)\<rparr>)"

text \<open>The loop over the in-flight set; \<open>taken\<close> and \<open>back\<close> accumulate. A nil \<^verbatim>\<open>o.publish\<close> would panic.\<close>

fun withdraw_loop :: "string list \<Rightarrow> string list \<Rightarrow> (u16 \<times> outbound) list \<Rightarrow>
    u16 list \<Rightarrow> string list \<Rightarrow> 'a session_flow_scheme \<Rightarrow> (u16 list \<times> string list \<times> 'a session_flow_scheme) res" where
  "withdraw_loop denied surviving [] taken back s = Inr (taken, back, s)"
| "withdraw_loop denied surviving ((i, o') # es) taken back s =
    (if ob_awaitingPubcomp o' then withdraw_loop denied surviving es taken back s
     else case ob_publish o' of
       None \<Rightarrow> Inl Panic
     | Some p \<Rightarrow>
         if \<not> MatchAny denied (pb_Topic p) \<or> MatchAny surviving (pb_Topic p)
         then withdraw_loop denied surviving es taken back s
         else withdraw_loop denied surviving es (taken @ [i])
           (if ob_ackSubject o' \<noteq> [] then back @ [ob_ackSubject o'] else back) (withdraw_entry i o' s))"

definition withdrawInflight :: "string list \<Rightarrow> string list \<Rightarrow> 'a session_flow_scheme \<Rightarrow>
    (u16 list \<times> hold_call list \<times> 'a session_flow_scheme) res" where
  "withdrawInflight denied surviving s =
    rbind (withdraw_loop denied surviving (s_inflight s) [] [] s) (\<lambda>(taken, back, s).
    Inr (taken, hold_back s back, s))"

definition session_forgetWithdrawn :: "u16 \<Rightarrow> ptype \<Rightarrow> 'a session_flow_scheme \<Rightarrow> withdrawal option \<times> 'a session_flow_scheme" where
  "session_forgetWithdrawn i t s =
    (case get (s_withdrawn s) i of
       None \<Rightarrow> (None, s)
     | Some w \<Rightarrow>
         if wd_owed w \<noteq> t then (None, s)
         else (Some w, s\<lparr>s_withdrawn := AList.delete i (s_withdrawn s)\<rparr>))"

section \<open>Backlog messages held for the session\<close>

definition handBackHeld :: "'a session_flow_scheme \<Rightarrow> hold_call list \<times> 'a session_flow_scheme" where
  "handBackHeld s =
    (let gives = (\<lambda>o'. ob_ackSubject o' \<noteq> [] \<and> \<not> ob_awaitingPubcomp o') in
     (hold_back s (map (\<lambda>(i, o'). ob_ackSubject o') (filter (\<lambda>(i, o'). gives o') (s_inflight s))),
      s\<lparr>s_inflight := map (\<lambda>(i, o'). (i, if gives o' then o'\<lparr>ob_ackSubject := []\<rparr> else o')) (s_inflight s)\<rparr>))"

text \<open>The loop of \<^verbatim>\<open>heldSubjects\<close> over the in-flight set.\<close>

fun held_loop :: "time \<Rightarrow> duration \<Rightarrow> (u16 \<times> outbound) list \<Rightarrow> string list \<Rightarrow> string list \<Rightarrow>
    'a session_flow_scheme \<Rightarrow> string list \<times> string list \<times> 'a session_flow_scheme" where
  "held_loop now limit [] held expired s = (held, expired, s)"
| "held_loop now limit ((i, o') # es) held expired s =
    (if ob_ackSubject o' = [] then held_loop now limit es held expired s
     else
       let o' = (if IsZero (ob_heldSince o') then o'\<lparr>ob_heldSince := now\<rparr> else o');
           s = s\<lparr>s_inflight := AList.update i o' (s_inflight s)\<rparr> in
       if 0 < limit \<and> limit \<le> time_Sub now (ob_heldSince o') \<and> \<not> ob_awaitingPubcomp o'
       then held_loop now limit es held (expired @ [ob_ackSubject o']) (withdraw_entry i o' s)
       else held_loop now limit es (held @ [ob_ackSubject o']) expired s)"

definition heldSubjects :: "time \<Rightarrow> duration \<Rightarrow> 'a session_flow_scheme \<Rightarrow> string list \<times> string list \<times> 'a session_flow_scheme" where
  "heldSubjects now limit s = held_loop now limit (s_inflight s) [] [] s"

section \<open>Received QoS 2 messages\<close>

definition markQoS2Received :: "u16 \<Rightarrow> 'a session_flow_scheme \<Rightarrow> bool \<times> 'a session_flow_scheme" where
  "markQoS2Received i s =
    (let duplicate = (get (s_receivedQoS2 s) i \<noteq> None);
         s = s\<lparr>s_receivedQoS2 := AList.update i () (s_receivedQoS2 s)\<rparr> in
     (duplicate, if \<not> duplicate then s\<lparr>s_qos2Forwarding := AList.update i () (s_qos2Forwarding s)\<rparr> else s))"

definition qos2Forwarded :: "u16 \<Rightarrow> 'a session_flow_scheme \<Rightarrow> 'a session_flow_scheme" where
  "qos2Forwarded i s = s\<lparr>s_qos2Forwarding := AList.delete i (s_qos2Forwarding s)\<rparr>"

definition releaseQoS2 :: "u16 \<Rightarrow> 'a session_flow_scheme \<Rightarrow> bool \<times> 'a session_flow_scheme" where
  "releaseQoS2 i s =
    (get (s_receivedQoS2 s) i \<noteq> None,
     s\<lparr>s_receivedQoS2 := AList.delete i (s_receivedQoS2 s), s_qos2Forwarding := AList.delete i (s_qos2Forwarding s)\<rparr>)"

section \<open>Restoring from a record\<close>

definition restoreReceivedQoS2 :: "u16 list \<Rightarrow> 'a session_flow_scheme \<Rightarrow> 'a session_flow_scheme" where
  "restoreReceivedQoS2 ids s = s\<lparr>s_receivedQoS2 := fold (\<lambda>i. AList.update i ()) ids (s_receivedQoS2 s)\<rparr>"

definition restoreInflight :: "outbound \<Rightarrow> 'a session_flow_scheme \<Rightarrow> 'a session_flow_scheme" where
  "restoreInflight o' s =
    (case get (s_inflight s) (ob_packetID o') of
       Some _ \<Rightarrow> s
     | None \<Rightarrow> trackInflight o' s)"

section \<open>Packet Identifiers are found\<close>

lemma advance_nat: "unat (advance p) = unat p mod 65535 + 1"
proof (cases "p = 65535")
  case True
  then show ?thesis by (simp add: advance_def)
next
  case False
  have "unat p < 2 ^ LENGTH(16)" by (rule unsigned_less)
  then have lt: "unat p < 65536" by simp
  have "unat p \<noteq> 65535"
  proof
    assume "unat p = 65535"
    then have "unat p = unat (65535 :: u16)" by simp
    with False show False by (simp only: word_unat_eq_iff)
  qed
  with lt have lt: "unat p < 65535" by simp
  have "p + 1 = of_nat (unat p + 1)" by simp
  then have "unat (p + 1) = unat (of_nat (unat p + 1) :: u16)" by (simp only:)
  also have "\<dots> = unat p + 1" using lt by (simp add: unat_of_nat del: of_nat_add of_nat_Suc)
  finally have u: "unat (p + 1) = unat p + 1" .
  then have "p + 1 \<noteq> 0" by (metis add_eq_0_iff_both_eq_0 one_neq_zero unsigned_0)
  then show ?thesis using lt u by (simp add: advance_def)
qed

lemma advance_pow: "unat ((advance ^^ Suc k) p) = (unat p + k) mod 65535 + 1"
proof (induction k)
  case (Suc k)
  have "unat ((advance ^^ Suc (Suc k)) p) = unat ((advance ^^ Suc k) p) mod 65535 + 1"
    by (simp add: advance_nat)
  also have "\<dots> = ((unat p + k) mod 65535 + 1) mod 65535 + 1" by (simp only: Suc)
  also have "((unat p + k) mod 65535 + 1) mod 65535 = (unat p + Suc k) mod 65535" by (simp add: mod_Suc_eq)
  finally show ?case .
qed (simp add: advance_nat)

lemma advance_nonzero: "advance p \<noteq> 0"
  by (metis advance_nat add_eq_0_iff_both_eq_0 one_neq_zero unsigned_0)

lemma mod_reaches:
  assumes "t < (m :: nat)"
  shows "\<exists>k < m. (n + k) mod m = t"
proof -
  have nm: "n mod m < m" using assms by (intro mod_less_divisor) linarith
  let ?k = "(m + t - n mod m) mod m"
  have "(n + ?k) mod m = (n mod m + (m + t - n mod m)) mod m" by (metis mod_add_eq mod_mod_trivial)
  also have "n mod m + (m + t - n mod m) = m + t" using nm by simp
  finally have "(n + ?k) mod m = t" using assms by simp
  moreover have "?k < m" using assms by (intro mod_less_divisor) linarith
  ultimately show ?thesis by blast
qed

lemma advance_reaches:
  assumes "i \<noteq> 0"
  obtains k where "k < 65535" "(advance ^^ Suc k) p = i"
proof -
  have "unat i < 2 ^ LENGTH(16)" by (rule unsigned_less)
  then have i: "unat i < 65536" "unat i \<noteq> 0" using assms by (simp_all add: unat_eq_0)
  then have "unat i - 1 < 65535" by simp
  from mod_reaches [OF this, of "unat p"] obtain k where k: "k < 65535" "(unat p + k) mod 65535 = unat i - 1" by blast
  have "unat ((advance ^^ Suc k) p) = unat i" unfolding advance_pow k(2) using i by simp
  then have "(advance ^^ Suc k) p = i" by (simp only: word_unat_eq_iff)
  with k(1) show ?thesis by (rule that)
qed


lemma id_free_next [simp]: "id_free (s\<lparr>s_nextPacketID := i\<rparr>) j = id_free s j"
  by (simp add: id_free_def)

lemma nextID_loop_Some:
  "nextID_loop n s = (Some i, s') \<Longrightarrow> i \<noteq> 0 \<and> id_free s i \<and> s' = s\<lparr>s_nextPacketID := i\<rparr>"
  by (induction n s rule: nextID_loop.induct) (auto simp: Let_def advance_nonzero split: if_splits)

lemma nextID_loop_None:
  "nextID_loop n s = (None, s') \<Longrightarrow> k < n \<Longrightarrow> \<not> id_free s ((advance ^^ Suc k) (s_nextPacketID s))"
proof (induction n s arbitrary: k rule: nextID_loop.induct)
  case (2 n s)
  let ?i = "advance (s_nextPacketID s)"
  have busy: "\<not> id_free s ?i" "nextID_loop n (s\<lparr>s_nextPacketID := ?i\<rparr>) = (None, s')"
    using 2(2) by (auto simp: Let_def split: if_splits)
  show ?case
  proof (cases k)
    case (Suc j)
    have "\<not> id_free (s\<lparr>s_nextPacketID := ?i\<rparr>) ((advance ^^ Suc j) (s_nextPacketID (s\<lparr>s_nextPacketID := ?i\<rparr>)))"
      by (rule 2(1) [OF refl refl _ busy(2)]) (use busy(1) 2(3) Suc in simp_all)
    then show ?thesis by (simp add: Suc funpow_swap1)
  qed (use busy in simp)
qed simp

lemma nextID_Some: "nextID s = (Some i, s') \<Longrightarrow> i \<noteq> 0 \<and> id_free s i \<and> s' = s\<lparr>s_nextPacketID := i\<rparr>"
  unfolding nextID_def by (rule nextID_loop_Some)

lemma nextID_None: "nextID s = (None, s') \<Longrightarrow> i \<noteq> 0 \<Longrightarrow> \<not> id_free s i"
  unfolding nextID_def by (metis advance_reaches nextID_loop_None)

section \<open>Properties\<close>

text \<open>C20: \<^verbatim>\<open>nextID\<close> always ends, within one round over the 65535 identifiers. It returns an identifier that
  is not zero and that no in-flight or withdrawn message holds, and it fails only when there is none.\<close>

theorem nextID_complete:
  "case nextID s of
     (Some i, s') \<Rightarrow> i \<noteq> 0 \<and> get (s_inflight s) i = None \<and> get (s_withdrawn s) i = None \<and> s' = s\<lparr>s_nextPacketID := i\<rparr>
   | (None, s') \<Rightarrow> UNIV - {0} \<subseteq> dom (get (s_inflight s)) \<union> dom (get (s_withdrawn s))"
proof (cases "nextID s")
  case (Pair r s')
  then show ?thesis
  proof (cases r)
    case None
    then have "\<not> id_free s i" if "i \<noteq> 0" for i using nextID_None [of s s' i] Pair that by simp
    then show ?thesis by (auto simp: Pair None id_free_def)
  next
    case (Some i)
    then show ?thesis using nextID_Some [of s i s'] Pair by (simp add: id_free_def)
  qed
qed

end
