(* ===== verification/Out_Alias.thy ===== *)
theory Out_Alias
  imports Packet_IO Go_Lib "HOL-Library.Multiset"
begin

text \<open>
  Topic Aliases on the PUBLISH packets the broker sends: \<^verbatim>\<open>src/outalias.go\<close>. An element of the
  \<^verbatim>\<open>container/list\<close> is its address and its value; \<open>byTopic\<close> points to elements. \<open>oa_heap\<close> is the address
  the next element gets.

  The specification is the receiver's side of the protocol (\<open>receive_alias\<close>): whatever the table does,
  the client resolves every PUBLISH to the topic it was published to.
\<close>

section \<open>The table\<close>

definition minAliasedTopic :: nat where
  "minAliasedTopic = 8"

definition maxSeenAliasNames :: nat where
  "maxSeenAliasNames = 32"

record outAlias =
  al_topic :: string
  al_alias :: u16

type_synonym element = "nat \<times> outAlias"

record outAliases =
  oa_max :: u16
  oa_byTopic :: "(string, element) gomap"
  oa_order :: "element list"
  oa_saved :: int
  oa_spent :: int
  oa_seen :: "(string, unit) gomap option"
  oa_heap :: nat

definition newOutAliases :: "u16 \<Rightarrow> outAliases" where
  "newOutAliases m = \<lparr>oa_max = m, oa_byTopic = [], oa_order = [], oa_saved = 0, oa_spent = 0, oa_seen = None,
     oa_heap = 0\<rparr>"

definition MoveToFront :: "element \<Rightarrow> element list \<Rightarrow> element list" where
  "MoveToFront el l = (if el \<in> set l then el # remove1 el l else l)"

definition hit :: "outAliases \<Rightarrow> string \<Rightarrow> u16 option \<times> outAliases" where
  "hit t topic =
    (case get (oa_byTopic t) topic of
       None \<Rightarrow> (None, t)
     | Some el \<Rightarrow> (Some (al_alias (snd el)), t\<lparr>oa_order := MoveToFront el (oa_order t)\<rparr>))"

definition next_alias :: "outAliases \<Rightarrow> u16 res" where
  "next_alias t =
    (if length (oa_order t) < unat (oa_max t) then Inr (of_nat (length (oa_order t)) + 1)
     else if oa_order t = [] then Inl Panic
     else Inr (al_alias (snd (last (oa_order t)))))"

definition assign :: "outAliases \<Rightarrow> string \<Rightarrow> outAliases res" where
  "assign t topic =
    rbind (next_alias t) (\<lambda>n.
    let a = \<lparr>al_topic = topic, al_alias = n\<rparr>;
        t = (if length (oa_order t) \<ge> unat (oa_max t) then
               (let old = last (oa_order t) in
                t\<lparr>oa_byTopic := AList.delete (al_topic (snd old)) (oa_byTopic t), oa_order := butlast (oa_order t)\<rparr>)
             else t);
        el = (oa_heap t, a)
    in Inr (t\<lparr>oa_order := el # oa_order t, oa_byTopic := AList.update topic el (oa_byTopic t),
         oa_heap := Suc (oa_heap t)\<rparr>))"

definition withAlias :: "publish \<Rightarrow> u16 \<Rightarrow> bool \<Rightarrow> publish" where
  "withAlias p alias omitTopic =
    (let props = (case pb_Properties p of None \<Rightarrow> empty_props | Some q \<Rightarrow> q);
         out = p\<lparr>pb_Properties := Some (props\<lparr>TopicAlias := Some alias\<rparr>)\<rparr>
     in if omitTopic then out\<lparr>pb_Topic := []\<rparr> else out)"

definition overLimit :: "nat \<Rightarrow> u32 \<Rightarrow> bool" where
  "overLimit n limit \<longleftrightarrow> int (unat limit) < int n"

text \<open>The branch of \<^verbatim>\<open>encode\<close> that gives a new name an alias.\<close>

definition set_alias :: "outAliases \<Rightarrow> publish \<Rightarrow> bytes \<Rightarrow> u32 \<Rightarrow> (bytes \<times> outAliases) res" where
  "set_alias t p raw maxPacketSize =
    rbind (next_alias t) (\<lambda>n.
    case encode_packet (Publish (withAlias p n False)) of
      Inl _ \<Rightarrow> Inr (raw, t)
    | Inr out \<Rightarrow>
        if 0 < maxPacketSize \<and> overLimit (length out) maxPacketSize then Inr (raw, t)
        else rbind (assign (t\<lparr>oa_spent := oa_spent t + (int (length out) - int (length raw))\<rparr>) (pb_Topic p)) (\<lambda>t.
          Inr (out, t)))"

definition alias_encode :: "outAliases \<Rightarrow> publish \<Rightarrow> bytes \<Rightarrow> u32 \<Rightarrow> (bytes \<times> outAliases) res" where
  "alias_encode t p raw maxPacketSize =
    (case hit t (pb_Topic p) of
       (Some alias, t) \<Rightarrow>
         (case encode_packet (Publish (withAlias p alias True)) of
            Inr out \<Rightarrow> Inr (out, t\<lparr>oa_saved := oa_saved t + (int (length raw) - int (length out))\<rparr>)
          | Inl _ \<Rightarrow> Inr (raw, t))
     | (None, t) \<Rightarrow>
         let full = unat (oa_max t) \<le> length (oa_order t) in
         if full \<and> oa_saved t < oa_spent t then Inr (raw, t)
         else if full then
           (let seen = (case oa_seen t of None \<Rightarrow> [] | Some m \<Rightarrow> m) in
            case get seen (pb_Topic p) of
              None \<Rightarrow>
                let seen = (if oa_seen t = None \<or> maxSeenAliasNames \<le> length seen then [] else seen) in
                Inr (raw, t\<lparr>oa_seen := Some (AList.update (pb_Topic p) () seen)\<rparr>)
            | Some _ \<Rightarrow>
                set_alias (t\<lparr>oa_seen := Some (AList.delete (pb_Topic p) seen)\<rparr>) p raw maxPacketSize)
         else set_alias t p raw maxPacketSize)"

text \<open>The connection's call; \<open>table\<close> is \<^verbatim>\<open>c.outAlias\<close>.\<close>

definition aliasPublish :: "outAliases option \<Rightarrow> u32 \<Rightarrow> publish \<Rightarrow> bytes \<Rightarrow> (bytes \<times> outAliases option) res" where
  "aliasPublish table clientMaxPacketSize p raw =
    (case table of
       None \<Rightarrow> Inr (raw, None)
     | Some t \<Rightarrow>
         if length (pb_Topic p) < minAliasedTopic then Inr (raw, table)
         else rbind (alias_encode t p raw clientMaxPacketSize) (\<lambda>(out, t). Inr (out, Some t)))"

section \<open>The receiver\<close>

text \<open>What the specification has a receiver do with the Topic Alias of a PUBLISH: the topic it is for and the
  receiver's mapping afterwards, or nothing when the alias is not mapped.\<close>

definition receive_alias :: "(u16 \<Rightarrow> string option) \<Rightarrow> publish \<Rightarrow> (string \<times> (u16 \<Rightarrow> string option)) option" where
  "receive_alias cm p =
    (case (case pb_Properties p of None \<Rightarrow> None | Some q \<Rightarrow> TopicAlias q) of
       None \<Rightarrow> Some (pb_Topic p, cm)
     | Some a \<Rightarrow>
         if pb_Topic p \<noteq> [] then Some (pb_Topic p, cm(a \<mapsto> pb_Topic p))
         else (case cm a of None \<Rightarrow> None | Some name \<Rightarrow> Some (name, cm)))"

section \<open>Invariant\<close>

definition tbl_ok :: "outAliases \<Rightarrow> bool" where
  "tbl_ok t \<longleftrightarrow>
    wf_map (oa_byTopic t) \<and> distinct (map fst (oa_order t)) \<and> (\<forall>el \<in> set (oa_order t). fst el < oa_heap t) \<and>
    (\<forall>k el. get (oa_byTopic t) k = Some el \<longleftrightarrow> el \<in> set (oa_order t) \<and> al_topic (snd el) = k) \<and>
    length (oa_order t) \<le> unat (oa_max t) \<and> 0 < oa_max t \<and>
    distinct (map (unat \<circ> al_alias \<circ> snd) (oa_order t)) \<and>
    set (map (unat \<circ> al_alias \<circ> snd) (oa_order t)) = {1..length (oa_order t)}"

definition client_ok :: "outAliases \<Rightarrow> (u16 \<Rightarrow> string option) \<Rightarrow> bool" where
  "client_ok t cm \<longleftrightarrow> (\<forall>el \<in> set (oa_order t). cm (al_alias (snd el)) = Some (al_topic (snd el)))"

lemma new_ok: "0 < m \<Longrightarrow> tbl_ok (newOutAliases m)"
  by (simp add: tbl_ok_def newOutAliases_def)

lemma client_new: "client_ok (newOutAliases m) cm"
  by (simp add: client_ok_def newOutAliases_def)

lemma mset_MoveToFront: "mset (MoveToFront el l) = mset l"
  by (simp add: MoveToFront_def)

lemma MoveToFront_same [simp]:
  "set (MoveToFront el l) = set l" "length (MoveToFront el l) = length l"
  "distinct (map f (MoveToFront el l)) = distinct (map f l)"
  using mset_MoveToFront [of el l]
  by (metis mset_eq_setD, metis mset_eq_length, metis mset_map mset_eq_imp_distinct_iff)

lemma tbl_get:
  "tbl_ok t \<Longrightarrow> get (oa_byTopic t) k = Some el \<longleftrightarrow> el \<in> set (oa_order t) \<and> al_topic (snd el) = k"
  unfolding tbl_ok_def by blast

lemma hit_cases:
  assumes "tbl_ok t"
  obtains (new) "hit t topic = (None, t)" "\<forall>el \<in> set (oa_order t). al_topic (snd el) \<noteq> topic"
  | (old) el t' where "hit t topic = (Some (al_alias (snd el)), t')" "el \<in> set (oa_order t)" "al_topic (snd el) = topic"
      "tbl_ok t'" "oa_order t' = MoveToFront el (oa_order t)" "oa_max t' = oa_max t"
proof (cases "get (oa_byTopic t) topic")
  case None
  then have "\<forall>el \<in> set (oa_order t). al_topic (snd el) \<noteq> topic"
    using assms unfolding tbl_ok_def by (metis option.distinct(1))
  then show ?thesis using None by (intro new) (simp_all add: hit_def)
next
  case (Some el)
  then have "el \<in> set (oa_order t)" "al_topic (snd el) = topic"
    using tbl_get [OF assms, of topic el] by simp_all
  moreover have "tbl_ok (t\<lparr>oa_order := MoveToFront el (oa_order t)\<rparr>)" using assms by (simp add: tbl_ok_def)
  ultimately show ?thesis
    using old [of el "t\<lparr>oa_order := MoveToFront el (oa_order t)\<rparr>"] Some by (simp add: hit_def)
qed

lemma word_next:
  assumes "n < unat (m :: u16)"
  shows "unat (of_nat n + 1 :: u16) = Suc n"
proof -
  have "unat m < 2 ^ LENGTH(16)" by (rule unsigned_less)
  then have "Suc n < 2 ^ 16" using assms by simp
  moreover have "(of_nat n + 1 :: u16) = of_nat (Suc n)" by simp
  ultimately show ?thesis by (simp add: unat_of_nat del: of_nat_Suc)
qed

lemma next_alias_ok: "tbl_ok t \<Longrightarrow> \<exists>n. next_alias t = Inr n \<and> 1 \<le> unat n \<and> unat n \<le> unat (oa_max t)"
proof -
  assume ok: "tbl_ok t"
  show ?thesis
  proof (cases "length (oa_order t) < unat (oa_max t)")
    case True
    then show ?thesis using word_next [OF True] by (simp add: next_alias_def)
  next
    case False
    have ne: "oa_order t \<noteq> []" using ok False by (auto simp: tbl_ok_def word_less_nat_alt)
    then have "unat (al_alias (snd (last (oa_order t)))) \<in> set (map (unat \<circ> al_alias \<circ> snd) (oa_order t))"
      by (simp add: image_iff) (metis last_in_set)
    then have "unat (al_alias (snd (last (oa_order t)))) \<in> {1..length (oa_order t)}"
      using ok by (simp only: tbl_ok_def)
    then show ?thesis using False ne ok by (auto simp: next_alias_def tbl_ok_def)
  qed
qed

lemma assign_room:
  assumes ok: "tbl_ok t" and new: "\<forall>el \<in> set (oa_order t). al_topic (snd el) \<noteq> topic"
    and room: "length (oa_order t) < unat (oa_max t)"
  defines "n \<equiv> of_nat (length (oa_order t)) + 1"
  obtains t' where "assign t topic = Inr t'" "tbl_ok t'" "oa_max t' = oa_max t"
    "oa_order t' = (oa_heap t, \<lparr>al_topic = topic, al_alias = n\<rparr>) # oa_order t"
proof -
  have n: "unat n = Suc (length (oa_order t))" unfolding n_def by (rule word_next [OF room])
  let ?el = "(oa_heap t, \<lparr>al_topic = topic, al_alias = n\<rparr>)"
  let ?t = "t\<lparr>oa_order := ?el # oa_order t, oa_byTopic := AList.update topic ?el (oa_byTopic t),
    oa_heap := Suc (oa_heap t)\<rparr>"
  have as: "assign t topic = Inr ?t"
    using room by (simp add: assign_def next_alias_def n_def Let_def)
  have fresh: "oa_heap t \<notin> fst ` set (oa_order t)" using ok by (auto simp: tbl_ok_def)
  have nnew: "unat n \<notin> (unat \<circ> al_alias \<circ> snd) ` set (oa_order t)"
    using ok n unfolding tbl_ok_def set_map by simp
  have "tbl_ok ?t"
    using ok new fresh nnew room n unfolding tbl_ok_def
    by (auto simp: less_Suc_eq atLeastAtMostSuc_conv)
  then show ?thesis using that [OF as] by simp
qed

lemma assign_full:
  assumes ok: "tbl_ok t" and new: "\<forall>el \<in> set (oa_order t). al_topic (snd el) \<noteq> topic"
    and full: "oa_order t = ys @ [old]" "unat (oa_max t) \<le> length (oa_order t)"
  obtains t' where "assign t topic = Inr t'" "tbl_ok t'" "oa_max t' = oa_max t"
    "oa_order t' = (oa_heap t, \<lparr>al_topic = topic, al_alias = al_alias (snd old)\<rparr>) # ys"
proof -
  let ?el = "(oa_heap t, \<lparr>al_topic = topic, al_alias = al_alias (snd old)\<rparr>)"
  let ?t = "t\<lparr>oa_order := ?el # ys,
    oa_byTopic := AList.update topic ?el (AList.delete (al_topic (snd old)) (oa_byTopic t)),
    oa_heap := Suc (oa_heap t)\<rparr>"
  have as: "assign t topic = Inr ?t"
    using full by (simp add: assign_def next_alias_def Let_def)
  have bt: "get (oa_byTopic ?t) k = Some el \<longleftrightarrow> el \<in> set (oa_order ?t) \<and> al_topic (snd el) = k" for k el
  proof -
    have in_old: "el \<in> set ys \<and> al_topic (snd el) = k \<longleftrightarrow> get (oa_byTopic t) k = Some el \<and> el \<noteq> old"
      if "k \<noteq> topic"
      using tbl_get [OF ok, of k el] ok full(1) by (auto simp: tbl_ok_def)
    have uniq: "k = al_topic (snd old) \<Longrightarrow> get (oa_byTopic t) k = Some old"
      using tbl_get [OF ok, of k old] full(1) by simp
    have "topic \<noteq> al_topic (snd old)" using new full(1) by auto
    moreover have "fst old < oa_heap t" using ok full(1) by (simp add: tbl_ok_def)
    then have "old \<noteq> ?el" by (metis fst_conv less_irrefl)
    ultimately show ?thesis
      using in_old uniq new full(1) tbl_get [OF ok, of k el] by (cases "k = topic") auto
  qed
  have fresh: "oa_heap t \<notin> fst ` set ys" "\<forall>el \<in> set ys. fst el < oa_heap t"
    using ok full(1) by (auto simp: tbl_ok_def)
  let ?f = "unat \<circ> al_alias \<circ> snd"
  have al: "distinct (map ?f (ys @ [old]))" "set (map ?f (ys @ [old])) = {1..length (ys @ [old])}"
    using ok unfolding tbl_ok_def full(1) by blast+
  have al': "distinct (map ?f (?el # ys))" "set (map ?f (?el # ys)) = {1..length (?el # ys)}"
    using al by simp_all
  have "tbl_ok ?t"
    unfolding tbl_ok_def
  proof (intro conjI allI)
    show "wf_map (oa_byTopic ?t)" using ok by (simp add: tbl_ok_def)
    show "distinct (map fst (oa_order ?t))" using ok fresh full(1) by (simp add: tbl_ok_def)
    show "\<forall>el \<in> set (oa_order ?t). fst el < oa_heap ?t" using fresh by (auto simp: less_Suc_eq)
    show "length (oa_order ?t) \<le> unat (oa_max ?t)" "0 < oa_max ?t" using ok full(1) by (simp_all add: tbl_ok_def)
  qed (use bt al' in simp_all)
  then show ?thesis using that [OF as] by simp
qed

text \<open>Both cases of \<^verbatim>\<open>assign\<close>, with the client's mapping after it has seen the PUBLISH that sets the alias.\<close>

lemma assign_ok:
  assumes ok: "tbl_ok t" and new: "\<forall>el \<in> set (oa_order t). al_topic (snd el) \<noteq> topic"
    and n: "next_alias t = Inr n" and cl: "client_ok t cm"
  obtains t' where "assign t topic = Inr t'" "tbl_ok t'" "oa_max t' = oa_max t" "client_ok t' (cm(n \<mapsto> topic))"
proof (cases "length (oa_order t) < unat (oa_max t)")
  case True
  have nd: "n = of_nat (length (oa_order t)) + 1" using n True by (simp add: next_alias_def)
  obtain t' where t': "assign t topic = Inr t'" "tbl_ok t'" "oa_max t' = oa_max t"
    "oa_order t' = (oa_heap t, \<lparr>al_topic = topic, al_alias = of_nat (length (oa_order t)) + 1\<rparr>) # oa_order t"
    by (rule assign_room [OF ok new True])
  have "client_ok t' (cm(n \<mapsto> topic))"
  proof -
    have "al_alias (snd el) \<noteq> n" if "el \<in> set (oa_order t)" for el
    proof -
      have "unat (al_alias (snd el)) \<in> set (map (unat \<circ> al_alias \<circ> snd) (oa_order t))" using that by auto
      then have "unat (al_alias (snd el)) \<le> length (oa_order t)" using ok unfolding tbl_ok_def by simp
      then show ?thesis using word_next [OF True] nd by auto
    qed
    then show ?thesis using cl by (auto simp: client_ok_def t'(4) nd)
  qed
  with t' show ?thesis using that by blast
next
  case False
  have "oa_order t \<noteq> []" using ok False by (auto simp: tbl_ok_def word_less_nat_alt)
  then obtain ys old where ys: "oa_order t = ys @ [old]" by (cases "oa_order t" rule: rev_cases) auto
  have nd: "n = al_alias (snd old)" using n False ys by (simp add: next_alias_def)
  obtain t' where t': "assign t topic = Inr t'" "tbl_ok t'" "oa_max t' = oa_max t"
    "oa_order t' = (oa_heap t, \<lparr>al_topic = topic, al_alias = al_alias (snd old)\<rparr>) # ys"
    by (rule assign_full [OF ok new ys]) (use False in simp_all)
  have "al_alias (snd el) \<noteq> n" if "el \<in> set ys" for el
    using ok that nd unfolding tbl_ok_def ys by (auto simp: image_iff)
  then have "client_ok t' (cm(n \<mapsto> topic))" using cl by (auto simp: client_ok_def t'(4) nd ys)
  with t' show ?thesis using that by blast
qed

section \<open>One PUBLISH\<close>

text \<open>A message the broker sends has a topic and no Topic Alias of its own; the aliased form differs from it in
  these two fields only.\<close>

definition plain :: "publish \<Rightarrow> bool" where
  "plain p \<longleftrightarrow> pb_Topic p \<noteq> [] \<and> (\<forall>q. pb_Properties p = Some q \<longrightarrow> TopicAlias q = None)"

definition strip :: "publish \<Rightarrow> publish" where
  "strip p = p\<lparr>pb_Topic := [],
     pb_Properties := Some ((case pb_Properties p of None \<Rightarrow> empty_props | Some q \<Rightarrow> q)\<lparr>TopicAlias := None\<rparr>)\<rparr>"

lemma strip_withAlias: "strip (withAlias p a b) = strip p"
  by (simp add: strip_def withAlias_def Let_def split: option.split)

lemma receive_plain: "plain p \<Longrightarrow> receive_alias cm p = Some (pb_Topic p, cm)"
  by (auto simp: receive_alias_def plain_def split: option.splits)

lemma receive_set: "plain p \<Longrightarrow> receive_alias cm (withAlias p n False) = Some (pb_Topic p, cm(n \<mapsto> pb_Topic p))"
  by (simp add: receive_alias_def withAlias_def plain_def Let_def)

lemma receive_use: "cm n = Some name \<Longrightarrow> receive_alias cm (withAlias p n True) = Some (name, cm)"
  by (simp add: receive_alias_def withAlias_def Let_def)

text \<open>What one PUBLISH does to the table and to the client; \<open>sent\<close> is the packet on the wire.\<close>

definition sent_as :: "outAliases \<Rightarrow> (u16 \<Rightarrow> string option) \<Rightarrow> publish \<Rightarrow> bytes \<Rightarrow> outAliases \<Rightarrow> publish \<Rightarrow> (u16 \<Rightarrow> string option) \<Rightarrow> bool" where
  "sent_as t cm p out t' sent cm' \<longleftrightarrow>
    encode_packet (Publish sent) = Inr out \<and> receive_alias cm sent = Some (pb_Topic p, cm') \<and> strip sent = strip p \<and>
    tbl_ok t' \<and> client_ok t' cm' \<and> oa_max t' = oa_max t"

lemma sent_plain:
  "plain p \<Longrightarrow> encode_packet (Publish p) = Inr raw \<Longrightarrow> tbl_ok t' \<Longrightarrow> client_ok t' cm \<Longrightarrow> oa_max t' = oa_max t \<Longrightarrow>
    sent_as t cm p raw t' p cm"
  by (simp add: sent_as_def receive_plain)

lemma ok_irrelevant:
  "oa_order t' = oa_order t \<Longrightarrow> oa_max t' = oa_max t \<Longrightarrow> oa_byTopic t' = oa_byTopic t \<Longrightarrow> oa_heap t' = oa_heap t \<Longrightarrow>
    tbl_ok t \<Longrightarrow> client_ok t cm \<Longrightarrow> tbl_ok t' \<and> client_ok t' cm"
  by (simp add: tbl_ok_def client_ok_def)

lemma next_alias_cong: "oa_order t' = oa_order t \<Longrightarrow> oa_max t' = oa_max t \<Longrightarrow> next_alias t' = next_alias t"
  by (simp add: next_alias_def)

lemma set_alias_step:
  assumes "tbl_ok t" "client_ok t cm" "\<forall>el \<in> set (oa_order t). al_topic (snd el) \<noteq> pb_Topic p"
    and p: "plain p" "encode_packet (Publish p) = Inr raw"
  obtains out t' sent cm' where "set_alias t p raw m = Inr (out, t')" "sent_as t cm p out t' sent cm'"
proof -
  obtain n where n: "next_alias t = Inr n" using next_alias_ok [OF assms(1)] by blast
  note keep = that [OF _ sent_plain [OF p assms(1,2) refl]]
  show ?thesis
  proof (cases "encode_packet (Publish (withAlias p n False))")
    case (Inl e)
    then show ?thesis by (intro keep) (simp add: set_alias_def n)
  next
    case (Inr out)
    show ?thesis
    proof (cases "0 < m \<and> overLimit (length out) m")
      case True
      then show ?thesis using Inr by (intro keep) (simp add: set_alias_def n)
    next
      case False
      let ?t = "t\<lparr>oa_spent := oa_spent t + (int (length out) - int (length raw))\<rparr>"
      have t: "tbl_ok ?t" "\<forall>el \<in> set (oa_order ?t). al_topic (snd el) \<noteq> pb_Topic p" "next_alias ?t = Inr n"
        "client_ok ?t cm"
        using assms(3) n ok_irrelevant [of ?t t, OF _ _ _ _ assms(1,2)] next_alias_cong [of ?t t] by simp_all
      obtain t' where t': "assign ?t (pb_Topic p) = Inr t'" "tbl_ok t'" "oa_max t' = oa_max ?t"
        "client_ok t' (cm(n \<mapsto> pb_Topic p))"
        by (rule assign_ok [OF t])
      have "set_alias t p raw m = Inr (out, t')" using n Inr False t'(1) by (auto simp: set_alias_def)
      moreover have "sent_as t cm p out t' (withAlias p n False) (cm(n \<mapsto> pb_Topic p))"
        using Inr t' by (simp add: sent_as_def receive_set [OF p(1)] strip_withAlias)
      ultimately show ?thesis by (rule that)
    qed
  qed
qed

lemma alias_encode_step:
  assumes ok: "tbl_ok t" "client_ok t cm" and p: "plain p" "encode_packet (Publish p) = Inr raw"
  obtains out t' sent cm' where "alias_encode t p raw m = Inr (out, t')" "sent_as t cm p out t' sent cm'"
proof -
  show ?thesis
  proof (rule hit_cases [OF ok(1), of "pb_Topic p"], goal_cases new old)
    case new
    let ?full = "unat (oa_max t) \<le> length (oa_order t)"
    note keep = that [OF _ sent_plain [OF p]]
    consider "?full" "oa_saved t < oa_spent t" | "\<not> ?full" |
      "?full" "\<not> oa_saved t < oa_spent t" "get (case oa_seen t of None \<Rightarrow> [] | Some m \<Rightarrow> m) (pb_Topic p) = None" |
      "?full" "\<not> oa_saved t < oa_spent t" "get (case oa_seen t of None \<Rightarrow> [] | Some m \<Rightarrow> m) (pb_Topic p) = Some ()"
      by fastforce
    then show ?thesis
    proof cases
      case 1
      then show ?thesis using ok by (intro keep) (simp_all add: alias_encode_def new(1))
    next
      case 2
      then have "alias_encode t p raw m = set_alias t p raw m" by (simp add: alias_encode_def new(1))
      then show ?thesis using set_alias_step [OF ok new(2) p, of m] that by metis
    next
      case 3
      show ?thesis
        by (rule that, unfold alias_encode_def new(1) Let_def prod.case option.case)
          (use 3 ok in \<open>auto intro!: sent_plain [OF p] simp: ok_irrelevant [OF _ _ _ _ ok]\<close>)
    next
      case 4
      let ?t = "t\<lparr>oa_seen := Some (AList.delete (pb_Topic p) (case oa_seen t of None \<Rightarrow> [] | Some m \<Rightarrow> m))\<rparr>"
      have "alias_encode t p raw m = set_alias ?t p raw m" using 4 by (simp add: alias_encode_def new(1) Let_def)
      moreover have "tbl_ok ?t" "client_ok ?t cm" using ok_irrelevant [of ?t t, OF _ _ _ _ ok] by simp_all
      then obtain out t' sent cm' where "set_alias ?t p raw m = Inr (out, t')" "sent_as ?t cm p out t' sent cm'"
        by (rule set_alias_step) (use new(2) p in simp_all)
      ultimately show ?thesis using that [of out t' sent cm'] by (simp add: sent_as_def)
    qed
  next
    case (old el t')
    have cm: "cm (al_alias (snd el)) = Some (pb_Topic p)" using ok(2) old(2,3) by (auto simp: client_ok_def)
    have cl: "client_ok t' cm" using ok(2) old(5) by (simp add: client_ok_def)
    show ?thesis
    proof (cases "encode_packet (Publish (withAlias p (al_alias (snd el)) True))")
      case (Inl e)
      then show ?thesis
        using sent_plain [OF p old(4) cl old(6)] by (intro that) (simp_all add: alias_encode_def old(1))
    next
      case (Inr out)
      let ?t = "t'\<lparr>oa_saved := oa_saved t' + (int (length raw) - int (length out))\<rparr>"
      have "tbl_ok ?t \<and> client_ok ?t cm" by (rule ok_irrelevant [OF _ _ _ _ old(4) cl]) simp_all
      then have "sent_as t cm p out ?t (withAlias p (al_alias (snd el)) True) cm"
        using Inr old(6) by (simp add: sent_as_def receive_use cm strip_withAlias)
      then show ?thesis using Inr by (intro that) (simp_all add: alias_encode_def old(1))
    qed
  qed
qed

section \<open>A connection's PUBLISH packets\<close>

text \<open>The packets of a connection in order, as the write path encodes them.\<close>

fun alias_run :: "outAliases option \<Rightarrow> u32 \<Rightarrow> publish list \<Rightarrow> bytes list res" where
  "alias_run table m [] = Inr []"
| "alias_run table m (p # ps) =
    rbind (encode_packet (Publish p)) (\<lambda>raw.
    rbind (aliasPublish table m p raw) (\<lambda>(out, table).
    rbind (alias_run table m ps) (\<lambda>outs. Inr (out # outs))))"

fun client_topics :: "(u16 \<Rightarrow> string option) \<Rightarrow> publish list \<Rightarrow> string list option" where
  "client_topics cm [] = Some []"
| "client_topics cm (p # ps) =
    (case receive_alias cm p of
       None \<Rightarrow> None
     | Some (name, cm') \<Rightarrow> map_option ((#) name) (client_topics cm' ps))"

lemma alias_run_transparent:
  assumes "tbl_ok t" "client_ok t cm" "\<forall>p \<in> set ps. plain p \<and> (\<exists>raw. encode_packet (Publish p) = Inr raw)"
  shows "\<exists>outs sent. alias_run (Some t) m ps = Inr outs \<and>
    list_all2 (\<lambda>out q. encode_packet (Publish q) = Inr out) outs sent \<and>
    map strip sent = map strip ps \<and> client_topics cm sent = Some (map pb_Topic ps)"
  using assms
proof (induction ps arbitrary: t cm)
  case (Cons p ps)
  obtain raw where p: "plain p" "encode_packet (Publish p) = Inr raw" using Cons.prems(3) by auto
  obtain out t' s cm' where step: "aliasPublish (Some t) m p raw = Inr (out, Some t')" "sent_as t cm p out t' s cm'"
  proof (cases "length (pb_Topic p) < minAliasedTopic")
    case True
    then show thesis using sent_plain [OF p Cons.prems(1,2) refl] by (intro that) (simp_all add: aliasPublish_def)
  next
    case False
    obtain out t' s cm' where "alias_encode t p raw m = Inr (out, t')" "sent_as t cm p out t' s cm'"
      by (rule alias_encode_step [OF Cons.prems(1,2) p])
    then show thesis using False by (intro that) (simp_all add: aliasPublish_def)
  qed
  then have "tbl_ok t'" "client_ok t' cm'" by (simp_all add: sent_as_def)
  then obtain outs sent where "alias_run (Some t') m ps = Inr outs"
    "list_all2 (\<lambda>out q. encode_packet (Publish q) = Inr out) outs sent"
    "map strip sent = map strip ps" "client_topics cm' sent = Some (map pb_Topic ps)"
    using Cons.IH Cons.prems(3) by (metis list.set_intros(2))
  then show ?case
    using step p(2) by (intro exI [of _ "out # outs"] exI [of _ "s # sent"]) (simp add: sent_as_def)
qed simp

section \<open>The aliased form is shorter\<close>

lemma alias_items_length:
  assumes "TopicAlias q = None"
  shows "length (enc_items (legal PUBLISH (items (q\<lparr>TopicAlias := Some a\<rparr>)))) = length (enc_items (legal PUBLISH (items q))) + 3"
proof -
  have "allowedIn propTopicAlias PUBLISH" by (simp add: allowedIn_def propContexts_def)
  then show ?thesis
    using assms by (simp add: items_def opt_item_def [of propTopicAlias] enc_items_Cons enc_item_def w_byte_def w_uint16_def)
qed

lemma enc_block_length: "length (enc_block xs) = length (vbi (length (enc_items xs))) + length (enc_items xs)"
  by (simp add: enc_block_def w_varByteInt_eq)

lemma vbi_mono: "m \<le> n \<Longrightarrow> n \<le> MaxVarByteInt \<Longrightarrow> length (vbi m) \<le> length (vbi n)"
  by (simp add: length_vbi varByteIntLen_def)

lemma vbi_plus3: "m + 3 \<le> MaxVarByteInt \<Longrightarrow> length (vbi (m + 3)) \<le> Suc (length (vbi m))"
  by (simp add: length_vbi varByteIntLen_def)

lemma enc_items_empty: "enc_items (legal ctx (items empty_props)) = []"
  by (simp add: items_def empty_props_def opt_item_def seq_item_def)

text \<open>The property block grows by at most four bytes: three for the alias, one for its own length.\<close>

lemma alias_block_length:
  assumes "plain p" "props_encode (pb_Properties p) PUBLISH = Inr b"
    and "props_encode (pb_Properties (withAlias p a om)) PUBLISH = Inr b'" "length b' \<le> MaxVarByteInt"
  shows "length b' \<le> length b + 4"
proof -
  let ?q = "case pb_Properties p of None \<Rightarrow> empty_props | Some q \<Rightarrow> q"
  have q: "TopicAlias ?q = None" using assms(1) by (auto simp: plain_def empty_props_def split: option.split)
  have b: "b = enc_block (legal PUBLISH (items ?q))"
    using assms(2) by (cases "pb_Properties p") (simp_all add: props_encode_None props_encode_Some enc_block_def enc_items_empty)
  have b': "b' = enc_block (legal PUBLISH (items (?q\<lparr>TopicAlias := Some a\<rparr>)))"
    using assms(3) by (cases om) (simp_all add: withAlias_def Let_def props_encode_Some)
  show ?thesis
    using assms(4) vbi_plus3 [of "length (enc_items (legal PUBLISH (items ?q)))"]
    by (simp add: b b' enc_block_length alias_items_length [OF q])
qed

lemma encode_publish_length:
  assumes "encode_packet (Publish p) = Inr out"
  obtains b where "props_encode (pb_Properties p) PUBLISH = Inr b"
    "length out = 1 + length (vbi (2 + length (pb_Topic p) + (if 0 < pb_QoS p then 2 else 0) + length b + length (pb_Payload p))) +
      (2 + length (pb_Topic p) + (if 0 < pb_QoS p then 2 else 0) + length b + length (pb_Payload p))"
    "2 + length (pb_Topic p) + (if 0 < pb_QoS p then 2 else 0) + length b + length (pb_Payload p) \<le> MaxVarByteInt"
proof -
  obtain flags body where fb: "publish_encode p = Inr (flags, body)" "length body \<le> MaxVarByteInt"
    "out = appendVarByteInt [push_bit 4 PUBLISH OR flags] (int (length body)) @ body"
    using assms by (auto simp: encode_packet_def rbind_Inr_iff not_less split: if_splits)
  obtain b where b: "props_encode (pb_Properties p) PUBLISH = Inr b"
    "body = w_string (pb_Topic p) @ (if QoS0 < pb_QoS p then w_uint16 (pb_PacketID p) else []) @ b @ pb_Payload p"
    using fb(1) by (auto simp: publish_encode_def rbind_Inr_iff Let_def split: if_splits)
  have l: "length body = 2 + length (pb_Topic p) + (if 0 < pb_QoS p then 2 else 0) + length b + length (pb_Payload p)"
    by (simp add: b(2) w_string_def w_binary_def w_uint16_def)
  have "length out = 1 + length (vbi (length body)) + length body" using fb(3) by (simp add: appendVarByteInt_eq)
  then show ?thesis using that [OF b(1)] fb(2) unfolding l by blast
qed

lemma alias_shorter:
  assumes "plain p" "minAliasedTopic \<le> length (pb_Topic p)"
    and "encode_packet (Publish p) = Inr raw" "encode_packet (Publish (withAlias p a True)) = Inr out"
  shows "length out < length raw"
proof -
  let ?w = "withAlias p a True"
  have w: "pb_Topic ?w = []" "pb_QoS ?w = pb_QoS p" "pb_Payload ?w = pb_Payload p"
    by (simp_all add: withAlias_def Let_def)
  define r where "r = (if 0 < pb_QoS p then 2 else 0 :: nat)"
  obtain b where b: "props_encode (pb_Properties p) PUBLISH = Inr b"
    "length raw = 1 + length (vbi (2 + length (pb_Topic p) + r + length b + length (pb_Payload p))) +
      (2 + length (pb_Topic p) + r + length b + length (pb_Payload p))"
    "2 + length (pb_Topic p) + r + length b + length (pb_Payload p) \<le> MaxVarByteInt"
    using encode_publish_length [OF assms(3)] unfolding r_def by blast
  obtain b' where b': "props_encode (pb_Properties ?w) PUBLISH = Inr b'"
    "length out = 1 + length (vbi (2 + r + length b' + length (pb_Payload p))) + (2 + r + length b' + length (pb_Payload p))"
    "2 + r + length b' + length (pb_Payload p) \<le> MaxVarByteInt"
    using encode_publish_length [OF assms(4)] unfolding r_def w by (metis add_0_right list.size(3))
  have "length b' \<le> length b + 4" by (rule alias_block_length [OF assms(1) b(1) b'(1)]) (use b'(3) in simp)
  moreover have "8 \<le> length (pb_Topic p)" using assms(2) by (simp add: minAliasedTopic_def)
  moreover have "length (vbi (2 + r + length b' + length (pb_Payload p))) \<le>
      length (vbi (2 + length (pb_Topic p) + r + length b + length (pb_Payload p)))"
    using calculation b(3) by (intro vbi_mono) simp_all
  ultimately show ?thesis using b(2) b'(2) by linarith
qed

lemma set_alias_fits:
  assumes "set_alias t p raw limit = Inr (out, t')" "\<not> overLimit (length raw) limit" "0 < limit"
  shows "\<not> overLimit (length out) limit"
proof -
  obtain n where n: "next_alias t = Inr n" using assms(1) by (auto simp: set_alias_def rbind_Inr_iff)
  show ?thesis
    using assms n by (cases "encode_packet (Publish (withAlias p n False))")
      (auto simp: set_alias_def rbind_Inr_iff split: if_splits)
qed


lemma aliasPublish_fits:
  assumes "plain p" "encode_packet (Publish p) = Inr raw" "\<not> overLimit (length raw) limit" "0 < limit"
    and "aliasPublish (Some t) limit p raw = Inr (out, table)"
  shows "\<not> overLimit (length out) limit"
proof (cases "length (pb_Topic p) < minAliasedTopic")
  case True
  then show ?thesis using assms(3,5) by (simp add: aliasPublish_def)
next
  case False
  then obtain t' where e: "alias_encode t p raw limit = Inr (out, t')"
    using assms(5) by (auto simp: aliasPublish_def rbind_Inr_iff)
  obtain x u where h: "hit t (pb_Topic p) = (x, u)" by (cases "hit t (pb_Topic p)")
  show ?thesis
  proof (cases x)
    case None
    then show ?thesis
      using e assms(3,4) set_alias_fits
      by (auto simp: alias_encode_def h Let_def split: if_splits option.splits)
  next
    case (Some a)
    show ?thesis
    proof (cases "encode_packet (Publish (withAlias p a True))")
      case (Inr o')
      have "length o' < length raw" by (rule alias_shorter [OF assms(1) _ assms(2) Inr]) (use False in simp)
      then show ?thesis using e Inr Some assms(3) by (simp add: alias_encode_def h overLimit_def)
    qed (use e Some assms(3) in \<open>simp add: alias_encode_def h\<close>)
  qed
qed

section \<open>Properties\<close>

text \<open>C17: Topic Aliases are invisible: for any sequence of messages sent on a connection, writing them never
  fails, and the client, applying the receiver's rules of the specification to the packets on the wire, resolves
  each of them to the topic it was published to; the packets differ from the messages in the topic and the
  alias only.\<close>

theorem aliases_transparent:
  assumes "0 < m" "\<forall>p \<in> set ps. plain p \<and> (\<exists>raw. encode_packet (Publish p) = Inr raw)"
  shows "\<exists>outs sent. alias_run (Some (newOutAliases m)) maxSize ps = Inr outs \<and>
    list_all2 (\<lambda>out q. encode_packet (Publish q) = Inr out) outs sent \<and>
    map strip sent = map strip ps \<and> client_topics (\<lambda>_. None) sent = Some (map pb_Topic ps)"
  by (rule alias_run_transparent [OF new_ok client_new assms(2)]) (rule assms(1))

definition alias_sample :: "string \<Rightarrow> publish" where
  "alias_sample name = \<lparr>pb_Dup = False, pb_QoS = 0, pb_Retain = False, pb_Topic = name, pb_PacketID = 0,
     pb_Properties = None, pb_Payload = [42]\<rparr>"

lemma sample_encodes: "\<exists>raw. encode_packet (Publish (alias_sample ''sensors/one'')) = Inr raw \<and> length raw = 17"
  by (simp add: encode_packet_def alias_sample_def publish_encode_def QoS_Valid_def checkStringLen_def
      props_encode_def w_string_def w_binary_def w_uint16_def w_varByteInt_def appendVarByteInt_def MaxVarByteInt_def
      vbi_loop.simps [of _ 0] vbi_loop.simps [of _ 15] Let_def)


theorem aliases_transparent_witness:
  "\<exists>outs sent. alias_run (Some (newOutAliases 1)) 0 [alias_sample ''sensors/one'', alias_sample ''sensors/one''] = Inr outs \<and>
    list_all2 (\<lambda>out q. encode_packet (Publish q) = Inr out) outs sent \<and>
    map strip sent = map strip [alias_sample ''sensors/one'', alias_sample ''sensors/one''] \<and>
    client_topics (\<lambda>_. None) sent = Some [''sensors/one'', ''sensors/one'']"
proof -
  have "plain (alias_sample ''sensors/one'')" by (simp add: plain_def alias_sample_def)
  moreover have "\<exists>raw. encode_packet (Publish (alias_sample ''sensors/one'')) = Inr raw"
    using sample_encodes by blast
  ultimately show ?thesis
    using aliases_transparent [of 1 "[alias_sample ''sensors/one'', alias_sample ''sensors/one'']" 0]
    by (simp add: alias_sample_def)
qed

text \<open>C18: aliasing never takes a packet over the client's Maximum Packet Size: when the plain form fits, so does
  what is written.\<close>

theorem aliased_fits:
  assumes "plain p" "encode_packet (Publish p) = Inr raw" "\<not> overLimit (length raw) limit" "0 < limit"
    and "aliasPublish (Some t) limit p raw = Inr (out, table)"
  shows "\<not> overLimit (length out) limit"
  by (rule aliasPublish_fits [OF assms])

theorem aliased_fits_witness:
  "\<exists>raw out table. encode_packet (Publish (alias_sample ''sensors/one'')) = Inr raw \<and>
    aliasPublish (Some (newOutAliases 1)) 17 (alias_sample ''sensors/one'') raw = Inr (out, table) \<and>
    \<not> overLimit (length out) 17"
proof -
  let ?p = "alias_sample ''sensors/one''"
  obtain raw where e: "encode_packet (Publish ?p) = Inr raw" "length raw = 17" using sample_encodes by blast
  have p: "plain ?p" by (simp add: plain_def alias_sample_def)
  have t: "tbl_ok (newOutAliases 1)" by (rule new_ok) simp
  have r: "\<not> overLimit (length raw) 17" by (simp add: overLimit_def e(2))
  obtain out t' where "alias_encode (newOutAliases 1) ?p raw 17 = Inr (out, t')"
    by (rule alias_encode_step [OF t client_new p e(1)])
  then have a: "aliasPublish (Some (newOutAliases 1)) 17 ?p raw = Inr (out, Some t')"
    by (simp add: aliasPublish_def minAliasedTopic_def) (simp add: alias_sample_def)
  from aliased_fits [OF p e(1) r _ a] a e(1) show ?thesis by auto
qed

end
