(* ===== verification/Conn_Write.thy ===== *)
theory Conn_Write
  imports Out_Alias
begin

text \<open>
  The write side of a network connection: \<^verbatim>\<open>src/conn.go\<close>. \<open>c_wire\<close> is what has been written to the socket, in order:
  each packet with its bytes. Whether the socket takes a write is the argument \<open>ok\<close>. What \<^verbatim>\<open>writePacket\<close> does
  under \<^verbatim>\<open>writeMu\<close> is one step; before it takes the lock it only encodes.
\<close>

section \<open>State\<close>

record conn_write =
  c_ref :: nat
  c_clientMaxPacketSize :: u32
  c_outAlias :: "outAliases option"
  c_closed :: bool
  c_connected :: bool
  c_disconnectSent :: bool
  c_lingers :: bool
  c_wire :: "(packet \<times> bytes) list"

section \<open>Operations\<close>

definition strip_props :: "properties option \<Rightarrow> properties option" where
  "strip_props props =
    (case props of
       None \<Rightarrow> None
     | Some q \<Rightarrow>
         if ReasonString q = [] \<and> User q = [] then None
         else Some (q\<lparr>ReasonString := [], User := []\<rparr>))"

definition strip_ack :: "ack \<Rightarrow> ack option" where
  "strip_ack a = map_option (\<lambda>q. a\<lparr>ak_Properties := Some q\<rparr>) (strip_props (ak_Properties a))"

fun withoutOptionalProperties :: "packet \<Rightarrow> packet option" where
  "withoutOptionalProperties (Connack a) =
    map_option (\<lambda>q. Connack (a\<lparr>ca_Properties := Some q\<rparr>)) (strip_props (ca_Properties a))"
| "withoutOptionalProperties (Puback a) = map_option Puback (strip_ack a)"
| "withoutOptionalProperties (Pubrec a) = map_option Pubrec (strip_ack a)"
| "withoutOptionalProperties (Pubrel a) = map_option Pubrel (strip_ack a)"
| "withoutOptionalProperties (Pubcomp a) = map_option Pubcomp (strip_ack a)"
| "withoutOptionalProperties (Disconnect d) =
    map_option (\<lambda>q. Disconnect (d\<lparr>rs_Properties := Some q\<rparr>)) (strip_props (rs_Properties d))"
| "withoutOptionalProperties _ = None"

definition tooLarge :: "'a conn_write_scheme \<Rightarrow> bytes \<Rightarrow> bool" where
  "tooLarge c raw \<longleftrightarrow> 0 < c_clientMaxPacketSize c \<and> overLimit (length raw) (c_clientMaxPacketSize c)"

text \<open>The packet and bytes to send: the optional properties are left out when that makes it fit.\<close>

definition fitPacket :: "'a conn_write_scheme \<Rightarrow> packet \<Rightarrow> bytes \<Rightarrow> packet \<times> bytes" where
  "fitPacket c p raw =
    (if tooLarge c raw then
       (case withoutOptionalProperties p of
          None \<Rightarrow> (p, raw)
        | Some bare \<Rightarrow>
            (case encode_packet bare of
               Inr bareRaw \<Rightarrow> if tooLarge c bareRaw then (p, raw) else (bare, bareRaw)
             | Inl _ \<Rightarrow> (p, raw)))
     else (p, raw))"

fun connack_code :: "packet \<Rightarrow> ReasonCode option" where
  "connack_code (Connack a) = Some (ca_ReasonCode a)"
| "connack_code _ = None"

fun aliasedBytes :: "'a conn_write_scheme \<Rightarrow> packet \<Rightarrow> bytes \<Rightarrow> (bytes \<times> outAliases option) res" where
  "aliasedBytes c (Publish pub) raw = aliasPublish (c_outAlias c) (c_clientMaxPacketSize c) pub raw"
| "aliasedBytes c _ raw = Inr (raw, c_outAlias c)"

text \<open>The part under the lock. The result is the error, if any.\<close>

definition writeLocked :: "bool \<Rightarrow> bool \<Rightarrow> packet \<Rightarrow> bytes \<Rightarrow> 'a conn_write_scheme \<Rightarrow> go_error option \<times> 'a conn_write_scheme" where
  "writeLocked ok final p raw c =
    (if c_closed c then (Some ErrClosed, c)
     else if c_disconnectSent c then (Some ErrClosed, c)
     else if final \<and> \<not> c_connected c then (None, c)
     else
       let c = (if final then c\<lparr>c_disconnectSent := True\<rparr> else c) in
       case aliasedBytes c p raw of
         Inl e \<Rightarrow> (Some e, c)
       | Inr (raw, table) \<Rightarrow>
           let c = c\<lparr>c_outAlias := table\<rparr> in
           if \<not> ok then (Some IOError, c)
           else
             let c = c\<lparr>c_wire := c_wire c @ [(p, raw)]\<rparr>;
                 c = (if final \<or> (\<exists>r. connack_code p = Some r \<and> r \<noteq> Success) then c\<lparr>c_lingers := True\<rparr> else c)
             in (None, if connack_code p = Some Success then c\<lparr>c_connected := True\<rparr> else c))"

text \<open>\<^verbatim>\<open>discarded\<close>, the error, and the connection after the call.\<close>

definition writePacket :: "bool \<Rightarrow> packet \<Rightarrow> bool \<Rightarrow> 'a conn_write_scheme \<Rightarrow> (bool \<times> go_error option) \<times> 'a conn_write_scheme" where
  "writePacket ok p final c =
    (if final \<and> \<not> c_connected c then ((False, None), c)
     else case encode_packet p of
       Inl e \<Rightarrow> ((False, Some e), c)
     | Inr raw \<Rightarrow>
         let (p, raw) = fitPacket c p raw in
         if tooLarge c raw then ((True, None), if final then c\<lparr>c_disconnectSent := True\<rparr> else c)
         else let (err, c) = writeLocked ok final p raw c in ((False, err), c))"

definition conn_write_op :: "bool \<Rightarrow> packet \<Rightarrow> 'a conn_write_scheme \<Rightarrow> go_error option \<times> 'a conn_write_scheme" where
  "conn_write_op ok p c = (let ((_, err), c) = writePacket ok p False c in (err, c))"

definition writePublish :: "bool \<Rightarrow> publish \<Rightarrow> 'a conn_write_scheme \<Rightarrow> (bool \<times> go_error option) \<times> 'a conn_write_scheme" where
  "writePublish ok p c = (let ((discarded, err), c) = writePacket ok (Publish p) False c in ((\<not> discarded, err), c))"

definition sendDisconnect :: "bool \<Rightarrow> ReasonCode \<Rightarrow> string \<Rightarrow> 'a conn_write_scheme \<Rightarrow> 'a conn_write_scheme" where
  "sendDisconnect ok code reason c =
    snd (writePacket ok (Disconnect \<lparr>rs_ReasonCode = code,
      rs_Properties = (if reason \<noteq> [] then Some (empty_props\<lparr>ReasonString := reason\<rparr>) else None)\<rparr>) True c)"

definition conn_close :: "'a conn_write_scheme \<Rightarrow> 'a conn_write_scheme" where
  "conn_close c = c\<lparr>c_closed := True\<rparr>"

definition conn_shutdown :: "bool \<Rightarrow> ReasonCode \<Rightarrow> string \<Rightarrow> 'a conn_write_scheme \<Rightarrow> 'a conn_write_scheme" where
  "conn_shutdown ok code reason c = conn_close (sendDisconnect ok code reason c)"

definition noLinger :: "'a conn_write_scheme \<Rightarrow> 'a conn_write_scheme" where
  "noLinger c = c\<lparr>c_lingers := False\<rparr>"

section \<open>What can be written, step by step\<close>

text \<open>Any goroutine of the connection may write at any time. No caller passes a DISCONNECT to \<^verbatim>\<open>write\<close>, and the PUBLISH
  packets the broker sends have a topic and no alias of their own.\<close>

fun is_disconnect :: "packet \<Rightarrow> bool" where
  "is_disconnect (Disconnect _) = True"
| "is_disconnect _ = False"

fun sendable :: "packet \<Rightarrow> bool" where
  "sendable (Publish p) = plain p"
| "sendable p = (\<not> is_disconnect p)"

inductive conn_step :: "conn_write \<Rightarrow> conn_write \<Rightarrow> bool" where
  step_write: "sendable p \<Longrightarrow> conn_step c (snd (writePacket ok p False c))"
| step_disconnect: "conn_step c (sendDisconnect ok code reason c)"
| step_close: "conn_step c (conn_close c)"
| step_noLinger: "conn_step c (noLinger c)"

text \<open>A connection as \<^verbatim>\<open>newConn\<close> makes it, once the handshake has read the CONNECT.\<close>

definition fresh_conn :: "conn_write \<Rightarrow> bool" where
  "fresh_conn c \<longleftrightarrow> \<not> c_closed c \<and> \<not> c_connected c \<and> \<not> c_disconnectSent c \<and> c_wire c = [] \<and>
    (\<forall>t. c_outAlias c = Some t \<longrightarrow> tbl_ok t)"

inductive_cases conn_stepE: "conn_step c c'"

section \<open>Invariant\<close>

definition has_connack :: "(packet \<times> bytes) list \<Rightarrow> bool" where
  "has_connack w \<longleftrightarrow> (\<exists>a b. (Connack a, b) \<in> set w \<and> ca_ReasonCode a = Success)"

definition conn_inv :: "'a conn_write_scheme \<Rightarrow> bool" where
  "conn_inv c \<longleftrightarrow>
    (\<forall>xs p b ys. c_wire c = xs @ (p, b) # ys \<and> is_disconnect p \<longrightarrow> ys = [] \<and> c_disconnectSent c \<and> has_connack xs) \<and>
    (c_connected c \<longrightarrow> has_connack (c_wire c)) \<and>
    (\<forall>(p, b) \<in> set (c_wire c). \<not> tooLarge c b)"

lemma aliased_cong: "c_outAlias c' = c_outAlias c \<Longrightarrow> c_clientMaxPacketSize c' = c_clientMaxPacketSize c \<Longrightarrow>
    aliasedBytes c' p raw = aliasedBytes c p raw"
  by (cases p) simp_all

lemma tooLarge_cong: "c_clientMaxPacketSize c' = c_clientMaxPacketSize c \<Longrightarrow> tooLarge c' raw = tooLarge c raw"
  by (simp add: tooLarge_def)

lemma aliased_fits_conn:
  assumes "sendable p" "encode_packet p = Inr raw" "\<not> tooLarge c raw" "aliasedBytes c p raw = Inr (out, table)"
  shows "\<not> tooLarge c out"
proof (cases "\<exists>q. p = Publish q")
  case True
  then obtain q where p: "p = Publish q" by blast
  show ?thesis
  proof (cases "c_outAlias c")
    case None
    then show ?thesis using assms(3,4) by (simp add: p aliasPublish_def)
  next
    case (Some t)
    then show ?thesis
      using assms aliasPublish_fits [of q raw "c_clientMaxPacketSize c" t out table] by (auto simp: p tooLarge_def)
  qed
next
  case False
  then have "out = raw" using assms(4) by (cases p) simp_all
  then show ?thesis using assms(3) by simp
qed

lemma writeLocked_cases:
  assumes "writeLocked ok final p raw c = (err, c')"
  obtains (unsent) "c_wire c' = c_wire c" "c_connected c' = c_connected c" "c_disconnectSent c \<longrightarrow> c_disconnectSent c'"
      "c_clientMaxPacketSize c' = c_clientMaxPacketSize c"
  | (sent) out table where "\<not> c_disconnectSent c" "final \<longrightarrow> c_connected c" "aliasedBytes c p raw = Inr (out, table)"
      "c_wire c' = c_wire c @ [(p, out)]" "c_disconnectSent c' = final"
      "c_connected c' \<longleftrightarrow> c_connected c \<or> connack_code p = Some Success"
      "c_clientMaxPacketSize c' = c_clientMaxPacketSize c"
proof (cases "c_closed c \<or> c_disconnectSent c \<or> (final \<and> \<not> c_connected c)")
  case True
  then have "c' = c" using assms by (auto simp: writeLocked_def split: if_splits)
  then show ?thesis by (intro unsent) simp_all
next
  case False
  let ?c = "if final then c\<lparr>c_disconnectSent := True\<rparr> else c"
  have guards: "\<not> c_closed c" "\<not> c_disconnectSent c" "\<not> (final \<and> \<not> c_connected c)" using False by auto
  have a: "aliasedBytes ?c p raw = aliasedBytes c p raw" by (rule aliased_cong) simp_all
  show ?thesis
  proof (cases "aliasedBytes c p raw")
    case (Inl e)
    have "writeLocked ok final p raw c = (Some e, ?c)"
      unfolding writeLocked_def if_not_P [OF guards(1)] if_not_P [OF guards(2)] if_not_P [OF guards(3)]
      using Inl by (simp add: a Let_def)
    then have "c' = ?c" using assms by simp
    then show ?thesis by (intro unsent) simp_all
  next
    case (Inr x)
    obtain out table where x: "x = (out, table)" by (cases x)
    have w: "writeLocked ok final p raw c =
      (if \<not> ok then (Some IOError, ?c\<lparr>c_outAlias := table\<rparr>)
       else let c = ?c\<lparr>c_outAlias := table\<rparr>; c = c\<lparr>c_wire := c_wire c @ [(p, out)]\<rparr>;
                c = (if final \<or> (\<exists>r. connack_code p = Some r \<and> r \<noteq> Success) then c\<lparr>c_lingers := True\<rparr> else c)
            in (None, if connack_code p = Some Success then c\<lparr>c_connected := True\<rparr> else c))"
      unfolding writeLocked_def if_not_P [OF guards(1)] if_not_P [OF guards(2)] if_not_P [OF guards(3)]
      by (simp only: Let_def a Inr x sum.case prod.case)
    show ?thesis
    proof (cases ok)
      case True
      then show ?thesis
        using assms guards Inr x unfolding w by (intro sent [of out table]) (auto simp: Let_def split: if_splits)
    next
      case False
      then have "c' = ?c\<lparr>c_outAlias := table\<rparr>" using assms unfolding w by simp
      then show ?thesis by (intro unsent) simp_all
    qed
  qed
qed

lemma inv_last: "conn_inv c \<Longrightarrow> c_wire c = xs @ (p, b) # ys \<Longrightarrow> is_disconnect p \<Longrightarrow>
    ys = [] \<and> c_disconnectSent c \<and> has_connack xs"
  unfolding conn_inv_def by blast

lemma inv_connected: "conn_inv c \<Longrightarrow> c_connected c \<Longrightarrow> has_connack (c_wire c)"
  unfolding conn_inv_def by blast

lemma inv_small: "conn_inv c \<Longrightarrow> (p, b) \<in> set (c_wire c) \<Longrightarrow> \<not> tooLarge c b"
  unfolding conn_inv_def by blast

lemma inv_cong:
  assumes "c_wire c' = c_wire c" "c_connected c' = c_connected c" "c_disconnectSent c \<longrightarrow> c_disconnectSent c'"
    and "c_clientMaxPacketSize c' = c_clientMaxPacketSize c" "conn_inv c"
  shows "conn_inv c'"
  unfolding conn_inv_def assms(1,2) tooLarge_cong [OF assms(4)]
  using inv_last [OF assms(5)] inv_connected [OF assms(5)] inv_small [OF assms(5)] assms(3) by blast

lemma inv_append:
  assumes "conn_inv c" "\<not> c_disconnectSent c" "c_wire c' = c_wire c @ [(p, out)]" "c_disconnectSent c' = final"
    and "c_connected c' \<longleftrightarrow> c_connected c \<or> connack_code p = Some Success" "is_disconnect p \<longleftrightarrow> final"
    and "final \<longrightarrow> c_connected c" "\<not> tooLarge c out" "c_clientMaxPacketSize c' = c_clientMaxPacketSize c"
  shows "conn_inv c'"
proof -
  have nd: "\<not> is_disconnect q" if "c_wire c = xs @ (q, b) # ys" for q b xs ys
    using inv_last [OF assms(1) that] assms(2) by blast
  have last: "ys = [] \<and> c_disconnectSent c' \<and> has_connack xs"
    if w: "c_wire c' = xs @ (q, b) # ys" and q: "is_disconnect q" for q b xs ys
  proof (cases ys rule: rev_cases)
    case Nil
    then have e: "xs = c_wire c" "q = p" using w assms(3) by auto
    then have "final" using q assms(6) by simp
    then show ?thesis using Nil e assms(4,7) inv_connected [OF assms(1)] by simp
  next
    case (snoc zs z)
    then have "c_wire c = xs @ (q, b) # zs" using w assms(3) append_assoc [of xs "(q, b) # zs" "[z]"] by simp
    with nd q show ?thesis by blast
  qed
  have "c_connected c' \<longrightarrow> has_connack (c_wire c')"
  proof
    assume "c_connected c'"
    then consider "c_connected c" | "connack_code p = Some Success" using assms(5) by blast
    then show "has_connack (c_wire c')"
    proof cases
      case 1
      then show ?thesis using inv_connected [OF assms(1)] assms(3) unfolding has_connack_def by auto
    next
      case 2
      then obtain a where "p = Connack a" "ca_ReasonCode a = Success" by (cases p) simp_all
      then show ?thesis using assms(3) unfolding has_connack_def by auto
    qed
  qed
  moreover have "\<not> tooLarge c' b" if "(q, b) \<in> set (c_wire c')" for q b
    using that inv_small [OF assms(1), of q b] assms(3,8) tooLarge_cong [OF assms(9)] by auto
  ultimately show ?thesis unfolding conn_inv_def using last by blast
qed

lemma writePacket_inv:
  assumes "conn_inv c" "if final then is_disconnect p else sendable p"
  shows "conn_inv (snd (writePacket ok p final c))"
proof (cases "final \<and> \<not> c_connected c")
  case True
  then show ?thesis using assms(1) by (simp add: writePacket_def)
next
  case nf: False
  show ?thesis
  proof (cases "encode_packet p")
    case (Inl e)
    then show ?thesis using assms(1) nf by (simp add: writePacket_def)
  next
    case (Inr raw)
    obtain q b where q: "fitPacket c p raw = (q, b)" by (cases "fitPacket c p raw")
    have qs: "encode_packet q = Inr b" "is_disconnect q = is_disconnect p" "sendable p \<longrightarrow> sendable q"
      using q Inr by (auto simp: fitPacket_def split: if_splits option.splits sum.splits) (cases p; auto)+
    obtain err c' where w: "writeLocked ok final q b c = (err, c')" by (cases "writeLocked ok final q b c")
    show ?thesis
    proof (cases "tooLarge c b")
      case True
      then show ?thesis
        using nf Inr q assms(1) inv_cong [of "c\<lparr>c_disconnectSent := True\<rparr>" c] by (simp add: writePacket_def)
    next
      case small: False
      have r: "snd (writePacket ok p final c) = c'"
        unfolding writePacket_def if_not_P [OF nf] using Inr q small w by simp
      show ?thesis
        unfolding r
      proof (rule writeLocked_cases [OF w])
        assume "c_wire c' = c_wire c" "c_connected c' = c_connected c" "c_disconnectSent c \<longrightarrow> c_disconnectSent c'"
          "c_clientMaxPacketSize c' = c_clientMaxPacketSize c"
        then show "conn_inv c'" using assms(1) by (rule inv_cong)
      next
        fix out table
        assume s: "\<not> c_disconnectSent c" "final \<longrightarrow> c_connected c" "aliasedBytes c q b = Inr (out, table)"
          "c_wire c' = c_wire c @ [(q, out)]" "c_disconnectSent c' = final"
          "c_connected c' \<longleftrightarrow> c_connected c \<or> connack_code q = Some Success"
          "c_clientMaxPacketSize c' = c_clientMaxPacketSize c"
        have "is_disconnect q \<longleftrightarrow> final" using assms(2) qs(2) by (cases final; cases p; auto)
        moreover have "\<not> tooLarge c out"
        proof (cases final)
          case True
          then have "out = b" using assms(2) qs(2) s(3) by (cases q) auto
          then show ?thesis using small by simp
        next
          case False
          then have "sendable q" using assms(2) qs(3) by simp
          then show ?thesis using qs(1) small s(3) by (rule aliased_fits_conn)
        qed
        ultimately show "conn_inv c'" using s(2,7) by (intro inv_append [OF assms(1) s(1,4,5,6)])
      qed
    qed
  qed
qed

lemma conn_step_inv: "conn_step c c' \<Longrightarrow> conn_inv c \<Longrightarrow> conn_inv c'"
proof (induction rule: conn_step.induct)
  case (step_write p c ok)
  then show ?case by (intro writePacket_inv) simp_all
next
  case (step_disconnect c ok code reason)
  then show ?case unfolding sendDisconnect_def by (intro writePacket_inv) simp_all
next
  case (step_close c)
  then show ?case by (intro inv_cong [of "conn_close c" c]) (simp_all add: conn_close_def)
next
  case (step_noLinger c)
  then show ?case by (intro inv_cong [of "noLinger c" c]) (simp_all add: noLinger_def)
qed

interpretation connection: step_invariant conn_step fresh_conn conn_inv
  by unfold_locales (simp add: conn_inv_def fresh_conn_def, rule conn_step_inv)

section \<open>Properties\<close>

text \<open>C21: however the goroutines of a connection interleave their writes, a DISCONNECT is the last packet on the
  wire, nothing follows it, and it is sent only on a connection whose CONNACK reported success before it.\<close>

theorem disconnect_ends_wire:
  assumes "conn_step\<^sup>*\<^sup>* c0 c" "fresh_conn c0" "c_wire c = xs @ (Disconnect d, b) # ys"
  shows "ys = [] \<and> c_disconnectSent c \<and> (\<exists>a raw. (Connack a, raw) \<in> set xs \<and> ca_ReasonCode a = Success)"
  using inv_last [OF connection.reach_inv [OF assms(1,2)] assms(3)] by (simp add: has_connack_def)

text \<open>C22: no packet on the wire is longer than the Maximum Packet Size the client gave.\<close>

theorem written_within_limit:
  assumes "conn_step\<^sup>*\<^sup>* c0 c" "fresh_conn c0" "(p, b) \<in> set (c_wire c)" "c_clientMaxPacketSize c \<noteq> 0"
  shows "length b \<le> unat (c_clientMaxPacketSize c)"
proof -
  have "0 < c_clientMaxPacketSize c" using assms(4) by (simp add: word_neq_0_conv)
  then have "\<not> overLimit (length b) (c_clientMaxPacketSize c)"
    using inv_small [OF connection.reach_inv [OF assms(1,2)] assms(3)] by (simp add: tooLarge_def)
  then show ?thesis unfolding overLimit_def by linarith
qed

definition sample_conn :: conn_write where
  "sample_conn = \<lparr>c_ref = 0, c_clientMaxPacketSize = 10, c_outAlias = None, c_closed = False, c_connected = False,
    c_disconnectSent = False, c_lingers = False, c_wire = []\<rparr>"

definition sample_connack :: packet where
  "sample_connack = Connack \<lparr>ca_SessionPresent = False, ca_ReasonCode = Success, ca_Properties = None\<rparr>"

lemma sample_run:
  "snd (writePacket True sample_connack False sample_conn) =
     sample_conn\<lparr>c_wire := [(sample_connack, [0x20, 3, 0, 0, 0])], c_connected := True\<rparr>"
  by (simp add: writePacket_def sample_conn_def sample_connack_def encode_packet_def connack_encode_def
      props_encode_def w_varByteInt_eq appendVarByteInt_eq vbi.simps MaxVarByteInt_def fitPacket_def tooLarge_def
      overLimit_def writeLocked_def w_byte_def)

lemma sample_run_end:
  "sendDisconnect True ProtocolError [] (sample_conn\<lparr>c_wire := [(sample_connack, [0x20, 3, 0, 0, 0])], c_connected := True\<rparr>) =
     sample_conn\<lparr>c_wire := [(sample_connack, [0x20, 3, 0, 0, 0]),
         (Disconnect \<lparr>rs_ReasonCode = ProtocolError, rs_Properties = None\<rparr>, [0xE0, 1, 0x82])],
       c_connected := True, c_disconnectSent := True, c_lingers := True\<rparr>"
  by (simp add: sendDisconnect_def writePacket_def sample_conn_def encode_packet_def disconnect_encode_def noProps_def go_index_def
      props_encode_def w_varByteInt_eq appendVarByteInt_eq vbi.simps MaxVarByteInt_def fitPacket_def tooLarge_def
      overLimit_def writeLocked_def w_byte_def)

lemma sample_reach: "conn_step\<^sup>*\<^sup>* sample_conn (sample_conn\<lparr>c_wire := [(sample_connack, [0x20, 3, 0, 0, 0]),
         (Disconnect \<lparr>rs_ReasonCode = ProtocolError, rs_Properties = None\<rparr>, [0xE0, 1, 0x82])],
       c_connected := True, c_disconnectSent := True, c_lingers := True\<rparr>)" (is "conn_step\<^sup>*\<^sup>* _ ?c")
proof -
  have "conn_step sample_conn (snd (writePacket True sample_connack False sample_conn))"
    by (rule step_write) (simp add: sample_connack_def)
  moreover have "conn_step (snd (writePacket True sample_connack False sample_conn)) ?c"
    unfolding sample_run sample_run_end [symmetric] by (rule step_disconnect)
  ultimately show ?thesis by (rule converse_rtranclp_into_rtranclp [OF _ r_into_rtranclp])
qed

lemma sample_fresh: "fresh_conn sample_conn"
  by (simp add: fresh_conn_def sample_conn_def)


theorem disconnect_ends_wire_witness:
  "\<exists>c. conn_step\<^sup>*\<^sup>* sample_conn c \<and> fresh_conn sample_conn \<and>
    c_wire c = [(sample_connack, [0x20, 3, 0, 0, 0])] @ (Disconnect \<lparr>rs_ReasonCode = ProtocolError, rs_Properties = None\<rparr>, [0xE0, 1, 0x82]) # [] \<and>
    (\<exists>a raw. (Connack a, raw) \<in> set [(sample_connack, [0x20, 3, 0, 0, 0])] \<and> ca_ReasonCode a = Success)"
  using disconnect_ends_wire [OF sample_reach sample_fresh,
      of "[(sample_connack, [0x20, 3, 0, 0, 0])]" "\<lparr>rs_ReasonCode = ProtocolError, rs_Properties = None\<rparr>" "[0xE0, 1, 0x82]" "[]"]
    sample_reach sample_fresh
  by (intro exI [of _ "sample_conn\<lparr>c_wire := [(sample_connack, [0x20, 3, 0, 0, 0]),
         (Disconnect \<lparr>rs_ReasonCode = ProtocolError, rs_Properties = None\<rparr>, [0xE0, 1, 0x82])],
       c_connected := True, c_disconnectSent := True, c_lingers := True\<rparr>"]) simp

theorem written_within_limit_witness:
  "\<exists>c. conn_step\<^sup>*\<^sup>* sample_conn c \<and> (sample_connack, [0x20, 3, 0, 0, 0]) \<in> set (c_wire c) \<and>
    length [0x20 :: byte, 3, 0, 0, 0] \<le> unat (c_clientMaxPacketSize c)"
  using written_within_limit [OF sample_reach sample_fresh, of sample_connack "[0x20, 3, 0, 0, 0]"] sample_reach
  by (intro exI [of _ "sample_conn\<lparr>c_wire := [(sample_connack, [0x20, 3, 0, 0, 0]),
         (Disconnect \<lparr>rs_ReasonCode = ProtocolError, rs_Properties = None\<rparr>, [0xE0, 1, 0x82])],
       c_connected := True, c_disconnectSent := True, c_lingers := True\<rparr>"]) (simp add: sample_conn_def)

end
