(* ===== verification/Session_Subs.thy ===== *)
theory Session_Subs
  imports Session_Flow
begin

text \<open>
  The subscription set of a session: \<^verbatim>\<open>src/session.go\<close> and the part of \<^verbatim>\<open>src/subscribe.go\<close> that finds the
  subscription a NATS message is delivered through. A subscription is shared by pointer between the session, the
  deliveries that wait for it and the NATS handler, so the subscriptions are kept by address (\<open>s_mem\<close>), and so are
  the cells (\<open>s_cells\<close>) through which a handler finds the newest one. A NATS subscription is a number.

  The fields \<^verbatim>\<open>live\<close>, \<^verbatim>\<open>replacedBy\<close> and the cell are atomic variables that the NATS handler reads without the
  lock of the session, while \<^verbatim>\<open>installSubscription\<close> writes them one after the other. The second half of the theory
  interleaves the two at that grain.
\<close>

section \<open>State\<close>

type_synonym cell_ref = nat

record session_sub =
  ss_filter :: string
  ss_subject :: string
  ss_share :: string
  ss_opts :: subscription
  ss_grantedQoS :: QoS
  ss_id :: int
  ss_natsSubs :: "nat list"
  ss_live :: bool
  ss_replacedBy :: "sub_ref option"
  ss_cell :: "cell_ref option"
  ss_since :: u64

record session_subs = session_flow +
  s_subs :: "(string, sub_ref) gomap"
  s_mem :: "(sub_ref, session_sub) gomap"
  s_cells :: "(cell_ref, sub_ref) gomap"

definition sinceUnknown :: u64 where
  "sinceUnknown = - 1"

text \<open>Reading and writing through a pointer. A pointer into nothing does not exist in Go; reading one is a panic here.\<close>

definition deref :: "'a session_subs_scheme \<Rightarrow> sub_ref \<Rightarrow> session_sub res" where
  "deref s r = (case get (s_mem s) r of None \<Rightarrow> Inl Panic | Some x \<Rightarrow> Inr x)"

definition set_sub :: "sub_ref \<Rightarrow> (session_sub \<Rightarrow> session_sub) \<Rightarrow> 'a session_subs_scheme \<Rightarrow> 'a session_subs_scheme" where
  "set_sub r f s = (case get (s_mem s) r of None \<Rightarrow> s | Some x \<Rightarrow> s\<lparr>s_mem := AList.update r (f x) (s_mem s)\<rparr>)"

section \<open>Operations\<close>

definition session_subscription :: "'a session_subs_scheme \<Rightarrow> string \<Rightarrow> sub_ref option" where
  "session_subscription s filter' = get (s_subs s) filter'"

definition subscriptions :: "'a session_subs_scheme \<Rightarrow> sub_ref list" where
  "subscriptions s = map snd (s_subs s)"

definition keepsSince :: "session_sub \<Rightarrow> session_sub \<Rightarrow> bool" where
  "keepsSince old sub \<longleftrightarrow> ss_share sub = [] \<and> ss_share old = [] \<and> QoS0 < ss_grantedQoS old \<and>
    (\<not> sb_NoLocal (ss_opts old) \<or> sb_NoLocal (ss_opts sub)) \<and> ss_since old \<noteq> sinceUnknown"

text \<open>\<^verbatim>\<open>old\<close>, nil or with what it points at.\<close>

definition old_sub :: "'a session_subs_scheme \<Rightarrow> string \<Rightarrow> (sub_ref \<times> session_sub) option res" where
  "old_sub s filter' =
    (case get (s_subs s) filter' of
       None \<Rightarrow> Inr None
     | Some p \<Rightarrow> rbind (deref s p) (\<lambda>x. Inr (Some (p, x))))"

definition bound :: "session_sub \<Rightarrow> bool" where
  "bound x \<longleftrightarrow> ss_cell x \<noteq> None \<and> ss_natsSubs x \<noteq> []"

text \<open>The steps of \<^verbatim>\<open>installSubscription\<close> before the atomic stores: the NATS subscriptions and the cell are handed
  over when \<open>r\<close> has none of its own, and \<^verbatim>\<open>since\<close> is kept.\<close>

definition take_over :: "sub_ref \<Rightarrow> session_sub \<Rightarrow> (sub_ref \<times> session_sub) option \<Rightarrow> 'a session_subs_scheme \<Rightarrow> 'a session_subs_scheme" where
  "take_over r sub old s =
    (case old of
       None \<Rightarrow> s
     | Some (p, x) \<Rightarrow>
         let s = (if ss_natsSubs sub = []
                  then set_sub p (\<lambda>y. y\<lparr>ss_natsSubs := []\<rparr>)
                    (set_sub r (\<lambda>y. y\<lparr>ss_natsSubs := ss_natsSubs x, ss_cell := ss_cell x\<rparr>) s)
                  else s)
         in if keepsSince x sub then set_sub r (\<lambda>y. y\<lparr>ss_since := ss_since x\<rparr>) s else s)"

text \<open>The atomic stores, in their order.\<close>

datatype store = SetLive sub_ref bool | SetReplacedBy sub_ref sub_ref | SetCell cell_ref sub_ref

fun do_store :: "store \<Rightarrow> 'a session_subs_scheme \<Rightarrow> 'a session_subs_scheme" where
  "do_store (SetLive r b) s = set_sub r (\<lambda>y. y\<lparr>ss_live := b\<rparr>) s"
| "do_store (SetReplacedBy p r) s = set_sub p (\<lambda>y. y\<lparr>ss_replacedBy := Some r\<rparr>) s"
| "do_store (SetCell k r) s = s\<lparr>s_cells := AList.update k r (s_cells s)\<rparr>"

definition install_stores :: "sub_ref \<Rightarrow> (sub_ref \<times> session_sub) option \<Rightarrow> cell_ref option \<Rightarrow> store list res" where
  "install_stores r old cell =
    (case old of
       None \<Rightarrow> Inr [SetLive r True]
     | Some (p, _) \<Rightarrow>
         (case cell of
            None \<Rightarrow> Inl Panic
          | Some k \<Rightarrow> Inr [SetLive r True, SetReplacedBy p r, SetCell k r, SetLive p False]))"

text \<open>\<^verbatim>\<open>old\<close>, \<^verbatim>\<open>installed\<close>, \<^verbatim>\<open>rebind\<close>.\<close>

definition installSubscription :: "conn_ref \<Rightarrow> sub_ref \<Rightarrow> 'a session_subs_scheme \<Rightarrow>
    ((sub_ref option \<times> bool \<times> bool) \<times> 'a session_subs_scheme) res" where
  "installSubscription c r s =
    (if s_conn s \<noteq> Some c then Inr ((None, False, False), s)
     else
       rbind (deref s r) (\<lambda>sub.
       rbind (old_sub s (ss_filter sub)) (\<lambda>old.
       if ss_natsSubs sub = [] \<and> (case old of None \<Rightarrow> True | Some (_, x) \<Rightarrow> \<not> bound x)
       then Inr ((None, False, True), s)
       else
         let s = take_over r sub old s; s = s\<lparr>s_subs := AList.update (ss_filter sub) r (s_subs s)\<rparr> in
         rbind (deref s r) (\<lambda>sub'.
         rbind (install_stores r old (ss_cell sub')) (\<lambda>stores.
         Inr ((map_option fst old, True, False), fold do_store stores s))))))"

definition holdsBound :: "'a session_subs_scheme \<Rightarrow> string \<Rightarrow> bool res" where
  "holdsBound s filter' = rbind (old_sub s filter') (\<lambda>old. Inr (case old of None \<Rightarrow> False | Some (_, x) \<Rightarrow> bound x))"

definition removeSubscription :: "string \<Rightarrow> 'a session_subs_scheme \<Rightarrow> sub_ref option \<times> 'a session_subs_scheme" where
  "removeSubscription filter' s =
    (case get (s_subs s) filter' of
       None \<Rightarrow> (None, s)
     | Some r \<Rightarrow> (Some r, set_sub r (\<lambda>y. y\<lparr>ss_live := False\<rparr>) (s\<lparr>s_subs := AList.delete filter' (s_subs s)\<rparr>)))"

text \<open>\<^verbatim>\<open>sub\<close> with \<^verbatim>\<open>ok\<close>, and \<^verbatim>\<open>owner\<close>.\<close>

definition removeSubscriptionFor :: "conn_ref \<Rightarrow> string \<Rightarrow> 'a session_subs_scheme \<Rightarrow>
    (sub_ref option \<times> bool) \<times> 'a session_subs_scheme" where
  "removeSubscriptionFor c filter' s =
    (if s_conn s \<noteq> Some c then ((None, False), s)
     else let (r, s) = removeSubscription filter' s in ((r, True), s))"

definition unsubscribeAll :: "sub_ref \<Rightarrow> 'a session_subs_scheme \<Rightarrow> 'a session_subs_scheme" where
  "unsubscribeAll r s = set_sub r (\<lambda>y. y\<lparr>ss_natsSubs := []\<rparr>) s"

text \<open>What \<^verbatim>\<open>bindNATS\<close> does to the subscription: the NATS subscriptions (numbers \<open>ns\<close> of \<^verbatim>\<open>nats.go\<close>) and a new cell.\<close>

definition bind_sub :: "sub_ref \<Rightarrow> cell_ref \<Rightarrow> nat list \<Rightarrow> 'a session_subs_scheme \<Rightarrow> 'a session_subs_scheme" where
  "bind_sub r k ns s =
    set_sub r (\<lambda>y. y\<lparr>ss_natsSubs := ss_natsSubs y @ ns, ss_cell := Some k\<rparr>) (s\<lparr>s_cells := AList.update k r (s_cells s)\<rparr>)"

section \<open>The subscription in force\<close>

text \<open>\<^verbatim>\<open>latest\<close> and \<^verbatim>\<open>wanted\<close> follow \<^verbatim>\<open>replacedBy\<close>. The first argument bounds the length of the chain; \<open>None\<close> says it
  was not enough (or a pointer into nothing).\<close>

fun latest :: "nat \<Rightarrow> 'a session_subs_scheme \<Rightarrow> sub_ref \<Rightarrow> sub_ref option" where
  "latest 0 s r = None"
| "latest (Suc n) s r =
    (case get (s_mem s) r of
       None \<Rightarrow> None
     | Some x \<Rightarrow> (case ss_replacedBy x of None \<Rightarrow> Some r | Some r' \<Rightarrow> latest n s r'))"

fun wanted :: "nat \<Rightarrow> 'a session_subs_scheme \<Rightarrow> sub_ref \<Rightarrow> bool option" where
  "wanted 0 s r = None"
| "wanted (Suc n) s r =
    (case get (s_mem s) r of
       None \<Rightarrow> None
     | Some x \<Rightarrow>
         if ss_live x then Some True
         else (case ss_replacedBy x of None \<Rightarrow> Some False | Some r' \<Rightarrow> wanted n s r'))"

definition depth :: "'a session_subs_scheme \<Rightarrow> nat" where
  "depth s = length (s_mem s)"

section \<open>Invariant\<close>

text \<open>What the invariant is about: the filter of a subscription, whether it is live, and what replaced it.\<close>

definition core :: "session_sub \<Rightarrow> string \<times> bool \<times> sub_ref option" where
  "core x = (ss_filter x, ss_live x, ss_replacedBy x)"

definition cores :: "'a session_subs_scheme \<Rightarrow> sub_ref \<Rightarrow> (string \<times> bool \<times> sub_ref option) option" where
  "cores s r = map_option core (get (s_mem s) r)"

definition subs_ok :: "'a session_subs_scheme \<Rightarrow> bool" where
  "subs_ok s \<longleftrightarrow>
    (\<forall>f r. get (s_subs s) f = Some r \<longrightarrow> cores s r = Some (f, True, None)) \<and>
    (\<forall>f r rb. cores s r = Some (f, True, rb) \<longrightarrow> get (s_subs s) f = Some r) \<and>
    (\<forall>f r l r'. cores s r = Some (f, l, Some r') \<longrightarrow> r < r' \<and> (\<exists>l' rb. cores s r' = Some (f, l', rb)))"

lemma subs_okD:
  assumes "subs_ok s"
  shows "get (s_subs s) f = Some r \<Longrightarrow> cores s r = Some (f, True, None)"
    and "cores s r = Some (f, True, rb) \<Longrightarrow> get (s_subs s) f = Some r"
    and "cores s r = Some (f, l, Some r') \<Longrightarrow> r < r'"
    and "cores s r = Some (f, l, Some r') \<Longrightarrow> \<exists>l' rb. cores s r' = Some (f, l', rb)"
  using assms unfolding subs_ok_def by blast+

lemma subs_ok_cong: "s_subs s' = s_subs s \<Longrightarrow> cores s' = cores s \<Longrightarrow> subs_ok s' \<longleftrightarrow> subs_ok s"
  unfolding subs_ok_def by simp

lemma set_sub_same [simp]:
  "s_subs (set_sub r g s) = s_subs s" "s_conn (set_sub r g s) = s_conn s" "s_cells (set_sub r g s) = s_cells s"
  by (simp_all add: set_sub_def split: option.split)

lemma get_set_sub [simp]: "get (s_mem (set_sub r g s)) q = (if q = r then map_option g (get (s_mem s) q) else get (s_mem s) q)"
  by (simp add: set_sub_def split: option.split)

lemma cores_set_sub: "cores (set_sub r g s) = (cores s)(r := map_option (\<lambda>y. core (g y)) (get (s_mem s) r))"
  by (rule ext) (simp add: cores_def option.map_comp comp_def)

lemma cores_irrelevant: "(\<And>y. core (g y) = core y) \<Longrightarrow> cores (set_sub r g s) = cores s"
  unfolding cores_set_sub by (rule ext) (simp add: cores_def)

lemma cores_live: "cores (set_sub r (\<lambda>y. y\<lparr>ss_live := b\<rparr>) s) = (cores s)(r := map_option (\<lambda>(f, _, rb). (f, b, rb)) (cores s r))"
  unfolding cores_set_sub by (rule ext) (simp add: cores_def core_def option.map_comp comp_def)

lemma cores_replacedBy:
  "cores (set_sub p (\<lambda>y. y\<lparr>ss_replacedBy := Some r\<rparr>) s) = (cores s)(p := map_option (\<lambda>(f, l, _). (f, l, Some r)) (cores s p))"
  unfolding cores_set_sub by (rule ext) (simp add: cores_def core_def option.map_comp comp_def)

lemma cores_updates [simp]:
  "cores (s\<lparr>s_subs := m\<rparr>) = cores s" "cores (s\<lparr>s_cells := k\<rparr>) = cores s" "cores (s\<lparr>s_conn := c\<rparr>) = cores s"
  by (rule ext, simp add: cores_def)+

lemma cores_take_over: "cores (take_over r sub old s) = cores s"
  by (simp add: take_over_def cores_irrelevant core_def Let_def split: option.split)

lemma take_over_same [simp]:
  "s_subs (take_over r sub old s) = s_subs s" "s_conn (take_over r sub old s) = s_conn s"
  "s_cells (take_over r sub old s) = s_cells s"
  by (simp_all add: take_over_def Let_def split: option.split)

lemma deref_Inr: "deref s r = Inr x \<longleftrightarrow> get (s_mem s) r = Some x"
  by (simp add: deref_def split: option.split)

lemma old_sub_ok:
  assumes "subs_ok s"
  obtains "get (s_subs s) f = None" "old_sub s f = Inr None"
  | p x where "get (s_subs s) f = Some p" "get (s_mem s) p = Some x" "old_sub s f = Inr (Some (p, x))"
proof (cases "get (s_subs s) f")
  case None
  then show ?thesis using that(1) by (simp add: old_sub_def)
next
  case (Some p)
  then have "cores s p = Some (f, True, None)" by (rule subs_okD(1) [OF assms])
  then obtain x where "get (s_mem s) p = Some x" by (auto simp: cores_def)
  then show ?thesis using that(2) Some by (simp add: old_sub_def deref_def)
qed

text \<open>What an installation does to the cores, whatever it hands over.\<close>

lemma install_effect:
  assumes ok: "subs_ok s" and x: "get (s_mem s) r = Some x" "\<not> ss_live x" "ss_replacedBy x = None"
    and i: "installSubscription c r s = Inr ((old, True, rebind), s')"
  shows "s_subs s' = AList.update (ss_filter x) r (s_subs s)" "old = get (s_subs s) (ss_filter x)"
    and "cores s' = (case old of
       None \<Rightarrow> (cores s)(r \<mapsto> (ss_filter x, True, None))
     | Some p \<Rightarrow> (cores s)(r \<mapsto> (ss_filter x, True, None), p \<mapsto> (ss_filter x, False, Some r)))"
proof -
  let ?f = "ss_filter x"
  have cr: "cores s r = Some (?f, False, None)" using x by (simp add: cores_def core_def)
  have "(s_subs s' = AList.update ?f r (s_subs s) \<and> old = get (s_subs s) ?f) \<and>
    cores s' = (case old of
       None \<Rightarrow> (cores s)(r \<mapsto> (?f, True, None))
     | Some p \<Rightarrow> (cores s)(r \<mapsto> (?f, True, None), p \<mapsto> (?f, False, Some r)))"
  proof (rule old_sub_ok [OF ok, of ?f])
    assume n: "get (s_subs s) ?f = None" "old_sub s ?f = Inr None"
    have "old = None \<and> s' = set_sub r (\<lambda>y. y\<lparr>ss_live := True\<rparr>) (s\<lparr>s_subs := AList.update ?f r (s_subs s)\<rparr>)"
      using i x(1) n by (auto simp: installSubscription_def deref_def take_over_def install_stores_def Let_def
          rbind_Inr_iff split: if_splits)
    then show ?thesis using n(1) cr by (simp add: cores_live)
  next
    fix p y
    assume n: "get (s_subs s) ?f = Some p" "get (s_mem s) p = Some y" "old_sub s ?f = Inr (Some (p, y))"
    have cp: "cores s p = Some (?f, True, None)" by (rule subs_okD(1) [OF ok n(1)])
    with cr have pr: "p \<noteq> r" by auto
    obtain k where "old = Some p" and s': "s' = set_sub p (\<lambda>y. y\<lparr>ss_live := False\<rparr>)
       (do_store (SetCell k r) (set_sub p (\<lambda>y. y\<lparr>ss_replacedBy := Some r\<rparr>) (set_sub r (\<lambda>y. y\<lparr>ss_live := True\<rparr>)
         ((take_over r x (Some (p, y)) s)\<lparr>s_subs := AList.update ?f r (s_subs s)\<rparr>))))"
      using i x(1) n by (auto simp: installSubscription_def deref_def install_stores_def Let_def
          rbind_Inr_iff split: if_splits option.splits)
    then show ?thesis using n(1) cr cp pr by (auto simp: s' cores_live cores_replacedBy cores_take_over)
  qed
  then show "s_subs s' = AList.update ?f r (s_subs s)" "old = get (s_subs s) ?f"
    "cores s' = (case old of
       None \<Rightarrow> (cores s)(r \<mapsto> (?f, True, None))
     | Some p \<Rightarrow> (cores s)(r \<mapsto> (?f, True, None), p \<mapsto> (?f, False, Some r)))" by blast+
qed

lemma install_ok:
  assumes ok: "subs_ok s" and x: "get (s_mem s) r = Some x" "\<not> ss_live x" "ss_replacedBy x = None"
    and fresh: "\<And>q. cores s q \<noteq> None \<Longrightarrow> q \<le> r"
    and i: "installSubscription c r s = Inr ((old, True, rebind), s')"
  shows "subs_ok s'"
proof -
  note e = install_effect [OF ok x i]
  have cr: "cores s r = Some (ss_filter x, False, None)" using x by (simp add: cores_def core_def)
  show ?thesis
  proof (cases old)
    case None
    have g: "get (s_subs s) (ss_filter x) = None" using e(2) None by simp
    show ?thesis
      unfolding subs_ok_def e(1,3) None option.case
    proof (intro conjI allI impI)
      fix f q
      assume a: "get (AList.update (ss_filter x) r (s_subs s)) f = Some q"
      show "((cores s)(r \<mapsto> (ss_filter x, True, None))) q = Some (f, True, None)"
      proof (cases "f = ss_filter x")
        case False
        then have "cores s q = Some (f, True, None)" using a by (intro subs_okD(1) [OF ok]) simp
        then show ?thesis using cr by auto
      qed (use a in simp)
    next
      fix f q rb
      assume a: "((cores s)(r \<mapsto> (ss_filter x, True, None))) q = Some (f, True, rb)"
      show "get (AList.update (ss_filter x) r (s_subs s)) f = Some q"
      proof (cases "q = r")
        case False
        then have "get (s_subs s) f = Some q" using a by (intro subs_okD(2) [OF ok]) simp
        then show ?thesis using g by auto
      qed (use a in simp)
    next
      fix f q l q'
      let ?c = "(cores s)(r \<mapsto> (ss_filter x, True, None))"
      assume a: "?c q = Some (f, l, Some q')"
      then have a: "q \<noteq> r" "cores s q = Some (f, l, Some q')" by (auto split: if_splits)
      show "q < q'" by (rule subs_okD(3) [OF ok a(2)])
      obtain l' rb where "cores s q' = Some (f, l', rb)" using subs_okD(4) [OF ok a(2)] by blast
      then show "\<exists>l' rb. ?c q' = Some (f, l', rb)" using cr by (cases "q' = r") auto
    qed
  next
    case (Some p)
    have g: "get (s_subs s) (ss_filter x) = Some p" using e(2) Some by simp
    have cp: "cores s p = Some (ss_filter x, True, None)" by (rule subs_okD(1) [OF ok g])
    have pr: "p < r" using fresh [of p] cp cr by (cases "p = r") auto
    show ?thesis
      unfolding subs_ok_def e(1,3) Some option.case
    proof (intro conjI allI impI)
      fix f q
      assume "get (AList.update (ss_filter x) r (s_subs s)) f = Some q"
      then consider "f = ss_filter x" "q = r" | "f \<noteq> ss_filter x" "get (s_subs s) f = Some q" by (auto split: if_splits)
      then show "((cores s)(r \<mapsto> (ss_filter x, True, None), p \<mapsto> (ss_filter x, False, Some r))) q = Some (f, True, None)"
      proof cases
        case 2
        then have "cores s q = Some (f, True, None)" by (intro subs_okD(1) [OF ok])
        then show ?thesis using cr cp 2(1) by auto
      qed (use pr in simp)
    next
      fix f q rb
      assume "((cores s)(r \<mapsto> (ss_filter x, True, None), p \<mapsto> (ss_filter x, False, Some r))) q = Some (f, True, rb)"
      then consider "q = r" "f = ss_filter x" | "q \<noteq> r" "q \<noteq> p" "cores s q = Some (f, True, rb)"
        by (auto split: if_splits)
      then show "get (AList.update (ss_filter x) r (s_subs s)) f = Some q"
      proof cases
        case 2
        then have "get (s_subs s) f = Some q" by (intro subs_okD(2) [OF ok])
        then show ?thesis using g 2(2) by (cases "f = ss_filter x") auto
      qed simp
    next
      fix f q l q'
      let ?c = "(cores s)(r \<mapsto> (ss_filter x, True, None), p \<mapsto> (ss_filter x, False, Some r))"
      assume "?c q = Some (f, l, Some q')"
      then consider "q = p" "q' = r" "f = ss_filter x" | "q \<noteq> r" "q \<noteq> p" "cores s q = Some (f, l, Some q')"
        by (auto split: if_splits)
      then have "q < q' \<and> (\<exists>l' rb. ?c q' = Some (f, l', rb))"
      proof cases
        case 2
        then have l: "q < q'" by (intro subs_okD(3) [OF ok])
        obtain l' rb where "cores s q' = Some (f, l', rb)" using subs_okD(4) [OF ok 2(3)] by blast
        then show ?thesis using l cr cp by (cases "q' = r"; cases "q' = p") auto
      qed (use pr in auto)
      then show "q < q'" "\<exists>l' rb. ?c q' = Some (f, l', rb)" by blast+
    qed
  qed
qed

lemma retire_ok:
  assumes ok: "subs_ok s" and g: "get (s_subs s) f = Some r"
  shows "subs_ok (set_sub r (\<lambda>y. y\<lparr>ss_live := False\<rparr>) (s\<lparr>s_subs := AList.delete f (s_subs s)\<rparr>))"
proof -
  have cr: "cores s r = Some (f, True, None)" by (rule subs_okD(1) [OF ok g])
  show ?thesis
    unfolding subs_ok_def cores_live cores_updates cr option.map prod.case
  proof (intro conjI allI impI)
    fix f' q
    assume "get (s_subs (set_sub r (\<lambda>y. y\<lparr>ss_live := False\<rparr>) (s\<lparr>s_subs := AList.delete f (s_subs s)\<rparr>))) f' = Some q"
    then have a: "f' \<noteq> f" "get (s_subs s) f' = Some q" by (simp_all split: if_splits)
    then have "cores s q = Some (f', True, None)" by (intro subs_okD(1) [OF ok])
    then show "((cores s)(r \<mapsto> (f, False, None))) q = Some (f', True, None)" using cr a(1) by auto
  next
    fix f' q rb
    assume "((cores s)(r \<mapsto> (f, False, None))) q = Some (f', True, rb)"
    then have a: "q \<noteq> r" "cores s q = Some (f', True, rb)" by (auto split: if_splits)
    have "get (s_subs s) f' = Some q" by (rule subs_okD(2) [OF ok a(2)])
    then show "get (s_subs (set_sub r (\<lambda>y. y\<lparr>ss_live := False\<rparr>) (s\<lparr>s_subs := AList.delete f (s_subs s)\<rparr>))) f' = Some q"
      using g a(1) by auto
  next
    fix f' q l q'
    assume "((cores s)(r \<mapsto> (f, False, None))) q = Some (f', l, Some q')"
    then have a: "cores s q = Some (f', l, Some q')" by (auto split: if_splits)
    show "q < q'" by (rule subs_okD(3) [OF ok a])
    obtain l' rb where "cores s q' = Some (f', l', rb)" using subs_okD(4) [OF ok a] by blast
    then show "\<exists>l' rb. ((cores s)(r \<mapsto> (f, False, None))) q' = Some (f', l', rb)" using cr by (cases "q' = r") auto
  qed
qed

lemma remove_ok: "subs_ok s \<Longrightarrow> subs_ok (snd (removeSubscription f s))"
  by (cases "get (s_subs s) f") (simp_all add: removeSubscription_def retire_ok)

text \<open>The chain from a subscription leads to the end it can only reach, within the bound.\<close>

definition later :: "'a session_subs_scheme \<Rightarrow> sub_ref \<Rightarrow> sub_ref set" where
  "later s r = {q. r \<le> q \<and> q \<in> keys (s_mem s)}"

lemma finite_later: "finite (later s r)"
  by (rule finite_subset [of _ "fst ` set (s_mem s)"]) (auto simp: later_def keys_def)

lemma cores_get: "cores s r = Some c \<Longrightarrow> \<exists>x. get (s_mem s) r = Some x \<and> core x = c"
  by (auto simp: cores_def)

lemma chain:
  assumes "subs_ok s" "cores s r = Some (f, l, rb)" "card (later s r) \<le> n"
  shows "\<exists>e l'. latest n s r = Some e \<and> cores s e = Some (f, l', None) \<and>
    wanted n s r = Some (get (s_subs s) f = Some e)"
  using assms(2,3)
proof (induction n arbitrary: r l rb)
  case 0
  then have "later s r = {}" using card_0_eq [OF finite_later, of s r] by simp
  moreover have "r \<in> later s r" using 0(1) by (auto simp: later_def in_keys cores_def)
  ultimately show ?case by simp
next
  case (Suc n)
  from cores_get [OF Suc(2)] obtain x where x: "get (s_mem s) r = Some x" "core x = (f, l, rb)" by blast
  then have x': "ss_live x = l" "ss_replacedBy x = rb" by (simp_all add: core_def)
  show ?case
  proof (cases rb)
    case None
    have "get (s_subs s) f = Some r \<longleftrightarrow> l"
      using subs_okD(1) [OF assms(1), of f r] subs_okD(2) [OF assms(1), of r f rb] Suc(2) None by (cases l) auto
    then show ?thesis using x x' None Suc(2) by (cases l) auto
  next
    case (Some q)
    have l: "\<not> l" using subs_okD(1) [OF assms(1), of f r] subs_okD(2) [OF assms(1), of r f rb] Suc(2) Some by (cases l) auto
    have rq: "r < q" using subs_okD(3) [OF assms(1)] Suc(2) Some by blast
    obtain l' rb' where q: "cores s q = Some (f, l', rb')" using subs_okD(4) [OF assms(1)] Suc(2) Some by blast
    have "later s q \<subseteq> later s r" "r \<in> later s r" "r \<notin> later s q"
      using rq x(1) by (auto simp: later_def in_keys)
    then have "later s q \<subset> later s r" by blast
    then have "card (later s q) < card (later s r)" by (rule psubset_card_mono [OF finite_later])
    then have "card (later s q) \<le> n" using Suc(3) by simp
    from Suc(1) [OF q this] show ?thesis using x x' Some l by simp
  qed
qed

lemma later_depth: "card (later s r) \<le> depth s"
proof -
  have "card (later s r) \<le> card (fst ` set (s_mem s))" by (rule card_mono) (auto simp: later_def keys_def)
  also have "\<dots> \<le> card (set (s_mem s))" by (rule card_image_le) simp
  also have "\<dots> \<le> depth s" unfolding depth_def by (rule card_length)
  finally show ?thesis .
qed

section \<open>Replacing a subscription while messages arrive\<close>

text \<open>
  \<^verbatim>\<open>deliverable\<close>, the search of the NATS handler for the subscription in force, one load of an atomic variable at a
  time. \<open>HLoad\<close> is before the load of the cell, with the \<^verbatim>\<open>cur\<close> that was found dead, if any; \<open>HFollow\<close> is inside
  \<^verbatim>\<open>latest\<close>; \<open>HLive\<close> is before the load of \<^verbatim>\<open>cur.live\<close>; \<open>HDone\<close> has the result.
\<close>

datatype hpc = HLoad "sub_ref option" | HFollow sub_ref "sub_ref option" | HLive sub_ref | HDone "sub_ref option"

fun deliverable_step :: "cell_ref \<Rightarrow> 'a session_subs_scheme \<Rightarrow> hpc \<Rightarrow> hpc" where
  "deliverable_step k s (HLoad prev) = (case get (s_cells s) k of Some r \<Rightarrow> HFollow r prev | None \<Rightarrow> HLoad prev)"
| "deliverable_step k s (HFollow r prev) =
    (case get (s_mem s) r of
       Some x \<Rightarrow>
         (case ss_replacedBy x of
            Some r' \<Rightarrow> HFollow r' prev
          | None \<Rightarrow> if prev = Some r then HDone None else HLive r)
     | None \<Rightarrow> HFollow r prev)"
| "deliverable_step k s (HLive cur) =
    (case get (s_mem s) cur of
       Some x \<Rightarrow> if ss_live x then HDone (Some cur) else HLoad (Some cur)
     | None \<Rightarrow> HLive cur)"
| "deliverable_step k s (HDone res) = HDone res"

text \<open>
  A handler of cell \<open>k\<close> and the SUBSCRIBEs that replace the subscription of filter \<open>f\<close>, interleaved: the state has the
  stores the installation under way has still to make. (A second installation waits for the lock of the session.)
\<close>

inductive race :: "cell_ref \<Rightarrow> string \<Rightarrow> session_subs \<times> store list \<times> hpc \<Rightarrow> session_subs \<times> store list \<times> hpc \<Rightarrow> bool"
  for k f where
  race_handler: "race k f (s, st, h) (s, st, deliverable_step k s h)"
| race_store: "race k f (s, x # st, h) (do_store x s, st, h)"
| race_alloc: "get (s_mem s) r = None \<Longrightarrow> \<not> ss_live x \<Longrightarrow> ss_replacedBy x = None \<Longrightarrow>
    race k f (s, st, h) (s\<lparr>s_mem := AList.update r x (s_mem s)\<rparr>, st, h)"
| race_install: "get (s_mem s) r = Some x \<Longrightarrow> ss_filter x = f \<Longrightarrow> \<not> ss_live x \<Longrightarrow> ss_replacedBy x = None \<Longrightarrow>
    ss_natsSubs x = [] \<Longrightarrow> old_sub s f = Inr (Some (p, y)) \<Longrightarrow> bound y \<Longrightarrow>
    (\<forall>q. cores s q \<noteq> None \<longrightarrow> q \<le> r) \<Longrightarrow>
    s' = (take_over r x (Some (p, y)) s)\<lparr>s_subs := AList.update f r (s_subs s)\<rparr> \<Longrightarrow>
    install_stores r (Some (p, y)) (ss_cell y) = Inr st \<Longrightarrow>
    race k f (s, [], h) (s', st, h)"

inductive_cases raceE: "race k f c c'"

text \<open>These are the steps of \<^verbatim>\<open>installSubscription\<close>.\<close>

lemma installSubscription_stores:
  assumes "s_conn s = Some c" "get (s_mem s) r = Some x" "ss_natsSubs x = []"
    and "old_sub s (ss_filter x) = Inr (Some (p, y))" "bound y" "p \<noteq> r"
    and "install_stores r (Some (p, y)) (ss_cell y) = Inr st"
  shows "installSubscription c r s = Inr ((Some p, True, False),
    fold do_store st ((take_over r x (Some (p, y)) s)\<lparr>s_subs := AList.update (ss_filter x) r (s_subs s)\<rparr>))"
proof -
  let ?s = "(take_over r x (Some (p, y)) s)\<lparr>s_subs := AList.update (ss_filter x) r (s_subs s)\<rparr>"
  have "\<exists>z. get (s_mem ?s) r = Some z \<and> ss_cell z = ss_cell y"
    using assms(2,3,6) by (auto simp: take_over_def Let_def)
  then obtain z where "deref ?s r = Inr z" "ss_cell z = ss_cell y" by (auto simp: deref_def)
  then show ?thesis using assms by (simp add: installSubscription_def deref_def Let_def)
qed

text \<open>The subscriptions a handler can meet, \<open>C\<close>: each is replaced by a later one of them, the one in the cell is
  later than every dead one, and one that is not replaced is live.\<close>

definition met :: "cell_ref \<Rightarrow> session_subs \<Rightarrow> sub_ref set \<Rightarrow> bool" where
  "met k s C \<longleftrightarrow>
    (\<forall>r \<in> C. \<exists>f l rb. cores s r = Some (f, l, rb) \<and> (\<forall>r'. rb = Some r' \<longrightarrow> r < r' \<and> r' \<in> C) \<and> (rb = None \<longrightarrow> l)) \<and>
    (\<exists>q. get (s_cells s) k = Some q \<and> q \<in> C \<and> (\<forall>r \<in> C. \<forall>f rb. cores s r = Some (f, False, rb) \<longrightarrow> r < q))"

fun handler_ok :: "session_subs \<Rightarrow> sub_ref set \<Rightarrow> hpc \<Rightarrow> bool" where
  "handler_ok s C (HLoad prev) = (case prev of None \<Rightarrow> True | Some cur \<Rightarrow> cur \<in> C \<and> (\<exists>f rb. cores s cur = Some (f, False, rb)))"
| "handler_ok s C (HFollow r prev) = (r \<in> C \<and> (case prev of None \<Rightarrow> True | Some cur \<Rightarrow> cur < r))"
| "handler_ok s C (HLive cur) = (cur \<in> C)"
| "handler_ok s C (HDone res) = (\<exists>cur. res = Some cur \<and> cur \<in> C)"

text \<open>How far an installation of \<open>r\<close> for \<open>p\<close> has got.\<close>

definition replaced_by :: "session_subs \<Rightarrow> sub_ref \<Rightarrow> sub_ref \<Rightarrow> bool" where
  "replaced_by s p r \<longleftrightarrow> (\<exists>g l. cores s p = Some (g, l, Some r))"

definition phase :: "cell_ref \<Rightarrow> session_subs \<Rightarrow> sub_ref set \<Rightarrow> sub_ref \<Rightarrow> sub_ref \<Rightarrow> store list \<Rightarrow> bool" where
  "phase k s C p r st \<longleftrightarrow> p < r \<and> p \<in> C \<and>
    (st = [SetLive r True, SetReplacedBy p r, SetCell k r, SetLive p False] \<and> r \<notin> C \<and> get (s_cells s) k = Some p \<or>
     st = [SetReplacedBy p r, SetCell k r, SetLive p False] \<and> r \<in> C \<and> get (s_cells s) k = Some p \<or>
     st = [SetCell k r, SetLive p False] \<and> r \<in> C \<and> get (s_cells s) k = Some p \<and> replaced_by s p r \<or>
     st = [SetLive p False] \<and> r \<in> C \<and> get (s_cells s) k = Some r \<and> replaced_by s p r)"

definition newest :: "cell_ref \<Rightarrow> string \<Rightarrow> session_subs \<Rightarrow> sub_ref \<Rightarrow> bool" where
  "newest k f s r \<longleftrightarrow> get (s_subs s) f = Some r \<and>
    (\<exists>x. get (s_mem s) r = Some x \<and> ss_replacedBy x = None \<and> ss_cell x = Some k)"

definition installing :: "cell_ref \<Rightarrow> string \<Rightarrow> session_subs \<Rightarrow> store list \<Rightarrow> sub_ref set \<Rightarrow> bool" where
  "installing k f s st C \<longleftrightarrow>
    (\<exists>r. newest k f s r \<and> (st = [] \<and> r \<in> C \<and> get (s_cells s) k = Some r \<or> (\<exists>p. phase k s C p r st)))"

definition race_inv :: "cell_ref \<Rightarrow> string \<Rightarrow> session_subs \<times> store list \<times> hpc \<Rightarrow> bool" where
  "race_inv k f c \<longleftrightarrow> (case c of (s, st, h) \<Rightarrow> \<exists>C. met k s C \<and> installing k f s st C \<and> handler_ok s C h)"

lemma metE:
  assumes "met k s C" "r \<in> C"
  obtains g l rb where "cores s r = Some (g, l, rb)" "\<And>r'. rb = Some r' \<Longrightarrow> r < r' \<and> r' \<in> C" "rb = None \<Longrightarrow> l"
  using assms unfolding met_def by blast

lemma met_cell:
  assumes "met k s C"
  obtains q where "get (s_cells s) k = Some q" "q \<in> C" "\<And>r g rb. r \<in> C \<Longrightarrow> cores s r = Some (g, False, rb) \<Longrightarrow> r < q"
proof -
  obtain q where "get (s_cells s) k = Some q \<and> q \<in> C \<and> (\<forall>r \<in> C. \<forall>f rb. cores s r = Some (f, False, rb) \<longrightarrow> r < q)"
    using assms unfolding met_def by blast
  then show ?thesis by (intro that [of q]) blast+
qed

lemma handler_keeps:
  assumes m: "met k s C" and h: "handler_ok s C h"
  shows "handler_ok s C (deliverable_step k s h)"
proof (cases h)
  case (HLoad prev)
  obtain q where q: "get (s_cells s) k = Some q" "q \<in> C" "\<And>r g rb. r \<in> C \<Longrightarrow> cores s r = Some (g, False, rb) \<Longrightarrow> r < q"
    using met_cell [OF m] by metis
  then show ?thesis using h by (auto simp: HLoad split: option.splits)
next
  case (HFollow r prev)
  then have "r \<in> C" using h by simp
  then obtain g l rb where c: "cores s r = Some (g, l, rb)" "\<And>r'. rb = Some r' \<Longrightarrow> r < r' \<and> r' \<in> C"
    using metE [OF m] by metis
  then obtain x where x: "get (s_mem s) r = Some x" "ss_replacedBy x = rb" by (auto simp: cores_def core_def)
  show ?thesis
  proof (cases rb)
    case None
    then show ?thesis using h x HFollow by (auto split: option.splits)
  next
    case (Some r')
    then have "r < r'" "r' \<in> C" using c(2) by blast+
    then show ?thesis using h x HFollow Some by (auto split: option.splits)
  qed
next
  case (HLive cur)
  then have "cur \<in> C" using h by simp
  then obtain g l rb where c: "cores s cur = Some (g, l, rb)" by (rule metE [OF m])
  then obtain x where x: "get (s_mem s) cur = Some x" "ss_live x = l" by (auto simp: cores_def core_def)
  show ?thesis using x c \<open>cur \<in> C\<close> by (cases l) (auto simp: HLive)
qed (use h in simp)

text \<open>A change that leaves the cores of \<open>C\<close> and the cell alone leaves both facts.\<close>

lemma met_mono:
  assumes "met k s C" "\<And>r. r \<in> C \<Longrightarrow> cores s' r = cores s r" "get (s_cells s') k = get (s_cells s) k"
  shows "met k s' C"
  using assms unfolding met_def by simp

lemma handler_mono:
  assumes "handler_ok s C h" "C \<subseteq> C'" "\<And>r. r \<in> C \<Longrightarrow> cores s' r = cores s r"
  shows "handler_ok s' C' h"
  using assms by (cases h) (auto split: option.splits)

lemma met_insert:
  assumes m: "met k s C" and r: "cores s r = Some (g, True, None)"
  shows "met k s (insert r C)"
  unfolding met_def
proof (intro conjI ballI)
  fix q assume "q \<in> insert r C"
  then consider "q = r" | "q \<in> C" by blast
  then show "\<exists>f l rb. cores s q = Some (f, l, rb) \<and> (\<forall>r'. rb = Some r' \<longrightarrow> q < r' \<and> r' \<in> insert r C) \<and> (rb = None \<longrightarrow> l)"
  proof cases
    case 2
    then obtain f l rb where "cores s q = Some (f, l, rb)" "\<And>r'. rb = Some r' \<Longrightarrow> q < r' \<and> r' \<in> C" "rb = None \<Longrightarrow> l"
      using metE [OF m] by metis
    then show ?thesis by (intro exI conjI allI impI) blast+
  qed (use r in auto)
next
  obtain q where "get (s_cells s) k = Some q" "q \<in> C" "\<And>r g rb. r \<in> C \<Longrightarrow> cores s r = Some (g, False, rb) \<Longrightarrow> r < q"
    using met_cell [OF m] by metis
  then show "\<exists>q. get (s_cells s) k = Some q \<and> q \<in> insert r C \<and>
      (\<forall>r \<in> insert r C. \<forall>f rb. cores s r = Some (f, False, rb) \<longrightarrow> r < q)"
    using r by (intro exI [of _ q]) auto
qed

lemma store_live:
  assumes m: "met k s C" and h: "handler_ok s C h" and r: "r \<notin> C" and x: "get (s_mem s) r = Some x" "ss_replacedBy x = None"
  shows "met k (do_store (SetLive r True) s) (insert r C)" "handler_ok (do_store (SetLive r True) s) (insert r C) h"
proof -
  let ?s = "do_store (SetLive r True) s"
  have same: "cores ?s q = cores s q" if "q \<in> C" for q using that r by (auto simp: cores_live)
  have new: "cores ?s r = Some (ss_filter x, True, None)" using x by (simp add: cores_live cores_def core_def)
  have "met k ?s C" by (rule met_mono [OF m same]) simp_all
  then show "met k ?s (insert r C)" using new by (rule met_insert)
  show "handler_ok ?s (insert r C) h" by (rule handler_mono [OF h _ same]) auto
qed

lemma store_replaced:
  assumes m: "met k s C" and h: "handler_ok s C h" and pr: "p \<in> C" "r \<in> C" "p < r"
  shows "met k (do_store (SetReplacedBy p r) s) C" "handler_ok (do_store (SetReplacedBy p r) s) C h"
proof -
  let ?s = "do_store (SetReplacedBy p r) s"
  obtain g l rb where p: "cores s p = Some (g, l, rb)" by (rule metE [OF m pr(1)])
  have c: "cores ?s = (cores s)(p \<mapsto> (g, l, Some r))" by (simp add: cores_replacedBy p)
  show "met k ?s C"
    using m pr p unfolding met_def c by (auto split: if_splits)
  show "handler_ok ?s C h" using h p by (cases h) (auto simp: c simp del: do_store.simps split: option.splits)
qed

lemma store_cell:
  assumes m: "met k s C" and h: "handler_ok s C h" and pr: "get (s_cells s) k = Some p" "r \<in> C" "p < r"
  shows "met k (do_store (SetCell k r) s) C" "handler_ok (do_store (SetCell k r) s) C h"
proof -
  show "met k (do_store (SetCell k r) s) C" using m pr unfolding met_def by auto
  show "handler_ok (do_store (SetCell k r) s) C h" by (rule handler_mono [OF h]) simp_all
qed

lemma store_dead:
  assumes m: "met k s C" and h: "handler_ok s C h" and pr: "get (s_cells s) k = Some r" "p \<in> C" "p < r"
    and rb: "cores s p = Some (g, l, Some r)"
  shows "met k (do_store (SetLive p False) s) C" "handler_ok (do_store (SetLive p False) s) C h"
proof -
  let ?s = "do_store (SetLive p False) s"
  have c: "cores ?s = (cores s)(p \<mapsto> (g, False, Some r))" by (simp add: cores_live rb)
  show "met k ?s C" using m pr rb unfolding met_def c by (auto split: if_splits)
  show "handler_ok ?s C h" using h rb by (cases h) (auto simp: c simp del: do_store.simps split: option.splits)
qed


lemma installing_mono:
  assumes "installing k f s st C" "s_subs s' = s_subs s" "get (s_cells s') k = get (s_cells s) k"
    and "\<And>r. get (s_mem s) r \<noteq> None \<Longrightarrow> get (s_mem s') r = get (s_mem s) r"
  shows "installing k f s' st C"
proof -
  have "cores s' p = cores s p" if "cores s p \<noteq> None" for p using assms(4) that by (auto simp: cores_def)
  then have "replaced_by s' p r" if "replaced_by s p r" for p r using that unfolding replaced_by_def by fastforce
  then have "phase k s' C p r st" if "phase k s C p r st" for p r using that unfolding phase_def assms(3) by blast
  moreover have "newest k f s' r" if "newest k f s r" for r
    using that assms(4) [of r] unfolding newest_def assms(2) by auto
  ultimately show ?thesis using assms(1) unfolding installing_def assms(3) by blast
qed

lemma race_keeps: "race k f c c' \<Longrightarrow> race_inv k f c \<Longrightarrow> race_inv k f c'"
proof (induction rule: race.induct)
  case (race_handler s st h)
  then show ?case using handler_keeps unfolding race_inv_def by auto
next
  case (race_alloc s r x st h)
  then obtain C where C: "met k s C" "installing k f s st C" "handler_ok s C h" by (auto simp: race_inv_def)
  let ?s = "s\<lparr>s_mem := AList.update r x (s_mem s)\<rparr>"
  have "r \<notin> C" using race_alloc(1) metE [OF C(1), of r] by (auto simp: cores_def)
  then have same: "cores ?s q = cores s q" if "q \<in> C" for q using that by (auto simp: cores_def)
  have "met k ?s C" by (rule met_mono [OF C(1) same]) simp_all
  moreover have "handler_ok ?s C h" by (rule handler_mono [OF C(3) _ same]) simp_all
  moreover have "installing k f ?s st C" by (rule installing_mono [OF C(2)]) (use race_alloc(1) in auto)
  ultimately show ?case by (auto simp: race_inv_def)
next
  case (race_install s r x p y s' st h)
  then obtain C where C: "met k s C" "installing k f s [] C" "handler_ok s C h" by (auto simp: race_inv_def)
  have p: "get (s_subs s) f = Some p" "get (s_mem s) p = Some y"
    using race_install(6) by (auto simp: old_sub_def deref_def rbind_Inr_iff split: option.splits)
  have y: "p \<in> C" "get (s_cells s) k = Some p" "ss_cell y = Some k"
    using C(2) p by (auto simp: installing_def newest_def phase_def)
  have st: "st = [SetLive r True, SetReplacedBy p r, SetCell k r, SetLive p False]"
    using race_install(10) y(3) by (simp add: install_stores_def)
  have r: "r \<notin> C"
  proof
    assume "r \<in> C"
    then obtain g l rb where "cores s r = Some (g, l, rb)" "rb = None \<Longrightarrow> l" using metE [OF C(1)] by metis
    then show False using race_install(1,3,4) by (auto simp: cores_def core_def)
  qed
  then have pr: "p \<noteq> r" using y(1) by blast
  have "cores s p \<noteq> None" using p(2) by (simp add: cores_def)
  then have "p \<le> r" using race_install(8) by blast
  then have lt: "p < r" using pr by simp
  have c: "cores s' = cores s" "s_cells s' = s_cells s" "s_subs s' = AList.update f r (s_subs s)"
    by (simp_all add: race_install(9) cores_take_over)
  have "\<exists>z. get (s_mem s') r = Some z \<and> ss_replacedBy z = None \<and> ss_cell z = Some k"
    using race_install(1,4,5,9) y(3) pr by (auto simp: take_over_def Let_def)
  then have "newest k f s' r" using c by (simp add: newest_def)
  moreover have "phase k s' C p r st" using c lt y r by (simp add: phase_def st)
  ultimately have "installing k f s' st C" unfolding installing_def by blast
  moreover have "met k s' C" by (rule met_mono [OF C(1)]) (simp_all add: c)
  moreover have "handler_ok s' C h" by (rule handler_mono [OF C(3)]) (simp_all add: c)
  ultimately show ?case by (auto simp: race_inv_def)
next
  case (race_store s x st h)
  then obtain C where C: "met k s C" "installing k f s (x # st) C" "handler_ok s C h" by (auto simp: race_inv_def)
  then obtain r p where n: "newest k f s r" and ph: "phase k s C p r (x # st)" unfolding installing_def by auto
  from n obtain z where z: "get (s_subs s) f = Some r" "get (s_mem s) r = Some z" "ss_replacedBy z = None" "ss_cell z = Some k"
    unfolding newest_def by blast
  have pr: "p < r" "p \<in> C" using ph by (simp_all add: phase_def)
  from ph consider
      (live) "x = SetLive r True" "st = [SetReplacedBy p r, SetCell k r, SetLive p False]" "r \<notin> C" "get (s_cells s) k = Some p"
    | (repl) "x = SetReplacedBy p r" "st = [SetCell k r, SetLive p False]" "r \<in> C" "get (s_cells s) k = Some p"
    | (cell) "x = SetCell k r" "st = [SetLive p False]" "r \<in> C" "get (s_cells s) k = Some p" "replaced_by s p r"
    | (dead) "x = SetLive p False" "st = []" "r \<in> C" "get (s_cells s) k = Some r" "replaced_by s p r"
    unfolding phase_def by auto
  then show ?case
  proof cases
    case live
    have "newest k f (do_store x s) r" using z live by (simp add: newest_def)
    moreover have "phase k (do_store x s) (insert r C) p r st" using live pr by (simp add: phase_def)
    ultimately have "installing k f (do_store x s) st (insert r C)" unfolding installing_def by blast
    then show ?thesis using store_live [OF C(1,3) live(3) z(2,3)] unfolding race_inv_def live(1) by auto
  next
    case repl
    obtain g l rb where "cores s p = Some (g, l, rb)" by (rule metE [OF C(1) pr(2)])
    then have "replaced_by (do_store x s) p r" by (simp add: repl(1) replaced_by_def cores_replacedBy)
    then have "phase k (do_store x s) C p r st" using repl pr by (simp add: phase_def)
    moreover have "newest k f (do_store x s) r" using z repl pr by (simp add: newest_def)
    ultimately have "installing k f (do_store x s) st C" unfolding installing_def by blast
    then show ?thesis using store_replaced [OF C(1,3) pr(2) repl(3) pr(1)] unfolding race_inv_def repl(1) by auto
  next
    case cell
    have "replaced_by (do_store x s) p r" using cell(5) by (simp add: cell(1) replaced_by_def)
    then have "phase k (do_store x s) C p r st" using cell pr by (simp add: phase_def)
    moreover have "newest k f (do_store x s) r" using z cell by (simp add: newest_def)
    ultimately have "installing k f (do_store x s) st C" unfolding installing_def by blast
    then show ?thesis using store_cell [OF C(1,3) cell(4,3) pr(1)] unfolding race_inv_def cell(1) by auto
  next
    case dead
    obtain g l where g: "cores s p = Some (g, l, Some r)" using dead(5) by (auto simp: replaced_by_def)
    have "newest k f (do_store x s) r" using z dead pr by (simp add: newest_def)
    then have "installing k f (do_store x s) st C" using dead unfolding installing_def by auto
    then show ?thesis using store_dead [OF C(1,3) dead(4) pr(2,1) g] unfolding race_inv_def dead(1) by auto
  qed
qed


text \<open>A subscription in force: the one the session holds for the filter, live, with its cell pointing at it.\<close>

definition in_force :: "cell_ref \<Rightarrow> string \<Rightarrow> session_subs \<Rightarrow> bool" where
  "in_force k f s \<longleftrightarrow> (\<exists>r x. get (s_subs s) f = Some r \<and> get (s_mem s) r = Some x \<and> ss_live x \<and> ss_replacedBy x = None \<and>
    ss_cell x = Some k \<and> get (s_cells s) k = Some r)"

lemma in_force_inv:
  assumes "in_force k f s"
  shows "race_inv k f (s, [], HLoad None)"
proof -
  obtain r x where r: "get (s_subs s) f = Some r" "get (s_mem s) r = Some x" "ss_live x" "ss_replacedBy x = None"
    "ss_cell x = Some k" "get (s_cells s) k = Some r" using assms unfolding in_force_def by blast
  have "met k s {r}" using r by (auto simp: met_def cores_def core_def)
  moreover have "installing k f s [] {r}" using r by (simp add: installing_def newest_def)
  moreover have "handler_ok s {r} (HLoad None)" by simp
  ultimately show ?thesis unfolding race_inv_def prod.case by blast
qed

interpretation handover: step_invariant "race k f" "\<lambda>c. \<exists>s. c = (s, [], HLoad None) \<and> in_force k f s" "race_inv k f" for k f
  by unfold_locales (auto intro: in_force_inv race_keeps)

lemma race_reach:
  assumes "in_force k f s0" "(race k f)\<^sup>*\<^sup>* (s0, [], HLoad None) c"
  shows "race_inv k f c"
  using handover.reach_inv [OF assms(2)] assms(1) by blast

text \<open>With no store in between, a handler ends, at a subscription that is live.\<close>

definition finds_live :: "cell_ref \<Rightarrow> session_subs \<Rightarrow> hpc \<Rightarrow> bool" where
  "finds_live k s h \<longleftrightarrow>
    (\<exists>n cur x. (deliverable_step k s ^^ n) h = HDone (Some cur) \<and> get (s_mem s) cur = Some x \<and> ss_live x)"

lemma finds_live_step: "finds_live k s (deliverable_step k s h) \<Longrightarrow> finds_live k s h"
  unfolding finds_live_def by (metis comp_apply funpow_Suc_right)

lemma finds_live_done: "get (s_mem s) cur = Some x \<Longrightarrow> ss_live x \<Longrightarrow> finds_live k s (HDone (Some cur))"
  unfolding finds_live_def by (metis funpow_0)

lemma follow_ends:
  assumes m: "met k s C" and h: "handler_ok s C (HFollow r prev)" "card (later s r) \<le> n"
  shows "finds_live k s (HFollow r prev)"
  using h
proof (induction n arbitrary: r)
  case 0
  then have "r \<in> C" by simp
  then obtain g l rb where "cores s r = Some (g, l, rb)" by (rule metE [OF m])
  then have "r \<in> later s r" by (auto simp: later_def in_keys cores_def)
  then show ?case using 0(2) card_0_eq [OF finite_later, of s r] by simp
next
  case (Suc n)
  have "r \<in> C" using Suc(2) by simp
  then obtain g l rb where c: "cores s r = Some (g, l, rb)" "\<And>r'. rb = Some r' \<Longrightarrow> r < r' \<and> r' \<in> C" "rb = None \<Longrightarrow> l"
    using metE [OF m] by metis
  then obtain x where x: "get (s_mem s) r = Some x" "ss_replacedBy x = rb" "ss_live x = l" by (auto simp: cores_def core_def)
  show ?case
  proof (cases rb)
    case None
    have "finds_live k s (HLive r)"
      by (rule finds_live_step) (use x None c(3) finds_live_done in simp)
    moreover have "prev \<noteq> Some r" using Suc(2) by auto
    ultimately show ?thesis using x None by (intro finds_live_step [of k s "HFollow r prev"]) simp
  next
    case (Some q)
    then have q: "r < q" "q \<in> C" using c(2) by blast+
    have "r \<in> later s r" "r \<notin> later s q" "later s q \<subseteq> later s r" using q(1) x(1) by (auto simp: later_def in_keys)
    then have "card (later s q) < card (later s r)" by (intro psubset_card_mono [OF finite_later]) blast
    then have "card (later s q) \<le> n" using Suc(3) by simp
    moreover have "handler_ok s C (HFollow q prev)" using Suc(2) q by (auto split: option.splits)
    ultimately have "finds_live k s (HFollow q prev)" using Suc(1) by blast
    then show ?thesis using x Some by (intro finds_live_step [of k s "HFollow r prev"]) simp
  qed
qed

lemma handler_ends:
  assumes m: "met k s C" and h: "handler_ok s C h" "\<And>res. h \<noteq> HDone res"
  shows "finds_live k s h"
proof -
  have load: "finds_live k s (HLoad prev)" if "handler_ok s C (HLoad prev)" for prev
  proof -
    obtain q where "get (s_cells s) k = Some q" using met_cell [OF m] by metis
    then have e: "deliverable_step k s (HLoad prev) = HFollow q prev" by simp
    then have "finds_live k s (HFollow q prev)" using handler_keeps [OF m that] by (intro follow_ends [OF m _ order_refl]) simp
    then show ?thesis by (intro finds_live_step [of k s "HLoad prev"]) (simp only: e)
  qed
  show ?thesis
  proof (cases h)
    case (HLive cur)
    then have "cur \<in> C" using h(1) by simp
    then obtain g l rb where "cores s cur = Some (g, l, rb)" by (rule metE [OF m])
    then obtain x where x: "get (s_mem s) cur = Some x" by (auto simp: cores_def)
    have "finds_live k s (deliverable_step k s (HLive cur))"
    proof (cases "ss_live x")
      case True
      then show ?thesis using x finds_live_done by simp
    next
      case False
      then show ?thesis using x load handler_keeps [OF m h(1)] by (simp add: HLive)
    qed
    then show ?thesis unfolding HLive by (rule finds_live_step)
  qed (use h load follow_ends [OF m _ order_refl] in auto)
qed

section \<open>A run\<close>

text \<open>For the witnesses: a subscription is replaced after the handler has found it and before it has looked whether it is
  live.\<close>

lemma race_handlers: "(race k f)\<^sup>*\<^sup>* (s, st, h) (s, st, (deliverable_step k s ^^ n) h)"
  by (induction n) (auto intro: rtranclp.rtrancl_into_rtrancl race_handler)

lemma race_stores: "(race k f)\<^sup>*\<^sup>* (s, st, h) (fold do_store st s, [], h)"
  by (induction st arbitrary: s) (auto intro: converse_rtranclp_into_rtranclp race_store)

definition sample_entry :: "bool \<Rightarrow> nat list \<Rightarrow> cell_ref option \<Rightarrow> session_sub" where
  "sample_entry live ns cell = \<lparr>ss_filter = ''a'', ss_subject = ''a'', ss_share = [], ss_opts = \<lparr>sb_Filter = ''a'', sb_QoS = 1,
     sb_NoLocal = False, sb_RetainAsPublished = False, sb_RetainHandling = 0\<rparr>, ss_grantedQoS = 1, ss_id = 0,
     ss_natsSubs = ns, ss_live = live, ss_replacedBy = None, ss_cell = cell, ss_since = 4\<rparr>"

definition sample_session :: session_subs where
  "sample_session = \<lparr>s_clientID = ''c'', s_instance = ''i'', s_holds = False, s_identity = [], s_username = [],
     s_conn = Some 1, s_expirySeconds = 60, s_disconnectedAt = zeroTime, s_discarded = False, s_nextPacketID = 0,
     s_inflight = [], s_deadBlobs = [], s_sendSeq = 0, s_receivedQoS2 = [], s_qos2Forwarding = [], s_publishIDs = None,
     s_withdrawn = [], s_attaches = 1, s_resent = [], s_subs = [(''a'', 0)],
     s_mem = [(0, sample_entry True [7] (Some 0))], s_cells = [(0, 0)]\<rparr>"

definition sample_allocated :: session_subs where
  "sample_allocated = sample_session\<lparr>s_mem := AList.update 1 (sample_entry False [] None) (s_mem sample_session)\<rparr>"

definition sample_taken :: session_subs where
  "sample_taken = (take_over 1 (sample_entry False [] None) (Some (0, sample_entry True [7] (Some 0))) sample_allocated)
     \<lparr>s_subs := AList.update ''a'' 1 (s_subs sample_allocated)\<rparr>"

definition sample_stores :: "store list" where
  "sample_stores = [SetLive 1 True, SetReplacedBy 0 1, SetCell 0 1, SetLive 0 False]"

lemma funpow_4: "(g ^^ 4) h = g (g (g (g h)))"
  by (simp add: eval_nat_numeral)

lemma sample_keepsSince: "keepsSince (sample_entry True [7] (Some 0)) (sample_entry False [] None)"
  by (simp add: keepsSince_def sample_entry_def sinceUnknown_def)

lemma sample_in_force: "in_force 0 ''a'' sample_session"
  by (simp add: in_force_def sample_session_def sample_entry_def)

lemma sample_install: "race 0 ''a'' (sample_allocated, [], h) (sample_taken, sample_stores, h)"
  by (rule race_install [where r = 1 and x = "sample_entry False [] None" and p = 0 and y = "sample_entry True [7] (Some 0)"])
    (auto simp: sample_allocated_def sample_session_def sample_taken_def sample_stores_def sample_entry_def old_sub_def
      deref_def bound_def install_stores_def cores_def core_def split: if_splits)

lemma sample_race:
  "(race 0 ''a'')\<^sup>*\<^sup>* (sample_session, [], HLoad None) (fold do_store sample_stores sample_taken, [], HDone (Some 1))"
proof -
  have "(deliverable_step 0 sample_session ^^ 2) (HLoad None) = HLive 0"
    by (simp add: eval_nat_numeral sample_session_def sample_entry_def)
  then have "(race 0 ''a'')\<^sup>*\<^sup>* (sample_session, [], HLoad None) (sample_session, [], HLive 0)"
    using race_handlers [of 0 "''a''" sample_session "[]" "HLoad None" 2] by simp
  also have "race 0 ''a'' (sample_session, [], HLive 0) (sample_allocated, [], HLive 0)"
    unfolding sample_allocated_def by (rule race_alloc) (simp_all add: sample_session_def sample_entry_def)
  also have "race 0 ''a'' (sample_allocated, [], HLive 0) (sample_taken, sample_stores, HLive 0)" by (rule sample_install)
  also have "(race 0 ''a'')\<^sup>*\<^sup>* (sample_taken, sample_stores, HLive 0) (fold do_store sample_stores sample_taken, [], HLive 0)"
    by (rule race_stores)
  also have "(deliverable_step 0 (fold do_store sample_stores sample_taken) ^^ 4) (HLive 0) = HDone (Some 1)"
    by (simp add: funpow_4 sample_stores_def sample_taken_def sample_allocated_def sample_session_def take_over_def
        sample_keepsSince Let_def) (simp add: sample_entry_def)
  then have "(race 0 ''a'')\<^sup>*\<^sup>* (fold do_store sample_stores sample_taken, [], HLive 0)
      (fold do_store sample_stores sample_taken, [], HDone (Some 1))"
    using race_handlers [of 0 "''a''" "fold do_store sample_stores sample_taken" "[]" "HLive 0" 4] by simp
  finally show ?thesis .
qed

section \<open>Properties\<close>

text \<open>C23: replacing a subscription loses no message [MQTT-3.8.4-4]. However the loads of the NATS handler interleave
  with the stores of any number of SUBSCRIBEs that replace the subscription, the handler does not conclude that there
  is none: whenever it is done, it has one to deliver through.\<close>

theorem replacing_loses_no_message:
  assumes "in_force k f s0" "(race k f)\<^sup>*\<^sup>* (s0, [], HLoad None) (s, st, HDone res)"
  shows "res \<noteq> None"
  using race_reach [OF assms] by (auto simp: race_inv_def)

theorem replacing_loses_no_message_witness:
  "in_force 0 ''a'' sample_session \<and>
   (race 0 ''a'')\<^sup>*\<^sup>* (sample_session, [], HLoad None) (fold do_store sample_stores sample_taken, [], HDone (Some 1)) \<and>
   Some 1 \<noteq> (None :: sub_ref option)"
  using replacing_loses_no_message [OF sample_in_force sample_race] sample_in_force sample_race by blast

text \<open>C24: and it ends. From wherever the interleaving has taken it, once the stores pause, a bounded number of loads
  brings the handler to a subscription that is live.\<close>

theorem handler_finds_live:
  assumes "in_force k f s0" "(race k f)\<^sup>*\<^sup>* (s0, [], HLoad None) (s, st, h)"
  shows "(\<exists>cur. h = HDone (Some cur)) \<or>
    (\<exists>n cur x. (deliverable_step k s ^^ n) h = HDone (Some cur) \<and> get (s_mem s) cur = Some x \<and> ss_live x)"
proof -
  from race_reach [OF assms]
  obtain C where C: "met k s C" "handler_ok s C h" by (auto simp: race_inv_def)
  show ?thesis
  proof (cases "\<exists>res. h = HDone res")
    case False
    then show ?thesis using handler_ends [OF C] unfolding finds_live_def by blast
  qed (use C(2) in auto)
qed

theorem handler_finds_live_witness:
  "in_force 0 ''a'' sample_session \<and>
   (\<exists>n cur x. (deliverable_step 0 sample_session ^^ n) (HLive 0) = HDone (Some cur) \<and>
      get (s_mem sample_session) cur = Some x \<and> ss_live x)"
proof -
  have "(deliverable_step 0 sample_session ^^ 2) (HLoad None) = HLive 0"
    by (simp add: eval_nat_numeral sample_session_def sample_entry_def)
  then have "(race 0 ''a'')\<^sup>*\<^sup>* (sample_session, [], HLoad None) (sample_session, [], HLive 0)"
    using race_handlers [of 0 "''a''" sample_session "[]" "HLoad None" 2] by simp
  from handler_finds_live [OF sample_in_force this] sample_in_force show ?thesis by simp
qed

end
