(* ===== verification/Subscribe.thy ===== *)
theory Subscribe
  imports Session_Subs Conn_Write
begin

text \<open>
  SUBSCRIBE and UNSUBSCRIBE: \<^verbatim>\<open>src/subscribe.go\<close>. The Authorizer (\<^verbatim>\<open>src/options.go\<close> declares its interface) is a
  parameter, and so is what \<^verbatim>\<open>nats.go\<close> answers to a subscription: the numbers of the NATS subscriptions made, or
  \<open>None\<close> when one failed. A call of \<^verbatim>\<open>Broker.leaveGroup\<close> is returned in a list of filters.
\<close>

section \<open>Options and the Authorizer\<close>

record broker_opts =
  bo_codec :: subjectCodec
  bo_maxQoS :: QoS
  bo_RestrictDollarTopics :: bool
  bo_SubjectPrefix :: string
  bo_SharedQoS2 :: bool
  bo_PublisherClockExpiry :: bool
  bo_DurablePublish :: bool
  bo_DurablePublishDedupe :: bool

datatype Action = ActionPublish | ActionSubscribe

record AuthzRequest =
  az_Action :: Action
  az_Resume :: bool
  az_Will :: bool
  az_ClientID :: string
  az_Identity :: string
  az_Username :: string
  az_Topic :: string
  az_QoS :: QoS
  az_Retain :: bool

text \<open>The answer of an Authorizer: a nil error, \<^verbatim>\<open>ErrAuthorizerUnavailable\<close>, or another error.\<close>

datatype verdict = Allow | Deny | Unavailable

type_synonym authorizer = "(AuthzRequest \<Rightarrow> verdict) option"

definition authorize :: "authorizer \<Rightarrow> AuthzRequest \<Rightarrow> verdict" where
  "authorize a req = (case a of None \<Rightarrow> Allow | Some f \<Rightarrow> f req)"

section \<open>One filter\<close>

definition grantedQoS :: "broker_opts \<Rightarrow> string \<Rightarrow> QoS \<Rightarrow> QoS" where
  "grantedQoS B share q =
    (let granted = (if bo_maxQoS B < q then bo_maxQoS B else q) in
     if share \<noteq> [] \<and> granted = QoS2 \<and> \<not> bo_SharedQoS2 B then QoS1 else granted)"

definition new_sub :: "subscription \<Rightarrow> string \<Rightarrow> string \<Rightarrow> QoS \<Rightarrow> int \<Rightarrow> session_sub" where
  "new_sub want full share granted subID = \<lparr>ss_filter = sb_Filter want, ss_subject = full, ss_share = share,
     ss_opts = want, ss_grantedQoS = granted, ss_id = subID, ss_natsSubs = [], ss_live = False, ss_replacedBy = None,
     ss_cell = None, ss_since = sinceUnknown\<rparr>"

type_synonym 's sub_result = "((sub_ref option \<times> bool \<times> ReasonCode) \<times> string list \<times> 's) res"

text \<open>From the answer of \<^verbatim>\<open>installSubscription\<close> on: a refused subscription is taken down, and the NATS
  subscriptions a replaced one still has are drained.\<close>

definition finish_subscribe :: "sub_ref \<Rightarrow> subscription \<Rightarrow> QoS \<Rightarrow>
    ((sub_ref option \<times> bool \<times> bool) \<times> 'a session_subs_scheme) res \<Rightarrow> 'a session_subs_scheme sub_result" where
  "finish_subscribe r want granted res =
    rbind res (\<lambda>((old, installed, _), s).
      if \<not> installed then Inr ((None, False, UnspecifiedError), [sb_Filter want], unsubscribeAll r s)
      else Inr ((Some r, old \<noteq> None, granted), [],
        case old of None \<Rightarrow> s | Some p \<Rightarrow> unsubscribeAll p s))"

definition bindFailed :: "subscription \<Rightarrow> 'a session_subs_scheme \<Rightarrow> 'a session_subs_scheme sub_result" where
  "bindFailed want s = Inr ((None, False, ImplementationSpecificError), [sb_Filter want], s)"

text \<open>Making the NATS subscriptions of \<open>r\<close>, with the new cell \<open>k\<close>, and installing it.\<close>

definition bind_install :: "conn_ref \<Rightarrow> sub_ref \<Rightarrow> cell_ref \<Rightarrow> nat list option \<Rightarrow> subscription \<Rightarrow> QoS \<Rightarrow>
    'a session_subs_scheme \<Rightarrow> 'a session_subs_scheme sub_result" where
  "bind_install c r k ns want granted s =
    (case ns of
       None \<Rightarrow> bindFailed want s
     | Some ns \<Rightarrow> finish_subscribe r want granted (installSubscription c r (bind_sub r k ns s)))"

definition sub_request :: "'a session_subs_scheme \<Rightarrow> subscription \<Rightarrow> AuthzRequest" where
  "sub_request s want = \<lparr>az_Action = ActionSubscribe, az_Resume = False, az_Will = False, az_ClientID = s_clientID s,
     az_Identity = s_identity s, az_Username = s_username s, az_Topic = sb_Filter want, az_QoS = sb_QoS want,
     az_Retain = False\<rparr>"

text \<open>The subscription, with whether it replaced one, and the reason code. \<open>r\<close> is the address of the new subscription
  and \<open>k\<close> that of its cell.\<close>

definition subscribeOne :: "broker_opts \<Rightarrow> authorizer \<Rightarrow> conn_ref \<Rightarrow> sub_ref \<Rightarrow> cell_ref \<Rightarrow> nat list option \<Rightarrow>
    subscription \<Rightarrow> int \<Rightarrow> 'a session_subs_scheme \<Rightarrow> 'a session_subs_scheme sub_result" where
  "subscribeOne B authz c r k ns want subID s =
    (let refuse = (\<lambda>code. Inr ((None, False, code), [], s)) in
     if codec_validateFilter (bo_codec B) (sb_Filter want) \<noteq> Inr () then refuse TopicFilterInvalid
     else case SplitShared (sb_Filter want) of
       Inl _ \<Rightarrow> refuse TopicFilterInvalid
     | Inr (share, _) \<Rightarrow>
         if bo_RestrictDollarTopics B \<and> dollarFilter (sb_Filter want) then refuse TopicFilterInvalid
         else case authorize authz (sub_request s want) of
           Unavailable \<Rightarrow> refuse ImplementationSpecificError
         | Deny \<Rightarrow> refuse NotAuthorized
         | Allow \<Rightarrow>
             (case codec_filterToSubject (bo_codec B) (sb_Filter want) of
                Inl _ \<Rightarrow> refuse TopicFilterInvalid
              | Inr subject \<Rightarrow>
                  let granted = grantedQoS B share (sb_QoS want);
                      sub = new_sub want (Prefix (bo_SubjectPrefix B) subject) share granted subID;
                      s = s\<lparr>s_mem := AList.update r sub (s_mem s)\<rparr>
                  in
                  rbind (if share = [] then holdsBound s (sb_Filter want) else Inr False) (\<lambda>held.
                  if held then
                    rbind (installSubscription c r s) (\<lambda>((old, installed, rebind), s).
                    if rebind then bind_install c r k ns want granted s
                    else finish_subscribe r want granted (Inr ((old, installed, rebind), s)))
                  else bind_install c r k ns want granted s)))"

definition queueGroup :: "session_sub \<Rightarrow> string" where
  "queueGroup sub = ''mqtt5.'' @ ss_share sub @ ''.'' @ ss_subject sub"

section \<open>UNSUBSCRIBE\<close>

text \<open>The loop over the filters: the reason codes, whether one was removed, and the groups left; \<open>Inl\<close> when the
  connection has lost the session.\<close>

fun unsubscribe_loop :: "conn_ref \<Rightarrow> string list \<Rightarrow> 'a session_subs_scheme \<Rightarrow>
    go_error option \<times> (ReasonCode list \<times> bool \<times> string list) \<times> 'a session_subs_scheme" where
  "unsubscribe_loop c [] s = (None, ([], False, []), s)"
| "unsubscribe_loop c (f # fs) s =
    (let ((sub, owner), s) = removeSubscriptionFor c f s in
     if \<not> owner then (Some ErrConnClosed, ([], False, []), s)
     else case sub of
       None \<Rightarrow>
         let (err, (codes, removed, left), s) = unsubscribe_loop c fs s in
         (err, (NoSubscriptionExisted # codes, removed, left), s)
     | Some r \<Rightarrow>
         let (err, (codes, removed, left), s) = unsubscribe_loop c fs (unsubscribeAll r s) in
         (err, (Success # codes, True, f # left), s))"

text \<open>The error, whether the session is to be persisted, and the groups left.\<close>

definition handleUnsubscribe :: "bool \<Rightarrow> unsubscribe \<Rightarrow> 'c conn_write_scheme \<Rightarrow> 'a session_subs_scheme \<Rightarrow>
    (go_error option \<times> bool \<times> string list) \<times> 'c conn_write_scheme \<times> 'a session_subs_scheme" where
  "handleUnsubscribe ok p c s =
    (let (err, (codes, removed, left), s) = unsubscribe_loop (c_ref c) (un_Filters p) s in
     case err of
       Some e \<Rightarrow> ((Some e, False, left), c, s)
     | None \<Rightarrow>
         let (err, c) = conn_write_op ok (Unsuback \<lparr>rl_PacketID = un_PacketID p, rl_Properties = None, rl_ReasonCodes = codes\<rparr>) c in
         ((err, removed, left), c, s))"

section \<open>What a subscription delivers\<close>

definition minQoS :: "QoS \<Rightarrow> QoS \<Rightarrow> QoS" where
  "minQoS a b = (if a < b then a else b)"

text \<open>\<^verbatim>\<open>strconv.ParseUint\<close> returns the largest value with its error when the number is out of range, 0 with any other.\<close>

definition queueSeq :: "'h header_ops \<Rightarrow> 'h nats_msg \<Rightarrow> u64" where
  "queueSeq H msg =
    (case m_Header msg of
       None \<Rightarrow> 0
     | Some h \<Rightarrow>
         let v = h_Get H h hdrQueueSeq in
         if v = [] then 0
         else case parse_digits 0 v of None \<Rightarrow> 0 | Some n \<Rightarrow> if n < 2 ^ 64 then of_nat n else - 1)"

definition messageID :: "'h header_ops \<Rightarrow> 'h nats_msg \<Rightarrow> string" where
  "messageID H msg = (case m_Header msg of None \<Rightarrow> [] | Some h \<Rightarrow> h_Get H h hdrMsgID)"

text \<open>\<open>now\<close> is the time of the call.\<close>

definition deliveryFor :: "broker_opts \<Rightarrow> 'h header_ops \<Rightarrow> time \<Rightarrow> string \<Rightarrow> sub_ref \<Rightarrow> session_sub \<Rightarrow> string \<Rightarrow> 'h nats_msg \<Rightarrow> delivery option" where
  "deliveryFor B H now clientID r sub topicName msg =
    (let (qos, retain, origin, props) = fromNATS H msg in
     if sb_NoLocal (ss_opts sub) \<and> origin = clientID then None
     else Some \<lparr>d_sub = Some r, d_id = messageID H msg, d_seq = queueSeq H msg, d_topic = topicName,
       d_payload = m_Data msg, d_qos = minQoS qos (ss_grantedQoS sub),
       d_retain = (sb_RetainAsPublished (ss_opts sub) \<and> retain),
       d_props = Some (if ss_id sub \<noteq> 0 then props\<lparr>SubscriptionIdentifiers := [ss_id sub]\<rparr> else props),
       d_arrived = arrivedAt H msg now (bo_PublisherClockExpiry B), d_expiry = None, d_quotaHeld = False,
       d_ackSubject = [], d_held = False, d_recordSeq = 0\<rparr>)"

definition deliveryOf :: "broker_opts \<Rightarrow> 'h header_ops \<Rightarrow> time \<Rightarrow> string \<Rightarrow> sub_ref \<Rightarrow> session_sub \<Rightarrow> 'h nats_msg \<Rightarrow> delivery option" where
  "deliveryOf B H now clientID r sub msg =
    (case TrimPrefix (bo_SubjectPrefix B) (m_Subject msg) of
       None \<Rightarrow> None
     | Some subject \<Rightarrow>
         let topicName = codec_subjectToName (bo_codec B) subject in
         if Match (ss_filter sub) topicName then deliveryFor B H now clientID r sub topicName msg else None)"

section \<open>The subscription set stays consistent\<close>

lemma install_total:
  assumes ok: "subs_ok s" and x: "get (s_mem s) r = Some x" "\<not> ss_live x"
    and cell: "ss_natsSubs x \<noteq> [] \<Longrightarrow> ss_cell x \<noteq> None"
  obtains old installed rebind s' where "installSubscription c r s = Inr ((old, installed, rebind), s')"
    "\<not> installed \<Longrightarrow> s' = s"
proof (cases "s_conn s = Some c")
  case False
  then show ?thesis using that by (simp add: installSubscription_def)
next
  case conn: True
  show ?thesis
  proof (rule old_sub_ok [OF ok, of "ss_filter x"])
    assume "get (s_subs s) (ss_filter x) = None" "old_sub s (ss_filter x) = Inr None"
    then show ?thesis using conn x that
      by (cases "ss_natsSubs x = []") (simp_all add: installSubscription_def deref_def take_over_def install_stores_def)
  next
    fix p y
    assume o: "get (s_subs s) (ss_filter x) = Some p" "get (s_mem s) p = Some y" "old_sub s (ss_filter x) = Inr (Some (p, y))"
    have pr: "p \<noteq> r" using subs_okD(1) [OF ok o(1)] x by (auto simp: cores_def core_def)
    show ?thesis
    proof (cases "ss_natsSubs x = [] \<and> \<not> bound y")
      case True
      then show ?thesis
        using conn x(1) o(3) by (intro that [of None False True s]) (simp_all add: installSubscription_def deref_def)
    next
      case False
      let ?s = "(take_over r x (Some (p, y)) s)\<lparr>s_subs := AList.update (ss_filter x) r (s_subs s)\<rparr>"
      have "\<exists>z k. get (s_mem ?s) r = Some z \<and> ss_cell z = Some k"
        using x(1) pr False cell by (auto simp: take_over_def Let_def bound_def)
      then obtain z k where z: "deref ?s r = Inr z" "ss_cell z = Some k" by (auto simp: deref_def)
      have "installSubscription c r s = Inr ((Some p, True, False),
          fold do_store [SetLive r True, SetReplacedBy p r, SetCell k r, SetLive p False] ?s)"
        using conn x(1) o(3) z unfolding installSubscription_def deref_def [of s]
        by (simp add: if_not_P [OF False] install_stores_def Let_def)
      then show ?thesis by (rule that) simp
    qed
  qed
qed

lemma cores_alloc: "cores (s\<lparr>s_mem := AList.update r x (s_mem s)\<rparr>) = (cores s)(r \<mapsto> core x)"
  by (rule ext) (simp add: cores_def)

lemma alloc_ok:
  assumes "subs_ok s" "cores s r = None" "core x = (f, False, None)"
  shows "subs_ok (s\<lparr>s_mem := AList.update r x (s_mem s)\<rparr>)"
  unfolding subs_ok_def cores_alloc assms(3)
proof (intro conjI allI impI)
  fix g q assume "get (s_subs (s\<lparr>s_mem := AList.update r x (s_mem s)\<rparr>)) g = Some q"
  then have "cores s q = Some (g, True, None)" by (intro subs_okD(1) [OF assms(1)]) simp
  then show "((cores s)(r \<mapsto> (f, False, None))) q = Some (g, True, None)" using assms(2) by auto
next
  fix g q rb assume "((cores s)(r \<mapsto> (f, False, None))) q = Some (g, True, rb)"
  then have "cores s q = Some (g, True, rb)" by (auto split: if_splits)
  then show "get (s_subs (s\<lparr>s_mem := AList.update r x (s_mem s)\<rparr>)) g = Some q"
    using subs_okD(2) [OF assms(1)] by simp
next
  fix g q l q' assume "((cores s)(r \<mapsto> (f, False, None))) q = Some (g, l, Some q')"
  then have a: "cores s q = Some (g, l, Some q')" by (auto split: if_splits)
  show "q < q'" by (rule subs_okD(3) [OF assms(1) a])
  obtain l' rb where "cores s q' = Some (g, l', rb)" using subs_okD(4) [OF assms(1) a] by blast
  then show "\<exists>l' rb. ((cores s)(r \<mapsto> (f, False, None))) q' = Some (g, l', rb)" using assms(2) by (cases "q' = r") auto
qed

lemma unsubscribeAll_ok [simp]: "subs_ok (unsubscribeAll r s) = subs_ok s"
  by (rule subs_ok_cong) (simp_all add: unsubscribeAll_def cores_irrelevant core_def)

text \<open>A fresh subscription, as \<^verbatim>\<open>subscribeOne\<close> has it before it is installed.\<close>

definition fresh_sub :: "sub_ref \<Rightarrow> 'a session_subs_scheme \<Rightarrow> bool" where
  "fresh_sub r s \<longleftrightarrow> subs_ok s \<and> (\<exists>f. cores s r = Some (f, False, None)) \<and> (\<forall>q. cores s q \<noteq> None \<longrightarrow> q \<le> r)"

lemma fresh_mem: "fresh_sub r s \<Longrightarrow> \<exists>x. get (s_mem s) r = Some x \<and> \<not> ss_live x \<and> ss_replacedBy x = None"
  by (auto simp: fresh_sub_def cores_def core_def)

lemma fresh_install:
  assumes "fresh_sub r s" "installSubscription c r s = Inr ((old, installed, rebind), s')"
  shows "subs_ok s' \<and> (installed \<or> s' = s)"
proof (cases installed)
  case True
  obtain x where x: "get (s_mem s) r = Some x" "\<not> ss_live x" "ss_replacedBy x = None" using fresh_mem [OF assms(1)] by blast
  have i: "installSubscription c r s = Inr ((old, True, rebind), s')" using assms(2) True by simp
  have "subs_ok s'" by (rule install_ok [OF _ x _ i]) (use assms(1) in \<open>auto simp: fresh_sub_def\<close>)
  then show ?thesis using True by simp
next
  case False
  then have "s' = s" using assms(2)
    by (auto simp: installSubscription_def rbind_Inr_iff Let_def split: if_splits)
  then show ?thesis using assms(1) by (simp add: fresh_sub_def)
qed

lemma finish_ok:
  assumes "finish_subscribe r want granted (Inr ((old, installed, rebind), s)) = Inr (res, left, s')" "subs_ok s"
  shows "subs_ok s'"
  using assms by (auto simp: finish_subscribe_def split: if_splits option.splits)

lemma bind_cores: "cores (bind_sub r k ns s) = cores s"
  by (simp add: bind_sub_def cores_irrelevant core_def)

lemma bind_fresh: "fresh_sub r s \<Longrightarrow> fresh_sub r (bind_sub r k ns s)"
  unfolding fresh_sub_def bind_cores by (subst subs_ok_cong [of "bind_sub r k ns s" s]) (simp_all add: bind_cores, simp add: bind_sub_def)

lemma bind_install_ok:
  assumes "fresh_sub r s"
  shows "\<exists>res left s'. bind_install c r k ns want granted s = Inr (res, left, s') \<and> subs_ok s'"
proof (cases ns)
  case None
  then show ?thesis using assms by (auto simp: bind_install_def bindFailed_def fresh_sub_def)
next
  case (Some ms)
  let ?s = "bind_sub r k ms s"
  have f: "fresh_sub r ?s" by (rule bind_fresh [OF assms])
  obtain y where "get (s_mem s) r = Some y" using fresh_mem [OF assms] by blast
  then obtain x where x: "get (s_mem ?s) r = Some x" "ss_cell x = Some k" by (simp add: bind_sub_def)
  have "\<not> ss_live x" using fresh_mem [OF f] x(1) by simp
  then obtain old installed rebind s' where i: "installSubscription c r ?s = Inr ((old, installed, rebind), s')"
    using install_total [of ?s r x] f x by (metis fresh_sub_def option.distinct(1))
  have "subs_ok s'" using fresh_install [OF f i] by blast
  then show ?thesis using Some i by (auto simp: bind_install_def finish_subscribe_def split: option.split)
qed

lemma subscribeOne_cases:
  obtains (refuse) code where "subscribeOne B authz c r k ns want subID s = Inr ((None, False, code), [], s)"
    | (go) share inner subject where "codec_validateFilter (bo_codec B) (sb_Filter want) = Inr ()" "SplitShared (sb_Filter want) = Inr (share, inner)"
        "\<not> (bo_RestrictDollarTopics B \<and> dollarFilter (sb_Filter want))" "authorize authz (sub_request s want) = Allow"
        "codec_filterToSubject (bo_codec B) (sb_Filter want) = Inr subject"
proof (cases "codec_validateFilter (bo_codec B) (sb_Filter want) = Inr ()")
  case False
  show ?thesis by (rule refuse [of TopicFilterInvalid]) (use False in \<open>simp add: subscribeOne_def Let_def\<close>)
next
  case v: True
  show ?thesis
  proof (cases "SplitShared (sb_Filter want)")
    case (Inl e)
    show ?thesis by (rule refuse [of TopicFilterInvalid]) (use v Inl in \<open>simp add: subscribeOne_def Let_def\<close>)
  next
    case sh: (Inr a)
    obtain share inner where a: "a = (share, inner)" by (cases a)
    show ?thesis
    proof (cases "bo_RestrictDollarTopics B \<and> dollarFilter (sb_Filter want)")
      case True
      show ?thesis by (rule refuse [of TopicFilterInvalid]) (use v sh a True in \<open>simp add: subscribeOne_def Let_def\<close>)
    next
      case d: False
      note d' = if_not_P [OF d]
      show ?thesis
      proof (cases "authorize authz (sub_request s want)")
        case Deny
        show ?thesis by (rule refuse [of NotAuthorized]) (use v sh a Deny in \<open>simp add: subscribeOne_def Let_def d'\<close>)
      next
        case Unavailable
        show ?thesis
          by (rule refuse [of ImplementationSpecificError]) (use v sh a Unavailable in \<open>simp add: subscribeOne_def Let_def d'\<close>)
      next
        case Allow
        show ?thesis
        proof (cases "codec_filterToSubject (bo_codec B) (sb_Filter want)")
          case (Inl e)
          show ?thesis by (rule refuse [of TopicFilterInvalid]) (use v sh a Allow Inl in \<open>simp add: subscribeOne_def Let_def d'\<close>)
        next
          case (Inr subject)
          then show ?thesis using go v sh a d Allow by blast
        qed
      qed
    qed
  qed
qed

lemma subscribeOne_ok:
  assumes "subs_ok s" "\<And>q. cores s q \<noteq> None \<Longrightarrow> q < r"
  shows "\<exists>res left s'. subscribeOne B authz c r k ns want subID s = Inr (res, left, s') \<and> subs_ok s'"
proof -
  show ?thesis
  proof (rule subscribeOne_cases [of B authz c r k ns want subID s], goal_cases refuse go)
    case (refuse code)
    then show ?thesis using assms(1) by blast
  next
    case (go share inner subject)
    let ?granted = "grantedQoS B share (sb_QoS want)"
    let ?sub = "new_sub want (Prefix (bo_SubjectPrefix B) subject) share ?granted subID"
    let ?s = "s\<lparr>s_mem := AList.update r ?sub (s_mem s)\<rparr>"
    have eq: "subscribeOne B authz c r k ns want subID s =
      rbind (if share = [] then holdsBound ?s (sb_Filter want) else Inr False) (\<lambda>held.
                  if held then
                    rbind (installSubscription c r ?s) (\<lambda>((old, installed, rebind), s).
                    if rebind then bind_install c r k ns want ?granted s
                    else finish_subscribe r want ?granted (Inr ((old, installed, rebind), s)))
                  else bind_install c r k ns want ?granted ?s)"
      using go(1,2,4,5) by (simp add: subscribeOne_def Let_def if_not_P [OF go(3)])
    have core: "core ?sub = (sb_Filter want, False, None)" by (simp add: new_sub_def core_def)
    have none: "cores s r = None" using assms(2) [of r] by blast
    have ok: "subs_ok ?s" by (rule alloc_ok [OF assms(1) none core])
    have f: "fresh_sub r ?s"
      using ok assms(2) by (auto simp: fresh_sub_def cores_alloc core less_imp_le)
    have "\<exists>held. holdsBound ?s (sb_Filter want) = Inr held"
      by (rule old_sub_ok [OF ok, of "sb_Filter want"]) (auto simp: holdsBound_def)
    then obtain held where held: "(if share = [] then holdsBound ?s (sb_Filter want) else Inr False) = Inr held"
      by (cases "share = []") auto
    show ?thesis
    proof (cases held)
      case False
      then show ?thesis using bind_install_ok [OF f] unfolding eq held by simp
    next
      case True
      have m: "get (s_mem ?s) r = Some ?sub" "\<not> ss_live ?sub" "ss_natsSubs ?sub = []" by (simp_all add: new_sub_def)
      obtain old installed rebind s' where i: "installSubscription c r ?s = Inr ((old, installed, rebind), s')"
        using install_total [OF ok m(1,2)] m(3) by metis
      note fi = fresh_install [OF f i]
      show ?thesis
      proof (cases rebind)
        case True
        have "\<not> installed" using i True by (auto simp: installSubscription_def rbind_Inr_iff Let_def split: if_splits)
        then have "s' = ?s" using fi by blast
        then show ?thesis using bind_install_ok [OF f] i True \<open>held\<close> unfolding eq held by simp
      next
        case False
        obtain res left s'' where fin: "finish_subscribe r want ?granted (Inr ((old, installed, rebind), s')) = Inr (res, left, s'')"
          by (cases installed) (simp_all add: finish_subscribe_def)
        then have "subs_ok s''" using finish_ok fi by blast
        then show ?thesis using fin i False \<open>held\<close> unfolding eq held by (cases res) auto
      qed
    qed
  qed
qed

text \<open>The subscription set of a session over its life. A new subscription has an address above all earlier ones.\<close>

inductive subs_step :: "session_subs \<Rightarrow> session_subs \<Rightarrow> bool" where
  step_subscribe: "(\<And>q. cores s q \<noteq> None \<Longrightarrow> q < r) \<Longrightarrow>
    subscribeOne B authz c r k ns want subID s = Inr (res, left, s') \<Longrightarrow> subs_step s s'"
| step_unsubscribe: "subs_step s (snd (removeSubscription f s))"
| step_connection: "subs_step s (s\<lparr>s_conn := c'\<rparr>)"

definition no_subs :: "session_subs \<Rightarrow> bool" where
  "no_subs s \<longleftrightarrow> s_subs s = [] \<and> s_mem s = []"

interpretation subscription_set: step_invariant subs_step no_subs subs_ok
proof
  fix s s' :: session_subs
  show "no_subs s \<Longrightarrow> subs_ok s" by (simp add: no_subs_def subs_ok_def cores_def)
  show "subs_step s s' \<Longrightarrow> subs_ok s \<Longrightarrow> subs_ok s'"
  proof (induction rule: subs_step.induct)
    case (step_subscribe s r B authz c k ns want subID res left s')
    from subscribeOne_ok [OF step_subscribe(3,1), of B authz c k ns want subID] step_subscribe(2) show ?case by auto
  next
    case (step_unsubscribe s f)
    then show ?case by (rule remove_ok)
  next
    case (step_connection s c')
    then show ?case using subs_ok_cong [of "s\<lparr>s_conn := c'\<rparr>" s] by simp
  qed
qed

definition sample_opts :: broker_opts where
  "sample_opts = \<lparr>bo_codec = \<lparr>escape = False\<rparr>, bo_maxQoS = 2, bo_RestrictDollarTopics = False,
     bo_SubjectPrefix = ''mqtt'', bo_SharedQoS2 = False, bo_PublisherClockExpiry = False, bo_DurablePublish = False,
     bo_DurablePublishDedupe = False\<rparr>"

text \<open>For the witnesses: a filter subscribed to twice.\<close>

definition empty_session :: session_subs where
  "empty_session = sample_session\<lparr>s_subs := [], s_mem := [], s_cells := []\<rparr>"

definition sample_want :: subscription where
  "sample_want = \<lparr>sb_Filter = ''a'', sb_QoS = 1, sb_NoLocal = False, sb_RetainAsPublished = False, sb_RetainHandling = 0\<rparr>"

definition sample_made :: "nat list \<Rightarrow> bool \<Rightarrow> sub_ref option \<Rightarrow> cell_ref option \<Rightarrow> session_sub" where
  "sample_made ns live rb cell = \<lparr>ss_filter = ''a'', ss_subject = ''mqtt.a'', ss_share = [], ss_opts = sample_want,
     ss_grantedQoS = 1, ss_id = 0, ss_natsSubs = ns, ss_live = live, ss_replacedBy = rb, ss_cell = cell, ss_since = sinceUnknown\<rparr>"

definition subscribed_once :: session_subs where
  "subscribed_once = empty_session\<lparr>s_subs := [(''a'', 0)], s_mem := [(0, sample_made [7] True None (Some 0))], s_cells := [(0, 0)]\<rparr>"

definition subscribed_twice :: session_subs where
  "subscribed_twice = empty_session\<lparr>s_subs := [(''a'', 1)],
     s_mem := [(0, sample_made [] False (Some 1) (Some 0)), (1, sample_made [7] True None (Some 0))], s_cells := [(0, 1)]\<rparr>"

lemma sample_granted: "new_sub sample_want (Prefix ''mqtt'' ''a'') [] (grantedQoS sample_opts [] 1) 0 = sample_made [] False None None"
  by (simp add: new_sub_def sample_made_def sample_want_def grantedQoS_def sample_opts_def Prefix_def)

lemma sample_filter:
  "codec_validateFilter (bo_codec sample_opts) ''a'' = Inr ()" "SplitShared ''a'' = Inr ([], ''a'')"
  "codec_filterToSubject (bo_codec sample_opts) ''a'' = Inr ''a''" "sb_Filter sample_want = ''a''" "sb_QoS sample_want = 1"
  "bo_SubjectPrefix sample_opts = ''mqtt''" "\<not> bo_RestrictDollarTopics sample_opts"
  by (simp_all add: sample_opts_def sample_want_def topic_eval)

lemmas subscribe_eval = bind_install_def finish_subscribe_def bind_sub_def holdsBound_def old_sub_def installSubscription_def
  deref_def set_sub_def take_over_def install_stores_def unsubscribeAll_def bound_def keepsSince_def

lemma first_subscribe:
  "subscribeOne sample_opts None 1 0 0 (Some [7]) sample_want 0 empty_session = Inr ((Some 0, False, 1), [], subscribed_once)"
  unfolding subscribeOne_def sample_filter authorize_def option.case Let_def
  by (simp add: sample_filter sample_granted)
    (simp add: subscribe_eval subscribed_once_def empty_session_def sample_session_def sample_made_def Let_def
      new_sub_def Prefix_def sample_filter grantedQoS_def sample_opts_def)

lemma second_subscribe:
  "subscribeOne sample_opts None 1 1 1 None sample_want 0 subscribed_once = Inr ((Some 1, True, 1), [], subscribed_twice)"
  unfolding subscribeOne_def sample_filter authorize_def option.case Let_def
  by (simp add: sample_filter sample_granted)
    (simp add: subscribe_eval subscribed_once_def subscribed_twice_def empty_session_def sample_session_def sample_made_def Let_def
      new_sub_def Prefix_def sample_filter grantedQoS_def sample_opts_def)

lemma sample_twice: "subs_step\<^sup>*\<^sup>* empty_session subscribed_twice" "no_subs empty_session"
proof -
  have "subs_step empty_session subscribed_once"
    by (rule step_subscribe [OF _ first_subscribe]) (simp add: empty_session_def sample_session_def cores_def)
  moreover have "subs_step subscribed_once subscribed_twice"
    by (rule step_subscribe [OF _ second_subscribe])
      (simp add: subscribed_once_def empty_session_def sample_session_def cores_def split: if_splits)
  ultimately show "subs_step\<^sup>*\<^sup>* empty_session subscribed_twice" by (rule converse_rtranclp_into_rtranclp [OF _ r_into_rtranclp])
  show "no_subs empty_session" by (simp add: no_subs_def empty_session_def)
qed

text \<open>C25: a message that waits for a subscription is still wanted exactly when the subscription now in its place, itself or
  the last of those that replaced it, is in the session: a replacement does not drop it [MQTT-3.8.4-4], an
  UNSUBSCRIBE does. The search ends within the number of subscriptions ever made.\<close>

theorem wanted_iff_held:
  assumes "subs_step\<^sup>*\<^sup>* s0 s" "no_subs s0" "get (s_mem s) r = Some x"
  shows "\<exists>e. latest (depth s) s r = Some e \<and> wanted (depth s) s r = Some (get (s_subs s) (ss_filter x) = Some e)"
proof -
  have "cores s r = Some (ss_filter x, ss_live x, ss_replacedBy x)" using assms(3) by (simp add: cores_def core_def)
  from chain [OF subscription_set.reach_inv [OF assms(1,2)] this later_depth] show ?thesis by blast
qed

theorem wanted_iff_held_witness:
  "latest (depth subscribed_twice) subscribed_twice 0 = Some 1 \<and> wanted (depth subscribed_twice) subscribed_twice 0 = Some True"
proof -
  have "get (s_mem subscribed_twice) 0 = Some (sample_made [] False (Some 1) (Some 0))"
    by (simp add: subscribed_twice_def)
  moreover have "latest (depth subscribed_twice) subscribed_twice 0 = Some 1" "get (s_subs subscribed_twice) ''a'' = Some 1"
    by (simp_all add: subscribed_twice_def empty_session_def sample_session_def sample_made_def depth_def eval_nat_numeral)
  ultimately show ?thesis using wanted_iff_held [OF sample_twice] by (fastforce simp: sample_made_def)
qed

text \<open>C26: subscribing never fails with a nil dereference, and the session holds for each filter the one live
  subscription that has it.\<close>

theorem subscribe_total:
  assumes "subs_step\<^sup>*\<^sup>* s0 s" "no_subs s0" "\<And>q. cores s q \<noteq> None \<Longrightarrow> q < r"
  shows "(\<exists>res. subscribeOne B authz c r k ns want subID s = Inr res) \<and>
    (\<forall>f q. get (s_subs s) f = Some q \<longleftrightarrow> (\<exists>x. get (s_mem s) q = Some x \<and> ss_filter x = f \<and> ss_live x))"
proof (intro conjI allI)
  note ok = subscription_set.reach_inv [OF assms(1,2)]
  show "\<exists>res. subscribeOne B authz c r k ns want subID s = Inr res" using subscribeOne_ok [OF ok assms(3)] by blast
  show "get (s_subs s) f = Some q \<longleftrightarrow> (\<exists>x. get (s_mem s) q = Some x \<and> ss_filter x = f \<and> ss_live x)" for f q
    using subs_okD(1,2) [OF ok] by (fastforce simp: cores_def core_def)
qed

theorem subscribe_total_witness:
  "\<exists>res. subscribeOne sample_opts None 1 2 2 None sample_want 0 subscribed_twice = Inr res"
proof -
  have "q < 2" if "cores subscribed_twice q \<noteq> None" for q
    using that by (simp add: subscribed_twice_def empty_session_def sample_session_def cores_def split: if_splits)
  from subscribe_total [OF sample_twice this] show ?thesis by blast
qed

lemma unsubscribe_subs:
  "s_conn s = Some c \<Longrightarrow> unsubscribe_loop c fs s = (err, (codes, removed, left), s') \<Longrightarrow>
    err = None \<and> s_conn s' = Some c \<and> length codes = length fs \<and>
    (\<forall>i < length fs. codes ! i = (if get (s_subs s) (fs ! i) \<noteq> None \<and> fs ! i \<notin> set (take i fs) then Success else NoSubscriptionExisted)) \<and>
    (\<forall>f. get (s_subs s') f = (if f \<in> set fs then None else get (s_subs s) f))"
proof (induction fs arbitrary: s err codes removed left s')
  case (Cons f fs)
  obtain t sub where t: "removeSubscriptionFor c f s = ((sub, True), t)" "s_conn t = Some c" "sub = get (s_subs s) f"
      "\<And>g. get (s_subs t) g = (if g = f then None else get (s_subs s) g)"
    using Cons(2) by (cases "get (s_subs s) f") (auto simp: removeSubscriptionFor_def removeSubscription_def)
  define u where "u = (case sub of None \<Rightarrow> t | Some r \<Rightarrow> unsubscribeAll r t)"
  have u: "s_conn u = Some c" "s_subs u = s_subs t"
    using t(2) by (simp_all add: u_def unsubscribeAll_def split: option.split)
  obtain err' codes' removed' left' where r: "unsubscribe_loop c fs u = (err', (codes', removed', left'), s')"
    "err = err'" "codes = (if sub = None then NoSubscriptionExisted else Success) # codes'"
    using Cons(3) t(1) by (auto simp: u_def split: option.splits prod.splits)
  note IH = Cons(1) [OF u(1) r(1), unfolded u(2)]
  show ?case
  proof (intro conjI allI impI)
    fix i assume "i < length (f # fs)"
    then show "codes ! i = (if get (s_subs s) ((f # fs) ! i) \<noteq> None \<and> (f # fs) ! i \<notin> set (take i (f # fs)) then Success else NoSubscriptionExisted)"
      using IH t(3,4) r(3) by (cases i) auto
  qed (use IH r(2,3) t(4) in auto)
qed simp

text \<open>C27: UNSUBSCRIBE answers each filter in its place: success for one the session held and has not been named before
  in the packet, 0x11 for any other. Afterwards the session holds what it held, less the filters named.\<close>

theorem unsubscribe_answers:
  assumes "s_conn s = Some (c_ref c)" "handleUnsubscribe ok p c s = ((err, removed, left), c', s')"
  shows "\<exists>codes. (err, c') = conn_write_op ok (Unsuback \<lparr>rl_PacketID = un_PacketID p, rl_Properties = None, rl_ReasonCodes = codes\<rparr>) c \<and>
    codes = map (\<lambda>i. if get (s_subs s) (un_Filters p ! i) \<noteq> None \<and> un_Filters p ! i \<notin> set (take i (un_Filters p)) then Success
      else NoSubscriptionExisted) [0..<length (un_Filters p)] \<and>
    (\<forall>f. get (s_subs s') f = (if f \<in> set (un_Filters p) then None else get (s_subs s) f))"
proof -
  obtain e codes rem lef t where l: "unsubscribe_loop (c_ref c) (un_Filters p) s = (e, (codes, rem, lef), t)"
    by (cases "unsubscribe_loop (c_ref c) (un_Filters p) s") auto
  note u = unsubscribe_subs [OF assms(1) l]
  then have "s' = t" "(err, c') = conn_write_op ok (Unsuback \<lparr>rl_PacketID = un_PacketID p, rl_Properties = None, rl_ReasonCodes = codes\<rparr>) c"
    using assms(2) l by (auto simp: handleUnsubscribe_def split: prod.splits)
  with u show ?thesis by (intro exI [of _ codes]) (auto intro!: nth_equalityI)
qed

theorem unsubscribe_answers_witness:
  "\<exists>c'. handleUnsubscribe True \<lparr>un_PacketID = 3, un_Properties = None, un_Filters = [''a'', ''b'', ''a'']\<rparr>
       (sample_conn\<lparr>c_ref := 1\<rparr>) subscribed_once = c' \<and> get (s_subs (snd (snd c'))) ''a'' = None"
proof -
  let ?p = "\<lparr>un_PacketID = 3, un_Properties = None, un_Filters = [''a'', ''b'', ''a'']\<rparr>"
  let ?c = "sample_conn\<lparr>c_ref := 1\<rparr>"
  obtain err removed left c' s' where h: "handleUnsubscribe True ?p ?c subscribed_once = ((err, removed, left), c', s')"
    by (metis prod.exhaust)
  have "s_conn subscribed_once = Some (c_ref ?c)" by (simp add: subscribed_once_def empty_session_def sample_session_def)
  from unsubscribe_answers [OF this h] have "get (s_subs s') ''a'' = None" by auto
  then show ?thesis using h by auto
qed

section \<open>A message reaches the subscriptions that match it\<close>


definition sample_sub :: session_sub where
  "sample_sub = new_sub \<lparr>sb_Filter = ''+'', sb_QoS = 2, sb_NoLocal = True, sb_RetainAsPublished = False,
     sb_RetainHandling = 0\<rparr> ''*'' [] 2 5"


end
