(* ===== verification/Record_Types.thy ===== *)
theory Record_Types
  imports Session_Subs
begin

text \<open>
  The durable record of a session as \<^verbatim>\<open>src/sessionstore.go\<close> has it, and the part of the session struct
  (\<^verbatim>\<open>src/session.go\<close>) that the replay of missed messages rests on. The fields ending in \<^verbatim>\<open>Was\<close> are never written to
  the store: they hand what a claim found to the connection that made it.
\<close>

section \<open>The session record\<close>

record storedSubscription =
  st_Filter :: string
  st_Opts :: subscription
  st_GrantedQoS :: QoS
  st_ID :: int
  st_SinceSeq :: u64

record storedWithdrawn =
  sw_ID :: u16
  sw_Owed :: ptype
  sw_Age :: u64

record storedInflight =
  si_ID :: u16
  si_QoS :: QoS
  si_Rel :: bool
  si_Seq :: u64
  si_Retain :: bool
  si_SubID :: int
  si_Ack :: string
  si_Pub :: bytes
  si_Blob :: string
  si_BlobAt :: time
  si_At :: time
  si_Exp :: "u32 option"

record storedDelivered =
  sd_ID :: string
  sd_Seq :: u64

record sessionRecord =
  sr_Version :: int
  sr_ClientID :: string
  sr_Owner :: string
  sr_Attached :: bool
  sr_Identity :: string
  sr_Username :: string
  sr_Subscriptions :: "storedSubscription list"
  sr_ExpirySeconds :: u32
  sr_ExpiresAt :: time
  sr_AwayAt :: time
  sr_AwayFromSeq :: u64
  sr_Delivered :: "storedDelivered list"
  sr_DeliveredSince :: time
  sr_AwayLateSeq :: u64
  sr_ReplayCursor :: u64
  sr_ReplayHoles :: "storedDelivered list"
  sr_Inflight :: "storedInflight list"
  sr_ReceivedQoS2 :: "u16 list"
  sr_Withdrawn :: "storedWithdrawn list"
  sr_Spill :: "string list"
  sr_DeliveredSpill :: "string list"
  sr_deliveredOver :: "storedDelivered list"
  sr_awayWas :: time
  sr_awayFromSeqWas :: u64
  sr_awayLateSeqWas :: u64
  sr_deliveredSinceWas :: time
  sr_deliveredWas :: "storedDelivered list"
  sr_replayCursorWas :: u64
  sr_replayHolesWas :: "storedDelivered list"
  sr_inflightWas :: "storedInflight list"
  sr_receivedQoS2Was :: "u16 list"
  sr_withdrawnWas :: "storedWithdrawn list"
  sr_spillWas :: "string list"
  sr_deliveredSpillWas :: "string list"

section \<open>The replay state of a session\<close>

record deliveredMark =
  dm_at :: time
  dm_seq :: u64

text \<open>\<open>cu_above\<close> is a Go \<^verbatim>\<open>int\<close>; it counts deliveries and is never negative.\<close>

record replayCursor =
  cu_next :: u64
  cu_holes :: "(u64, string) gomap"
  cu_holeAt :: "(string, u64) gomap"
  cu_gen :: u64
  cu_above :: nat
  cu_scanning :: bool
  cu_asked :: bool
  cu_pin :: u64
  cu_base :: u64

record away =
  aw_at :: time
  aw_restored :: bool
  aw_rewoundTo :: time
  aw_fromSeq :: u64
  aw_lateSeq :: u64

text \<open>Wills and their stored records are compared by pointer, so the session holds addresses.\<close>

type_synonym will_ref = nat
type_synonym lease_ref = nat

record session_replay = session_subs +
  s_awayAt :: time
  s_awayRestored :: bool
  s_awayRewoundTo :: time
  s_awayFromSeq :: u64
  s_awayLateSeq :: u64
  s_lateSeq :: u64
  s_delivered :: "(string, deliveredMark) gomap"
  s_maxDeliveredSeq :: u64
  s_cur :: replayCursor
  s_rewind :: duration
  s_unrestored :: "storedSubscription list"
  s_will :: "will_ref option"
  s_willDelay :: duration
  s_willConn :: "conn_ref option"
  s_willLease :: "lease_ref option"
  s_pendingWill :: "will_ref option"
  s_predecessor :: "conn_ref option"
  s_away :: "delivery list"
  s_awayLost :: bool
  s_rec :: "sessionRecord option"
  s_rev :: u64
  s_claimGen :: u64

definition zero_cursor :: replayCursor where
  "zero_cursor = \<lparr>cu_next = 0, cu_holes = [], cu_holeAt = [], cu_gen = 0, cu_above = 0, cu_scanning = False, cu_asked = False,
     cu_pin = 0, cu_base = 0\<rparr>"

definition newSession :: "string \<Rightarrow> string \<Rightarrow> session_replay" where
  "newSession clientID nuid =
    \<lparr>s_clientID = clientID, s_instance = nuid, s_holds = False, s_identity = [], s_username = [], s_conn = None,
     s_expirySeconds = 0, s_disconnectedAt = zeroTime, s_discarded = False, s_nextPacketID = 0, s_inflight = [], s_deadBlobs = [],
     s_sendSeq = 0, s_receivedQoS2 = [], s_qos2Forwarding = [], s_publishIDs = None, s_withdrawn = [], s_attaches = 0, s_resent = [],
     s_subs = [], s_mem = [], s_cells = [], s_awayAt = zeroTime, s_awayRestored = False, s_awayRewoundTo = zeroTime, s_awayFromSeq = 0,
     s_awayLateSeq = 0, s_lateSeq = 0, s_delivered = [], s_maxDeliveredSeq = 0, s_cur = zero_cursor, s_rewind = 0, s_unrestored = [], s_will = None, s_willDelay = 0, s_willConn = None, s_willLease = None,
     s_pendingWill = None, s_predecessor = None, s_away = [], s_awayLost = False,
     s_rec = None, s_rev = 0, s_claimGen = 0\<rparr>"

end
