(* ===== verification/Cursor.thy ===== *)
theory Cursor
  imports Record_Types Subscribe "HOL-Library.Product_Lexorder" "HOL-Library.List_Lexorder" "HOL-Library.Char_ord"
begin

text \<open>
  The replay cursor: \<^verbatim>\<open>src/cursor.go\<close> and the delivered ids of \<^verbatim>\<open>src/session.go\<close>. The bounds that are atomic
  variables there (tests change them) are the record \<open>bounds\<close>; \<open>flr\<close> stands for what \<^verbatim>\<open>conn.owedFloor\<close> answers,
  \<open>now\<close> for the clock. A method runs with \<^verbatim>\<open>s.mu\<close> (and \<^verbatim>\<open>cursorMu\<close>) held, so it is one step.
\<close>

section \<open>The cursor\<close>

record bounds =
  bd_scanAfter :: nat
  bd_idBound :: nat
  bd_maxHoles :: nat

definition deliveredSeqWindow :: u64 where
  "deliveredSeqWindow = 8192"

definition lowestSeq :: "u64 list \<Rightarrow> u64" where
  "lowestSeq seqs = fold (\<lambda>q lowest. if q \<noteq> 0 \<and> (lowest = 0 \<or> q < lowest) then q else lowest) seqs 0"

definition addHole :: "u64 \<Rightarrow> string \<Rightarrow> replayCursor \<Rightarrow> replayCursor" where
  "addHole seq mid r = r\<lparr>cu_holes := AList.update seq mid (cu_holes r), cu_holeAt := AList.update mid seq (cu_holeAt r)\<rparr>"

definition removeHole :: "string \<Rightarrow> replayCursor \<Rightarrow> replayCursor" where
  "removeHole mid r =
    (case get (cu_holeAt r) mid of
       None \<Rightarrow> r
     | Some seq \<Rightarrow> r\<lparr>cu_holeAt := AList.delete mid (cu_holeAt r), cu_holes := AList.delete seq (cu_holes r)\<rparr>)"

record cursorView =
  cv_next :: u64
  cv_holes :: "(u64, string) gomap"

definition view_start :: "cursorView \<Rightarrow> u64" where
  "view_start v = fold (\<lambda>(seq, _) start. if seq < start then seq else start) (cv_holes v) (cv_next v)"

definition view_stored :: "cursorView \<Rightarrow> storedDelivered list" where
  "view_stored v = sort_key sd_Seq (map (\<lambda>(seq, mid). \<lparr>sd_ID = mid, sd_Seq = seq\<rparr>) (cv_holes v))"

definition cursorViewLocked :: "'a session_replay_scheme \<Rightarrow> cursorView" where
  "cursorViewLocked s = \<lparr>cv_next = cu_next (s_cur s), cv_holes = cu_holes (s_cur s)\<rparr>"

definition cursorForReplay :: "'a session_replay_scheme \<Rightarrow> cursorView option" where
  "cursorForReplay s = (if cu_next (s_cur s) = 0 then None else Some (cursorViewLocked s))"

definition set_cur :: "(replayCursor \<Rightarrow> replayCursor) \<Rightarrow> 'a session_replay_scheme \<Rightarrow> 'a session_replay_scheme" where
  "set_cur f s = s\<lparr>s_cur := f (s_cur s)\<rparr>"

definition reset_cur :: "u64 \<Rightarrow> replayCursor \<Rightarrow> replayCursor" where
  "reset_cur n r = r\<lparr>cu_next := n, cu_holes := [], cu_holeAt := [], cu_gen := cu_gen r + 1, cu_above := 0, cu_pin := 0, cu_base := 0\<rparr>"

definition setCursorLocked :: "u64 \<Rightarrow> 'a session_replay_scheme \<Rightarrow> 'a session_replay_scheme" where
  "setCursorLocked n s = set_cur (reset_cur n) s"

definition windowSafeLocked :: "'a session_replay_scheme \<Rightarrow> u64 \<Rightarrow> bool" where
  "windowSafeLocked s seq \<longleftrightarrow> s_maxDeliveredSeq s = 0 \<or> s_maxDeliveredSeq s \<le> seq + deliveredSeqWindow"

definition dropCursorLocked :: "'a session_replay_scheme \<Rightarrow> 'a session_replay_scheme" where
  "dropCursorLocked s =
    (let s = set_cur (reset_cur 0) s;
         s = (if s_lateSeq s \<noteq> 0 \<and> \<not> windowSafeLocked s (s_lateSeq s) then s\<lparr>s_lateSeq := 0\<rparr> else s)
     in if s_awayLateSeq s \<noteq> 0 \<and> \<not> windowSafeLocked s (s_awayLateSeq s) then s\<lparr>s_awayLateSeq := 0\<rparr> else s)"

definition lateSeqSafeLocked :: "'a session_replay_scheme \<Rightarrow> u64 \<Rightarrow> bool" where
  "lateSeqSafeLocked s seq =
    (if cu_next (s_cur s) \<noteq> 0 then cu_next (s_cur s) \<le> seq \<or> get (cu_holes (s_cur s)) seq \<noteq> None
     else windowSafeLocked s seq)"

text \<open>Whether the cursor is still set.\<close>

definition addHoleLocked :: "bounds \<Rightarrow> u64 \<Rightarrow> string \<Rightarrow> 'a session_replay_scheme \<Rightarrow> bool \<times> 'a session_replay_scheme" where
  "addHoleLocked bd seq mid s =
    (if seq < cu_base (s_cur s) then (False, dropCursorLocked s)
     else if mid = [] then (False, dropCursorLocked s)
     else if get (s_delivered s) mid \<noteq> None then (True, s)
     else if get (cu_holes (s_cur s)) seq \<noteq> None then (True, s)
     else if bd_maxHoles bd \<le> length (cu_holes (s_cur s)) then (False, dropCursorLocked s)
     else (True, set_cur (addHole seq mid) s))"

text \<open>Whether the connection's activity is counted, and the session.\<close>

definition noteLiveCopy :: "bounds \<Rightarrow> u64 \<Rightarrow> string \<Rightarrow> 'a session_replay_scheme \<Rightarrow> bool \<times> 'a session_replay_scheme" where
  "noteLiveCopy bd seq mid s =
    (if seq \<noteq> 0 \<and> cu_next (s_cur s) \<noteq> 0 \<and> seq < cu_next (s_cur s)
     then (s_conn s \<noteq> None, snd (addHoleLocked bd seq mid s)) else (False, s))"

section \<open>Scans\<close>

definition sinceKnownLocked :: "'a session_replay_scheme \<Rightarrow> bool" where
  "sinceKnownLocked s \<longleftrightarrow> (\<forall>(_, r) \<in> set (s_subs s).
    case get (s_mem s) r of None \<Rightarrow> True | Some x \<Rightarrow> \<not> (ss_share x = [] \<and> ss_since x = sinceUnknown))"

record scanned =
  sc_seq :: u64
  sc_id :: string
  sc_owed :: bool

definition hasNonShared :: "'a session_replay_scheme \<Rightarrow> sub_ref list \<Rightarrow> bool" where
  "hasNonShared s subs \<longleftrightarrow> (\<exists>r \<in> set subs. case get (s_mem s) r of None \<Rightarrow> False | Some x \<Rightarrow> ss_share x = [])"

definition hasNonSharedSub :: "'a session_replay_scheme \<Rightarrow> bool" where
  "hasNonSharedSub s = hasNonShared s (map snd (s_subs s))"

definition sameSubsLocked :: "'a session_replay_scheme \<Rightarrow> sub_ref list \<Rightarrow> bool" where
  "sameSubsLocked s subs \<longleftrightarrow> length subs = length (s_subs s) \<and> set subs \<subseteq> snd ` set (s_subs s)"

definition countAboveLocked :: "'a session_replay_scheme \<Rightarrow> u64 \<Rightarrow> nat" where
  "countAboveLocked s seq = length (filter (\<lambda>(_, m). seq \<le> dm_seq m) (s_delivered s))"

text \<open>\<^verbatim>\<open>owedBy\<close>: the loop over the subscriptions, on the values the pointers stand for.\<close>

fun owed_loop :: "string \<Rightarrow> QoS \<Rightarrow> string \<Rightarrow> string \<Rightarrow> u64 \<Rightarrow> session_sub list \<Rightarrow> bool \<Rightarrow> bool \<times> bool" where
  "owed_loop clientID qos origin topicName seq [] matched = (matched, False)"
| "owed_loop clientID qos origin topicName seq (sub # subs) matched =
    (if ss_share sub \<noteq> [] \<or> \<not> Match (ss_filter sub) topicName then owed_loop clientID qos origin topicName seq subs matched
     else if sb_NoLocal (ss_opts sub) \<and> origin = clientID then owed_loop clientID qos origin topicName seq subs matched
     else if minQoS qos (ss_grantedQoS sub) = QoS0 then owed_loop clientID qos origin topicName seq subs matched
     else if ss_since sub \<noteq> sinceUnknown \<and> ss_since sub < seq then (True, True)
     else owed_loop clientID qos origin topicName seq subs True)"

definition owedBy :: "broker_opts \<Rightarrow> 'h header_ops \<Rightarrow> string \<Rightarrow> session_sub list \<Rightarrow> 'h nats_msg \<Rightarrow> u64 \<Rightarrow> bool \<times> bool" where
  "owedBy B H clientID subs msg seq =
    (let (qos, retain, origin, props) = fromNATS H msg in
     if qos = QoS0 then (False, False)
     else case TrimPrefix (bo_SubjectPrefix B) (m_Subject msg) of
         None \<Rightarrow> (False, False)
       | Some subject \<Rightarrow> owed_loop clientID qos origin (codec_subjectToName (bo_codec B) subject) seq subs False)"

text \<open>The loop of \<^verbatim>\<open>applyScanLocked\<close> over what was read; the result says whether the cursor is still set.\<close>

fun scan_loop :: "bounds \<Rightarrow> u64 \<Rightarrow> scanned list \<Rightarrow> 'a session_replay_scheme \<Rightarrow> bool \<times> 'a session_replay_scheme" where
  "scan_loop bd n [] s = (True, s)"
| "scan_loop bd n (m # ms) s =
    (if n \<le> sc_seq m then (True, s)
     else if \<not> sc_owed m then scan_loop bd n ms s
     else let (ok, s) = addHoleLocked bd (sc_seq m) (sc_id m) s in if ok then scan_loop bd n ms s else (False, s))"

text \<open>\<^verbatim>\<open>moved\<close>, \<^verbatim>\<open>applied\<close>, \<^verbatim>\<open>stale\<close>. The sequences are those of a stream, far below the end of the word: \<^verbatim>\<open>last+1\<close> is
  written as the source has it.\<close>

definition scan_next :: "u64 \<Rightarrow> u64 \<Rightarrow> u64 \<Rightarrow> u64" where
  "scan_next flr start lst =
    (let n = lst + 1 in if flr \<noteq> 0 \<and> flr < n then max flr start else n)"

definition applyScanLocked :: "bounds \<Rightarrow> u64 \<Rightarrow> u64 \<Rightarrow> u64 \<Rightarrow> sub_ref list \<Rightarrow> scanned list \<Rightarrow> u64 \<Rightarrow>
    'a session_replay_scheme \<Rightarrow> (bool \<times> bool \<times> bool) \<times> 'a session_replay_scheme" where
  "applyScanLocked bd gen start lst subs read flr s =
    (if cu_gen (s_cur s) \<noteq> gen \<or> cu_next (s_cur s) \<noteq> start then ((False, False, False), s)
     else if lst + 1 < start then ((False, False, False), dropCursorLocked s)
     else if \<not> sameSubsLocked s subs then ((False, False, True), s)
     else if \<not> sinceKnownLocked s then ((False, False, False), s)
     else
       let n = scan_next flr start lst; (ok, s) = scan_loop bd n read s in
       if \<not> ok then ((False, False, False), s)
       else ((cu_next (s_cur s) < n, True, False),
         set_cur (\<lambda>r. r\<lparr>cu_next := n, cu_above := countAboveLocked s n\<rparr>) s))"

text \<open>The connection's side: \<open>c\<close> the connection, \<open>closed\<close> what \<^verbatim>\<open>isClosed\<close> answers, \<open>resuming\<close> whether a resume replay
  holds its position. The second component says whether the connection's activity is counted.\<close>

definition applyScan :: "conn_ref \<Rightarrow> bool \<Rightarrow> bounds \<Rightarrow> u64 \<Rightarrow> u64 \<Rightarrow> u64 \<Rightarrow> sub_ref list \<Rightarrow> scanned list \<Rightarrow> u64 \<Rightarrow>
    'a session_replay_scheme \<Rightarrow> ((bool \<times> bool) \<times> bool) \<times> 'a session_replay_scheme" where
  "applyScan c closed bd gen start lst subs read flr s =
    (if s_conn s \<noteq> Some c \<or> closed then (((False, False), False), s)
     else let ((moved, applied, stale), s) = applyScanLocked bd gen start lst subs read flr s in (((moved, stale), applied), s))"

section \<open>Restarting a cursor\<close>

definition offlineRewind :: duration where
  "offlineRewind = 2 * Second"

definition session_window :: "'a session_replay_scheme \<Rightarrow> duration" where
  "session_window s = (if s_rewind s \<le> 0 then offlineRewind else s_rewind s)"

record restartScan =
  rs_gen :: u64
  rs_subs :: "sub_ref list"
  rs_began :: time
  rs_base :: u64
  rs_last :: u64
  rs_read :: "scanned list"

text \<open>The loop that gathers the holes; \<open>None\<close> for a message without an id.\<close>

fun restart_holes :: "u64 \<Rightarrow> (string, deliveredMark) gomap \<Rightarrow> scanned list \<Rightarrow> scanned list option" where
  "restart_holes n delivered [] = Some []"
| "restart_holes n delivered (m # ms) =
    (if n \<le> sc_seq m then Some []
     else if \<not> sc_owed m \<or> get delivered (sc_id m) \<noteq> None then restart_holes n delivered ms
     else if sc_id m = [] then None
     else map_option (\<lambda>hs. m # hs) (restart_holes n delivered ms))"

definition add_holes :: "scanned list \<Rightarrow> replayCursor \<Rightarrow> replayCursor" where
  "add_holes hs r = fold (\<lambda>m. addHole (sc_seq m) (sc_id m)) hs r"

definition restartCursorLocked :: "bounds \<Rightarrow> restartScan \<Rightarrow> u64 \<Rightarrow> time \<Rightarrow> 'a session_replay_scheme \<Rightarrow> bool \<times> 'a session_replay_scheme" where
  "restartCursorLocked bd r flr now s =
    (if cu_next (s_cur s) \<noteq> 0 \<or> cu_gen (s_cur s) \<noteq> rs_gen r \<or> cu_pin (s_cur s) \<noteq> 0 \<or>
        \<not> sinceKnownLocked s \<or> \<not> sameSubsLocked s (rs_subs r) then (False, s)
     else if session_window s \<le> time_Sub now (rs_began r) then (False, s)
     else if flr \<noteq> 0 \<and> flr < rs_base r then (False, s)
     else
       let n = (let n = rs_last r + 1 in if flr \<noteq> 0 \<and> flr < n then flr else n) in
       case restart_holes n (s_delivered s) (rs_read r) of
         None \<Rightarrow> (False, s)
       | Some holes \<Rightarrow>
           if bd_maxHoles bd < length holes then (False, s)
           else
             let above = countAboveLocked s n in
             if bd_idBound bd < above then (False, s)
             else (True, set_cur (\<lambda>c. (add_holes holes (c\<lparr>cu_base := rs_base r\<rparr>))\<lparr>cu_above := above\<rparr>) (setCursorLocked n s)))"

definition applyRestart :: "conn_ref \<Rightarrow> bool \<Rightarrow> bool \<Rightarrow> bounds \<Rightarrow> restartScan \<Rightarrow> u64 \<Rightarrow> time \<Rightarrow> 'a session_replay_scheme \<Rightarrow> bool \<times> 'a session_replay_scheme" where
  "applyRestart c closed resuming bd r flr now s =
    (if s_conn s \<noteq> Some c \<or> closed \<or> resuming then (False, s) else restartCursorLocked bd r flr now s)"

section \<open>Replays\<close>

definition pinForReplay :: "u64 \<Rightarrow> 'a session_replay_scheme \<Rightarrow> 'a session_replay_scheme" where
  "pinForReplay seq s = (if cu_next (s_cur s) = 0 then set_cur (\<lambda>r. r\<lparr>cu_pin := max seq 1\<rparr>) s else s)"

definition unpin :: "'a session_replay_scheme \<Rightarrow> 'a session_replay_scheme" where
  "unpin s = set_cur (\<lambda>r. r\<lparr>cu_pin := 0\<rparr>) s"

text \<open>\<^verbatim>\<open>sub.since.CompareAndSwap(sinceUnknown, lst)\<close> for each of the subscriptions.\<close>

definition set_since :: "u64 \<Rightarrow> sub_ref list \<Rightarrow> 'a session_replay_scheme \<Rightarrow> 'a session_replay_scheme" where
  "set_since lst subs s =
    fold (\<lambda>r. set_sub r (\<lambda>x. if ss_since x = sinceUnknown then x\<lparr>ss_since := lst\<rparr> else x)) subs s"

definition settle_holes :: "u64 \<Rightarrow> (u64, string) gomap \<Rightarrow> replayCursor \<Rightarrow> replayCursor" where
  "settle_holes lst had r =
    fold (\<lambda>(seq, mid) r. if seq \<le> lst \<and> get (cu_holes r) seq = Some mid then removeHole mid r else r) had r"

text \<open>\<open>c\<close> is the connection, \<open>closed\<close> whether it has been closed; the first result says whether its activity is
  counted. A missing hole is the empty string in Go, which is the id of no hole.\<close>

definition replayedTo :: "conn_ref \<Rightarrow> bool \<Rightarrow> cursorView option \<Rightarrow> u64 \<Rightarrow> u64 \<Rightarrow> u64 \<Rightarrow> 'a session_replay_scheme \<Rightarrow> bool \<times> 'a session_replay_scheme" where
  "replayedTo c closed had start lst flr s =
    (let pinned = cu_pin (s_cur s); s = unpin s in
     if s_conn s \<noteq> Some c \<or> closed then (False, s)
     else
       let s = set_since lst (map snd (s_subs s)) s;
           n = (let n = lst + 1 in if flr \<noteq> 0 \<and> flr < n then flr else n) in
       case had of
         None \<Rightarrow>
           if cu_next (s_cur s) \<noteq> 0 \<or> pinned = 0 \<or> start < pinned \<or> (flr \<noteq> 0 \<and> flr < start) then (False, s)
           else (True, set_cur (\<lambda>r. r\<lparr>cu_above := countAboveLocked s n\<rparr>) (setCursorLocked n s))
       | Some v \<Rightarrow>
           if cu_next (s_cur s) = 0 then (False, s)
           else
             let s = set_cur (settle_holes lst (cv_holes v)) s in
             (True, if cu_next (s_cur s) < n then set_cur (\<lambda>r. r\<lparr>cu_next := n, cu_above := countAboveLocked s n\<rparr>) s else s))"

definition setSince :: "conn_ref \<Rightarrow> sub_ref list \<Rightarrow> u64 \<Rightarrow> bool \<Rightarrow> bool \<Rightarrow> u64 \<Rightarrow> 'a session_replay_scheme \<Rightarrow> bool \<times> 'a session_replay_scheme" where
  "setSince c subs lst exact hadNonShared flr s =
    (let s = set_since lst subs s in
     if exact \<and> cu_next (s_cur s) = 0 \<and> \<not> hadNonShared \<and> flr = 0 \<and> s_conn s = Some c \<and> sinceKnownLocked s
     then (True, setCursorLocked (lst + 1) s) else (False, s))"

definition saw :: "u64 \<Rightarrow> u64 \<Rightarrow> u64" where
  "saw seq cur = (if seq \<le> cur then cur else seq)"

text \<open>\<open>answer\<close> is what \<^verbatim>\<open>lastSeq\<close> returns, \<open>None\<close> for an error; \<open>seen\<close> the highest sequence the broker has seen. A subscription
  that was refused is \<^verbatim>\<open>nil\<close> in \<^verbatim>\<open>granted\<close>.\<close>

definition readSince :: "conn_ref \<Rightarrow> bool \<Rightarrow> u64 option \<Rightarrow> u64 \<Rightarrow> sub_ref option list \<Rightarrow> bool \<Rightarrow> u64 \<Rightarrow> 'a session_replay_scheme \<Rightarrow> bool \<times> 'a session_replay_scheme" where
  "readSince c hasQueue answer seen granted hadNonShared flr s =
    (if \<not> hasQueue then (False, s)
     else
       let fresh = filter (\<lambda>r. case get (s_mem s) r of None \<Rightarrow> False | Some x \<Rightarrow> ss_share x = [] \<and> ss_since x = sinceUnknown)
             (List.map_filter id granted) in
       if fresh = [] then (False, s)
       else case answer of
           None \<Rightarrow> setSince c fresh seen False hadNonShared flr s
         | Some lst \<Rightarrow> setSince c fresh lst True hadNonShared flr s)"

definition restoreCursorLocked :: "u64 \<Rightarrow> storedDelivered list \<Rightarrow> 'a session_replay_scheme \<Rightarrow> 'a session_replay_scheme" where
  "restoreCursorLocked n holes s =
    (if n = 0 then s
     else
       set_cur (fold (\<lambda>h r. if sd_Seq h < n \<and> sd_ID h \<noteq> [] \<and> get (s_delivered s) (sd_ID h) = None
           then addHole (sd_Seq h) (sd_ID h) r else r) holes)
         (set_cur (\<lambda>r. r\<lparr>cu_next := n, cu_holes := [], cu_holeAt := [], cu_gen := cu_gen r + 1\<rparr>) s))"

text \<open>Whether the scan goroutine scans again, on the session's connection.\<close>

definition scanAgain :: "bounds \<Rightarrow> bool \<Rightarrow> 'a session_replay_scheme \<Rightarrow> conn_ref option \<times> 'a session_replay_scheme" where
  "scanAgain bd again s =
    (let asked = cu_asked (s_cur s); s = set_cur (\<lambda>r. r\<lparr>cu_asked := False\<rparr>) s;
         due = (again \<and> cu_next (s_cur s) \<noteq> 0 \<and> bd_scanAfter bd \<le> cu_above (s_cur s)) in
     if (asked \<or> due) \<and> s_conn s \<noteq> None then (s_conn s, s)
     else (None, set_cur (\<lambda>r. r\<lparr>cu_scanning := False\<rparr>) s))"

section \<open>Delivered messages\<close>

text \<open>The ids that are not forgotten when the map is gone through.\<close>

definition keep_mark :: "time \<Rightarrow> duration \<Rightarrow> u64 \<Rightarrow> u64 \<Rightarrow> deliveredMark \<Rightarrow> bool" where
  "keep_mark now window keep maxSeq m \<longleftrightarrow>
    (keep \<noteq> 0 \<and> keep \<le> dm_seq m) \<or>
    \<not> (2 * window < time_Sub now (dm_at m) \<and> (dm_seq m = 0 \<or> dm_seq m + deliveredSeqWindow < maxSeq))"

definition prune :: "bounds \<Rightarrow> time \<Rightarrow> 'a session_replay_scheme \<Rightarrow> 'a session_replay_scheme" where
  "prune bd now s =
    (let keep = lowestSeq [cu_next (s_cur s), cu_pin (s_cur s)] in
     if 64 < length (s_delivered s) \<and> length (s_delivered s) mod 64 = 0 then
       let kept = length (filter (\<lambda>(_, m). keep \<noteq> 0 \<and> keep \<le> dm_seq m) (s_delivered s));
           s = s\<lparr>s_delivered := filter (\<lambda>(_, m). keep_mark now (session_window s) keep (s_maxDeliveredSeq s) m) (s_delivered s)\<rparr>
       in if bd_idBound bd < kept then dropCursorLocked s else s
     else s)"

definition note_mark :: "time \<Rightarrow> string \<Rightarrow> u64 \<Rightarrow> 'a session_replay_scheme \<Rightarrow> 'a session_replay_scheme" where
  "note_mark now mid seq s =
    s\<lparr>s_delivered := AList.update mid \<lparr>dm_at = now, dm_seq = seq\<rparr> (s_delivered s),
      s_maxDeliveredSeq := (if s_maxDeliveredSeq s < seq then seq else s_maxDeliveredSeq s)\<rparr>"

text \<open>The result says whether a scan is to be started.\<close>

definition noteDelivered :: "bounds \<Rightarrow> time \<Rightarrow> string \<Rightarrow> u64 \<Rightarrow> 'a session_replay_scheme \<Rightarrow> bool \<times> 'a session_replay_scheme" where
  "noteDelivered bd now mid seq s =
    (let s = set_cur (removeHole mid) (note_mark now mid seq s);
         s = (if cu_next (s_cur s) \<noteq> 0 \<and> cu_next (s_cur s) \<le> seq \<or> cu_next (s_cur s) = 0 \<and> seq \<noteq> 0
              then set_cur (\<lambda>r. r\<lparr>cu_above := cu_above r + 1\<rparr>) s else s);
         s = prune bd now s in
     if bd_scanAfter bd \<le> cu_above (s_cur s) \<and> (cu_next (s_cur s) \<noteq> 0 \<or> cu_pin (s_cur s) = 0) then
       if \<not> cu_scanning (s_cur s) then (True, set_cur (\<lambda>r. r\<lparr>cu_scanning := True\<rparr>) s)
       else (False, set_cur (\<lambda>r. r\<lparr>cu_asked := True\<rparr>) s)
     else (False, s))"

definition deliveredIDs :: "'a session_replay_scheme \<Rightarrow> string set" where
  "deliveredIDs s = fst ` set (s_delivered s)"


section \<open>Absences\<close>

definition checkpointSkew :: duration where
  "checkpointSkew = 500 * 10 ^ 6"

definition deliveredFloor :: "time \<Rightarrow> 'a session_replay_scheme \<Rightarrow> time" where
  "deliveredFloor now s = now + (- session_window s - checkpointSkew)"

definition set_away :: "away \<Rightarrow> 'a session_replay_scheme \<Rightarrow> 'a session_replay_scheme" where
  "set_away a s = s\<lparr>s_awayAt := aw_at a, s_awayRestored := aw_restored a, s_awayRewoundTo := aw_rewoundTo a,
     s_awayFromSeq := aw_fromSeq a, s_awayLateSeq := aw_lateSeq a\<rparr>"

definition markAwayLocked :: "away \<Rightarrow> 'a session_replay_scheme \<Rightarrow> 'a session_replay_scheme" where
  "markAwayLocked a s =
    (let a = a\<lparr>aw_lateSeq := lowestSeq [aw_lateSeq a, s_lateSeq s, s_awayLateSeq s]\<rparr>; s = s\<lparr>s_lateSeq := 0\<rparr>;
         a = (if \<not> IsZero (s_awayAt s) then
                let a = a\<lparr>aw_at := s_awayAt s, aw_restored := s_awayRestored s, aw_rewoundTo := s_awayRewoundTo s\<rparr> in
                if s_awayFromSeq s = 0 then a\<lparr>aw_fromSeq := 0\<rparr>
                else if aw_fromSeq a = 0 \<or> s_awayFromSeq s < aw_fromSeq a then a\<lparr>aw_fromSeq := s_awayFromSeq s\<rparr>
                else a
              else a)
     in set_away a s)"

definition takeAway :: "'a session_replay_scheme \<Rightarrow> (away \<times> bool) \<times> 'a session_replay_scheme" where
  "takeAway s =
    (let a = \<lparr>aw_at = s_awayAt s, aw_restored = s_awayRestored s, aw_rewoundTo = s_awayRewoundTo s,
              aw_fromSeq = s_awayFromSeq s, aw_lateSeq = s_awayLateSeq s\<rparr>
     in ((a, \<not> IsZero (aw_at a)),
         set_away \<lparr>aw_at = zeroTime, aw_restored = False, aw_rewoundTo = zeroTime, aw_fromSeq = 0, aw_lateSeq = 0\<rparr> s))"

definition restore_mark :: "time \<Rightarrow> storedDelivered \<Rightarrow> 'a session_replay_scheme \<Rightarrow> 'a session_replay_scheme" where
  "restore_mark now d s = note_mark now (sd_ID d) (sd_Seq d) s"

definition markAwayRestored :: "time \<Rightarrow> time \<Rightarrow> u64 \<Rightarrow> u64 \<Rightarrow> time \<Rightarrow> storedDelivered list \<Rightarrow> u64 \<Rightarrow> storedDelivered list \<Rightarrow>
    'a session_replay_scheme \<Rightarrow> 'a session_replay_scheme" where
  "markAwayRestored now at fromSeq lateSeq rewoundTo delivered cursor holes s =
    fold (restore_mark now) delivered
      (restoreCursorLocked cursor holes
        (set_away \<lparr>aw_at = at, aw_restored = True, aw_rewoundTo = rewoundTo, aw_fromSeq = fromSeq, aw_lateSeq = lateSeq\<rparr> s))"

text \<open>The successor, and whether the stored record has to be written again.\<close>

definition lateCopy :: "bounds \<Rightarrow> conn_ref option \<Rightarrow> u64 \<Rightarrow> string \<Rightarrow> 'a session_replay_scheme \<Rightarrow>
    (conn_ref option \<times> bool) \<times> 'a session_replay_scheme" where
  "lateCopy bd c seq mid s =
    (if s_conn s \<noteq> None \<and> s_conn s \<noteq> c then ((s_conn s, False), s)
     else
       let before = length (cu_holes (s_cur s));
           below = (cu_next (s_cur s) \<noteq> 0 \<and> seq < cu_next (s_cur s));
           s = (if below then snd (addHoleLocked bd seq mid s) else s);
           holed = (below \<and> length (cu_holes (s_cur s)) \<noteq> before);
           safe = (if cu_base (s_cur s) \<noteq> 0 then windowSafeLocked s seq else lateSeqSafeLocked s seq)
       in if s_conn s \<noteq> None then
            ((None, False), if safe then s\<lparr>s_lateSeq := lowestSeq [s_lateSeq s, seq]\<rparr> else s)
          else if IsZero (s_awayAt s) then ((None, False), s)
          else if \<not> safe \<or> (s_awayLateSeq s \<noteq> 0 \<and> s_awayLateSeq s \<le> seq) then ((None, holed \<and> s_rec s \<noteq> None), s)
          else ((None, s_rec s \<noteq> None), s\<lparr>s_awayLateSeq := seq\<rparr>))"

section \<open>What the record keeps\<close>

record delivered_bounds =
  db_stored :: nat
  db_spilled :: nat

definition splitDelivered :: "delivered_bounds \<Rightarrow> storedDelivered list \<Rightarrow> storedDelivered list \<times> storedDelivered list \<times> nat" where
  "splitDelivered db all =
    (if length all \<le> db_stored db then (all, [], 0)
     else let inline = take (db_stored db) all; over = drop (db_stored db) all in
       if db_spilled db < length over then (inline, take (db_spilled db) over, length over - db_spilled db)
       else (inline, over, 0))"

definition sort_delivered :: "storedDelivered list \<Rightarrow> storedDelivered list" where
  "sort_delivered ds = sort_key (\<lambda>d. (sd_Seq d, sd_ID d)) ds"

definition listed :: "(deliveredMark \<Rightarrow> bool) \<Rightarrow> (string, deliveredMark) gomap \<Rightarrow> storedDelivered list" where
  "listed P m = map (\<lambda>(mid, d). \<lparr>sd_ID = mid, sd_Seq = dm_seq d\<rparr>) (filter (\<lambda>(_, d). P d) m)"

text \<open>Every caller passes no sequences to exclude.\<close>

definition deliveredFromLocked :: "delivered_bounds \<Rightarrow> time \<Rightarrow> u64 \<Rightarrow> 'a session_replay_scheme \<Rightarrow> storedDelivered list \<times> storedDelivered list \<times> nat" where
  "deliveredFromLocked db now fromSeq s =
    splitDelivered db (sort_delivered (listed (\<lambda>d. fromSeq \<le> dm_seq d \<or> \<not> dm_at d < deliveredFloor now s) (s_delivered s)))"

definition deliveredSinceLocked :: "delivered_bounds \<Rightarrow> u64 \<Rightarrow> u64 \<Rightarrow> time \<Rightarrow> 'a session_replay_scheme \<Rightarrow> storedDelivered list \<times> storedDelivered list \<times> nat" where
  "deliveredSinceLocked db fromSeq lateSeq since s =
    (let start = lowestSeq [fromSeq, lateSeq] in
     splitDelivered db (sort_delivered (listed (\<lambda>d. start \<noteq> 0 \<and> start \<le> dm_seq d \<or> \<not> dm_at d < since) (s_delivered s))))"

definition cursorIntoLocked :: "nat \<Rightarrow> 'a session_replay_scheme \<Rightarrow> sessionRecord \<Rightarrow> sessionRecord" where
  "cursorIntoLocked dropped s rec =
    (let rec = rec\<lparr>sr_ReplayCursor := 0, sr_ReplayHoles := []\<rparr> in
     if cu_next (s_cur s) = 0 \<or> cu_base (s_cur s) \<noteq> 0 \<or> 0 < dropped \<or> \<not> sinceKnownLocked s then rec
     else let v = cursorViewLocked s in rec\<lparr>sr_ReplayCursor := cv_next v, sr_ReplayHoles := view_stored v\<rparr>)"

definition delivered_into :: "storedDelivered list \<times> storedDelivered list \<times> nat \<Rightarrow> sessionRecord \<Rightarrow> sessionRecord" where
  "delivered_into ds rec = rec\<lparr>sr_Delivered := fst ds, sr_deliveredOver := fst (snd ds), sr_DeliveredSpill := []\<rparr>"

definition awayStateInto :: "delivered_bounds \<Rightarrow> time \<Rightarrow> 'a session_replay_scheme \<Rightarrow> sessionRecord \<Rightarrow> nat \<times> sessionRecord" where
  "awayStateInto db now s rec =
    (let late = lowestSeq [s_awayLateSeq s, s_lateSeq s];
         start = lowestSeq [s_awayFromSeq s, late, cu_next (s_cur s)];
         ds = deliveredFromLocked db now (if start = 0 then - 1 else start) s;
         dropped = snd (snd ds);
         rec = (delivered_into ds rec)\<lparr>sr_AwayFromSeq := s_awayFromSeq s, sr_AwayLateSeq := late\<rparr>
     in (dropped, cursorIntoLocked dropped s rec))"

definition deliveredSinceInto :: "delivered_bounds \<Rightarrow> u64 \<Rightarrow> time \<Rightarrow> 'a session_replay_scheme \<Rightarrow> sessionRecord \<Rightarrow> nat \<times> sessionRecord" where
  "deliveredSinceInto db fromSeq since s rec =
    (let ds = deliveredSinceLocked db fromSeq (cu_next (s_cur s)) since s in
     (snd (snd ds), cursorIntoLocked (snd (snd ds)) s (delivered_into ds rec)))"

definition lateRecord :: "delivered_bounds \<Rightarrow> time \<Rightarrow> 'a session_replay_scheme \<Rightarrow> (sessionRecord \<times> u64 \<times> u64) option" where
  "lateRecord db now s =
    (case s_rec s of
       None \<Rightarrow> None
     | Some rec \<Rightarrow>
         if sr_Attached rec \<or> (s_awayLateSeq s = 0 \<and> cu_next (s_cur s) = 0) then None
         else
           let ds = deliveredFromLocked db now (lowestSeq [s_awayFromSeq s, s_awayLateSeq s, cu_next (s_cur s)]) s;
               cp = (delivered_into ds (rec\<lparr>sr_AwayFromSeq := s_awayFromSeq s, sr_AwayLateSeq := s_awayLateSeq s\<rparr>))\<lparr>sr_DeliveredSince := deliveredFloor now s\<rparr>
           in Some (cursorIntoLocked (snd (snd ds)) s cp, s_rev s, s_claimGen s))"

section \<open>The replay from a cursor\<close>

text \<open>The test of \<^verbatim>\<open>replayFromCursor\<close>'s \<^verbatim>\<open>handle\<close>: whether the copy at a sequence is handed to \<^verbatim>\<open>deliverQueued\<close>.\<close>

definition cursor_sends :: "cursorView \<Rightarrow> string set \<Rightarrow> string set \<Rightarrow> u64 \<Rightarrow> string \<Rightarrow> bool" where
  "cursor_sends v delivered replayed seq mid \<longleftrightarrow>
    (get (cv_holes v) seq \<noteq> None \<or> cv_next v \<le> seq) \<and> mid \<noteq> [] \<and> mid \<notin> delivered \<and> mid \<notin> replayed"

end
