(* ===== verification/Cursor_Replay.thy ===== *)
theory Cursor_Replay
  imports Cursor
begin

text \<open>
  The two invariants \<^verbatim>\<open>src/cursor.go\<close> states for the replay cursor: below the cursor everything owed was sent or is a
  hole, and everything sent at or above it has its id kept. They are shown for every order of the operations of
  \<^verbatim>\<open>Cursor\<close>, and give that a replay from the cursor sends what is owed and was not sent, and nothing else.
  \<open>sid\<close> gives the id of the message at a sequence of the stream, \<open>owed\<close> the sequences the session is owed, \<open>sent\<close>
  those its deliveries were noted for.
\<close>

section \<open>The invariant\<close>

definition stream_ids :: "(u64 \<Rightarrow> string) \<Rightarrow> bool" where
  "stream_ids sid \<longleftrightarrow> inj sid \<and> (\<forall>q. sid q \<noteq> [])"

definition holes_ok :: "(u64 \<Rightarrow> string) \<Rightarrow> u64 set \<Rightarrow> u64 \<Rightarrow> replayCursor \<Rightarrow> bool" where
  "holes_ok sid sent n r \<longleftrightarrow> wf_map (cu_holes r) \<and>
    (\<forall>q i. get (cu_holes r) q = Some i \<longleftrightarrow> get (cu_holeAt r) i = Some q) \<and>
    (\<forall>q i. get (cu_holes r) q = Some i \<longrightarrow> i = sid q \<and> q < n \<and> q \<notin> sent)"

definition marks_ok :: "(u64 \<Rightarrow> string) \<Rightarrow> u64 set \<Rightarrow> (string, deliveredMark) gomap \<Rightarrow> bool" where
  "marks_ok sid sent m \<longleftrightarrow> wf_map m \<and>
    (\<forall>i d. get m i = Some d \<longrightarrow> (if dm_seq d = 0 then i \<notin> range sid else i = sid (dm_seq d) \<and> dm_seq d \<in> sent))"

definition accounted :: "u64 set \<Rightarrow> u64 set \<Rightarrow> u64 \<Rightarrow> replayCursor \<Rightarrow> bool" where
  "accounted owed sent n r \<longleftrightarrow> (\<forall>q \<in> owed. cu_base r \<le> q \<longrightarrow> q < n \<longrightarrow> q \<in> sent \<or> get (cu_holes r) q \<noteq> None)"

definition ids_known :: "(u64 \<Rightarrow> string) \<Rightarrow> u64 set \<Rightarrow> u64 \<Rightarrow> (string, deliveredMark) gomap \<Rightarrow> bool" where
  "ids_known sid sent b m \<longleftrightarrow> (\<forall>q \<in> sent. b \<le> q \<longrightarrow> get m (sid q) \<noteq> None)"

definition cursor_inv :: "(u64 \<Rightarrow> string) \<Rightarrow> u64 set \<Rightarrow> u64 set \<Rightarrow> replayCursor \<Rightarrow> (string, deliveredMark) gomap \<Rightarrow> bool" where
  "cursor_inv sid owed sent r m \<longleftrightarrow>
    holes_ok sid sent (cu_next r) r \<and> marks_ok sid sent m \<and>
    (cu_next r \<noteq> 0 \<longrightarrow> accounted owed sent (cu_next r) r \<and> ids_known sid sent (cu_next r) m)"

lemma known_seq:
  assumes "stream_ids sid" "marks_ok sid sent m" "get m (sid q) = Some d"
  shows "dm_seq d = q \<and> q \<in> sent"
  using assms by (auto simp: stream_ids_def marks_ok_def dest: injD split: if_splits)

lemma known_sent: "stream_ids sid \<Longrightarrow> marks_ok sid sent m \<Longrightarrow> get m (sid q) \<noteq> None \<Longrightarrow> q \<in> sent"
  using known_seq by blast

lemma holes_ok_none [simp]: "cu_holes r = [] \<Longrightarrow> cu_holeAt r = [] \<Longrightarrow> holes_ok sid sent n r"
  by (simp add: holes_ok_def)

lemma holes_ok_cong:
  "cu_holes r' = cu_holes r \<Longrightarrow> cu_holeAt r' = cu_holeAt r \<Longrightarrow> holes_ok sid sent n r' = holes_ok sid sent n r"
  by (simp add: holes_ok_def)

lemma holes_ok_mono: "holes_ok sid sent n r \<Longrightarrow> n \<le> n' \<Longrightarrow> holes_ok sid sent n' r"
  by (fastforce simp: holes_ok_def)

section \<open>Operations on the cursor\<close>

lemma holes_addHole:
  assumes "stream_ids sid" "holes_ok sid sent n r" "q < n" "q \<notin> sent"
  shows "holes_ok sid sent n (addHole q (sid q) r)"
proof -
  have i: "i = sid p" if "get (cu_holes r) p = Some i" for p i using assms(2) that by (simp add: holes_ok_def)
  have j: "i = sid p" if "get (cu_holeAt r) i = Some p" for p i using assms(2) that by (simp add: holes_ok_def)
  have e: "sid p = sid p' \<longleftrightarrow> p = p'" for p p' using assms(1) by (auto simp: stream_ids_def dest: injD)
  show ?thesis using assms(2-4) i e by (auto simp: holes_ok_def addHole_def dest: j)
qed

lemma holes_removeHole:
  assumes "holes_ok sid sent n r"
  shows "holes_ok sid sent n (removeHole i r)"
    and "get (cu_holes (removeHole i r)) q = (if get (cu_holes r) q = Some i then None else get (cu_holes r) q)"
proof -
  have u: "i = i'" if "get (cu_holeAt r) i = Some p" "get (cu_holeAt r) i' = Some p" for p i i'
    using assms that by (metis holes_ok_def)
  show "holes_ok sid sent n (removeHole i r)"
    using assms by (auto simp: holes_ok_def removeHole_def dest: u split: option.splits)
  show "get (cu_holes (removeHole i r)) q = (if get (cu_holes r) q = Some i then None else get (cu_holes r) q)"
    using assms by (auto simp: holes_ok_def removeHole_def split: option.splits)
qed

lemma removeHole_fields [simp]:
  "cu_next (removeHole i r) = cu_next r" "cu_base (removeHole i r) = cu_base r" "cu_gen (removeHole i r) = cu_gen r"
  "cu_pin (removeHole i r) = cu_pin r" "cu_above (removeHole i r) = cu_above r"
  by (simp_all add: removeHole_def split: option.splits)

lemma addHole_fields [simp]:
  "cu_next (addHole q i r) = cu_next r" "cu_base (addHole q i r) = cu_base r" "cu_gen (addHole q i r) = cu_gen r"
  "cu_pin (addHole q i r) = cu_pin r"
  "get (cu_holes (addHole q i r)) p = (if p = q then Some i else get (cu_holes r) p)"
  by (simp_all add: addHole_def)

lemma cur_set_cur [simp]: "s_cur (set_cur f s) = f (s_cur s)" "s_delivered (set_cur f s) = s_delivered s" "s_conn (set_cur f s) = s_conn s"
  by (simp_all add: set_cur_def)

lemma cur_setCursor [simp]: "s_cur (setCursorLocked n s) = reset_cur n (s_cur s)" "s_delivered (setCursorLocked n s) = s_delivered s"
  by (simp_all add: setCursorLocked_def)

lemma cur_drop [simp]: "s_cur (dropCursorLocked s) = reset_cur 0 (s_cur s)" "s_delivered (dropCursorLocked s) = s_delivered s"
  by (simp_all add: dropCursorLocked_def Let_def)

lemma reset_fields [simp]:
  "cu_next (reset_cur n r) = n" "cu_base (reset_cur n r) = 0" "cu_holes (reset_cur n r) = []" "cu_holeAt (reset_cur n r) = []"
  by (simp_all add: reset_cur_def)

lemma inv_drop: "cursor_inv sid owed sent r m \<Longrightarrow> cursor_inv sid owed sent (reset_cur 0 r) m"
  by (simp add: cursor_inv_def)

text \<open>A cursor without holes: right when everything owed below it was sent.\<close>

lemma inv_fresh:
  assumes "marks_ok sid sent m" "cu_holes r = []" "cu_holeAt r = []"
    "\<forall>q \<in> owed. q < cu_next r \<longrightarrow> q \<in> sent" "ids_known sid sent (cu_next r) m"
  shows "cursor_inv sid owed sent r m"
  using assms by (simp add: cursor_inv_def accounted_def)

lemma addHoleLocked_cases:
  obtains (dropped) "addHoleLocked bd q i s = (False, dropCursorLocked s)"
  | (known) "addHoleLocked bd q i s = (True, s)" "get (s_delivered s) i \<noteq> None"
  | (hole) "addHoleLocked bd q i s = (True, s)" "get (cu_holes (s_cur s)) q \<noteq> None"
  | (added) "addHoleLocked bd q i s = (True, set_cur (addHole q i) s)" "get (s_delivered s) i = None"
  by (cases "q < cu_base (s_cur s) \<or> i = []"; cases "get (s_delivered s) i = None"; cases "get (cu_holes (s_cur s)) q = None";
      cases "bd_maxHoles bd \<le> length (cu_holes (s_cur s))") (auto simp: addHoleLocked_def)

lemma inv_addHole:
  assumes "stream_ids sid" "cursor_inv sid owed sent (s_cur s) (s_delivered s)" "q < cu_next (s_cur s)"
    "q \<in> sent \<longrightarrow> get (s_delivered s) (sid q) \<noteq> None"
  shows "cursor_inv sid owed sent (s_cur (snd (addHoleLocked bd q (sid q) s))) (s_delivered (snd (addHoleLocked bd q (sid q) s)))"
proof (cases rule: addHoleLocked_cases [of bd q "sid q" s])
  case dropped
  then show ?thesis using assms(2) by (simp add: inv_drop)
next
  case added
  then have "q \<notin> sent" using assms(4) by simp
  then show ?thesis using added assms holes_addHole [OF assms(1) _ assms(3)]
    by (auto simp: cursor_inv_def accounted_def)
qed (use assms in simp_all)

section \<open>Scans\<close>

lemma le_of_less_Suc: "q < lst + 1 \<Longrightarrow> q \<le> lst" for q lst :: u64
  using inc_le [of lst q] by (meson leD leI)

text \<open>What a scan of the stream from \<open>b\<close> to \<open>lst\<close> reads: every message the session is owed there, in order.\<close>

definition scan_of :: "(u64 \<Rightarrow> string) \<Rightarrow> u64 set \<Rightarrow> u64 \<Rightarrow> u64 \<Rightarrow> scanned list \<Rightarrow> bool" where
  "scan_of sid owed b lst read \<longleftrightarrow> sorted (map sc_seq read) \<and>
    (\<forall>m \<in> set read. sc_id m = sid (sc_seq m) \<and> b \<le> sc_seq m) \<and>
    (\<forall>q \<in> owed. b \<le> q \<longrightarrow> q \<le> lst \<longrightarrow> (\<exists>m \<in> set read. sc_seq m = q \<and> sc_owed m))"

definition loop_ok :: "(u64 \<Rightarrow> string) \<Rightarrow> u64 set \<Rightarrow> u64 \<Rightarrow> scanned list \<Rightarrow> replayCursor \<Rightarrow> replayCursor \<Rightarrow> bool" where
  "loop_ok sid sent n read r r' \<longleftrightarrow> holes_ok sid sent n r' \<and> cu_next r' = cu_next r \<and> cu_base r' = cu_base r \<and>
    (\<forall>q. get (cu_holes r) q \<noteq> None \<longrightarrow> get (cu_holes r') q \<noteq> None) \<and>
    (\<forall>m \<in> set read. sc_owed m \<longrightarrow> sc_seq m < n \<longrightarrow> sc_seq m \<in> sent \<or> get (cu_holes r') (sc_seq m) \<noteq> None)"

lemma loop_ok_trans:
  assumes "loop_ok sid sent n [m] r r1" "loop_ok sid sent n ms r1 r2"
  shows "loop_ok sid sent n (m # ms) r r2"
  using assms by (simp add: loop_ok_def) blast

lemma addHole_loop:
  assumes "stream_ids sid" "holes_ok sid sent n (s_cur s)" "marks_ok sid sent (s_delivered s)" "ids_known sid sent b (s_delivered s)"
    "sc_id m = sid (sc_seq m)" "b \<le> sc_seq m" "sc_seq m < n" "addHoleLocked bd (sc_seq m) (sc_id m) s = (True, s')"
  shows "loop_ok sid sent n [m] (s_cur s) (s_cur s') \<and> s_delivered s' = s_delivered s"
proof (cases rule: addHoleLocked_cases [of bd "sc_seq m" "sc_id m" s])
  case known
  then show ?thesis using assms known_sent [OF assms(1,3), of "sc_seq m"] by (simp add: loop_ok_def)
next
  case added
  then have "sc_seq m \<notin> sent" using assms(4,5,6) by (auto simp: ids_known_def)
  then show ?thesis using added assms holes_addHole [OF assms(1,2,7)] by (auto simp: loop_ok_def)
qed (use assms in \<open>simp_all add: loop_ok_def\<close>)

lemma scan_loop_ok:
  assumes "stream_ids sid" "holes_ok sid sent n (s_cur s)" "marks_ok sid sent (s_delivered s)" "ids_known sid sent b (s_delivered s)"
    "\<forall>m \<in> set read. sc_id m = sid (sc_seq m) \<and> b \<le> sc_seq m" "sorted (map sc_seq read)"
    "scan_loop bd n read s = (True, s')"
  shows "loop_ok sid sent n read (s_cur s) (s_cur s') \<and> s_delivered s' = s_delivered s"
  using assms(2-)
proof (induction bd n read s rule: scan_loop.induct)
  case (1 bd n s)
  then show ?case by (simp add: loop_ok_def)
next
  case (2 bd n m ms s)
  consider (stop) "n \<le> sc_seq m" | (skip) "\<not> n \<le> sc_seq m" "\<not> sc_owed m" | (add) "\<not> n \<le> sc_seq m" "sc_owed m" by force
  then show ?case
  proof cases
    case stop
    then have "\<forall>m' \<in> set (m # ms). n \<le> sc_seq m'" using 2(7) by auto
    then show ?thesis using stop 2 by (auto simp: loop_ok_def not_less)
  next
    case skip
    then have "loop_ok sid sent n ms (s_cur s) (s_cur s') \<and> s_delivered s' = s_delivered s" using "2.IH"(1) "2.prems" by simp
    then show ?thesis using skip by (simp add: loop_ok_def)
  next
    case add
    obtain ok s1 where a: "addHoleLocked bd (sc_seq m) (sc_id m) s = (ok, s1)" by fastforce
    have k: ok "scan_loop bd n ms s1 = (True, s')" using add 2(8) a by (auto split: if_splits)
    have l: "loop_ok sid sent n [m] (s_cur s) (s_cur s1)" "s_delivered s1 = s_delivered s"
      using addHole_loop [OF assms(1) "2.prems"(1-3), of m bd s1] "2.prems"(4) add a k by auto
    then have "holes_ok sid sent n (s_cur s1)" by (simp add: loop_ok_def)
    then have "loop_ok sid sent n ms (s_cur s1) (s_cur s') \<and> s_delivered s' = s_delivered s1"
      using "2.IH"(2) [of "(ok, s1)" ok s1] add a k l "2.prems" by auto
    then show ?thesis using l loop_ok_trans by metis
  qed
qed

lemma scan_loop_dropped:
  "scan_loop bd n read s = (False, s') \<Longrightarrow> \<exists>r. s_cur s' = reset_cur 0 r \<and> s_delivered s' = s_delivered s"
proof (induction bd n read s rule: scan_loop.induct)
  case (2 bd n m ms s)
  show ?case
  proof (cases rule: addHoleLocked_cases [of bd "sc_seq m" "sc_id m" s])
    case dropped
    then show ?thesis using 2 by (auto split: if_splits)
  qed (use 2 in \<open>auto split: if_splits\<close>)
qed simp

lemma inv_moved:
  assumes "holes_ok sid sent n r" "accounted owed sent n r" "marks_ok sid sent m" "ids_known sid sent n m"
  shows "cursor_inv sid owed sent (r\<lparr>cu_next := n, cu_above := a\<rparr>) m"
  using assms by (simp add: cursor_inv_def accounted_def holes_ok_def)

lemma inv_applyScan:
  assumes "stream_ids sid" "cursor_inv sid owed sent (s_cur s) (s_delivered s)" "scan_of sid owed start lst read"
    "start \<noteq> 0"
  shows "cursor_inv sid owed sent (s_cur (snd (applyScanLocked bd gen start lst subs read flr s)))
    (s_delivered (snd (applyScanLocked bd gen start lst subs read flr s)))"
proof (cases "cu_gen (s_cur s) = gen \<and> cu_next (s_cur s) = start \<and> start \<le> lst + 1 \<and> sameSubsLocked s subs \<and> sinceKnownLocked s")
  case True
  let ?n = "scan_next flr start lst"
  obtain ok s' where l: "scan_loop bd ?n read s = (ok, s')" by fastforce
  have n: "start \<le> ?n" "?n \<le> lst + 1" using True by (auto simp: scan_next_def Let_def max_def)
  have h: "holes_ok sid sent ?n (s_cur s)" using assms(2) True n holes_ok_mono [of sid sent start] by (auto simp: cursor_inv_def)
  show ?thesis
  proof (cases ok)
    case False
    then show ?thesis using True l scan_loop_dropped [of bd ?n read s s'] assms(2)
      by (auto simp: applyScanLocked_def not_less cursor_inv_def)
  next
    case ok: True
    have o: "loop_ok sid sent ?n read (s_cur s) (s_cur s')" "s_delivered s' = s_delivered s"
      using scan_loop_ok [OF assms(1) h, of start] l ok assms True by (auto simp: cursor_inv_def scan_of_def)
    have "accounted owed sent ?n (s_cur s')"
      unfolding accounted_def
    proof (intro ballI impI)
      fix q assume q: "q \<in> owed" "cu_base (s_cur s') \<le> q" "q < ?n"
      show "q \<in> sent \<or> get (cu_holes (s_cur s')) q \<noteq> None"
      proof (cases "q < start")
        case True
        then show ?thesis using q o assms(2,4) \<open>cu_gen _ = _ \<and> _\<close> by (auto simp: loop_ok_def cursor_inv_def accounted_def)
      next
        case False
        have "q \<le> lst" using q(3) n(2) assms(3) le_of_less_Suc [of q lst] by (auto simp: scan_of_def)
        then obtain m where "m \<in> set read" "sc_seq m = q" "sc_owed m" using False q(1) assms(3) by (auto simp: scan_of_def not_less)
        then show ?thesis using o(1) q(3) by (auto simp: loop_ok_def)
      qed
    qed
    moreover have "ids_known sid sent ?n (s_delivered s)"
      using assms(2,4) True n by (auto simp: cursor_inv_def ids_known_def)
    moreover have "holes_ok sid sent ?n (s_cur s')" using o(1) by (simp add: loop_ok_def)
    moreover have "snd (applyScanLocked bd gen start lst subs read flr s) =
        set_cur (\<lambda>r. r\<lparr>cu_next := ?n, cu_above := countAboveLocked s' ?n\<rparr>) s'"
      using True l ok by (auto simp: applyScanLocked_def Let_def)
    ultimately show ?thesis using o(2) assms(2) inv_moved [of sid sent ?n "s_cur s'" owed "s_delivered s"] by (simp add: cursor_inv_def [of _ _ _ "s_cur s"])
  qed
next
  case False
  then show ?thesis using assms(2) by (auto simp: applyScanLocked_def inv_drop Let_def)
qed

lemma inv_scan:
  assumes "stream_ids sid" "cursor_inv sid owed sent (s_cur s) (s_delivered s)" "scan_of sid owed start lst read" "start \<noteq> 0"
  shows "cursor_inv sid owed sent (s_cur (snd (applyScan c closed bd gen start lst subs read flr s)))
    (s_delivered (snd (applyScan c closed bd gen start lst subs read flr s)))"
  using assms(2) inv_applyScan [OF assms, of bd gen subs flr] by (auto simp: applyScan_def split: prod.splits)

lemma restart_holes_ok:
  assumes "stream_ids sid" "marks_ok sid sent m" "ids_known sid sent b m"
    "\<forall>x \<in> set read. sc_id x = sid (sc_seq x) \<and> b \<le> sc_seq x" "sorted (map sc_seq read)"
    "restart_holes n m read = Some hs"
  shows "(\<forall>h \<in> set hs. sc_id h = sid (sc_seq h) \<and> sc_seq h < n \<and> sc_seq h \<notin> sent) \<and>
    (\<forall>x \<in> set read. sc_owed x \<longrightarrow> sc_seq x < n \<longrightarrow> sc_seq x \<in> sent \<or> sc_seq x \<in> sc_seq ` set hs)"
  using assms(4-)
proof (induction read arbitrary: hs)
  case (Cons x xs)
  show ?case
  proof (cases "n \<le> sc_seq x")
    case True
    then have "\<forall>x' \<in> set (x # xs). n \<le> sc_seq x'" using Cons.prems(2) by auto
    then show ?thesis using True Cons.prems(3) by (auto simp: not_less)
  next
    case False
    show ?thesis
    proof (cases "\<not> sc_owed x \<or> get m (sc_id x) \<noteq> None")
      case True
      then have "restart_holes n m xs = Some hs" using Cons.prems(3) False by simp
      then show ?thesis using Cons True known_sent [OF assms(1,2), of "sc_seq x"] by auto
    next
      case nd: False
      then obtain hs' where h: "restart_holes n m xs = Some hs'" "hs = x # hs'"
        using Cons.prems(3) False by (auto split: if_splits)
      have "sc_seq x \<notin> sent" using nd assms(3) Cons.prems(1) by (auto simp: ids_known_def)
      then show ?thesis using Cons.IH [OF _ _ h(1)] Cons.prems(1,2) h(2) False by auto
    qed
  qed
qed simp

lemma holes_add_holes:
  assumes "stream_ids sid" "holes_ok sid sent n r" "\<forall>h \<in> set hs. sc_id h = sid (sc_seq h) \<and> sc_seq h < n \<and> sc_seq h \<notin> sent"
  shows "holes_ok sid sent n (add_holes hs r) \<and> cu_next (add_holes hs r) = cu_next r \<and> cu_base (add_holes hs r) = cu_base r \<and>
    (\<forall>q. get (cu_holes (add_holes hs r)) q \<noteq> None \<longleftrightarrow> get (cu_holes r) q \<noteq> None \<or> q \<in> sc_seq ` set hs)"
  using assms(2,3)
proof (induction hs arbitrary: r)
  case (Cons h hs)
  have "holes_ok sid sent n (addHole (sc_seq h) (sc_id h) r)"
    using holes_addHole [OF assms(1) Cons.prems(1)] Cons.prems(2) by simp
  then show ?case using Cons.IH [of "addHole (sc_seq h) (sc_id h) r"] Cons.prems(2) by (auto simp: add_holes_def)
qed (simp add: add_holes_def)

lemma inv_restart:
  assumes "stream_ids sid" "cursor_inv sid owed sent (s_cur s) (s_delivered s)" "scan_of sid owed (rs_base r) (rs_last r) (rs_read r)"
    "rs_base r \<le> rs_last r + 1" "ids_known sid sent (rs_base r) (s_delivered s)"
  shows "cursor_inv sid owed sent (s_cur (snd (restartCursorLocked bd r flr now s))) (s_delivered (snd (restartCursorLocked bd r flr now s)))"
proof (cases "fst (restartCursorLocked bd r flr now s)")
  case False
  then have "snd (restartCursorLocked bd r flr now s) = s"
    by (auto simp: restartCursorLocked_def Let_def split: option.splits if_splits)
  then show ?thesis using assms(2) by simp
next
  case True
  define n where "n = (let n = rs_last r + 1 in if flr \<noteq> 0 \<and> flr < n then flr else n)"
  obtain hs where h: "restart_holes n (s_delivered s) (rs_read r) = Some hs" and f: "flr = 0 \<or> rs_base r \<le> flr"
    and e: "snd (restartCursorLocked bd r flr now s) = set_cur (\<lambda>c. (add_holes hs (c\<lparr>cu_base := rs_base r\<rparr>))\<lparr>cu_above := countAboveLocked s n\<rparr>) (setCursorLocked n s)"
    using True unfolding restartCursorLocked_def n_def by (auto simp: Let_def not_less split: option.splits if_splits)
  have n: "n \<le> rs_last r + 1" by (auto simp: n_def Let_def)
  have m: "marks_ok sid sent (s_delivered s)" using assms(2) by (simp add: cursor_inv_def)
  have g: "(\<forall>h \<in> set hs. sc_id h = sid (sc_seq h) \<and> sc_seq h < n \<and> sc_seq h \<notin> sent)"
    "(\<forall>x \<in> set (rs_read r). sc_owed x \<longrightarrow> sc_seq x < n \<longrightarrow> sc_seq x \<in> sent \<or> sc_seq x \<in> sc_seq ` set hs)"
    using restart_holes_ok [OF assms(1) m assms(5) _ _ h] assms(3) by (auto simp: scan_of_def)
  let ?r = "add_holes hs ((reset_cur n (s_cur s))\<lparr>cu_base := rs_base r\<rparr>)"
  have a: "holes_ok sid sent n ?r" "cu_next ?r = n" "cu_base ?r = rs_base r"
    "get (cu_holes ?r) q \<noteq> None \<longleftrightarrow> q \<in> sc_seq ` set hs" for q
    using holes_add_holes [OF assms(1) _ g(1), of "(reset_cur n (s_cur s))\<lparr>cu_base := rs_base r\<rparr>"] by simp_all
  have "accounted owed sent n ?r"
    unfolding accounted_def a(3,4)
  proof (intro ballI impI)
    fix q assume q: "q \<in> owed" "rs_base r \<le> q" "q < n"
    then have "q \<le> rs_last r" using n le_of_less_Suc [of q "rs_last r"] by simp
    then show "q \<in> sent \<or> q \<in> sc_seq ` set hs" using q g(2) assms(3) unfolding scan_of_def by blast
  qed
  then have "accounted owed sent n (?r\<lparr>cu_above := x\<rparr>)" "holes_ok sid sent n (?r\<lparr>cu_above := x\<rparr>)" for x
    using a(1) by (simp_all add: accounted_def holes_ok_def)
  moreover have "rs_base r \<le> n" using f assms(4) by (auto simp: n_def Let_def)
  then have "ids_known sid sent n (s_delivered s)" using assms(5) by (auto simp: ids_known_def)
  ultimately show ?thesis using m a(2) by (simp add: e cursor_inv_def)
qed

lemma inv_applyRestart:
  assumes "stream_ids sid" "cursor_inv sid owed sent (s_cur s) (s_delivered s)" "scan_of sid owed (rs_base r) (rs_last r) (rs_read r)"
    "rs_base r \<le> rs_last r + 1" "ids_known sid sent (rs_base r) (s_delivered s)"
  shows "cursor_inv sid owed sent (s_cur (snd (applyRestart c closed resuming bd r flr now s)))
    (s_delivered (snd (applyRestart c closed resuming bd r flr now s)))"
  using assms(2) inv_restart [OF assms, of bd flr now] by (simp add: applyRestart_def)

section \<open>Deliveries\<close>

lemma get_filter: "wf_map m \<Longrightarrow> get (filter (\<lambda>(_, d). P d) m) i = Some d \<longleftrightarrow> get m i = Some d \<and> P d"
  by (auto simp: get_mem [symmetric])

lemma marks_filter: "marks_ok sid sent m \<Longrightarrow> marks_ok sid sent (filter (\<lambda>(_, d). P d) m)"
  by (auto simp: marks_ok_def get_filter split: option.splits if_splits)

lemma marks_note:
  assumes "stream_ids sid" "marks_ok sid sent m"
  shows "q \<noteq> 0 \<Longrightarrow> marks_ok sid (insert q sent) (AList.update (sid q) \<lparr>dm_at = now, dm_seq = q\<rparr> m)"
    and "i \<notin> range sid \<Longrightarrow> marks_ok sid sent (AList.update i \<lparr>dm_at = now, dm_seq = 0\<rparr> m)"
  using assms by (auto simp: marks_ok_def split: if_splits)

lemma cur_note [simp]:
  "s_cur (note_mark now i q s) = s_cur s"
  "s_delivered (note_mark now i q s) = AList.update i \<lparr>dm_at = now, dm_seq = q\<rparr> (s_delivered s)"
  by (simp_all add: note_mark_def)

lemma inv_note:
  assumes "stream_ids sid" "cursor_inv sid owed sent r m" "q \<noteq> 0"
  shows "cursor_inv sid owed (insert q sent) (removeHole (sid q) r) (AList.update (sid q) \<lparr>dm_at = now, dm_seq = q\<rparr> m)"
proof -
  have e: "sid p = sid p' \<longleftrightarrow> p = p'" for p p' using assms(1) by (auto simp: stream_ids_def dest: injD)
  have h: "holes_ok sid sent (cu_next r) r" using assms(2) by (simp add: cursor_inv_def)
  have i: "get (cu_holes r) p = Some (sid q) \<Longrightarrow> p = q" "get (cu_holes r) q = Some x \<Longrightarrow> x = sid q" for p x
    using h e unfolding holes_ok_def by metis+
  have g: "get (cu_holes (removeHole (sid q) r)) p = (if p = q then None else get (cu_holes r) p)" for p
    using holes_removeHole(2) [OF h, of "sid q" p] i by (cases "get (cu_holes r) p") auto
  have "q \<notin> dom (get (cu_holes (removeHole (sid q) r)))" using g [of q] by auto
  then have "holes_ok sid (insert q sent) (cu_next r) (removeHole (sid q) r)"
    using holes_removeHole(1) [OF h, of "sid q"] unfolding holes_ok_def by blast
  moreover have "accounted owed sent (cu_next r) r \<Longrightarrow> accounted owed (insert q sent) (cu_next r) (removeHole (sid q) r)"
    by (simp add: accounted_def g)
  ultimately show ?thesis using assms marks_note(1) [OF assms(1) _ assms(3)] by (auto simp: cursor_inv_def ids_known_def)
qed

lemma inv_note_plain:
  assumes "stream_ids sid" "cursor_inv sid owed sent r m" "i \<notin> range sid"
  shows "cursor_inv sid owed sent (removeHole i r) (AList.update i \<lparr>dm_at = now, dm_seq = 0\<rparr> m)"
proof -
  have h: "holes_ok sid sent (cu_next r) r" using assms(2) by (simp add: cursor_inv_def)
  then have "get (cu_holes r) p \<noteq> Some i" for p using assms(3) unfolding holes_ok_def by blast
  then have "get (cu_holes (removeHole i r)) = get (cu_holes r)"
    using holes_removeHole(2) [OF h, of i] by auto
  then show ?thesis using assms holes_removeHole(1) [OF h, of i] marks_note(2) [OF assms(1) _ assms(3)]
    by (auto simp: cursor_inv_def accounted_def ids_known_def)
qed

lemma lowest_le: "x \<noteq> 0 \<Longrightarrow> lowestSeq [x, y] \<noteq> 0 \<and> lowestSeq [x, y] \<le> x"
  by (auto simp: lowestSeq_def)

lemma inv_prune:
  assumes "stream_ids sid" "cursor_inv sid owed sent (s_cur s) (s_delivered s)"
  shows "cursor_inv sid owed sent (s_cur (prune bd now s)) (s_delivered (prune bd now s))"
proof -
  let ?keep = "lowestSeq [cu_next (s_cur s), cu_pin (s_cur s)]"
  let ?P = "\<lambda>d. keep_mark now (session_window s) ?keep (s_maxDeliveredSeq s) d"
  let ?m = "filter (\<lambda>(_, d). ?P d) (s_delivered s)"
  have m: "marks_ok sid sent (s_delivered s)" using assms(2) by (simp add: cursor_inv_def)
  have "ids_known sid sent (cu_next (s_cur s)) ?m" if nz: "cu_next (s_cur s) \<noteq> 0"
    unfolding ids_known_def
  proof (intro ballI impI)
    fix q assume q: "q \<in> sent" "cu_next (s_cur s) \<le> q"
    then obtain d where d: "get (s_delivered s) (sid q) = Some d" using assms(2) nz by (auto simp: cursor_inv_def ids_known_def)
    then have "dm_seq d = q" using known_seq [OF assms(1) m] by blast
    then have "?P d" using lowest_le [OF nz, of "cu_pin (s_cur s)"] q(2) order_trans [of ?keep "cu_next (s_cur s)" q]
      by (auto simp: keep_mark_def)
    then show "get ?m (sid q) \<noteq> None" using d m get_filter [of "s_delivered s" ?P "sid q" d] by (simp add: marks_ok_def)
  qed
  then have "cursor_inv sid owed sent (s_cur s) ?m" using assms(2) marks_filter [OF m] by (simp add: cursor_inv_def)
  then show ?thesis using assms(2) inv_drop by (auto simp: prune_def Let_def)
qed

lemma inv_fields:
  assumes "cursor_inv sid owed sent r m" "cu_next r' = cu_next r" "cu_base r' = cu_base r" "cu_holes r' = cu_holes r" "cu_holeAt r' = cu_holeAt r"
  shows "cursor_inv sid owed sent r' m"
  using assms(1) unfolding cursor_inv_def accounted_def assms(2-) holes_ok_cong [OF assms(4,5)] .

lemma noteDelivered_split:
  fixes s :: "'a session_replay_scheme"
  obtains s1 :: "'a session_replay_scheme" where "s_delivered s1 = AList.update i \<lparr>dm_at = now, dm_seq = q\<rparr> (s_delivered s)"
    "cu_next (s_cur s1) = cu_next (s_cur s)" "cu_base (s_cur s1) = cu_base (s_cur s)"
    "cu_holes (s_cur s1) = cu_holes (removeHole i (s_cur s))" "cu_holeAt (s_cur s1) = cu_holeAt (removeHole i (s_cur s))"
    "s_delivered (snd (noteDelivered bd now i q s)) = s_delivered (prune bd now s1)"
    "\<exists>a b. s_cur (snd (noteDelivered bd now i q s)) = (s_cur (prune bd now s1))\<lparr>cu_scanning := a, cu_asked := b\<rparr>"
proof -
  define s0 where "s0 = set_cur (removeHole i) (note_mark now i q s)"
  define s1 where "s1 = (if cu_next (s_cur s0) \<noteq> 0 \<and> cu_next (s_cur s0) \<le> q \<or> cu_next (s_cur s0) = 0 \<and> q \<noteq> 0
    then set_cur (\<lambda>r. r\<lparr>cu_above := cu_above r + 1\<rparr>) s0 else s0)"
  define t where "t = prune bd now s1"
  have e: "noteDelivered bd now i q s =
      (if bd_scanAfter bd \<le> cu_above (s_cur t) \<and> (cu_next (s_cur t) \<noteq> 0 \<or> cu_pin (s_cur t) = 0) then
         if \<not> cu_scanning (s_cur t) then (True, set_cur (\<lambda>r. r\<lparr>cu_scanning := True\<rparr>) t)
         else (False, set_cur (\<lambda>r. r\<lparr>cu_asked := True\<rparr>) t)
       else (False, t))"
    unfolding noteDelivered_def s0_def [symmetric] Let_def s1_def [symmetric] t_def [symmetric] by (rule refl)
  have f: "s_cur (snd (noteDelivered bd now i q s)) = (s_cur t)\<lparr>cu_scanning := cu_scanning (s_cur (snd (noteDelivered bd now i q s))),
      cu_asked := cu_asked (s_cur (snd (noteDelivered bd now i q s)))\<rparr>"
    unfolding e by simp
  show ?thesis
  proof (rule that [of s1])
    show "s_delivered (snd (noteDelivered bd now i q s)) = s_delivered (prune bd now s1)" unfolding e t_def by simp
    show "\<exists>a b. s_cur (snd (noteDelivered bd now i q s)) = (s_cur (prune bd now s1))\<lparr>cu_scanning := a, cu_asked := b\<rparr>"
      using f t_def by metis
  qed (simp_all add: s1_def s0_def)
qed

lemma inv_noteDelivered:
  fixes s :: "'a session_replay_scheme"
  assumes "stream_ids sid" "cursor_inv sid owed sent' (removeHole i (s_cur s)) (AList.update i \<lparr>dm_at = now, dm_seq = q\<rparr> (s_delivered s))"
  shows "cursor_inv sid owed sent' (s_cur (snd (noteDelivered bd now i q s))) (s_delivered (snd (noteDelivered bd now i q s)))"
proof -
  obtain s1 :: "'a session_replay_scheme" where s: "s_delivered s1 = AList.update i \<lparr>dm_at = now, dm_seq = q\<rparr> (s_delivered s)"
    "cu_next (s_cur s1) = cu_next (s_cur s)" "cu_base (s_cur s1) = cu_base (s_cur s)"
    "cu_holes (s_cur s1) = cu_holes (removeHole i (s_cur s))" "cu_holeAt (s_cur s1) = cu_holeAt (removeHole i (s_cur s))"
    "s_delivered (snd (noteDelivered bd now i q s)) = s_delivered (prune bd now s1)"
    "\<exists>a b. s_cur (snd (noteDelivered bd now i q s)) = (s_cur (prune bd now s1))\<lparr>cu_scanning := a, cu_asked := b\<rparr>"
    by (rule noteDelivered_split [where i = i and now = now and q = q and s = s and bd = bd])
  obtain a b where c: "s_cur (snd (noteDelivered bd now i q s)) = (s_cur (prune bd now s1))\<lparr>cu_scanning := a, cu_asked := b\<rparr>"
    using s(7) by blast
  have "cursor_inv sid owed sent' (s_cur s1) (s_delivered s1)" using inv_fields [OF assms(2), of "s_cur s1"] s(1-5) by simp
  then have "cursor_inv sid owed sent' (s_cur (prune bd now s1)) (s_delivered (prune bd now s1))" by (rule inv_prune [OF assms(1)])
  then show ?thesis unfolding s(6) c by (rule inv_fields) simp_all
qed

section \<open>Replays and late copies\<close>

lemma cur_set_sub [simp]: "s_cur (set_sub r f s) = s_cur s" "s_delivered (set_sub r f s) = s_delivered s" "s_conn (set_sub r f s) = s_conn s"
  by (simp_all add: set_sub_def split: option.splits)

lemma cur_set_since [simp]: "s_cur (set_since lst subs s) = s_cur s" "s_delivered (set_since lst subs s) = s_delivered s"
  "s_conn (set_since lst subs s) = s_conn s"
  unfolding set_since_def by (induction subs arbitrary: s) auto

lemma inv_noteLiveCopy:
  assumes "stream_ids sid" "cursor_inv sid owed sent (s_cur s) (s_delivered s)" "q \<in> sent \<longrightarrow> get (s_delivered s) (sid q) \<noteq> None"
  shows "cursor_inv sid owed sent (s_cur (snd (noteLiveCopy bd q (sid q) s))) (s_delivered (snd (noteLiveCopy bd q (sid q) s)))"
  using inv_addHole [OF assms(1,2) _ assms(3), of bd] assms(2) by (simp add: noteLiveCopy_def)

lemma inv_lateCopy:
  assumes "stream_ids sid" "cursor_inv sid owed sent (s_cur s) (s_delivered s)" "q \<in> sent \<longrightarrow> get (s_delivered s) (sid q) \<noteq> None"
  shows "cursor_inv sid owed sent (s_cur (snd (lateCopy bd c q (sid q) s))) (s_delivered (snd (lateCopy bd c q (sid q) s)))"
proof -
  define s1 where "s1 = (if cu_next (s_cur s) \<noteq> 0 \<and> q < cu_next (s_cur s) then snd (addHoleLocked bd q (sid q) s) else s)"
  have "cursor_inv sid owed sent (s_cur s1) (s_delivered s1)"
    using inv_addHole [OF assms(1,2) _ assms(3), of bd] assms(2) by (simp add: s1_def)
  moreover have "\<exists>s2 \<in> {s, s1}. s_cur (snd (lateCopy bd c q (sid q) s)) = s_cur s2 \<and> s_delivered (snd (lateCopy bd c q (sid q) s)) = s_delivered s2"
    unfolding lateCopy_def s1_def [symmetric] Let_def by simp
  ultimately show ?thesis using assms(2) by auto
qed

lemma settle_holes_spec:
  assumes "holes_ok sid sent n r" "wf_map had"
  shows "holes_ok sid sent n (settle_holes lst had r) \<and> cu_next (settle_holes lst had r) = cu_next r \<and>
    cu_base (settle_holes lst had r) = cu_base r \<and>
    (\<forall>q. get (cu_holes (settle_holes lst had r)) q =
      (if q \<le> lst \<and> get had q \<noteq> None \<and> get had q = get (cu_holes r) q then None else get (cu_holes r) q))"
  using assms
proof (induction had arbitrary: r)
  case (Cons h had)
  obtain p i where h: "h = (p, i)" by fastforce
  let ?r = "if p \<le> lst \<and> get (cu_holes r) p = Some i then removeHole i r else r"
  have ok: "holes_ok sid sent n ?r" using Cons.prems(1) holes_removeHole(1) by simp
  have u: "get (cu_holes r) q = Some i \<Longrightarrow> get (cu_holes r) p = Some i \<Longrightarrow> q = p" for q
    using Cons.prems(1) unfolding holes_ok_def by (metis option.inject)
  have g: "get (cu_holes ?r) q = (if q = p \<and> p \<le> lst \<and> get (cu_holes r) p = Some i then None else get (cu_holes r) q)" for q
    using holes_removeHole(2) [OF Cons.prems(1), of i q] u by auto
  have w: "wf_map had" "get had p = None" using Cons.prems(2) h in_keys [of p had] by (auto simp: wf_map_def keys_def)
  have e: "settle_holes lst (h # had) r = settle_holes lst had ?r" by (simp add: settle_holes_def h)
  show ?case unfolding e using Cons.IH [OF ok w(1)] g w(2) h by auto
qed (simp add: settle_holes_def)

text \<open>What the replay has done when it reports \<open>lst\<close>: the messages it passed are settled.\<close>

definition replay_bound :: "u64 \<Rightarrow> u64 \<Rightarrow> u64" where
  "replay_bound flr lst = (let n = lst + 1 in if flr \<noteq> 0 \<and> flr < n then flr else n)"

definition span_sent :: "u64 set \<Rightarrow> u64 set \<Rightarrow> u64 \<Rightarrow> u64 \<Rightarrow> bool" where
  "span_sent owed sent b n \<longleftrightarrow> (\<forall>q \<in> owed. b \<le> q \<longrightarrow> q < n \<longrightarrow> q \<in> sent)"

definition holes_settled :: "u64 set \<Rightarrow> u64 \<Rightarrow> (u64, string) gomap \<Rightarrow> replayCursor \<Rightarrow> bool" where
  "holes_settled owed lst had r \<longleftrightarrow> wf_map had \<and>
    (\<forall>q. get had q \<noteq> None \<longrightarrow> q \<le> lst \<longrightarrow> get (cu_holes r) q \<noteq> None \<longrightarrow> q \<notin> owed)"

lemma inv_replayed_cursor:
  assumes "cursor_inv sid owed sent (s_cur s) (s_delivered s)"
    "holes_settled owed lst (cv_holes v) (s_cur s)" "span_sent owed sent (cu_next (s_cur s)) (replay_bound flr lst)"
  shows "cursor_inv sid owed sent (s_cur (snd (replayedTo c closed (Some v) start lst flr s)))
    (s_delivered (snd (replayedTo c closed (Some v) start lst flr s)))"
proof (cases "s_conn s \<noteq> Some c \<or> closed \<or> cu_next (s_cur s) = 0")
  case True
  then have "\<exists>t. snd (replayedTo c closed (Some v) start lst flr s) = t \<and> s_cur t = (s_cur s)\<lparr>cu_pin := 0\<rparr> \<and> s_delivered t = s_delivered s"
    by (auto simp: replayedTo_def Let_def unpin_def set_cur_def)
  then show ?thesis using inv_fields [OF assms(1), of "(s_cur s)\<lparr>cu_pin := 0\<rparr>"] by auto
next
  case False
  let ?n = "replay_bound flr lst"
  let ?c = "(s_cur s)\<lparr>cu_pin := 0\<rparr>"
  let ?r = "settle_holes lst (cv_holes v) ?c"
  have i: "holes_ok sid sent (cu_next (s_cur s)) ?c" using assms(1) by (simp add: cursor_inv_def holes_ok_def)
  have w: "wf_map (cv_holes v)" using assms(2) by (simp add: holes_settled_def)
  have s: "holes_ok sid sent (cu_next (s_cur s)) ?r" "cu_next ?r = cu_next (s_cur s)" "cu_base ?r = cu_base (s_cur s)"
    "get (cu_holes ?r) q = (if q \<le> lst \<and> get (cv_holes v) q \<noteq> None \<and> get (cv_holes v) q = get (cu_holes (s_cur s)) q then None else get (cu_holes (s_cur s)) q)" for q
    using settle_holes_spec [OF i w, of lst] by simp_all
  have a: "accounted owed sent (cu_next (s_cur s)) ?r"
    using assms(1,2) False unfolding accounted_def s(3,4) cursor_inv_def holes_settled_def accounted_def by (metis option.distinct(1))
  then have "accounted owed sent (max (cu_next (s_cur s)) ?n) ?r"
    using assms(3) by (auto simp: accounted_def span_sent_def max_def not_less split: if_splits)
  moreover have "\<exists>x. s_cur (snd (replayedTo c closed (Some v) start lst flr s)) =
      (if cu_next (s_cur s) < ?n then ?r\<lparr>cu_next := ?n, cu_above := x\<rparr> else ?r) \<and>
      s_delivered (snd (replayedTo c closed (Some v) start lst flr s)) = s_delivered s"
    using False s(2) by (auto simp: replayedTo_def Let_def unpin_def replay_bound_def)
  moreover have "ids_known sid sent (max (cu_next (s_cur s)) ?n) (s_delivered s)" "marks_ok sid sent (s_delivered s)"
    using assms(1) False by (auto simp: cursor_inv_def ids_known_def)
  moreover have "holes_ok sid sent (max (cu_next (s_cur s)) ?n) ?r" using s(1) holes_ok_mono by simp
  ultimately show ?thesis using a s(1,2) assms(1) False inv_moved [of sid sent ?n ?r owed "s_delivered s"]
    by (auto simp: max_def cursor_inv_def split: if_splits)
qed

lemma inv_replayed_fresh:
  assumes "cursor_inv sid owed sent (s_cur s) (s_delivered s)"
    "span_sent owed sent 0 (replay_bound flr lst)" "start \<le> lst + 1" "ids_known sid sent start (s_delivered s)"
  shows "cursor_inv sid owed sent (s_cur (snd (replayedTo c closed None start lst flr s)))
    (s_delivered (snd (replayedTo c closed None start lst flr s)))"
proof (cases "s_conn s \<noteq> Some c \<or> closed \<or> cu_next (s_cur s) \<noteq> 0 \<or> cu_pin (s_cur s) = 0 \<or> start < cu_pin (s_cur s) \<or> (flr \<noteq> 0 \<and> flr < start)")
  case True
  then have "\<exists>t. snd (replayedTo c closed None start lst flr s) = t \<and> s_cur t = (s_cur s)\<lparr>cu_pin := 0\<rparr> \<and> s_delivered t = s_delivered s"
    by (auto simp: replayedTo_def Let_def unpin_def set_cur_def)
  then show ?thesis using inv_fields [OF assms(1), of "(s_cur s)\<lparr>cu_pin := 0\<rparr>"] by auto
next
  case False
  let ?n = "replay_bound flr lst"
  have "start \<le> ?n" using False assms(3) by (auto simp: replay_bound_def Let_def)
  then have "ids_known sid sent ?n (s_delivered s)" using assms(4) by (auto simp: ids_known_def)
  moreover have "\<exists>x r. s_cur (snd (replayedTo c closed None start lst flr s)) = (reset_cur ?n r)\<lparr>cu_above := x\<rparr> \<and>
      s_delivered (snd (replayedTo c closed None start lst flr s)) = s_delivered s"
    using False by (auto simp: replayedTo_def Let_def unpin_def replay_bound_def)
  ultimately show ?thesis using assms(1,2) inv_fresh [of sid sent "s_delivered s"] by (auto simp: span_sent_def cursor_inv_def [of _ _ _ "s_cur s"])
qed

lemma inv_setSince:
  assumes "cursor_inv sid owed sent (s_cur s) (s_delivered s)"
    "exact \<and> \<not> hadNonShared \<longrightarrow> span_sent owed sent 0 (lst + 1) \<and> ids_known sid sent (lst + 1) (s_delivered s)"
  shows "cursor_inv sid owed sent (s_cur (snd (setSince c subs lst exact hadNonShared flr s)))
    (s_delivered (snd (setSince c subs lst exact hadNonShared flr s)))"
  using assms inv_fresh [of sid sent "s_delivered s" "reset_cur (lst + 1) (s_cur s)" owed]
  by (auto simp: setSince_def Let_def span_sent_def cursor_inv_def [of _ _ _ "s_cur s"])

section \<open>Runs\<close>

type_synonym 'a cursor_state = "'a session_replay_scheme \<times> u64 set \<times> u64 set"

text \<open>
  One call. The guards say what the caller knows of the stream: a scan reads what is owed in its span; a replay that
  reports a sequence has sent what it passed; a live copy that was sent already is one whose id is still kept (the ids are
  kept for twice the rewind); a subscription made now is owed what is stored at or above the cursor, which never lies past
  the stream's end. The last rule is a call that leaves the cursor and the delivered ids alone.
\<close>

inductive cursor_step :: "(u64 \<Rightarrow> string) \<Rightarrow> bounds \<Rightarrow> 'a cursor_state \<Rightarrow> 'a cursor_state \<Rightarrow> bool"
  for sid bd where
  queued: "q \<noteq> 0 \<Longrightarrow> cursor_step sid bd (s, owed, sent) (snd (noteDelivered bd now (sid q) q s), owed, insert q sent)"
| plain: "mid \<notin> range sid \<Longrightarrow> cursor_step sid bd (s, owed, sent) (snd (noteDelivered bd now mid 0 s), owed, sent)"
| live: "q \<in> sent \<longrightarrow> get (s_delivered s) (sid q) \<noteq> None \<Longrightarrow>
    cursor_step sid bd (s, owed, sent) (snd (noteLiveCopy bd q (sid q) s), owed, sent)"
| late: "q \<in> sent \<longrightarrow> get (s_delivered s) (sid q) \<noteq> None \<Longrightarrow>
    cursor_step sid bd (s, owed, sent) (snd (lateCopy bd c q (sid q) s), owed, sent)"
| scan: "start \<noteq> 0 \<Longrightarrow> scan_of sid owed start lst read \<Longrightarrow>
    cursor_step sid bd (s, owed, sent) (snd (applyScan c closed bd gen start lst subs read flr s), owed, sent)"
| restart: "scan_of sid owed (rs_base r) (rs_last r) (rs_read r) \<Longrightarrow> rs_base r \<le> rs_last r + 1 \<Longrightarrow>
    ids_known sid sent (rs_base r) (s_delivered s) \<Longrightarrow>
    cursor_step sid bd (s, owed, sent) (snd (applyRestart c closed resuming bd r flr now s), owed, sent)"
| pin: "cursor_step sid bd (s, owed, sent) (pinForReplay q s, owed, sent)"
| unpinned: "cursor_step sid bd (s, owed, sent) (unpin s, owed, sent)"
| replayed: "holes_settled owed lst (cv_holes v) (s_cur s) \<Longrightarrow> span_sent owed sent (cu_next (s_cur s)) (replay_bound flr lst) \<Longrightarrow>
    cursor_step sid bd (s, owed, sent) (snd (replayedTo c closed (Some v) start lst flr s), owed, sent)"
| replayed_all: "span_sent owed sent 0 (replay_bound flr lst) \<Longrightarrow> start \<le> lst + 1 \<Longrightarrow> ids_known sid sent start (s_delivered s) \<Longrightarrow>
    cursor_step sid bd (s, owed, sent) (snd (replayedTo c closed None start lst flr s), owed, sent)"
| since: "exact \<and> \<not> hadNonShared \<longrightarrow> span_sent owed sent 0 (lst + 1) \<and> ids_known sid sent (lst + 1) (s_delivered s) \<Longrightarrow>
    cursor_step sid bd (s, owed, sent) (snd (setSince c subs lst exact hadNonShared flr s), owed, sent)"
| again: "cursor_step sid bd (s, owed, sent) (snd (scanAgain bd moved s), owed, sent)"
| drop_cursor: "cursor_step sid bd (s, owed, sent) (dropCursorLocked s, owed, sent)"
| owes: "\<forall>q \<in> owed' - owed. cu_next (s_cur s) \<le> q \<Longrightarrow> cursor_step sid bd (s, owed, sent) (s, owed', sent)"
| other: "s_cur s' = s_cur s \<Longrightarrow> s_delivered s' = s_delivered s \<Longrightarrow> cursor_step sid bd (s, owed, sent) (s', owed, sent)"

definition cursor_start :: "'a cursor_state \<Rightarrow> bool" where
  "cursor_start = (\<lambda>(s, owed, sent). cu_next (s_cur s) = 0 \<and> cu_holes (s_cur s) = [] \<and> cu_holeAt (s_cur s) = [] \<and>
     s_delivered s = [] \<and> sent = {})"

definition world_inv :: "(u64 \<Rightarrow> string) \<Rightarrow> 'a cursor_state \<Rightarrow> bool" where
  "world_inv sid = (\<lambda>(s, owed, sent). stream_ids sid \<longrightarrow> cursor_inv sid owed sent (s_cur s) (s_delivered s))"

lemma inv_owes:
  assumes "cursor_inv sid owed sent r m" "\<forall>q \<in> owed' - owed. cu_next r \<le> q"
  shows "cursor_inv sid owed' sent r m"
  using assms by (fastforce simp: cursor_inv_def accounted_def not_le [symmetric])

lemma inv_flags:
  assumes "cursor_inv sid owed sent (s_cur s) (s_delivered s)"
  shows "cursor_inv sid owed sent (s_cur (pinForReplay q s)) (s_delivered (pinForReplay q s))"
    and "cursor_inv sid owed sent (s_cur (unpin s)) (s_delivered (unpin s))"
    and "cursor_inv sid owed sent (s_cur (snd (scanAgain bd moved s))) (s_delivered (snd (scanAgain bd moved s)))"
  using assms by (auto simp: pinForReplay_def unpin_def scanAgain_def Let_def intro: inv_fields)

interpretation cursor_runs: step_invariant "cursor_step sid bd" cursor_start "world_inv sid" for sid bd
proof
  show "world_inv sid w" if "cursor_start w" for w :: "'a cursor_state"
    using that by (auto simp: cursor_start_def world_inv_def cursor_inv_def marks_ok_def)
  show "world_inv sid w'" if "cursor_step sid bd w w'" "world_inv sid w" for w w' :: "'a cursor_state"
    using that
    apply (cases rule: cursor_step.cases)
    apply (simp_all add: world_inv_def inv_noteDelivered inv_note inv_note_plain inv_noteLiveCopy inv_lateCopy inv_scan
        inv_applyRestart inv_flags inv_replayed_cursor inv_replayed_fresh inv_setSince inv_drop)
    by (blast intro: inv_owes)
qed

section \<open>The replay from a cursor\<close>

text \<open>What a replay that starts now sends of the messages the session is owed; a new connection has replayed nothing.\<close>

definition replay_set :: "(u64 \<Rightarrow> string) \<Rightarrow> 'a session_replay_scheme \<Rightarrow> cursorView \<Rightarrow> u64 set \<Rightarrow> u64 set" where
  "replay_set sid s v owed = {q \<in> owed. cursor_sends v (deliveredIDs s) {} q (sid q)}"

lemma deliveredIDs_get: "i \<in> deliveredIDs s \<longleftrightarrow> get (s_delivered s) i \<noteq> None"
  using in_keys [of i "s_delivered s"] by (simp add: deliveredIDs_def keys_def)

lemma replay_exact:
  assumes "stream_ids sid" "cursor_inv sid owed sent (s_cur s) (s_delivered s)" "cursorForReplay s = Some v" "q \<in> owed" "cu_base (s_cur s) \<le> q"
  shows "cursor_sends v (deliveredIDs s) {} q (sid q) \<longleftrightarrow> q \<notin> sent"
proof -
  have v: "cu_next (s_cur s) \<noteq> 0" "cv_next v = cu_next (s_cur s)" "cv_holes v = cu_holes (s_cur s)"
    using assms(3) by (auto simp: cursorForReplay_def cursorViewLocked_def split: if_splits)
  have h: "holes_ok sid sent (cu_next (s_cur s)) (s_cur s)" and m: "marks_ok sid sent (s_delivered s)"
    and a: "accounted owed sent (cu_next (s_cur s)) (s_cur s)" and k: "ids_known sid sent (cu_next (s_cur s)) (s_delivered s)"
    using assms(2) v(1) by (simp_all add: cursor_inv_def)
  have "get (cu_holes (s_cur s)) q \<noteq> None \<Longrightarrow> q \<notin> sent" using h unfolding holes_ok_def by blast
  moreover have "q < cu_next (s_cur s) \<Longrightarrow> q \<in> sent \<or> get (cu_holes (s_cur s)) q \<noteq> None"
    using a assms(4,5) by (simp add: accounted_def)
  moreover have "get (s_delivered s) (sid q) \<noteq> None \<Longrightarrow> q \<in> sent" by (rule known_sent [OF assms(1) m])
  moreover have "cu_next (s_cur s) \<le> q \<Longrightarrow> q \<in> sent \<Longrightarrow> get (s_delivered s) (sid q) \<noteq> None" using k by (simp add: ids_known_def)
  moreover have "sid q \<noteq> []" using assms(1) by (simp add: stream_ids_def)
  ultimately show ?thesis unfolding cursor_sends_def v deliveredIDs_get by (meson emptyE leI)
qed

section \<open>The cursor in the session record\<close>

lemma fold_addHole:
  assumes "\<forall>h \<in> set hs. P h"
  shows "fold (\<lambda>h r. if P h then addHole (sd_Seq h) (sd_ID h) r else r) hs r =
    add_holes (map (\<lambda>h. \<lparr>sc_seq = sd_Seq h, sc_id = sd_ID h, sc_owed = True\<rparr>) hs) r"
  using assms by (induction hs arbitrary: r) (simp_all add: add_holes_def)

lemma fold_restore_mark:
  assumes "stream_ids sid" "marks_ok sid sent (s_delivered s)"
    "\<forall>d \<in> set ds. if sd_Seq d = 0 then sd_ID d \<notin> range sid else sd_ID d = sid (sd_Seq d) \<and> sd_Seq d \<in> sent"
  shows "marks_ok sid sent (s_delivered (fold (restore_mark now) ds s)) \<and> s_cur (fold (restore_mark now) ds s) = s_cur s \<and>
    (\<forall>i \<in> sd_ID ` set ds. get (s_delivered (fold (restore_mark now) ds s)) i \<noteq> None) \<and>
    (\<forall>i. get (s_delivered s) i \<noteq> None \<longrightarrow> get (s_delivered (fold (restore_mark now) ds s)) i \<noteq> None)"
  using assms(2-)
proof (induction ds arbitrary: s)
  case (Cons d ds)
  have "marks_ok sid sent (s_delivered (restore_mark now d s))"
  proof (cases "sd_Seq d = 0")
    case True
    then show ?thesis using marks_note(2) [OF assms(1) Cons.prems(1), of "sd_ID d"] Cons.prems(2) by (simp add: restore_mark_def)
  next
    case False
    then show ?thesis using marks_note(1) [OF assms(1) Cons.prems(1), of "sd_Seq d"] Cons.prems(2)
      by (auto simp: restore_mark_def insert_absorb)
  qed
  then show ?case using Cons.IH [of "restore_mark now d s"] Cons.prems(2) by (auto simp: restore_mark_def)
qed simp

lemma split_all: "splitDelivered db ds = (a, b, 0) \<Longrightarrow> a @ b = ds"
  by (auto simp: splitDelivered_def Let_def split: if_splits)

lemma listed_marks:
  assumes "marks_ok sid sent m" "d \<in> set (sort_delivered (listed P m))"
  shows "if sd_Seq d = 0 then sd_ID d \<notin> range sid else sd_ID d = sid (sd_Seq d) \<and> sd_Seq d \<in> sent"
proof -
  obtain i x where x: "(i, x) \<in> set m" "d = \<lparr>sd_ID = i, sd_Seq = dm_seq x\<rparr>" using assms(2) by (auto simp: sort_delivered_def listed_def)
  then have "get m i = Some x" using assms(1) get_mem [of m i x] by (simp add: marks_ok_def)
  then have "if dm_seq x = 0 then i \<notin> range sid else i = sid (dm_seq x) \<and> dm_seq x \<in> sent"
    using assms(1) unfolding marks_ok_def by blast
  then show ?thesis using x(2) by simp
qed

lemma listed_known:
  assumes "get m i = Some x" "P x"
  shows "i \<in> sd_ID ` set (sort_delivered (listed P m))"
proof -
  have "(i, x) \<in> set m" using assms(1) map_of_SomeD by fastforce
  then have "\<lparr>sd_ID = i, sd_Seq = dm_seq x\<rparr> \<in> set (listed P m)" using assms(2) by (force simp: listed_def)
  then have "sd_ID \<lparr>sd_ID = i, sd_Seq = dm_seq x\<rparr> \<in> sd_ID ` set (listed P m)" by (rule imageI)
  then show ?thesis by (simp add: sort_delivered_def)
qed

lemma lowest3_le: "z \<noteq> 0 \<Longrightarrow> lowestSeq [x, y, z] \<noteq> 0 \<and> lowestSeq [x, y, z] \<le> z"
  by (auto simp: lowestSeq_def)

lemma record_cursor:
  assumes "awayStateInto db now s rec = (dropped, rec')" "sr_ReplayCursor rec' \<noteq> 0"
  shows "dropped = 0 \<and> cu_base (s_cur s) = 0 \<and> sr_ReplayCursor rec' = cu_next (s_cur s) \<and> sr_ReplayHoles rec' = view_stored (cursorViewLocked s) \<and>
    (\<exists>P. sr_Delivered rec' @ sr_deliveredOver rec' = sort_delivered (listed P (s_delivered s)) \<and>
      (\<forall>d. cu_next (s_cur s) \<le> dm_seq d \<longrightarrow> P d))"
proof -
  define start where "start = lowestSeq [s_awayFromSeq s, lowestSeq [s_awayLateSeq s, s_lateSeq s], cu_next (s_cur s)]"
  define f where "f = (if start = 0 then - 1 else start)"
  define P where "P = (\<lambda>d :: deliveredMark. f \<le> dm_seq d \<or> \<not> dm_at d < deliveredFloor now s)"
  obtain a b n where d: "deliveredFromLocked db now f s = (a, b, n)" by (metis prod_cases3)
  have e: "dropped = n" "rec' = cursorIntoLocked n s ((delivered_into (a, b, n) rec)\<lparr>sr_AwayFromSeq := s_awayFromSeq s,
      sr_AwayLateSeq := lowestSeq [s_awayLateSeq s, s_lateSeq s]\<rparr>)"
    using assms(1) d unfolding awayStateInto_def Let_def start_def [symmetric] f_def [symmetric] by auto
  have c: "cu_next (s_cur s) \<noteq> 0" "cu_base (s_cur s) = 0" "n = 0" "sr_ReplayCursor rec' = cu_next (s_cur s)"
    "sr_ReplayHoles rec' = view_stored (cursorViewLocked s)" "sr_Delivered rec' = a" "sr_deliveredOver rec' = b"
    using assms(2) unfolding e cursorIntoLocked_def by (auto simp: Let_def delivered_into_def cursorViewLocked_def split: if_splits)
  have "a @ b = sort_delivered (listed P (s_delivered s))"
    using split_all d c(3) unfolding deliveredFromLocked_def P_def by blast
  moreover have "\<forall>d. cu_next (s_cur s) \<le> dm_seq d \<longrightarrow> P d"
    using lowest3_le [OF c(1)] by (auto simp: P_def f_def start_def intro: order_trans)
  ultimately show ?thesis using c e(1) by blast
qed

lemma restored_cursor:
  assumes "stream_ids sid" "holes_ok sid sent n r" "n \<noteq> 0" "marks_ok sid sent (s_delivered s)" "cu_base (s_cur s) = 0"
  shows "\<exists>r'. s_cur (restoreCursorLocked n (view_stored \<lparr>cv_next = n, cv_holes = cu_holes r\<rparr>) s) = r' \<and>
    holes_ok sid sent n r' \<and> cu_next r' = n \<and> cu_base r' = 0 \<and> (\<forall>q. get (cu_holes r') q \<noteq> None \<longleftrightarrow> get (cu_holes r) q \<noteq> None)"
proof -
  let ?hs = "view_stored \<lparr>cv_next = n, cv_holes = cu_holes r\<rparr>"
  let ?P = "\<lambda>h. sd_Seq h < n \<and> sd_ID h \<noteq> [] \<and> get (s_delivered s) (sd_ID h) = None"
  let ?g = "\<lambda>h. \<lparr>sc_seq = sd_Seq h, sc_id = sd_ID h, sc_owed = True\<rparr>"
  let ?b = "(s_cur s)\<lparr>cu_next := n, cu_holes := [], cu_holeAt := [], cu_gen := cu_gen (s_cur s) + 1\<rparr>"
  have m: "h \<in> set ?hs \<longleftrightarrow> get (cu_holes r) (sd_Seq h) = Some (sd_ID h)" for h
    using get_mem [of "cu_holes r" "sd_Seq h" "sd_ID h"] assms(2) by (cases h) (force simp: view_stored_def holes_ok_def)
  have k: "sd_ID h = sid (sd_Seq h) \<and> sd_Seq h < n \<and> sd_Seq h \<notin> sent" if "h \<in> set ?hs" for h
    using that m [of h] assms(2) unfolding holes_ok_def by blast
  have p: "?P h" if "h \<in> set ?hs" for h
    using k [OF that] known_sent [OF assms(1,4), of "sd_Seq h"] assms(1) unfolding stream_ids_def by metis
  have e: "s_cur (restoreCursorLocked n ?hs s) = add_holes (map ?g ?hs) ?b"
    using assms(3) p fold_addHole [of ?hs ?P ?b] by (simp add: restoreCursorLocked_def)
  have "\<forall>h \<in> set (map ?g ?hs). sc_id h = sid (sc_seq h) \<and> sc_seq h < n \<and> sc_seq h \<notin> sent" using k by auto
  from holes_add_holes [OF assms(1) _ this, of ?b]
  have "holes_ok sid sent n (add_holes (map ?g ?hs) ?b)" "cu_next (add_holes (map ?g ?hs) ?b) = n" "cu_base (add_holes (map ?g ?hs) ?b) = 0"
    and q: "get (cu_holes (add_holes (map ?g ?hs) ?b)) q \<noteq> None \<longleftrightarrow> q \<in> sd_Seq ` set ?hs" for q
    using assms(5) by (simp_all add: image_image)
  moreover have "q \<in> sd_Seq ` set ?hs \<longleftrightarrow> get (cu_holes r) q \<noteq> None" for q
  proof
    assume "get (cu_holes r) q \<noteq> None"
    then obtain i where "get (cu_holes r) q = Some i" by auto
    then have "\<lparr>sd_ID = i, sd_Seq = q\<rparr> \<in> set ?hs" using m [of "\<lparr>sd_ID = i, sd_Seq = q\<rparr>"] by simp
    then show "q \<in> sd_Seq ` set ?hs" by force
  qed (use m in auto)
  ultimately show ?thesis unfolding e by simp
qed

lemma restored_inv:
  assumes "stream_ids sid" "cursor_inv sid owed sent (s_cur s) (s_delivered s)"
    "awayStateInto db now s rec = (dropped, rec')" "sr_ReplayCursor rec' \<noteq> 0"
    "marks_ok sid sent (s_delivered s0)" "cu_base (s_cur s0) = 0"
    "s1 = markAwayRestored now' at fromSeq lateSeq rewoundTo (sr_Delivered rec' @ sr_deliveredOver rec') (sr_ReplayCursor rec') (sr_ReplayHoles rec') s0"
  shows "cursor_inv sid owed sent (s_cur s1) (s_delivered s1) \<and> cu_base (s_cur s1) = 0 \<and> cu_next (s_cur s1) \<noteq> 0"
proof -
  obtain P where r: "cu_base (s_cur s) = 0" "sr_ReplayCursor rec' = cu_next (s_cur s)" "sr_ReplayHoles rec' = view_stored (cursorViewLocked s)"
    "sr_Delivered rec' @ sr_deliveredOver rec' = sort_delivered (listed P (s_delivered s))" "\<forall>d. cu_next (s_cur s) \<le> dm_seq d \<longrightarrow> P d"
    using record_cursor [OF assms(3,4)] by blast
  let ?n = "cu_next (s_cur s)"
  have n: "?n \<noteq> 0" using assms(4) r(2) by simp
  have i: "holes_ok sid sent ?n (s_cur s)" "marks_ok sid sent (s_delivered s)" "accounted owed sent ?n (s_cur s)" "ids_known sid sent ?n (s_delivered s)"
    using assms(2) n by (simp_all add: cursor_inv_def)
  define s2 where "s2 = set_away \<lparr>aw_at = at, aw_restored = True, aw_rewoundTo = rewoundTo, aw_fromSeq = fromSeq, aw_lateSeq = lateSeq\<rparr> s0"
  have s2: "s_cur s2 = s_cur s0" "s_delivered s2 = s_delivered s0" by (simp_all add: s2_def set_away_def)
  define s3 where "s3 = restoreCursorLocked ?n (view_stored \<lparr>cv_next = ?n, cv_holes = cu_holes (s_cur s)\<rparr>) s2"
  have s3: "holes_ok sid sent ?n (s_cur s3)" "cu_next (s_cur s3) = ?n" "cu_base (s_cur s3) = 0"
    "get (cu_holes (s_cur s3)) q \<noteq> None \<longleftrightarrow> get (cu_holes (s_cur s)) q \<noteq> None" "s_delivered s3 = s_delivered s0" for q
    using restored_cursor [OF assms(1) i(1) n, of s2] assms(5,6) n by (auto simp: s2 s3_def restoreCursorLocked_def)
  have e: "s1 = fold (restore_mark now') (sort_delivered (listed P (s_delivered s))) s3"
    using assms(7) r(2-4) by (simp add: markAwayRestored_def s3_def s2_def cursorViewLocked_def)
  have f: "marks_ok sid sent (s_delivered s1)" "s_cur s1 = s_cur s3"
    "\<forall>x \<in> sd_ID ` set (sort_delivered (listed P (s_delivered s))). get (s_delivered s1) x \<noteq> None"
    using fold_restore_mark [OF assms(1), of sent s3 "sort_delivered (listed P (s_delivered s))" now'] listed_marks [OF i(2), of _ P] assms(5) s3(5)
    unfolding e by simp_all
  have "accounted owed sent ?n (s_cur s3)" using i(3) s3(3,4) r(1) unfolding accounted_def by auto
  moreover have "ids_known sid sent ?n (s_delivered s1)"
    unfolding ids_known_def
  proof (intro ballI impI)
    fix q assume q: "q \<in> sent" "?n \<le> q"
    then obtain d where d: "get (s_delivered s) (sid q) = Some d" using i(4) by (auto simp: ids_known_def)
    then have "P d" using r(5) known_seq [OF assms(1) i(2) d] q(2) by simp
    then show "get (s_delivered s1) (sid q) \<noteq> None" using f(3) listed_known [OF d] by blast
  qed
  ultimately show ?thesis using f s3(1-3) n by (simp add: cursor_inv_def)
qed

section \<open>Properties\<close>

definition default_bounds :: bounds where
  "default_bounds = \<lparr>bd_scanAfter = 1024, bd_idBound = 4 * 4096, bd_maxHoles = 1024\<rparr>"

definition sample_sid :: "u64 \<Rightarrow> string" where
  "sample_sid q = replicate (Suc (unat q)) CHR ''m''"

lemma sample_ids: "stream_ids sample_sid"
proof -
  have "inj sample_sid" by (rule injI) (simp add: sample_sid_def word_unat_eq_iff)
  then show ?thesis by (simp add: stream_ids_def sample_sid_def)
qed

definition sample_first :: session_replay where
  "sample_first = (newSession ''c'' ''i'')\<lparr>s_conn := Some 1\<rparr>"

definition sample_cursor :: session_replay where
  "sample_cursor = snd (setSince 1 [] 0 True False 0 sample_first)"

definition sample_delivered :: session_replay where
  "sample_delivered = snd (noteDelivered default_bounds 0 (sample_sid 2) 2 sample_cursor)"

definition sample_read :: "scanned list" where
  "sample_read = [\<lparr>sc_seq = 1, sc_id = sample_sid 1, sc_owed = True\<rparr>, \<lparr>sc_seq = 2, sc_id = sample_sid 2, sc_owed = True\<rparr>]"

definition sample_scanned :: session_replay where
  "sample_scanned = snd (applyScan 1 False default_bounds 1 1 2 [] sample_read 0 sample_delivered)"

lemma sample_cursor_run: "(cursor_step sample_sid default_bounds)\<^sup>*\<^sup>* (sample_first, {}, {}) (sample_scanned, {1, 2}, {2})"
proof -
  have "cursor_step sample_sid default_bounds (sample_first, {}, {}) (sample_cursor, {}, {})"
    unfolding sample_cursor_def by (rule cursor_step.since) (simp add: span_sent_def ids_known_def)
  moreover have "cursor_step sample_sid default_bounds (sample_cursor, {}, {}) (sample_cursor, {1, 2}, {})"
    by (rule cursor_step.owes) (auto simp: sample_cursor_def setSince_def sample_first_def newSession_def zero_cursor_def
      set_since_def sinceKnownLocked_def setCursorLocked_def set_cur_def reset_cur_def Let_def)
  moreover have "cursor_step sample_sid default_bounds (sample_cursor, {1, 2}, {}) (sample_delivered, {1, 2}, {2})"
    unfolding sample_delivered_def using cursor_step.queued [of 2 sample_sid default_bounds sample_cursor "{1, 2}" "{}" 0] by simp
  moreover have "cursor_step sample_sid default_bounds (sample_delivered, {1, 2}, {2}) (sample_scanned, {1, 2}, {2})"
    unfolding sample_scanned_def by (rule cursor_step.scan) (auto simp: scan_of_def sample_read_def)
  ultimately show ?thesis by (meson converse_rtranclp_into_rtranclp rtranclp.rtrancl_refl)
qed

lemma sample_cursor_eval:
  "s_cur sample_cursor = zero_cursor\<lparr>cu_next := 1, cu_gen := 1\<rparr>" "s_delivered sample_cursor = []" "s_subs sample_cursor = []"
  "s_maxDeliveredSeq sample_cursor = 0" "s_conn sample_cursor = Some 1"
  by (simp_all add: sample_cursor_def setSince_def sample_first_def newSession_def zero_cursor_def
      set_since_def sinceKnownLocked_def setCursorLocked_def set_cur_def reset_cur_def Let_def)

lemma sample_delivered_eval:
  "s_cur sample_delivered = zero_cursor\<lparr>cu_next := 1, cu_gen := 1, cu_above := 1\<rparr>"
  "s_delivered sample_delivered = [(sample_sid 2, \<lparr>dm_at = 0, dm_seq = 2\<rparr>)]" "s_subs sample_delivered = []" "s_conn sample_delivered = Some 1"
  by (simp_all add: sample_delivered_def noteDelivered_def sample_cursor_eval Let_def note_mark_def prune_def set_cur_def
      removeHole_def zero_cursor_def default_bounds_def)

lemma sample_sid_neq: "sample_sid 1 \<noteq> sample_sid 2" "sample_sid q \<noteq> []"
  using sample_ids injD [of sample_sid 1 2] by (auto simp: stream_ids_def)

lemma three_above_one: "\<not> (3 :: u64) \<le> 1"
  by (simp add: word_le_nat_alt)

lemma sample_scanned_eval:
  "cu_next (s_cur sample_scanned) = 3" "cu_base (s_cur sample_scanned) = 0" "cu_holes (s_cur sample_scanned) = [(1, sample_sid 1)]"
  by (simp_all add: sample_scanned_def applyScan_def applyScanLocked_def sample_delivered_eval sameSubsLocked_def sinceKnownLocked_def scan_next_def
      sample_read_def addHoleLocked_def zero_cursor_def default_bounds_def three_above_one sample_sid_neq sample_sid_neq [symmetric] Let_def addHole_def)




definition sample_bounds_delivered :: delivered_bounds where
  "sample_bounds_delivered = \<lparr>db_stored = 4096, db_spilled = 65536\<rparr>"

definition sample_record :: sessionRecord where
  "sample_record = \<lparr>sr_Version = 1, sr_ClientID = ''c'', sr_Owner = ''b'', sr_Attached = True, sr_Identity = [], sr_Username = [],
     sr_Subscriptions = [], sr_ExpirySeconds = 60, sr_ExpiresAt = zeroTime, sr_AwayAt = zeroTime, sr_AwayFromSeq = 0, sr_Delivered = [],
     sr_DeliveredSince = zeroTime, sr_AwayLateSeq = 0, sr_ReplayCursor = 0, sr_ReplayHoles = [], sr_Inflight = [], sr_ReceivedQoS2 = [],
     sr_Withdrawn = [], sr_Spill = [], sr_DeliveredSpill = [], sr_deliveredOver = [], sr_awayWas = zeroTime, sr_awayFromSeqWas = 0,
     sr_awayLateSeqWas = 0, sr_deliveredSinceWas = zeroTime, sr_deliveredWas = [], sr_replayCursorWas = 0, sr_replayHolesWas = [],
     sr_inflightWas = [], sr_receivedQoS2Was = [], sr_withdrawnWas = [], sr_spillWas = [], sr_deliveredSpillWas = []\<rparr>"

definition sample_released :: sessionRecord where
  "sample_released = snd (awayStateInto sample_bounds_delivered 0 sample_scanned sample_record)"

definition sample_restored :: session_replay where
  "sample_restored = markAwayRestored 9 7 0 0 zeroTime (sr_Delivered sample_released @ sr_deliveredOver sample_released)
     (sr_ReplayCursor sample_released) (sr_ReplayHoles sample_released) (newSession ''c'' ''j'')"

lemma sample_released_cursor: "sr_ReplayCursor sample_released = 3"
proof -
  have "length (sort_delivered (listed P (s_delivered sample_scanned))) \<le> 4096" for P
    by (simp add: sample_scanned_def applyScan_def applyScanLocked_def sample_delivered_eval sameSubsLocked_def sinceKnownLocked_def scan_next_def
      sample_read_def addHoleLocked_def zero_cursor_def default_bounds_def three_above_one sample_sid_neq sample_sid_neq [symmetric] Let_def addHole_def
      sort_delivered_def listed_def)
  moreover have "sinceKnownLocked sample_scanned"
    by (simp add: sample_scanned_def applyScan_def applyScanLocked_def sample_delivered_eval sameSubsLocked_def sinceKnownLocked_def scan_next_def
      sample_read_def addHoleLocked_def zero_cursor_def default_bounds_def three_above_one sample_sid_neq sample_sid_neq [symmetric] Let_def addHole_def set_cur_def)
  ultimately show ?thesis
    by (simp add: sample_released_def awayStateInto_def cursorIntoLocked_def sample_scanned_eval Let_def deliveredFromLocked_def
      splitDelivered_def sample_bounds_delivered_def cursorViewLocked_def)
qed


end
