(* ===== verification/Replay_Filters.thy ===== *)
theory Replay_Filters
  imports Subscribe
begin

text \<open>
  Which subjects of the offline queue a replay reads: \<^verbatim>\<open>replayFilters\<close> and its helpers of \<^verbatim>\<open>src/offline.go\<close>. JetStream
  refuses filters that overlap, so they are merged until none do. A Go slice that may be nil is an option.
\<close>

section \<open>Subjects and filters\<close>

abbreviation (input) dots :: "string \<Rightarrow> string list" where
  "dots s \<equiv> split_on CHR ''.'' s"

fun overlap_loop :: "string list \<Rightarrow> string list \<Rightarrow> bool" where
  "overlap_loop (a # at) (b # bt) =
    (if a = ''>'' \<or> b = ''>'' then True
     else if a \<noteq> b \<and> a \<noteq> ''*'' \<and> b \<noteq> ''*'' then False
     else overlap_loop at bt)"
| "overlap_loop at bt = (length at = length bt)"

definition subjectsOverlap :: "string \<Rightarrow> string \<Rightarrow> bool" where
  "subjectsOverlap a b = overlap_loop (dots a) (dots b)"

fun covers_loop :: "string list \<Rightarrow> string list \<Rightarrow> bool" where
  "covers_loop (a # at) bt =
    (if a = ''>'' then 0 < length bt
     else case bt of
         [] \<Rightarrow> False
       | b # bt \<Rightarrow> if b = ''>'' then False else if a \<noteq> ''*'' \<and> a \<noteq> b then False else covers_loop at bt)"
| "covers_loop [] bt = (length bt = 0)"

definition covers :: "string \<Rightarrow> string \<Rightarrow> bool" where
  "covers a b = covers_loop (dots a) (dots b)"

fun join_loop :: "string list \<Rightarrow> string list \<Rightarrow> string list" where
  "join_loop (a # at) (b # bt) =
    (if a = ''>'' \<or> b = ''>'' then [''>'']
     else (if a = b then a else ''*'') # join_loop at bt)"
| "join_loop at bt = []"

definition joinSubjects :: "string \<Rightarrow> string \<Rightarrow> string" where
  "joinSubjects a b = join ''.'' (join_loop (dots a) (dots b))"

definition queuedSubject :: "string \<Rightarrow> string \<Rightarrow> string" where
  "queuedSubject prefix subject = Prefix prefix (''$queue.'' @ subject)"

text \<open>\<^verbatim>\<open>replayFilters\<close>'s \<^verbatim>\<open>add\<close>: each round takes an entry out or ends.\<close>

function add_filter :: "string \<Rightarrow> string list \<Rightarrow> string list" where
  "add_filter f out =
    (case List.extract (\<lambda>have. subjectsOverlap have f) out of
       None \<Rightarrow> out @ [f]
     | Some (before, have, after) \<Rightarrow>
         if covers have f then out
         else add_filter (if \<not> covers f have then joinSubjects have f else f) (before @ after))"
  by pat_completeness auto

termination add_filter
  by (relation "measure (length \<circ> snd)") (auto simp: extract_Some_iff)

declare add_filter.simps [simp del]

definition add_sub :: "string \<Rightarrow> string \<Rightarrow> string list \<Rightarrow> string list" where
  "add_sub prefix subject out =
    (let out = add_filter (queuedSubject prefix subject) out in
     case ParentSubject subject of
       None \<Rightarrow> out
     | Some parent \<Rightarrow> add_filter (queuedSubject prefix parent) out)"

fun filters_of :: "subjectCodec \<Rightarrow> string \<Rightarrow> session_sub list \<Rightarrow> string list \<Rightarrow> string list option" where
  "filters_of k prefix [] out = (if out = [] then None else Some out)"
| "filters_of k prefix (sub # subs) out =
    (if ss_share sub \<noteq> [] then filters_of k prefix subs out
     else case codec_filterToSubject k (ss_filter sub) of
         Inl _ \<Rightarrow> None
       | Inr subject \<Rightarrow> filters_of k prefix subs (add_sub prefix subject out))"

definition replayFilters :: "subjectCodec \<Rightarrow> string \<Rightarrow> session_sub list \<Rightarrow> string list option" where
  "replayFilters k prefix subs = filters_of k prefix subs []"

definition replayRead :: "subjectCodec \<Rightarrow> string \<Rightarrow> session_sub list \<Rightarrow> string list option" where
  "replayRead k prefix subs = (if \<not> list_ex (\<lambda>sub. ss_share sub = []) subs then Some [] else replayFilters k prefix subs)"

section \<open>Filters by tokens\<close>

definition wf_filter :: "string list \<Rightarrow> bool" where
  "wf_filter ts \<longleftrightarrow> ts \<noteq> [] \<and> ''>'' \<notin> set (butlast ts)"

lemma wf_filter_Cons: "wf_filter (t # ts) \<longleftrightarrow> ts = [] \<or> t \<noteq> ''>'' \<and> wf_filter ts"
  by (auto simp: wf_filter_def)

lemma overlap_sym: "overlap_loop a b \<Longrightarrow> overlap_loop b a"
  by (induction a b rule: overlap_loop.induct) (auto split: if_splits)

lemma tokens_match_Nil [simp]: "tokens_match a [] \<longleftrightarrow> a = []"
  by (cases a) simp_all

lemma tokens_match_Cons:
  "tokens_match (p # ps) (t # ts) \<longleftrightarrow> p = ''>'' \<and> ps = [] \<or> (p = ''*'' \<or> p = t) \<and> tokens_match ps ts"
  by auto

lemma tokens_match_cases:
  assumes "tokens_match (p # ps) ts" "p \<noteq> ''>''"
  obtains t us where "ts = t # us" "p = ''*'' \<or> p = t" "tokens_match ps us"
  using assms by (cases ts) (simp, metis tokens_match_Cons)

definition wf_tail :: "string list \<Rightarrow> bool" where
  "wf_tail ts \<longleftrightarrow> ts = [] \<or> wf_filter ts"

lemma wf_tail_Cons: "wf_tail (t # ts) \<Longrightarrow> wf_tail ts \<and> (t = ''>'' \<longrightarrow> ts = [])"
  by (cases ts) (auto simp: wf_tail_def wf_filter_Cons)

lemma any_tokens: "p = ''>'' \<Longrightarrow> ps = [] \<Longrightarrow> tokens_match (p # ps) ts \<longleftrightarrow> ts \<noteq> []"
  by (cases ts) simp_all

lemma overlap_match:
  assumes "tokens_match a ts" "tokens_match b ts"
  shows "overlap_loop a b"
  using assms
proof (induction a b arbitrary: ts rule: overlap_loop.induct)
  case (1 a at b bt)
  show ?case
  proof (cases "a = ''>'' \<or> b = ''>''")
    case False
    then obtain t us where t: "ts = t # us" "a = ''*'' \<or> a = t" "tokens_match at us" using 1(2) by (elim tokens_match_cases) auto
    then have "(b = ''*'' \<or> b = t) \<and> tokens_match bt us" using 1(3) False by (simp only: tokens_match_Cons) blast
    then show ?thesis using False t 1(1) by (simp only: overlap_loop.simps if_False) metis
  qed simp
qed auto

lemma covers_match:
  assumes "covers_loop a b" "tokens_match b ts" "wf_tail a" "wf_tail b"
  shows "tokens_match a ts"
  using assms
proof (induction a b arbitrary: ts rule: covers_loop.induct)
  case (1 a at bt)
  show ?case
  proof (cases "a = ''>''")
    case True
    then have "ts \<noteq> []" using 1(2,3) by auto
    then show ?thesis using any_tokens [OF True] wf_tail_Cons [OF 1(4)] True by blast
  next
    case False
    then obtain b bt' where b: "bt = b # bt'" "b \<noteq> ''>''" "a = ''*'' \<or> a = b" "covers_loop at bt'"
      using 1(2) by (cases bt) (auto split: if_splits)
    then obtain t us where t: "ts = t # us" "b = ''*'' \<or> b = t" "tokens_match bt' us" using 1(3) unfolding b(1) by (elim tokens_match_cases) auto
    have "tokens_match at us" using 1(1) [OF False b(1,2) _ b(4) t(3)] b(3) wf_tail_Cons 1(4,5) b(1) by blast
    then show ?thesis using t(2) b(3) unfolding t(1) tokens_match_Cons by blast
  qed
qed simp

lemma join_match:
  assumes "overlap_loop a b" "tokens_match a ts \<or> tokens_match b ts"
  shows "tokens_match (join_loop a b) ts"
  using assms
proof (induction a b arbitrary: ts rule: overlap_loop.induct)
  case (1 a at b bt)
  show ?case
  proof (cases "a = ''>'' \<or> b = ''>''")
    case True
    then show ?thesis using 1(3) by (cases ts) auto
  next
    case False
    then obtain t us where t: "ts = t # us" "a = ''*'' \<or> a = t \<or> b = ''*'' \<or> b = t" "tokens_match at us \<or> tokens_match bt us"
      using 1(3) by (elim disjE tokens_match_cases) auto
    have o: "a = b \<or> a = ''*'' \<or> b = ''*''" "overlap_loop at bt" using 1(2) False by (auto split: if_splits)
    have "tokens_match (join_loop at bt) us" using 1(1) [OF False _ o(2) t(3)] o(1) by blast
    then show ?thesis using t(1,2) o(1) False by (auto simp: tokens_match_Cons simp del: tokens_match.simps)
  qed
qed auto

lemma join_wf: "overlap_loop a b \<Longrightarrow> wf_filter a \<Longrightarrow> wf_filter b \<Longrightarrow> wf_filter (join_loop a b)"
  by (induction a b rule: join_loop.induct) (auto simp: wf_filter_Cons wf_filter_def split: if_splits)

lemma join_no_dot:
  assumes "\<forall>t \<in> set a. CHR ''.'' \<notin> set t" "\<forall>t \<in> set b. CHR ''.'' \<notin> set t"
  shows "\<forall>t \<in> set (join_loop a b). CHR ''.'' \<notin> set t"
  using assms by (induction a b rule: join_loop.induct) auto

lemma dots_join:
  assumes "overlap_loop (dots a) (dots b)" "wf_filter (dots a)" "wf_filter (dots b)"
  shows "dots (joinSubjects a b) = join_loop (dots a) (dots b)"
  unfolding joinSubjects_def
proof (rule split_join)
  show "join_loop (dots a) (dots b) \<noteq> []" using join_wf [OF assms] by (simp add: wf_filter_def)
  show "\<forall>l \<in> set (join_loop (dots a) (dots b)). CHR ''.'' \<notin> set l" by (rule join_no_dot) (auto simp: split_levels_no_sep)
qed

section \<open>Merging\<close>

definition reads :: "string list \<Rightarrow> string list \<Rightarrow> bool" where
  "reads fs ts \<longleftrightarrow> (\<exists>f \<in> set fs. tokens_match (dots f) ts)"

fun disjoint_filters :: "string list \<Rightarrow> bool" where
  "disjoint_filters [] = True"
| "disjoint_filters (f # fs) = ((\<forall>g \<in> set fs. \<not> subjectsOverlap f g) \<and> disjoint_filters fs)"

definition filters_ok :: "string list \<Rightarrow> bool" where
  "filters_ok fs \<longleftrightarrow> disjoint_filters fs \<and> (\<forall>f \<in> set fs. wf_filter (dots f))"

lemma subjectsOverlap_sym: "subjectsOverlap a b = subjectsOverlap b a"
  unfolding subjectsOverlap_def using overlap_sym by blast

lemma disjoint_append:
  "disjoint_filters (xs @ ys) \<longleftrightarrow> disjoint_filters xs \<and> disjoint_filters ys \<and> (\<forall>x \<in> set xs. \<forall>y \<in> set ys. \<not> subjectsOverlap x y)"
  by (induction xs) auto

lemma add_filter_ok:
  assumes "filters_ok out" "wf_filter (dots f)"
  shows "filters_ok (add_filter f out) \<and> add_filter f out \<noteq> [] \<and>
    (\<forall>ts. tokens_match (dots f) ts \<or> reads out ts \<longrightarrow> reads (add_filter f out) ts)"
  using assms
proof (induction f out rule: add_filter.induct)
  case (1 f out)
  show ?case
  proof (cases "List.extract (\<lambda>have. subjectsOverlap have f) out")
    case None
    then have e: "add_filter f out = out @ [f]" by (simp add: add_filter.simps)
    have "\<forall>g \<in> set out. \<not> subjectsOverlap g f" using None by (simp add: extract_None_iff)
    then show ?thesis using "1.prems" by (auto simp: e filters_ok_def disjoint_append reads_def)
  next
    case (Some x)
    obtain before h after where x: "x = (before, h, after)" by (cases x)
    have o: "out = before @ h # after" "subjectsOverlap h f"
      using Some x by (auto simp: extract_Some_iff)
    show ?thesis
    proof (cases "covers h f")
      case True
      then have "add_filter f out = out" using Some x by (simp add: add_filter.simps)
      moreover have "tokens_match (dots f) ts \<Longrightarrow> tokens_match (dots h) ts" for ts
        using covers_match [of "dots h" "dots f" ts] True "1.prems" o(1) by (simp add: covers_def filters_ok_def wf_tail_def)
      ultimately show ?thesis using "1.prems" o(1) by (auto simp: reads_def)
    next
      case False
      let ?f = "if \<not> covers f h then joinSubjects h f else f"
      have e: "add_filter f out = add_filter ?f (before @ after)" using Some x False by (subst add_filter.simps) simp
      have ov: "overlap_loop (dots h) (dots f)" using o(2) by (simp add: subjectsOverlap_def)
      have wh: "wf_filter (dots h)" and rest: "filters_ok (before @ after)"
        using "1.prems"(1) o(1) by (auto simp: filters_ok_def disjoint_append)
      have wf: "wf_filter (dots ?f)" using join_wf [OF ov wh "1.prems"(2)] dots_join [OF ov wh "1.prems"(2)] "1.prems"(2) by simp
      have m: "tokens_match (dots ?f) ts" if "tokens_match (dots f) ts \<or> tokens_match (dots h) ts" for ts
        using that join_match [OF ov, of ts] covers_match [of "dots f" "dots h" ts] wh "1.prems"(2) dots_join [OF ov wh "1.prems"(2)]
        by (auto simp: covers_def wf_tail_def)
      have i: "filters_ok (add_filter ?f (before @ after)) \<and> add_filter ?f (before @ after) \<noteq> [] \<and>
          (\<forall>ts. tokens_match (dots ?f) ts \<or> reads (before @ after) ts \<longrightarrow> reads (add_filter ?f (before @ after)) ts)"
        using "1.IH" [OF Some x [symmetric] refl False rest wf] .
      have "reads out ts \<Longrightarrow> tokens_match (dots h) ts \<or> reads (before @ after) ts" for ts by (auto simp: o(1) reads_def)
      then show ?thesis unfolding e using i m by blast
    qed
  qed
qed

section \<open>The filters of a session\<close>

lemma dots_append: "split_on c (a @ c # b) = split_on c a @ split_on c b"
  by (induction a) (auto split: list.splits)

lemma dots_queued: "dots (queuedSubject p s) = (if p = [] then [] else dots p) @ ''$queue'' # dots s"
proof -
  have "dots (''$queue.'' @ s) = ''$queue'' # dots s" using dots_append [of "CHR ''.''" "''$queue''" s] by simp
  then show ?thesis using dots_append [of "CHR ''.''" p "''$queue.'' @ s"] by (simp add: queuedSubject_def Prefix_def)
qed

lemma queued_match: "tokens_match (dots f) (dots s) \<Longrightarrow> tokens_match (dots (queuedSubject p f)) (dots (queuedSubject p s))"
proof -
  have "tokens_match a b \<Longrightarrow> tokens_match (ps @ a) (ps @ b)" for ps a b
    by (induction ps) (auto simp: tokens_match_Cons simp del: tokens_match.simps)
  then show "tokens_match (dots f) (dots s) \<Longrightarrow> ?thesis" by (simp add: dots_queued tokens_match_Cons del: tokens_match.simps)
qed

lemma queued_wf:
  assumes "wf_filter (dots s)" "CHR ''>'' \<notin> set p"
  shows "wf_filter (dots (queuedSubject p s))"
proof -
  have "''>'' \<notin> set (dots p)" using assms(2) set_split [of "''>''" "CHR ''.''" p] by auto
  then show ?thesis using assms(1) by (auto simp: dots_queued wf_filter_def butlast_append)
qed

lemma levels_no_gt:
  assumes "filter_levels_ok e ls"
  shows "''>'' \<notin> set (map (enc_level True e) (butlast ls))"
  using assms enc_level_nats_wild(2) [of e] unfolding filter_levels_ok_def by (auto dest: in_set_butlastD) (metis in_set_butlastD)

lemma subject_wf:
  assumes "codec_filterToSubject k f = Inr s"
  shows "wf_filter (dots s) \<and> (\<forall>p. ParentSubject s = Some p \<longrightarrow> wf_filter (dots p))"
proof -
  obtain sh g where g: "g \<noteq> []" "filter_levels_ok (escape k) (split_on CHR ''/'' g)" "s = convert g True (escape k)"
    using assms unfolding codec_simps by (rule filterToSubject_ok)
  let ?ls = "split_on CHR ''/'' g" and ?e = "enc_level True (escape k)"
  note gt = levels_no_gt [OF g(2)]
  have "wf_filter (dots s)" using gt by (simp add: g(3) convert_tokens [OF g(1)] wf_filter_def map_butlast)
  moreover have "wf_filter (dots p)" if "ParentSubject s = Some p" for p
  proof -
    have p: "p = join ''.'' (map ?e (butlast ?ls))" "2 \<le> length ?ls"
      using that ParentSubject_convert [OF g(1,2)] by (auto simp: g(3) Let_def split: if_splits)
    have "butlast ?ls \<noteq> []" using p(2) by (cases ?ls rule: rev_cases) auto
    then have "dots p = map ?e (butlast ?ls)"
      unfolding p(1) by (intro split_join) (auto simp: enc_level_no_dot split_levels_no_sep dest: in_set_butlastD)
    then show ?thesis using gt \<open>butlast ?ls \<noteq> []\<close> by (auto simp: wf_filter_def dest: in_set_butlastD)
  qed
  ultimately show ?thesis by blast
qed

definition reads_sub :: "string \<Rightarrow> string list \<Rightarrow> string \<Rightarrow> bool" where
  "reads_sub p fs s \<longleftrightarrow> (\<forall>ts. tokens_match (dots (queuedSubject p s)) ts \<longrightarrow> reads fs ts) \<and>
    (\<forall>q ts. ParentSubject s = Some q \<longrightarrow> tokens_match (dots (queuedSubject p q)) ts \<longrightarrow> reads fs ts)"

lemma add_sub_ok:
  assumes "filters_ok out" "codec_filterToSubject k f = Inr s" "CHR ''>'' \<notin> set p"
  shows "filters_ok (add_sub p s out) \<and> reads_sub p (add_sub p s out) s \<and> (\<forall>ts. reads out ts \<longrightarrow> reads (add_sub p s out) ts)"
proof -
  note wf = subject_wf [OF assms(2)]
  have a: "filters_ok (add_filter (queuedSubject p s) out)"
    "tokens_match (dots (queuedSubject p s)) ts \<or> reads out ts \<Longrightarrow> reads (add_filter (queuedSubject p s) out) ts" for ts
    using add_filter_ok [OF assms(1) queued_wf [OF _ assms(3)]] wf by blast+
  show ?thesis
  proof (cases "ParentSubject s")
    case None
    then show ?thesis using a by (simp add: add_sub_def reads_sub_def)
  next
    case (Some q)
    have "filters_ok (add_sub p s out)"
      "tokens_match (dots (queuedSubject p q)) ts \<or> reads (add_filter (queuedSubject p s) out) ts \<Longrightarrow> reads (add_sub p s out) ts" for ts
      using add_filter_ok [OF a(1) queued_wf [OF _ assms(3)], of q] wf Some by (auto simp: add_sub_def)
    then show ?thesis using a(2) Some by (simp add: reads_sub_def)
  qed
qed

lemma filters_of_ok:
  assumes "filters_of k p subs out = Some fs" "filters_ok out" "CHR ''>'' \<notin> set p"
  shows "filters_ok fs \<and> (\<forall>ts. reads out ts \<longrightarrow> reads fs ts) \<and>
    (\<forall>sub \<in> set subs. ss_share sub = [] \<longrightarrow> (\<exists>s. codec_filterToSubject k (ss_filter sub) = Inr s \<and> reads_sub p fs s))"
  using assms(1,2)
proof (induction subs arbitrary: out)
  case Nil
  then show ?case by (simp split: if_splits)
next
  case (Cons sub subs)
  show ?case
  proof (cases "ss_share sub = []")
    case False
    then show ?thesis using Cons.IH [of out] Cons.prems by auto
  next
    case True
    then obtain s where s: "codec_filterToSubject k (ss_filter sub) = Inr s" "filters_of k p subs (add_sub p s out) = Some fs"
      using Cons.prems(1) by (auto split: sum.splits)
    note a = add_sub_ok [OF Cons.prems(2) s(1) assms(3)]
    note i = Cons.IH [OF s(2)]
    have "reads_sub p fs s" using a i unfolding reads_sub_def by blast
    then show ?thesis using a i s(1) by auto
  qed
qed

lemma disjoint_nth:
  "disjoint_filters fs \<Longrightarrow> i < j \<Longrightarrow> j < length fs \<Longrightarrow> \<not> subjectsOverlap (fs ! i) (fs ! j)"
proof (induction fs arbitrary: i j)
  case (Cons f fs)
  then show ?case by (cases i; cases j) auto
qed simp

lemma reads_once:
  assumes "filters_ok fs" "reads fs ts"
  shows "\<exists>!i. i < length fs \<and> tokens_match (dots (fs ! i)) ts"
proof -
  have "\<exists>i. i < length fs \<and> tokens_match (dots (fs ! i)) ts" using assms(2) by (auto simp: reads_def in_set_conv_nth)
  moreover have "i = j" if "i < length fs" "tokens_match (dots (fs ! i)) ts" "j < length fs" "tokens_match (dots (fs ! j)) ts" for i j
  proof (rule ccontr)
    assume "i \<noteq> j"
    then consider "i < j" | "j < i" by linarith
    then show False
      using disjoint_nth [of fs] assms(1) that overlap_match [OF that(2,4)] overlap_match [OF that(4,2)]
      by cases (auto simp: filters_ok_def subjectsOverlap_def)
  qed
  ultimately show ?thesis by blast
qed

text \<open>C31: A replay reads every queued message that one of the session's own subscriptions matches, and reads it once: the
  filters \<^verbatim>\<open>replayRead\<close> makes, when it narrows the read, have exactly one that receives the message's queue subject, as
  nats-server matches subjects.\<close>

theorem replay_reads_once:
  assumes "nats_matching nm" "CHR ''>'' \<notin> set prefix" "replayRead k prefix subs = Some fs"
    "sub \<in> set subs" "ss_share sub = []" "Match (ss_filter sub) n" "codec_nameToSubject k n = Inr m"
  shows "\<exists>!i. i < length fs \<and> nm (fs ! i) (queuedSubject prefix m)"
proof -
  have "list_ex (\<lambda>sub. ss_share sub = []) subs" using assms(4,5) by (auto simp: list_ex_iff)
  then have f: "filters_of k prefix subs [] = Some fs" using assms(3) by (simp add: replayRead_def replayFilters_def)
  have "filters_ok []" by (simp add: filters_ok_def)
  then obtain s where s: "codec_filterToSubject k (ss_filter sub) = Inr s" "reads_sub prefix fs s" "filters_ok fs"
    using filters_of_ok [OF f _ assms(2)] assms(4,5) by blast
  obtain sh g where g: "SplitShared (ss_filter sub) = Inr (sh, g)" "g \<noteq> []" "filter_levels_ok (escape k) (split_on CHR ''/'' g)"
    "s = convert g True (escape k)"
    using s(1) unfolding codec_simps by (rule filterToSubject_ok)
  note n = nameToSubject_ok [OF assms(7) [unfolded codec_simps]]
  note vn = validateName_ok [OF n(1)]
  have "match_levels (split_on CHR ''/'' g) (split_on CHR ''/'' n)"
    using assms(6) by (auto simp: Match_SplitShared [OF g(1)] Match_inner_def split: if_splits)
  then have "nm s m \<or> (\<exists>p. ParentSubject s = Some p \<and> nm p m)"
    using match_levels_nats [OF assms(1) g(3,2) vn(1-3)] by (simp add: g(4) n(2))
  then have "reads fs (dots (queuedSubject prefix m))"
    using s(2) assms(1) queued_match [of _ m prefix] by (auto simp: nats_matching_def reads_sub_def)
  then show ?thesis using reads_once [OF s(3)] assms(1) by (simp add: nats_matching_def)
qed

definition crossing_subs :: "session_sub list" where
  "crossing_subs = [(sample_made [7] True None (Some 0))\<lparr>ss_filter := ''a/+/c''\<rparr>, (sample_made [8] True None (Some 0))\<lparr>ss_filter := ''a/b/#''\<rparr>]"

lemma crossing_read: "replayRead \<lparr>escape = False\<rparr> ''mqtt'' crossing_subs = Some [''mqtt.$queue.a.*.>'', ''mqtt.$queue.a.b'']"
proof -
  have "codec_filterToSubject \<lparr>escape = False\<rparr> ''a/+/c'' = Inr ''a.*.c''" "codec_filterToSubject \<lparr>escape = False\<rparr> ''a/b/#'' = Inr ''a.b.>''"
    by (simp_all add: topic_eval)
  moreover have "add_sub ''mqtt'' ''a.b.>'' (add_sub ''mqtt'' ''a.*.c'' []) = [''mqtt.$queue.a.*.>'', ''mqtt.$queue.a.b'']" by code_simp
  ultimately show ?thesis by (simp add: replayRead_def replayFilters_def crossing_subs_def sample_made_def)
qed

theorem replay_reads_once_witness:
  "\<exists>!i. i < length [''mqtt.$queue.a.*.>'', ''mqtt.$queue.a.b''] \<and>
     tokens_match (split_on CHR ''.'' ([''mqtt.$queue.a.*.>'', ''mqtt.$queue.a.b''] ! i)) (split_on CHR ''.'' (queuedSubject ''mqtt'' ''a.b.c''))"
proof (rule replay_reads_once [where nm = "\<lambda>p s. tokens_match (split_on CHR ''.'' p) (split_on CHR ''.'' s)"])
  show "nats_matching (\<lambda>p s. tokens_match (split_on CHR ''.'' p) (split_on CHR ''.'' s))" by (simp add: nats_matching_def)
  show "replayRead \<lparr>escape = False\<rparr> ''mqtt'' crossing_subs = Some [''mqtt.$queue.a.*.>'', ''mqtt.$queue.a.b'']" by (rule crossing_read)
  show "(sample_made [7] True None (Some 0))\<lparr>ss_filter := ''a/+/c''\<rparr> \<in> set crossing_subs" by (simp add: crossing_subs_def)
  show "ss_share ((sample_made [7] True None (Some 0))\<lparr>ss_filter := ''a/+/c''\<rparr>) = []" by (simp add: sample_made_def)
  show "Match (ss_filter ((sample_made [7] True None (Some 0))\<lparr>ss_filter := ''a/+/c''\<rparr>)) ''a/b/c''" by code_simp
  show "codec_nameToSubject \<lparr>escape = False\<rparr> ''a/b/c'' = Inr ''a.b.c''" by (simp add: topic_eval)
qed simp

end
