(* ===== verification/Session_Life.thy ===== *)
theory Session_Life
  imports Cursor
begin

text \<open>
  The life of a session (\<^verbatim>\<open>src/session.go\<close>): connections attach and detach, the session expires or is discarded, its
  Will is set, taken, cancelled or published, and (\<^verbatim>\<open>src/away.go\<close>) messages that arrive between connections are held in
  memory when there is no offline queue. The clock is an argument; a connection and a Will are addresses.
\<close>

section \<open>Attaching and detaching\<close>

text \<open>The connection displaced, and what is queued on the new one.\<close>

definition attach :: "conn_ref \<Rightarrow> 'a session_replay_scheme \<Rightarrow> (conn_ref option \<times> delivery list) \<times> 'a session_replay_scheme" where
  "attach c s =
    (let prev = s_conn s;
         s = (if prev \<noteq> None then s\<lparr>s_predecessor := prev\<rparr> else s);
         s = s\<lparr>s_conn := Some c, s_disconnectedAt := zeroTime\<rparr>;
         queued = s_away s;
         s = s\<lparr>s_away := [], s_pendingWill := None\<rparr>;
         s = s\<lparr>s_inflight := map (\<lambda>(i, ob). (i, ob\<lparr>ob_quotaHeld := False\<rparr>)) (s_inflight s), s_resent := [],
               s_attaches := s_attaches s + 1\<rparr>
     in ((prev, queued), forgetStaleWithdrawals s))"

definition detach :: "time \<Rightarrow> conn_ref \<Rightarrow> away option \<Rightarrow> 'a session_replay_scheme \<Rightarrow> 'a session_replay_scheme" where
  "detach now c a s =
    (let s = (if s_conn s = Some c then s\<lparr>s_conn := None, s_disconnectedAt := now\<rparr> else s)
     in case a of None \<Rightarrow> s | Some a \<Rightarrow> markAwayLocked a s)"

section \<open>Expiry\<close>

definition expiredLocked :: "time \<Rightarrow> 'a session_replay_scheme \<Rightarrow> bool" where
  "expiredLocked now s =
    (if s_discarded s then True
     else if s_conn s \<noteq> None then False
     else if s_expirySeconds s = 0 then True
     else if s_expirySeconds s = 0xFFFFFFFF then False
     else int (unat (s_expirySeconds s)) * Second < time_Sub now (s_disconnectedAt s))"

definition claimForResume :: "time \<Rightarrow> 'a session_replay_scheme \<Rightarrow> bool \<times> 'a session_replay_scheme" where
  "claimForResume now s =
    (if expiredLocked now s \<or> s_awayLost s then (False, s)
     else (True, if s_conn s = None then s\<lparr>s_disconnectedAt := now\<rparr> else s))"

definition kill_subs :: "sub_ref list \<Rightarrow> 'a session_replay_scheme \<Rightarrow> 'a session_replay_scheme" where
  "kill_subs rs s = fold (\<lambda>r. set_sub r (\<lambda>x. x\<lparr>ss_live := False\<rparr>)) rs s"

definition expireIfDue :: "time \<Rightarrow> 'a session_replay_scheme \<Rightarrow> sub_ref list option \<times> 'a session_replay_scheme" where
  "expireIfDue now s =
    (if s_discarded s \<or> s_conn s \<noteq> None \<or> IsZero (s_disconnectedAt s) \<or> s_expirySeconds s = 0 \<or> \<not> expiredLocked now s
     then (None, s)
     else let subs = map snd (s_subs s) in (Some subs, (kill_subs subs s)\<lparr>s_subs := [], s_discarded := True\<rparr>))"

definition discardKeeping :: "'a session_replay_scheme \<Rightarrow> sub_ref list \<times> 'a session_replay_scheme" where
  "discardKeeping s =
    (let held = map snd (s_subs s); s = s\<lparr>s_subs := [], s_discarded := True\<rparr>
     in (held, fold (\<lambda>r s. unsubscribeAll r (set_sub r (\<lambda>x. x\<lparr>ss_live := False\<rparr>) s)) held s))"

definition discard :: "'a session_replay_scheme \<Rightarrow> sub_ref list \<times> hold_call list \<times> 'a session_replay_scheme" where
  "discard s = (let (subs, s) = discardKeeping s; (calls, s) = handBackHeld s in (subs, calls, s))"

definition discardMoved :: "'a session_replay_scheme \<Rightarrow> sub_ref list \<times> 'a session_replay_scheme" where
  "discardMoved s =
    (let (subs, s) = discardKeeping s
     in (subs, s\<lparr>s_inflight := map (\<lambda>(i, ob). (i, ob\<lparr>ob_ackSubject := []\<rparr>)) (s_inflight s)\<rparr>))"

definition setPrincipal :: "string \<Rightarrow> string \<Rightarrow> 'a session_replay_scheme \<Rightarrow> 'a session_replay_scheme" where
  "setPrincipal identity username s = s\<lparr>s_identity := identity, s_username := username\<rparr>"

definition setExpiry :: "u32 \<Rightarrow> 'a session_replay_scheme \<Rightarrow> 'a session_replay_scheme" where
  "setExpiry seconds s = s\<lparr>s_expirySeconds := seconds\<rparr>"

definition setUnrestored :: "storedSubscription list \<Rightarrow> 'a session_replay_scheme \<Rightarrow> 'a session_replay_scheme" where
  "setUnrestored stored s = s\<lparr>s_unrestored := stored\<rparr>"

section \<open>The Will\<close>

definition setWill :: "conn_ref \<Rightarrow> will_ref \<Rightarrow> duration \<Rightarrow> lease_ref option \<Rightarrow> 'a session_replay_scheme \<Rightarrow> lease_ref option \<times> 'a session_replay_scheme" where
  "setWill c w delay lease s =
    ((if s_will s \<noteq> None then s_willLease s else None),
     s\<lparr>s_will := Some w, s_willDelay := delay, s_willLease := lease, s_willConn := Some c\<rparr>)"

definition takeWill :: "conn_ref \<Rightarrow> 'a session_replay_scheme \<Rightarrow> (will_ref option \<times> duration \<times> lease_ref option) \<times> 'a session_replay_scheme" where
  "takeWill c s =
    (if s_willConn s \<noteq> Some c then ((None, 0, None), s)
     else ((s_will s, s_willDelay s, s_willLease s),
           s\<lparr>s_will := None, s_willDelay := 0, s_willLease := None, s_willConn := None\<rparr>))"

definition takeWillToPublish :: "conn_ref \<Rightarrow> 'a session_replay_scheme \<Rightarrow> (will_ref option \<times> duration \<times> lease_ref option) \<times> 'a session_replay_scheme" where
  "takeWillToPublish c s =
    (if s_willConn s \<noteq> Some c \<or> s_will s = None then ((None, 0, None), s)
     else ((s_will s, s_willDelay s, s_willLease s),
           s\<lparr>s_will := None, s_willDelay := 0, s_willConn := None, s_pendingWill := s_will s\<rparr>))"

definition cancelWills :: "'a session_replay_scheme \<Rightarrow> lease_ref option \<times> 'a session_replay_scheme" where
  "cancelWills s =
    (if s_will s = None \<and> s_pendingWill s = None then (None, s)
     else (s_willLease s,
           s\<lparr>s_will := None, s_willDelay := 0, s_willLease := None, s_willConn := None, s_pendingWill := None\<rparr>))"

definition takePendingWill :: "will_ref \<Rightarrow> 'a session_replay_scheme \<Rightarrow> bool \<times> 'a session_replay_scheme" where
  "takePendingWill w s = (if s_pendingWill s \<noteq> Some w then (False, s) else (True, s\<lparr>s_pendingWill := None\<rparr>))"

definition currentWill :: "'a session_replay_scheme \<Rightarrow> will_ref option" where
  "currentWill s = (if s_will s \<noteq> None then s_will s else s_pendingWill s)"

definition discardWill :: "will_ref \<Rightarrow> 'a session_replay_scheme \<Rightarrow> lease_ref option \<times> 'a session_replay_scheme" where
  "discardWill w s =
    (let (l, s) = (if s_will s = Some w then (s_willLease s, s\<lparr>s_will := None, s_willDelay := 0, s_willLease := None\<rparr>) else (None, s))
     in if s_pendingWill s = Some w then (s_willLease s, s\<lparr>s_pendingWill := None, s_willLease := None\<rparr>) else (l, s))"

section \<open>Messages held between connections\<close>

definition defaultAwayBuffer :: int where
  "defaultAwayBuffer = 1000"

definition deliveryQueueDepth :: int where
  "deliveryQueueDepth = 2048"

definition maxAwayBuffer :: int where
  "maxAwayBuffer = deliveryQueueDepth"

definition awayLimit :: "int \<Rightarrow> int" where
  "awayLimit n = (if n < 0 then 0 else if n = 0 then defaultAwayBuffer else min n maxAwayBuffer)"

definition held_back_wanted :: "'a session_replay_scheme \<Rightarrow> delivery \<Rightarrow> bool" where
  "held_back_wanted s d \<longleftrightarrow> d_qos d \<noteq> QoS0 \<and> (case d_sub d of None \<Rightarrow> True | Some r \<Rightarrow> wanted (depth s) s r = Some True)"

definition holdAway :: "delivery list \<Rightarrow> int \<Rightarrow> 'a session_replay_scheme \<Rightarrow> 'a session_replay_scheme" where
  "holdAway older limit s =
    (let keep = filter (held_back_wanted s) older in
     if keep = [] then s
     else if s_awayLost s \<or> s_discarded s \<or> s_expirySeconds s = 0 then s
     else if limit < int (length keep) + int (length (s_away s)) then s\<lparr>s_away := [], s_awayLost := True\<rparr>
     else s\<lparr>s_away := keep @ s_away s\<rparr>)"

text \<open>\<open>isSealed\<close> says of a connection whether it has been sealed.\<close>

definition routeAway :: "(conn_ref \<Rightarrow> bool) \<Rightarrow> delivery \<Rightarrow> int \<Rightarrow> 'a session_replay_scheme \<Rightarrow> conn_ref option \<times> 'a session_replay_scheme" where
  "routeAway isSealed d limit s =
    (if (case s_conn s of None \<Rightarrow> False | Some c \<Rightarrow> \<not> isSealed c) then (s_conn s, s)
     else if d_qos d = QoS0 \<or> s_awayLost s \<or> s_discarded s \<or> s_expirySeconds s = 0 then (None, s)
     else if limit \<le> int (length (s_away s)) then (None, s\<lparr>s_away := [], s_awayLost := True\<rparr>)
     else (None, s\<lparr>s_away := s_away s @ [d]\<rparr>))"

section \<open>A Will is published at most once\<close>

text \<open>
  The calls that touch a Will, with what they mean to the client: who set which Will, the connections that ended other
  than by a normal DISCONNECT, the Wills that were deleted while the session held them, and those published. Each CONNECT
  makes its Will anew, so its address is new.
\<close>

type_synonym 'a will_state = "'a session_replay_scheme \<times> (will_ref \<rightharpoonup> conn_ref) \<times> conn_ref set \<times> will_ref set \<times> will_ref list"

definition held_wills :: "'a session_replay_scheme \<Rightarrow> will_ref set" where
  "held_wills s = set_option (s_will s) \<union> set_option (s_pendingWill s)"

inductive will_step :: "'a will_state \<Rightarrow> 'a will_state \<Rightarrow> bool" where
  will_set: "ow w = None \<Longrightarrow>
    will_step (s, ow, ended, gone, pub) (snd (setWill c w delay lease s), ow(w \<mapsto> c), ended, gone, pub)"
| will_normal: "will_step (s, ow, ended, gone, pub)
    (snd (takeWill c s), ow, ended, gone \<union> set_option (fst (fst (takeWill c s))), pub)"
| will_end: "will_step (s, ow, ended, gone, pub) (snd (takeWillToPublish c s), ow, insert c ended, gone, pub)"
| will_fire: "takePendingWill w s = (True, s') \<Longrightarrow> will_step (s, ow, ended, gone, pub) (s', ow, ended, gone, pub @ [w])"
| will_drop: "will_step (s, ow, ended, gone, pub) (snd (takePendingWill w s), ow, ended, gone, pub)"
| will_cancel: "will_step (s, ow, ended, gone, pub) (snd (cancelWills s), ow, ended, gone \<union> held_wills s, pub)"
| will_revoke: "will_step (s, ow, ended, gone, pub) (snd (discardWill w s), ow, ended, gone \<union> ({w} \<inter> held_wills s), pub)"
| will_attach: "will_step (s, ow, ended, gone, pub) (snd (attach c s), ow, ended, gone \<union> set_option (s_pendingWill s), pub)"
| will_other: "s_will s' = s_will s \<Longrightarrow> s_pendingWill s' = s_pendingWill s \<Longrightarrow> s_willConn s' = s_willConn s \<Longrightarrow>
    will_step (s, ow, ended, gone, pub) (s', ow, ended, gone, pub)"

definition will_start :: "'a will_state \<Rightarrow> bool" where
  "will_start = (\<lambda>(s, ow, ended, gone, pub). s_will s = None \<and> s_pendingWill s = None \<and> ow = Map.empty \<and> gone = {} \<and> pub = [])"

definition will_inv :: "'a will_state \<Rightarrow> bool" where
  "will_inv = (\<lambda>(s, ow, ended, gone, pub).
    held_wills s \<subseteq> dom ow \<and> gone \<subseteq> dom ow \<and> set pub \<subseteq> dom ow \<and>
    held_wills s \<inter> gone = {} \<and> held_wills s \<inter> set pub = {} \<and> set pub \<inter> gone = {} \<and> distinct pub \<and>
    (\<forall>w. s_will s = Some w \<longrightarrow> s_pendingWill s \<noteq> Some w \<and> ow w = s_willConn s) \<and>
    (\<forall>w \<in> set_option (s_pendingWill s) \<union> set pub. \<exists>c \<in> ended. ow w = Some c))"

lemma attach_wills [simp]:
  "s_will (snd (attach c s)) = s_will s" "s_pendingWill (snd (attach c s)) = None" "s_willConn (snd (attach c s)) = s_willConn s"
  by (simp_all add: attach_def Let_def forgetStaleWithdrawals_def)

interpretation wills: step_invariant will_step will_start will_inv
proof
  show "will_inv w" if "will_start w" for w :: "'a will_state"
    using that by (auto simp: will_start_def will_inv_def held_wills_def)
  show "will_inv w'" if "will_step w w'" "will_inv w" for w w' :: "'a will_state"
    using that
  proof (cases rule: will_step.cases)
    case (will_set ow w s ended gone pub c delay lease)
    then show ?thesis using that(2) by (auto simp: will_inv_def held_wills_def setWill_def)
  next
    case (will_normal s ow ended gone pub c)
    then show ?thesis using that(2) by (auto simp: will_inv_def held_wills_def takeWill_def)
  next
    case (will_end s ow ended gone pub c)
    then show ?thesis using that(2) by (auto simp: will_inv_def held_wills_def takeWillToPublish_def)
  next
    case (will_fire w s s' ow ended gone pub)
    then show ?thesis using that(2) by (auto simp: will_inv_def held_wills_def takePendingWill_def split: if_splits)
  next
    case (will_drop s ow ended gone pub w)
    then show ?thesis using that(2) by (auto simp: will_inv_def held_wills_def takePendingWill_def)
  next
    case (will_cancel s ow ended gone pub)
    then show ?thesis using that(2) by (auto simp: will_inv_def held_wills_def cancelWills_def)
  next
    case (will_revoke s ow ended gone pub w)
    then show ?thesis using that(2) by (auto simp: will_inv_def held_wills_def discardWill_def)
  next
    case (will_attach s ow ended gone pub c)
    then show ?thesis using that(2) by (auto simp: will_inv_def held_wills_def)
  next
    case (will_other s' s ow ended gone pub)
    then show ?thesis using that(2) by (simp add: will_inv_def held_wills_def)
  qed
qed

text \<open>C32: A Will is published at most once, never after it was deleted (a normal DISCONNECT, a resumption, a revoked
  permission), and only when the connection that set it has ended without a normal DISCONNECT, in whatever order the
  connections of the session set, end and cancel.\<close>

theorem will_published_at_most_once:
  assumes "will_start w0" "will_step\<^sup>*\<^sup>* w0 (s, ow, ended, gone, pub)"
  shows "distinct pub \<and> set pub \<inter> gone = {} \<and> ow ` set pub \<subseteq> Some ` ended"
  using wills.reach_inv [OF assms(2,1)] by (auto simp: will_inv_def)

definition sample_life :: session_replay where
  "sample_life = newSession ''c'' ''i''"

theorem will_published_at_most_once_witness:
  "distinct [10 :: will_ref] \<and> set [10 :: will_ref] \<inter> {11} = {} \<and> (Map.empty(10 \<mapsto> 1, 11 \<mapsto> 2 :: conn_ref)) ` set [10 :: will_ref] \<subseteq> Some ` {1}"
proof (rule will_published_at_most_once)
  let ?s1 = "snd (setWill 1 10 0 None sample_life)" and ?o1 = "Map.empty(10 \<mapsto> 1 :: conn_ref)"
  let ?s2 = "snd (takeWillToPublish 1 ?s1)"
  let ?s3 = "?s2\<lparr>s_pendingWill := None\<rparr>"
  let ?s4 = "snd (setWill 2 11 0 None ?s3)"
  have "will_step (sample_life, Map.empty, {}, {}, []) (?s1, ?o1, {}, {}, [])" by (rule will_step.will_set) simp
  moreover have "will_step (?s1, ?o1, {}, {}, []) (?s2, ?o1, {1}, {}, [])" by (rule will_step.will_end)
  moreover have "will_step (?s2, ?o1, {1}, {}, []) (?s3, ?o1, {1}, {}, [] @ [10])"
    by (rule will_step.will_fire) (simp add: takePendingWill_def takeWillToPublish_def setWill_def)
  moreover have "will_step (?s3, ?o1, {1}, {}, [] @ [10]) (?s4, ?o1(11 \<mapsto> 2), {1}, {}, [] @ [10])" by (rule will_step.will_set) simp
  moreover have "will_step (?s4, ?o1(11 \<mapsto> 2), {1}, {}, [] @ [10]) (snd (takeWill 2 ?s4), ?o1(11 \<mapsto> 2), {1}, {} \<union> set_option (fst (fst (takeWill 2 ?s4))), [] @ [10])"
    by (rule will_step.will_normal)
  ultimately have "will_step\<^sup>*\<^sup>* (sample_life, Map.empty, {}, {}, []) (snd (takeWill 2 ?s4), ?o1(11 \<mapsto> 2), {1}, {} \<union> set_option (fst (fst (takeWill 2 ?s4))), [] @ [10])"
    by (meson converse_rtranclp_into_rtranclp rtranclp.rtrancl_refl)
  moreover have "set_option (fst (fst (takeWill 2 ?s4))) = {11}" by (simp add: takeWill_def setWill_def)
  ultimately show "will_step\<^sup>*\<^sup>* (sample_life, Map.empty, {}, {}, []) (snd (takeWill 2 ?s4), ?o1(11 \<mapsto> 2), {1}, {11}, [10])" by simp
  show "will_start (sample_life, Map.empty, {}, {}, [])" by (simp add: will_start_def sample_life_def newSession_def)
qed

section \<open>Nothing that arrives between connections is lost unnoticed\<close>

text \<open>The second component is what arrived for the session, at QoS 1 or 2 and while it was to be kept, since it last had a connection.\<close>

type_synonym 'a away_state = "'a session_replay_scheme \<times> delivery list"

inductive away_step :: "int \<Rightarrow> 'a away_state \<Rightarrow> 'a away_state \<Rightarrow> bool" for n where
  away_live: "routeAway isSealed d (awayLimit n) s = (Some c, s') \<Longrightarrow> away_step n (s, missed) (s', missed)"
| away_route: "routeAway isSealed d (awayLimit n) s = (None, s') \<Longrightarrow>
    away_step n (s, missed) (s', if d_qos d = QoS0 \<or> s_discarded s \<or> s_expirySeconds s = 0 then missed else missed @ [d])"
| away_hold: "away_step n (s, missed) (holdAway older (awayLimit n) s,
    if s_discarded s \<or> s_expirySeconds s = 0 then missed else filter (held_back_wanted s) older @ missed)"
| away_attach: "away_step n (s, missed) (snd (attach c s), [])"
| away_detach: "away_step n (s, missed) (detach now c a s, missed)"
| away_claim: "away_step n (s, missed) (snd (claimForResume now s), missed)"
| away_expire: "away_step n (s, missed) (snd (expireIfDue now s), missed)"
| away_discard: "away_step n (s, missed) (snd (snd (discard s)), missed)"
| away_expiry: "away_step n (s, missed) (setExpiry seconds s, missed)"
| away_other: "s_away s' = s_away s \<Longrightarrow> s_awayLost s' = s_awayLost s \<Longrightarrow> away_step n (s, missed) (s', missed)"

definition away_start :: "'a away_state \<Rightarrow> bool" where
  "away_start = (\<lambda>(s, missed). s_away s = [] \<and> missed = [])"

definition away_inv :: "'a away_state \<Rightarrow> bool" where
  "away_inv = (\<lambda>(s, missed). (s_awayLost s \<or> s_away s = missed) \<and> int (length (s_away s)) \<le> maxAwayBuffer)"

lemma away_same [simp]:
  "s_away (set_sub r f s) = s_away s" "s_awayLost (set_sub r f s) = s_awayLost s"
  "s_away (unsubscribeAll r s) = s_away s" "s_awayLost (unsubscribeAll r s) = s_awayLost s"
  "s_away (markAwayLocked a s) = s_away s" "s_awayLost (markAwayLocked a s) = s_awayLost s"
  by (simp_all add: unsubscribeAll_def set_sub_def markAwayLocked_def set_away_def Let_def split: option.splits)

lemma away_folds [simp]:
  "s_away (kill_subs rs s) = s_away s" "s_awayLost (kill_subs rs s) = s_awayLost s"
  "s_away (fold (\<lambda>r s. unsubscribeAll r (set_sub r f s)) rs s) = s_away s"
  "s_awayLost (fold (\<lambda>r s. unsubscribeAll r (set_sub r f s)) rs s) = s_awayLost s"
  unfolding kill_subs_def by (induction rs arbitrary: s) simp_all

lemma away_ops [simp]:
  "s_away (detach now c a s) = s_away s" "s_awayLost (detach now c a s) = s_awayLost s"
  "s_away (snd (claimForResume now s)) = s_away s" "s_awayLost (snd (claimForResume now s)) = s_awayLost s"
  "s_away (snd (expireIfDue now s)) = s_away s" "s_awayLost (snd (expireIfDue now s)) = s_awayLost s"
  "s_away (snd (snd (discard s))) = s_away s" "s_awayLost (snd (snd (discard s))) = s_awayLost s"
  "s_away (snd (attach c s)) = []" "s_awayLost (snd (attach c s)) = s_awayLost s"
  by (simp_all add: detach_def claimForResume_def expireIfDue_def discard_def discardKeeping_def handBackHeld_def attach_def
      forgetStaleWithdrawals_def Let_def split: option.splits)

lemma awayLimit_bound: "0 \<le> awayLimit n \<and> awayLimit n \<le> maxAwayBuffer"
  by (simp add: awayLimit_def defaultAwayBuffer_def maxAwayBuffer_def deliveryQueueDepth_def)

interpretation away_runs: step_invariant "away_step n" away_start away_inv for n
proof
  show "away_inv w" if "away_start w" for w :: "'a away_state"
    using that by (auto simp: away_start_def away_inv_def maxAwayBuffer_def deliveryQueueDepth_def)
  show "away_inv w'" if "away_step n w w'" "away_inv w" for w w' :: "'a away_state"
    using that
  proof (cases rule: away_step.cases)
    case (away_live isSealed d s c s' missed)
    then show ?thesis using that(2) by (auto simp: away_inv_def routeAway_def split: if_splits option.splits)
  next
    case (away_route isSealed d s s' missed)
    then show ?thesis using that(2) awayLimit_bound [of n] by (auto simp: away_inv_def routeAway_def split: if_splits option.splits)
  next
    case (away_hold s missed older)
    then show ?thesis using that(2) awayLimit_bound [of n] by (auto simp: away_inv_def holdAway_def Let_def)
  qed (simp_all add: away_inv_def setExpiry_def maxAwayBuffer_def deliveryQueueDepth_def)
qed

text \<open>C33: A session a CONNECT may resume is handed, when the connection attaches, every QoS 1 and 2 message that arrived
  while it had none, in order; and they fit the connection's queue, so attaching never waits. A session that lost one
  is not resumed.\<close>

theorem resumed_session_gets_what_it_missed:
  assumes "away_start w0" "(away_step n)\<^sup>*\<^sup>* w0 (s, missed)" "claimForResume now s = (True, s')"
  shows "snd (fst (attach c s')) = missed \<and> int (length missed) \<le> deliveryQueueDepth"
proof -
  have i: "away_inv (s, missed)" by (rule away_runs.reach_inv [OF assms(2,1)])
  have "\<not> s_awayLost s" using assms(3) by (auto simp: claimForResume_def split: if_splits)
  then have "s_away s = missed" "int (length missed) \<le> maxAwayBuffer" using i by (auto simp: away_inv_def)
  moreover have "s_away s' = s_away s" using away_ops(3) [of now s] assms(3) by simp
  ultimately show ?thesis by (simp add: attach_def Let_def maxAwayBuffer_def)
qed

definition sample_held :: "nat \<Rightarrow> delivery" where
  "sample_held k = \<lparr>d_sub = None, d_id = [], d_seq = 0, d_topic = ''a'', d_payload = replicate k 0, d_qos = QoS1, d_retain = False,
     d_props = None, d_arrived = 0, d_expiry = None, d_quotaHeld = False, d_ackSubject = [], d_held = False, d_recordSeq = 0\<rparr>"

definition sample_gone :: session_replay where
  "sample_gone = detach 0 1 None (setExpiry 60 (snd (attach 1 sample_life)))"

definition sample_missed :: session_replay where
  "sample_missed = snd (routeAway (\<lambda>_. False) (sample_held 2) (awayLimit 0) (snd (routeAway (\<lambda>_. False) (sample_held 1) (awayLimit 0) sample_gone)))"

lemmas sample_life_eval = sample_gone_def sample_missed_def sample_held_def sample_life_def newSession_def attach_def detach_def
  setExpiry_def forgetStaleWithdrawals_def routeAway_def awayLimit_def defaultAwayBuffer_def Let_def

theorem resumed_session_gets_what_it_missed_witness:
  "snd (fst (attach 2 (snd (claimForResume (5 * Second) sample_missed)))) = [sample_held 1, sample_held 2] \<and>
   int (length [sample_held 1, sample_held 2]) \<le> deliveryQueueDepth"
proof (rule resumed_session_gets_what_it_missed [where n = 0 and now = "5 * Second" and s = sample_missed])
  let ?s1 = "snd (routeAway (\<lambda>_. False) (sample_held 1) (awayLimit 0) sample_gone)"
  have "away_step 0 (sample_gone, []) (?s1, if d_qos (sample_held 1) = QoS0 \<or> s_discarded sample_gone \<or> s_expirySeconds sample_gone = 0 then [] else [] @ [sample_held 1])"
    by (rule away_step.away_route) (simp add: sample_life_eval)
  moreover have "away_step 0 (?s1, [sample_held 1]) (sample_missed, if d_qos (sample_held 2) = QoS0 \<or> s_discarded ?s1 \<or> s_expirySeconds ?s1 = 0 then [sample_held 1] else [sample_held 1] @ [sample_held 2])"
    by (rule away_step.away_route) (simp add: sample_life_eval)
  ultimately have "away_step 0 (sample_gone, []) (?s1, [sample_held 1])" "away_step 0 (?s1, [sample_held 1]) (sample_missed, [sample_held 1, sample_held 2])"
    by (simp_all add: sample_life_eval)
  then show "(away_step 0)\<^sup>*\<^sup>* (sample_gone, []) (sample_missed, [sample_held 1, sample_held 2])"
    by (meson converse_rtranclp_into_rtranclp rtranclp.rtrancl_refl)
  show "away_start (sample_gone, [])" by (simp add: away_start_def sample_life_eval)
  show "claimForResume (5 * Second) sample_missed = (True, snd (claimForResume (5 * Second) sample_missed))"
    by (simp add: claimForResume_def expiredLocked_def sample_life_eval time_Sub_def Second_def)
qed

end
