(* ===== verification/Base64.thy ===== *)
theory Base64
  imports Go_Lib
begin

text \<open>
  \<^verbatim>\<open>base64.RawURLEncoding\<close> of Go's standard library, as \<^verbatim>\<open>sessionKey\<close> and \<^verbatim>\<open>clientIDFromKey\<close> of \<^verbatim>\<open>src/sessionstore.go\<close> use it:
  the URL alphabet, no padding; decoding skips line breaks and ignores the bits left over in the last digit.
\<close>

definition b64_alphabet :: string where
  "b64_alphabet = ''ABCDEFGHIJKLMNOPQRSTUVWXYZabcdefghijklmnopqrstuvwxyz0123456789-_''"

fun b64_digits :: "nat list \<Rightarrow> nat list" where
  "b64_digits (a # b # c # r) = a div 4 # (a mod 4 * 16 + b div 16) # (b mod 16 * 4 + c div 64) # c mod 64 # b64_digits r"
| "b64_digits [a, b] = [a div 4, a mod 4 * 16 + b div 16, b mod 16 * 4]"
| "b64_digits [a] = [a div 4, a mod 4 * 16]"
| "b64_digits [] = []"

fun b64_octets :: "nat list \<Rightarrow> nat list option" where
  "b64_octets (w # x # y # z # r) =
    map_option (\<lambda>os. (w * 4 + x div 16) # (x mod 16 * 16 + y div 4) # (y mod 4 * 64 + z) # os) (b64_octets r)"
| "b64_octets [w, x, y] = Some [w * 4 + x div 16, x mod 16 * 16 + y div 4]"
| "b64_octets [w, x] = Some [w * 4 + x div 16]"
| "b64_octets [w] = None"
| "b64_octets [] = Some []"

fun index_of :: "char \<Rightarrow> string \<Rightarrow> nat option" where
  "index_of c [] = None"
| "index_of c (x # xs) = (if c = x then Some 0 else map_option Suc (index_of c xs))"

fun b64_values :: "string \<Rightarrow> nat list option" where
  "b64_values [] = Some []"
| "b64_values (c # cs) =
    (case index_of c b64_alphabet of
       None \<Rightarrow> None
     | Some d \<Rightarrow> map_option (\<lambda>ds. d # ds) (b64_values cs))"

definition sessionKey :: "string \<Rightarrow> string" where
  "sessionKey clientID = map ((!) b64_alphabet) (b64_digits (map of_char clientID))"

definition clientIDFromKey :: "string \<Rightarrow> string option" where
  "clientIDFromKey key =
    Option.bind (b64_values (filter (\<lambda>c. c \<noteq> CHR 0x0A \<and> c \<noteq> CHR 0x0D) key)) (\<lambda>ds. map_option (map char_of) (b64_octets ds))"

section \<open>Decoding undoes encoding\<close>

lemma digits_bound: "\<forall>a \<in> set as. a < 256 \<Longrightarrow> \<forall>d \<in> set (b64_digits as). d < 64"
  by (induction as rule: b64_digits.induct) auto

lemma octets_digits: "\<forall>a \<in> set as. a < 256 \<Longrightarrow> b64_octets (b64_digits as) = Some as"
  by (induction as rule: b64_digits.induct) auto

lemma index_of_nth: "distinct cs \<Longrightarrow> i < length cs \<Longrightarrow> index_of (cs ! i) cs = Some i"
  by (induction cs arbitrary: i) (auto simp: nth_Cons split: nat.splits)

lemma alphabet_facts: "distinct b64_alphabet" "length b64_alphabet = 64" "CHR 0x0A \<notin> set b64_alphabet" "CHR 0x0D \<notin> set b64_alphabet"
  by (simp_all add: b64_alphabet_def)

lemma values_alphabet: "\<forall>d \<in> set ds. d < 64 \<Longrightarrow> b64_values (map ((!) b64_alphabet) ds) = Some ds"
  by (induction ds) (simp_all add: index_of_nth alphabet_facts)

lemma key_roundtrip: "clientIDFromKey (sessionKey clientID) = Some clientID"
proof -
  let ?ds = "b64_digits (map of_char clientID) :: nat list"
  have b: "\<forall>a \<in> set (map of_char clientID). a < (256 :: nat)" by (auto intro: of_char_less_256)
  have d: "\<forall>d \<in> set ?ds. d < 64" by (rule digits_bound [OF b])
  have "b64_alphabet ! x \<in> set b64_alphabet" if "x < 64" for x using that alphabet_facts(2) by (simp add: nth_mem)
  then have "filter (\<lambda>c. c \<noteq> CHR 0x0A \<and> c \<noteq> CHR 0x0D) (sessionKey clientID) = sessionKey clientID"
    unfolding sessionKey_def using d alphabet_facts(3,4) by (intro filter_True) (metis (no_types, lifting) image_iff list.set_map)
  then show ?thesis
    by (simp add: clientIDFromKey_def values_alphabet [OF d] sessionKey_def octets_digits [OF b] comp_def)
qed

lemma sessionKey_inj: "sessionKey a = sessionKey b \<longleftrightarrow> a = b"
  using key_roundtrip by (metis option.inject)

end
