(* ===== verification/Session_Store.thy ===== *)
theory Session_Store
  imports Session_Life Base64
begin

text \<open>
  The durable session records: \<^verbatim>\<open>claim\<close>, \<^verbatim>\<open>save\<close> and \<^verbatim>\<open>release\<close> of \<^verbatim>\<open>src/sessionstore.go\<close>, and the session's half of a
  record (\<^verbatim>\<open>bindRecord\<close>, \<^verbatim>\<open>snapshot\<close>, \<^verbatim>\<open>commitRecord\<close> of \<^verbatim>\<open>src/session.go\<close>). The JetStream key-value bucket is the parameter
  \<open>kv_ops\<close>: its operations on a bucket of type \<open>'k\<close>, with their documented behaviour in \<open>kv_laws\<close>. A stored value is a
  record or something that is not one; the unexported fields of a record are not part of its encoding.
\<close>

section \<open>The bucket\<close>

datatype kv_value = Encoded sessionRecord | Unreadable

datatype kv_error = ErrKeyNotFound | ErrKeyExists | ErrOther

record 'k kv_ops =
  kv_Get :: "'k \<Rightarrow> string \<Rightarrow> (kv_error + kv_value \<times> u64) \<times> 'k"
  kv_Create :: "'k \<Rightarrow> string \<Rightarrow> kv_value \<Rightarrow> (kv_error + u64) \<times> 'k"
  kv_Update :: "'k \<Rightarrow> string \<Rightarrow> kv_value \<Rightarrow> u64 \<Rightarrow> (kv_error + u64) \<times> 'k"
  kv_Delete :: "'k \<Rightarrow> string \<Rightarrow> u64 \<Rightarrow> (kv_error + unit) \<times> 'k"
  kv_view :: "'k \<Rightarrow> string \<rightharpoonup> kv_value \<times> u64"
  kv_last :: "'k \<Rightarrow> u64"

text \<open>
  What the bucket promises. \<open>kv_view\<close> is what it holds, \<open>kv_last\<close> the last revision it gave. \<^verbatim>\<open>Create\<close> writes only a key that
  has no value, \<^verbatim>\<open>Update\<close> and \<^verbatim>\<open>Delete\<close> only the revision they name, and a write takes a new, higher revision. A call that
  fails may have been carried out all the same (its answer was lost), but never against its condition.
\<close>

definition wrote :: "'k kv_ops \<Rightarrow> 'k \<Rightarrow> string \<Rightarrow> kv_value \<Rightarrow> 'k \<Rightarrow> u64 \<Rightarrow> bool" where
  "wrote K k key v k' r \<longleftrightarrow> kv_last K k < r \<and> kv_last K k' = r \<and> kv_view K k' = (kv_view K k)(key \<mapsto> (v, r))"

definition same :: "'k kv_ops \<Rightarrow> 'k \<Rightarrow> 'k \<Rightarrow> bool" where
  "same K k k' \<longleftrightarrow> kv_last K k' = kv_last K k \<and> kv_view K k' = kv_view K k"

definition erased :: "'k kv_ops \<Rightarrow> 'k \<Rightarrow> string \<Rightarrow> 'k \<Rightarrow> bool" where
  "erased K k key k' \<longleftrightarrow> kv_last K k < kv_last K k' \<and> kv_view K k' = (kv_view K k)(key := None)"

definition at_rev :: "'k kv_ops \<Rightarrow> 'k \<Rightarrow> string \<Rightarrow> u64 \<Rightarrow> bool" where
  "at_rev K k key r \<longleftrightarrow> (\<exists>v. kv_view K k key = Some (v, r))"

definition get_law :: "'k kv_ops \<Rightarrow> 'k \<Rightarrow> string \<Rightarrow> bool" where
  "get_law K k key \<longleftrightarrow>
    (case kv_Get K k key of
       (Inr e, k') \<Rightarrow> same K k k' \<and> kv_view K k key = Some e
     | (Inl e, k') \<Rightarrow> same K k k' \<and> (e = ErrKeyNotFound \<longrightarrow> kv_view K k key = None))"

definition create_law :: "'k kv_ops \<Rightarrow> 'k \<Rightarrow> string \<Rightarrow> kv_value \<Rightarrow> bool" where
  "create_law K k key v \<longleftrightarrow>
    (case kv_Create K k key v of
       (Inr r, k') \<Rightarrow> kv_view K k key = None \<and> wrote K k key v k' r
     | (Inl e, k') \<Rightarrow> same K k k' \<or> e \<noteq> ErrKeyExists \<and> kv_view K k key = None \<and> (\<exists>r. wrote K k key v k' r))"

definition update_law :: "'k kv_ops \<Rightarrow> 'k \<Rightarrow> string \<Rightarrow> kv_value \<Rightarrow> u64 \<Rightarrow> bool" where
  "update_law K k key v rv \<longleftrightarrow>
    (case kv_Update K k key v rv of
       (Inr r, k') \<Rightarrow> at_rev K k key rv \<and> wrote K k key v k' r
     | (Inl e, k') \<Rightarrow> same K k k' \<or> at_rev K k key rv \<and> (\<exists>r. wrote K k key v k' r))"

definition delete_law :: "'k kv_ops \<Rightarrow> 'k \<Rightarrow> string \<Rightarrow> u64 \<Rightarrow> bool" where
  "delete_law K k key rv \<longleftrightarrow>
    (case kv_Delete K k key rv of
       (Inr _, k') \<Rightarrow> at_rev K k key rv \<and> erased K k key k'
     | (Inl e, k') \<Rightarrow> same K k k' \<or> at_rev K k key rv \<and> erased K k key k')"

definition kv_laws :: "'k kv_ops \<Rightarrow> bool" where
  "kv_laws K \<longleftrightarrow> (\<forall>k key. get_law K k key) \<and> (\<forall>k key v. create_law K k key v) \<and>
    (\<forall>k key v rv. update_law K k key v rv) \<and> (\<forall>k key rv. delete_law K k key rv)"

section \<open>Records\<close>

definition sessionRecordVersion :: int where
  "sessionRecordVersion = 1"

definition claimAttempts :: nat where
  "claimAttempts = 5"

definition neverExpires :: u32 where
  "neverExpires = 0xFFFFFFFF"

definition exported :: "sessionRecord \<Rightarrow> sessionRecord" where
  "exported r = r\<lparr>sr_deliveredOver := [], sr_awayWas := zeroTime, sr_awayFromSeqWas := 0, sr_awayLateSeqWas := 0,
     sr_deliveredSinceWas := zeroTime, sr_deliveredWas := [], sr_replayCursorWas := 0, sr_replayHolesWas := [], sr_inflightWas := [],
     sr_receivedQoS2Was := [], sr_withdrawnWas := [], sr_spillWas := [], sr_deliveredSpillWas := []\<rparr>"

definition encodeRecord :: "sessionRecord \<Rightarrow> kv_value" where
  "encodeRecord r = Encoded (exported r)"

definition decodeRecord :: "kv_value \<Rightarrow> sessionRecord option" where
  "decodeRecord v =
    (case v of Unreadable \<Rightarrow> None | Encoded r \<Rightarrow> if sr_Version r \<noteq> sessionRecordVersion then None else Some r)"

definition resumable :: "time \<Rightarrow> sessionRecord \<Rightarrow> bool" where
  "resumable now r = (if sr_Attached r \<or> IsZero (sr_ExpiresAt r) then True else now < sr_ExpiresAt r)"

definition expiryDeadline :: "time \<Rightarrow> u32 \<Rightarrow> time" where
  "expiryDeadline now seconds = (if seconds = neverExpires then zeroTime else now + int (unat seconds) * Second)"

definition empty_record :: sessionRecord where
  "empty_record = \<lparr>sr_Version = 0, sr_ClientID = [], sr_Owner = [], sr_Attached = False, sr_Identity = [], sr_Username = [],
     sr_Subscriptions = [], sr_ExpirySeconds = 0, sr_ExpiresAt = zeroTime, sr_AwayAt = zeroTime, sr_AwayFromSeq = 0, sr_Delivered = [],
     sr_DeliveredSince = zeroTime, sr_AwayLateSeq = 0, sr_ReplayCursor = 0, sr_ReplayHoles = [], sr_Inflight = [], sr_ReceivedQoS2 = [],
     sr_Withdrawn = [], sr_Spill = [], sr_DeliveredSpill = [], sr_deliveredOver = [], sr_awayWas = zeroTime, sr_awayFromSeqWas = 0,
     sr_awayLateSeqWas = 0, sr_deliveredSinceWas = zeroTime, sr_deliveredWas = [], sr_replayCursorWas = 0, sr_replayHolesWas = [],
     sr_inflightWas = [], sr_receivedQoS2Was = [], sr_withdrawnWas = [], sr_spillWas = [], sr_deliveredSpillWas = []\<rparr>"

section \<open>The store\<close>

text \<open>The fields of \<^verbatim>\<open>sessionStore\<close> the operations read. \<open>st_alive\<close> is what \<^verbatim>\<open>ownerAlive\<close> answers of a broker instance.\<close>

record session_store =
  store_owner :: string
  store_queueMaxAge :: duration
  store_maxSessionExpiry :: duration
  store_alive :: "string \<Rightarrow> bool"

datatype store_error = StoreRead kv_error | StoreCreate kv_error | StoreExists | StoreAttempts | LostSession

text \<open>The payload bucket's part of a claim.\<close>

datatype blob_call = DeleteOwnerBlobs string

definition fresh_record :: "session_store \<Rightarrow> time \<Rightarrow> string \<Rightarrow> string \<Rightarrow> string \<Rightarrow> sessionRecord" where
  "fresh_record S now clientID identity username =
    empty_record\<lparr>sr_Version := sessionRecordVersion, sr_ClientID := clientID, sr_Owner := store_owner S, sr_Attached := True,
      sr_Identity := identity, sr_Username := username, sr_AwayAt := now\<rparr>"

definition createFresh :: "'k kv_ops \<Rightarrow> session_store \<Rightarrow> time \<Rightarrow> string \<Rightarrow> string \<Rightarrow> string \<Rightarrow> string \<Rightarrow> 'k \<Rightarrow> (store_error + sessionRecord \<times> u64) \<times> 'k" where
  "createFresh K S now key clientID identity username k =
    (let rec = fresh_record S now clientID identity username in
     case kv_Create K k key (encodeRecord rec) of
       (Inl e, k') \<Rightarrow> (Inl (if e = ErrKeyExists then StoreExists else StoreCreate e), k')
     | (Inr rv, k') \<Rightarrow> (Inr (rec, rv), k'))"

text \<open>What a claim makes of the record it takes over: the position another broker's live connection holds is not its to
  resume from, what is kept of the last connection moves to the fields ending in \<^verbatim>\<open>Was\<close>.\<close>

definition taken_position :: "session_store \<Rightarrow> sessionRecord \<Rightarrow> sessionRecord" where
  "taken_position S rec =
    (let attachedElsewhere = (sr_Attached rec \<and> sr_Owner rec \<noteq> store_owner S);
         ownerDead = (attachedElsewhere \<and> \<not> store_alive S (sr_Owner rec))
     in if attachedElsewhere \<and> \<not> ownerDead then
          rec\<lparr>sr_AwayAt := zeroTime, sr_AwayFromSeq := 0, sr_AwayLateSeq := 0, sr_Delivered := [], sr_DeliveredSince := zeroTime,
            sr_DeliveredSpill := [], sr_ReplayCursor := 0, sr_ReplayHoles := []\<rparr>
        else rec)"

definition legacy :: "session_store \<Rightarrow> sessionRecord \<Rightarrow> bool" where
  "legacy S rec \<longleftrightarrow> sr_Attached rec \<and> sr_Owner rec \<noteq> store_owner S \<and> \<not> store_alive S (sr_Owner rec) \<and>
     IsZero (sr_AwayAt (taken_position S rec)) \<and> 0 < store_queueMaxAge S"

definition keep_was :: "sessionRecord \<Rightarrow> sessionRecord" where
  "keep_was rec = rec\<lparr>sr_awayWas := sr_AwayAt rec, sr_awayFromSeqWas := sr_AwayFromSeq rec, sr_awayLateSeqWas := sr_AwayLateSeq rec,
     sr_deliveredSinceWas := sr_DeliveredSince rec, sr_deliveredWas := sr_Delivered rec, sr_deliveredSpillWas := sr_DeliveredSpill rec,
     sr_replayCursorWas := sr_ReplayCursor rec, sr_replayHolesWas := sr_ReplayHoles rec\<rparr>"

definition take_lists :: "sessionRecord \<Rightarrow> sessionRecord" where
  "take_lists rec = rec\<lparr>sr_inflightWas := sr_Inflight rec, sr_Inflight := [], sr_receivedQoS2Was := sr_ReceivedQoS2 rec, sr_ReceivedQoS2 := [],
     sr_withdrawnWas := sr_Withdrawn rec, sr_Withdrawn := [], sr_spillWas := sr_Spill rec, sr_Spill := []\<rparr>"

definition claimed_record :: "session_store \<Rightarrow> time \<Rightarrow> string \<Rightarrow> string \<Rightarrow> sessionRecord \<Rightarrow> sessionRecord" where
  "claimed_record S now identity username rec0 =
    (let old = legacy S rec0;
         rec = (taken_position S rec0)\<lparr>sr_Owner := store_owner S, sr_Attached := True, sr_Identity := identity, sr_Username := username,
           sr_ExpiresAt := zeroTime\<rparr>;
         rec = keep_was rec;
         rec = (if old then rec\<lparr>sr_awayWas := now - store_queueMaxAge S\<rparr> else rec);
         rec = (if IsZero (sr_AwayAt rec) then rec\<lparr>sr_AwayAt := now\<rparr> else rec);
         rec = (if old then rec\<lparr>sr_AwayAt := sr_awayWas rec\<rparr> else rec)
     in take_lists rec)"

text \<open>What follows \<^verbatim>\<open>createFresh\<close> in a claim: a key that another broker created meanwhile means another attempt.\<close>

definition start_over :: "('k \<Rightarrow> (store_error + sessionRecord \<times> u64 \<times> bool) \<times> blob_call list \<times> 'k) \<Rightarrow> blob_call list \<Rightarrow>
    (store_error + sessionRecord \<times> u64) \<times> 'k \<Rightarrow> (store_error + sessionRecord \<times> u64 \<times> bool) \<times> blob_call list \<times> 'k" where
  "start_over again before c =
    (case c of
       (Inl e, k) \<Rightarrow> if e = StoreExists then let (r, calls, k) = again k in (r, before @ calls, k) else (Inl e, before, k)
     | (Inr (rec, rv), k) \<Rightarrow> (Inr (rec, rv, False), before, k))"

fun claim_loop :: "nat \<Rightarrow> 'k kv_ops \<Rightarrow> session_store \<Rightarrow> time \<Rightarrow> string \<Rightarrow> string \<Rightarrow> string \<Rightarrow> bool \<Rightarrow> 'k \<Rightarrow>
    (store_error + sessionRecord \<times> u64 \<times> bool) \<times> blob_call list \<times> 'k" where
  "claim_loop 0 K S now clientID identity username cleanStart k = (Inl StoreAttempts, [], k)"
| "claim_loop (Suc attempts) K S now clientID identity username cleanStart k =
    (let key = sessionKey clientID; again = claim_loop attempts K S now clientID identity username cleanStart in
     case kv_Get K k key of
       (Inl e, k) \<Rightarrow>
         if e = ErrKeyNotFound then start_over again [] (createFresh K S now key clientID identity username k)
         else (Inl (StoreRead e), [], k)
     | (Inr (v, entryRev), k) \<Rightarrow>
         if (case decodeRecord v of None \<Rightarrow> True | Some rec \<Rightarrow> cleanStart \<or> \<not> resumable now rec) then
           (case kv_Delete K k key entryRev of
              (Inl _, k) \<Rightarrow> again k
            | (Inr _, k) \<Rightarrow> start_over again [DeleteOwnerBlobs clientID] (createFresh K S now key clientID identity username k))
         else
           (let rec = claimed_record S now identity username (the (decodeRecord v)) in
            case kv_Update K k key (encodeRecord rec) entryRev of
              (Inl _, k) \<Rightarrow> again k
            | (Inr rv, k) \<Rightarrow> (Inr (rec, rv, True), [], k)))"

definition claim :: "'k kv_ops \<Rightarrow> session_store \<Rightarrow> time \<Rightarrow> string \<Rightarrow> string \<Rightarrow> string \<Rightarrow> bool \<Rightarrow> 'k \<Rightarrow>
    (store_error + sessionRecord \<times> u64 \<times> bool) \<times> blob_call list \<times> 'k" where
  "claim K S now clientID identity username cleanStart k = claim_loop claimAttempts K S now clientID identity username cleanStart k"

definition save :: "'k kv_ops \<Rightarrow> sessionRecord \<Rightarrow> u64 \<Rightarrow> 'k \<Rightarrow> (store_error + u64) \<times> 'k" where
  "save K rec rv k =
    (case kv_Update K k (sessionKey (sr_ClientID rec)) (encodeRecord rec) rv of
       (Inl _, k') \<Rightarrow> (Inl LostSession, k')
     | (Inr newRev, k') \<Rightarrow> (Inr newRev, k'))"

text \<open>The released record itself is changed in place, so it is part of the result.\<close>

definition release :: "'k kv_ops \<Rightarrow> time \<Rightarrow> sessionRecord \<Rightarrow> u64 \<Rightarrow> 'k \<Rightarrow> (store_error + u64) \<times> sessionRecord \<times> 'k" where
  "release K now rec rv k =
    (let key = sessionKey (sr_ClientID rec) in
     if sr_ExpirySeconds rec = 0 then
       (case kv_Delete K k key rv of (Inl _, k') \<Rightarrow> (Inl LostSession, rec, k') | (Inr _, k') \<Rightarrow> (Inr rv, rec, k'))
     else
       let rec = rec\<lparr>sr_Attached := False, sr_ExpiresAt := expiryDeadline now (sr_ExpirySeconds rec), sr_AwayAt := now\<rparr> in
       case kv_Update K k key (encodeRecord rec) rv of
         (Inl _, k') \<Rightarrow> (Inl LostSession, rec, k')
       | (Inr newRev, k') \<Rightarrow> (Inr newRev, rec, k'))"

definition peekSubscriptions :: "'k kv_ops \<Rightarrow> time \<Rightarrow> string \<Rightarrow> 'k \<Rightarrow> storedSubscription list" where
  "peekSubscriptions K now clientID k =
    (case fst (kv_Get K k (sessionKey clientID)) of
       Inl _ \<Rightarrow> []
     | Inr (v, _) \<Rightarrow>
         (case decodeRecord v of
            None \<Rightarrow> []
          | Some rec \<Rightarrow> if \<not> resumable now rec then [] else sr_Subscriptions rec))"

text \<open>\<^verbatim>\<open>onUpdate\<close> on a put: the session this broker has lost, if the write names another broker.\<close>

definition onUpdate :: "session_store \<Rightarrow> kv_value \<Rightarrow> u64 \<Rightarrow> (string \<times> u64) option" where
  "onUpdate S v rv =
    (case decodeRecord v of
       None \<Rightarrow> None
     | Some rec \<Rightarrow> if sr_Owner rec = store_owner S then None else Some (sr_ClientID rec, rv))"

definition reclaimable :: "session_store \<Rightarrow> time \<Rightarrow> time \<Rightarrow> sessionRecord \<Rightarrow> bool" where
  "reclaimable S now created rec =
    (if \<not> resumable now rec then True
     else if \<not> sr_Attached rec then False
     else if sr_Owner rec = store_owner S then False
     else if time_Sub now created < store_maxSessionExpiry S then False
     else \<not> store_alive S (sr_Owner rec))"

section \<open>The session's half\<close>

definition bindRecord :: "sessionRecord \<Rightarrow> u64 \<Rightarrow> 'a session_replay_scheme \<Rightarrow> u64 \<times> 'a session_replay_scheme" where
  "bindRecord rec rv s = (s_claimGen s + 1, s\<lparr>s_rec := Some rec, s_rev := rv, s_claimGen := s_claimGen s + 1\<rparr>)"

definition withdrawnLocked :: "'a session_replay_scheme \<Rightarrow> storedWithdrawn list" where
  "withdrawnLocked s =
    sort_key sw_ID (map (\<lambda>(i, w). \<lparr>sw_ID = i, sw_Owed = wd_owed w, sw_Age = s_attaches s - wd_madeAt w\<rparr>) (s_withdrawn s))"

definition stored_sub :: "session_sub \<Rightarrow> storedSubscription" where
  "stored_sub x = \<lparr>st_Filter = ss_filter x, st_Opts = ss_opts x, st_GrantedQoS = ss_grantedQoS x, st_ID = ss_id x,
     st_SinceSeq = (if ss_since x = sinceUnknown then 0 else ss_since x)\<rparr>"

definition snapshot :: "u64 \<Rightarrow> 'a session_replay_scheme \<Rightarrow> (sessionRecord \<times> u64) option" where
  "snapshot gen s =
    (case s_rec s of
       None \<Rightarrow> None
     | Some rec \<Rightarrow>
         if gen \<noteq> s_claimGen s then None
         else Some (rec\<lparr>sr_Subscriptions := sort_key st_Filter (map stored_sub (List.map_filter (\<lambda>(_, r). get (s_mem s) r) (s_subs s))),
             sr_ExpirySeconds := s_expirySeconds s, sr_Withdrawn := withdrawnLocked s\<rparr>, s_rev s))"

definition supersedes :: "u64 \<Rightarrow> 'a session_replay_scheme \<Rightarrow> bool" where
  "supersedes rv s \<longleftrightarrow> s_rec s \<noteq> None \<and> rv \<noteq> 0 \<and> rv \<le> s_rev s"

definition commitRecord :: "u64 \<Rightarrow> sessionRecord \<Rightarrow> u64 \<Rightarrow> 'a session_replay_scheme \<Rightarrow> 'a session_replay_scheme" where
  "commitRecord gen rec rv s = (if gen \<noteq> s_claimGen s then s else s\<lparr>s_rec := Some rec, s_rev := rv\<rparr>)"

text \<open>\<^verbatim>\<open>persistSession\<close> of \<^verbatim>\<open>src/broker.go\<close>, with \<open>gen\<close> the claim the connection holds.\<close>

definition persistSession :: "'k kv_ops \<Rightarrow> u64 \<Rightarrow> 'a session_replay_scheme \<Rightarrow> 'k \<Rightarrow> 'a session_replay_scheme \<times> 'k" where
  "persistSession K gen s k =
    (case snapshot gen s of
       None \<Rightarrow> (s, k)
     | Some (rec, rv) \<Rightarrow>
         (case save K rec rv k of
            (Inl _, k) \<Rightarrow> (s, k)
          | (Inr newRev, k) \<Rightarrow> (commitRecord gen rec newRev s, k)))"

section \<open>Revisions\<close>

definition moved :: "'k kv_ops \<Rightarrow> string \<Rightarrow> 'k \<Rightarrow> 'k \<Rightarrow> bool" where
  "moved K key k k' \<longleftrightarrow> kv_last K k \<le> kv_last K k' \<and>
    (kv_view K k' key = kv_view K k key \<or> kv_view K k' key = None \<or>
     (\<exists>v r. kv_view K k' key = Some (v, r) \<and> kv_last K k < r \<and> r \<le> kv_last K k'))"

lemma moved_refl [simp]: "moved K key k k"
  by (simp add: moved_def)

lemma moved_trans [trans]: "moved K key k k' \<Longrightarrow> moved K key k' k'' \<Longrightarrow> moved K key k k''"
  unfolding moved_def by (elim conjE disjE exE) (auto intro: order_trans order_le_less_trans)

lemma same_moved: "same K k k' \<Longrightarrow> moved K key k k'"
  by (simp add: same_def moved_def)

lemma wrote_moved: "wrote K k key v k' r \<Longrightarrow> moved K key k k'"
  by (auto simp: wrote_def moved_def)

lemma erased_moved: "erased K k key k' \<Longrightarrow> moved K key k k'"
  by (auto simp: erased_def moved_def)

lemma kv_Get_law:
  assumes "kv_laws K" "kv_Get K k key = (res, k')"
  shows "same K k k'" "res = Inr e \<Longrightarrow> kv_view K k key = Some e" "res = Inl ErrKeyNotFound \<Longrightarrow> kv_view K k key = None"
proof -
  have l: "get_law K k key" using assms(1) by (simp add: kv_laws_def)
  show "same K k k'" "res = Inr e \<Longrightarrow> kv_view K k key = Some e" "res = Inl ErrKeyNotFound \<Longrightarrow> kv_view K k key = None"
    using l assms(2) by (cases res; auto simp: get_law_def intro: same_moved wrote_moved erased_moved)+
qed

lemma kv_Create_law:
  assumes "kv_laws K" "kv_Create K k key v = (res, k')"
  shows "moved K key k k'" "res = Inr r \<Longrightarrow> wrote K k key v k' r \<and> kv_view K k key = None" "res = Inl ErrKeyExists \<Longrightarrow> same K k k'"
proof -
  have l: "create_law K k key v" using assms(1) by (simp add: kv_laws_def)
  show "moved K key k k'" "res = Inr r \<Longrightarrow> wrote K k key v k' r \<and> kv_view K k key = None" "res = Inl ErrKeyExists \<Longrightarrow> same K k k'"
    using l assms(2) by (cases res; auto simp: create_law_def intro: same_moved wrote_moved erased_moved)+
qed

lemma kv_Update_law:
  assumes "kv_laws K" "kv_Update K k key v rv = (res, k')"
  shows "moved K key k k'" "res = Inr r \<Longrightarrow> wrote K k key v k' r \<and> at_rev K k key rv"
    "\<not> at_rev K k key rv \<Longrightarrow> (\<exists>e. res = Inl e) \<and> same K k k'"
proof -
  have l: "update_law K k key v rv" using assms(1) by (simp add: kv_laws_def)
  show "moved K key k k'" "res = Inr r \<Longrightarrow> wrote K k key v k' r \<and> at_rev K k key rv"
    "\<not> at_rev K k key rv \<Longrightarrow> (\<exists>e. res = Inl e) \<and> same K k k'"
    using l assms(2) by (cases res; auto simp: update_law_def intro: same_moved wrote_moved erased_moved)+
qed

lemma kv_Delete_law:
  assumes "kv_laws K" "kv_Delete K k key rv = (res, k')"
  shows "moved K key k k'" "res = Inr u \<Longrightarrow> erased K k key k' \<and> at_rev K k key rv"
    "\<not> at_rev K k key rv \<Longrightarrow> (\<exists>e. res = Inl e) \<and> same K k k'"
proof -
  have l: "delete_law K k key rv" using assms(1) by (simp add: kv_laws_def)
  show "moved K key k k'" "res = Inr u \<Longrightarrow> erased K k key k' \<and> at_rev K k key rv"
    "\<not> at_rev K k key rv \<Longrightarrow> (\<exists>e. res = Inl e) \<and> same K k k'"
    using l assms(2) by (cases res; auto simp: delete_law_def intro: same_moved wrote_moved erased_moved)+
qed

definition fresh_rev :: "'k kv_ops \<Rightarrow> string \<Rightarrow> 'k \<Rightarrow> 'k \<Rightarrow> u64 \<Rightarrow> bool" where
  "fresh_rev K key k k' rv \<longleftrightarrow> kv_last K k < rv \<and> rv \<le> kv_last K k' \<and> at_rev K k' key rv"

lemma fresh_moved: "moved K key k k' \<Longrightarrow> fresh_rev K key k' k'' rv \<Longrightarrow> fresh_rev K key k k'' rv"
  by (auto simp: moved_def fresh_rev_def)

lemma wrote_fresh: "wrote K k key v k' r \<Longrightarrow> fresh_rev K key k k' r"
  by (auto simp: wrote_def fresh_rev_def at_rev_def)

lemma createFresh_moves:
  assumes "kv_laws K" "createFresh K S now key clientID identity username k = (res, k')"
  shows "moved K key k k'" "res = Inr (rec, rv) \<Longrightarrow> fresh_rev K key k k' rv"
proof -
  obtain r where c: "kv_Create K k key (encodeRecord (fresh_record S now clientID identity username)) = (r, k')"
    "res = (case r of Inl e \<Rightarrow> Inl (if e = ErrKeyExists then StoreExists else StoreCreate e) | Inr rv \<Rightarrow> Inr (fresh_record S now clientID identity username, rv))"
    using assms(2) by (auto simp: createFresh_def Let_def split: prod.splits sum.splits)
  show "moved K key k k'" by (rule kv_Create_law(1) [OF assms(1) c(1)])
  show "fresh_rev K key k k' rv" if "res = Inr (rec, rv)"
    using that c(2) kv_Create_law(2) [OF assms(1) c(1)] wrote_fresh by (fastforce split: sum.splits)
qed

definition claim_ok :: "'k kv_ops \<Rightarrow> string \<Rightarrow> 'k \<Rightarrow> (store_error + sessionRecord \<times> u64 \<times> bool) \<times> blob_call list \<times> 'k \<Rightarrow> bool" where
  "claim_ok K key k = (\<lambda>(res, calls, k'). moved K key k k' \<and> (\<forall>rec rv p. res = Inr (rec, rv, p) \<longrightarrow> fresh_rev K key k k' rv))"

lemma claim_ok_after: "moved K key k k1 \<Longrightarrow> claim_ok K key k1 r \<Longrightarrow> claim_ok K key k r"
  by (auto simp: claim_ok_def dest: fresh_moved intro: moved_trans)

lemma start_over_ok:
  assumes "kv_laws K" "\<And>k. claim_ok K key k (again k)"
  shows "claim_ok K key k (start_over again before (createFresh K S now key clientID identity username k))"
proof -
  obtain c k1 where c: "createFresh K S now key clientID identity username k = (c, k1)" by fastforce
  note m = createFresh_moves [OF assms(1) c]
  have a: "claim_ok K key k (again k1)" by (rule claim_ok_after [OF m(1) assms(2)])
  show ?thesis
  proof (cases c)
    case (Inl e)
    then show ?thesis using a m(1) unfolding c start_over_def by (auto simp: claim_ok_def split: prod.splits)
  next
    case (Inr b)
    then show ?thesis using m unfolding c start_over_def by (cases b) (auto simp: claim_ok_def)
  qed
qed

lemma claim_loop_ok:
  assumes "kv_laws K"
  shows "claim_ok K (sessionKey clientID) k (claim_loop n K S now clientID identity username cleanStart k)"
proof (induction n arbitrary: k)
  case 0
  then show ?case by (simp add: claim_ok_def)
next
  case (Suc n)
  let ?key = "sessionKey clientID" and ?again = "claim_loop n K S now clientID identity username cleanStart"
  have so: "claim_ok K ?key k1 (start_over ?again b (createFresh K S now ?key clientID identity username k1))" for b k1
    by (rule start_over_ok [OF assms Suc])
  obtain g k1 where g: "kv_Get K k ?key = (g, k1)" by fastforce
  have m: "moved K ?key k k1" by (rule same_moved [OF kv_Get_law(1) [OF assms g]])
  show ?case
  proof (cases g)
    case (Inl e)
    then show ?thesis
      using claim_ok_after [OF m so] m
      by (simp add: g) (simp add: claim_ok_def)
  next
    case (Inr e)
    obtain v rv where e: "e = (v, rv)" by fastforce
    let ?bad = "case decodeRecord v of None \<Rightarrow> True | Some rec \<Rightarrow> cleanStart \<or> \<not> resumable now rec"
    show ?thesis
    proof (cases ?bad)
      case True
      obtain d k2 where d: "kv_Delete K k1 ?key rv = (d, k2)" by fastforce
      note m2 = moved_trans [OF m kv_Delete_law(1) [OF assms d]]
      show ?thesis
        using True d claim_ok_after [OF m2 Suc] claim_ok_after [OF m2 so]
        by (cases d) (simp_all add: g Inr e)
    next
      case False
      let ?rec = "claimed_record S now identity username (the (decodeRecord v))"
      obtain u k2 where u: "kv_Update K k1 ?key (encodeRecord ?rec) rv = (u, k2)" by fastforce
      note m2 = moved_trans [OF m kv_Update_law(1) [OF assms u]]
      have "fresh_rev K ?key k k2 r" if "u = Inr r" for r
        using fresh_moved [OF m wrote_fresh] kv_Update_law(2) [OF assms u that] by blast
      then show ?thesis
        using False u claim_ok_after [OF m2 Suc] m2 by (cases u) (simp_all add: g Inr e, simp add: claim_ok_def)
    qed
  qed
qed

section \<open>Who may write a record\<close>

text \<open>
  All the brokers that write one client's record. \<open>held\<close> is the revision each claim so far rests on, \<open>cur\<close> the latest
  claim. A claim may fail, and then have done part of its work; \<open>store_delete\<close> is a sweep's delete, at whatever revision it read.
\<close>

type_synonym 'k store_state = "'k \<times> (nat \<rightharpoonup> u64) \<times> nat option"

inductive store_step :: "'k kv_ops \<Rightarrow> string \<Rightarrow> 'k store_state \<Rightarrow> 'k store_state \<Rightarrow> bool" for K clientID where
  store_claim: "claim K S now clientID identity username cleanStart k = (Inr (rec, rv, present), calls, k') \<Longrightarrow> held c = None \<Longrightarrow>
    store_step K clientID (k, held, cur) (k', held(c \<mapsto> rv), Some c)"
| store_claim_failed: "claim K S now clientID identity username cleanStart k = (Inl e, calls, k') \<Longrightarrow>
    store_step K clientID (k, held, cur) (k', held, cur)"
| store_save: "sr_ClientID rec = clientID \<Longrightarrow> held c = Some rv \<Longrightarrow> save K rec rv k = (Inr rv', k') \<Longrightarrow>
    store_step K clientID (k, held, cur) (k', held(c \<mapsto> rv'), cur)"
| store_save_failed: "sr_ClientID rec = clientID \<Longrightarrow> held c = Some rv \<Longrightarrow> save K rec rv k = (Inl e, k') \<Longrightarrow>
    store_step K clientID (k, held, cur) (k', held, cur)"
| store_release: "sr_ClientID rec = clientID \<Longrightarrow> held c = Some rv \<Longrightarrow> release K now rec rv k = (Inr rv', rec', k') \<Longrightarrow>
    store_step K clientID (k, held, cur) (k', held(c \<mapsto> rv'), cur)"
| store_release_failed: "sr_ClientID rec = clientID \<Longrightarrow> held c = Some rv \<Longrightarrow> release K now rec rv k = (Inl e, rec', k') \<Longrightarrow>
    store_step K clientID (k, held, cur) (k', held, cur)"
| store_delete: "kv_Delete K k (sessionKey clientID) rv = (res, k') \<Longrightarrow> store_step K clientID (k, held, cur) (k', held, cur)"

definition store_inv :: "'k kv_ops \<Rightarrow> string \<Rightarrow> 'k store_state \<Rightarrow> bool" where
  "store_inv K clientID = (\<lambda>(k, held, cur). kv_laws K \<longrightarrow>
    (\<forall>c rv. held c = Some rv \<longrightarrow> rv \<le> kv_last K k \<and> (at_rev K k (sessionKey clientID) rv \<longrightarrow> cur = Some c)))"

definition store_start :: "'k store_state \<Rightarrow> bool" where
  "store_start = (\<lambda>(k, held, cur). held = Map.empty)"

lemma store_moved:
  assumes "store_inv K clientID (k, held, cur)" "kv_laws K" "moved K (sessionKey clientID) k k'"
  shows "store_inv K clientID (k', held, cur)"
proof -
  have "rv \<le> kv_last K k' \<and> (at_rev K k' (sessionKey clientID) rv \<longrightarrow> cur = Some c)" if "held c = Some rv" for c rv
  proof -
    have "rv \<le> kv_last K k" "at_rev K k (sessionKey clientID) rv \<longrightarrow> cur = Some c"
      using assms(1,2) that by (simp_all add: store_inv_def)
    then show ?thesis using assms(3) by (auto simp: moved_def at_rev_def dest: sym)
  qed
  then show ?thesis by (simp add: store_inv_def)
qed

lemma store_fresh:
  assumes "store_inv K clientID (k, held, cur)" "kv_laws K" "moved K (sessionKey clientID) k k'" "fresh_rev K (sessionKey clientID) k k' rv"
  shows "store_inv K clientID (k', held(c \<mapsto> rv), Some c)"
proof -
  have "x \<le> kv_last K k' \<and> (at_rev K k' (sessionKey clientID) x \<longrightarrow> d = c)" if "held d = Some x" "d \<noteq> c" for d x
  proof -
    have "x \<le> kv_last K k" using assms(1,2) that by (simp add: store_inv_def)
    then have "x < rv" "x \<le> kv_last K k'" using assms(3,4) by (auto simp: fresh_rev_def moved_def)
    then show ?thesis using assms(4) by (auto simp: fresh_rev_def at_rev_def)
  qed
  then show ?thesis using assms(4) by (auto simp: store_inv_def fresh_rev_def)
qed

lemma save_laws:
  assumes "kv_laws K" "save K rec rv k = (res, k')"
  shows "moved K (sessionKey (sr_ClientID rec)) k k'"
    "res = Inr rv' \<Longrightarrow> at_rev K k (sessionKey (sr_ClientID rec)) rv \<and> fresh_rev K (sessionKey (sr_ClientID rec)) k k' rv'"
    "\<not> at_rev K k (sessionKey (sr_ClientID rec)) rv \<Longrightarrow> res = Inl LostSession \<and> same K k k'"
proof -
  obtain u where u: "kv_Update K k (sessionKey (sr_ClientID rec)) (encodeRecord rec) rv = (u, k')"
    "res = (case u of Inl _ \<Rightarrow> Inl LostSession | Inr r \<Rightarrow> Inr r)"
    using assms(2) by (auto simp: save_def split: prod.splits sum.splits)
  note l = kv_Update_law [OF assms(1) u(1)]
  show "moved K (sessionKey (sr_ClientID rec)) k k'" by (rule l(1))
  show "res = Inr rv' \<Longrightarrow> at_rev K k (sessionKey (sr_ClientID rec)) rv \<and> fresh_rev K (sessionKey (sr_ClientID rec)) k k' rv'"
    using u(2) l(2) wrote_fresh by (auto split: sum.splits)
  show "\<not> at_rev K k (sessionKey (sr_ClientID rec)) rv \<Longrightarrow> res = Inl LostSession \<and> same K k k'"
    using u(2) l(3) by (auto split: sum.splits)
qed

lemma release_laws:
  assumes "kv_laws K" "release K now rec rv k = (res, rec', k')"
  shows "moved K (sessionKey (sr_ClientID rec)) k k'"
    "res = Inr rv' \<Longrightarrow> at_rev K k (sessionKey (sr_ClientID rec)) rv \<and>
      (fresh_rev K (sessionKey (sr_ClientID rec)) k k' rv' \<or> rv' = rv \<and> kv_view K k' (sessionKey (sr_ClientID rec)) = None)"
    "\<not> at_rev K k (sessionKey (sr_ClientID rec)) rv \<Longrightarrow> res = Inl LostSession \<and> same K k k'"
proof -
  let ?key = "sessionKey (sr_ClientID rec)"
  show "moved K ?key k k'"
    "res = Inr rv' \<Longrightarrow> at_rev K k ?key rv \<and> (fresh_rev K ?key k k' rv' \<or> rv' = rv \<and> kv_view K k' ?key = None)"
    "\<not> at_rev K k ?key rv \<Longrightarrow> res = Inl LostSession \<and> same K k k'"
  proof (atomize (full), cases "sr_ExpirySeconds rec = 0")
    case True
    then obtain d where d: "kv_Delete K k ?key rv = (d, k')" "res = (case d of Inl _ \<Rightarrow> Inl LostSession | Inr _ \<Rightarrow> Inr rv)"
      using assms(2) by (auto simp: release_def split: prod.splits sum.splits)
    note l = kv_Delete_law [OF assms(1) d(1)]
    show "moved K ?key k k' \<and> (res = Inr rv' \<longrightarrow> at_rev K k ?key rv \<and> (fresh_rev K ?key k k' rv' \<or> rv' = rv \<and> kv_view K k' ?key = None)) \<and>
        (\<not> at_rev K k ?key rv \<longrightarrow> res = Inl LostSession \<and> same K k k')"
      using d(2) l by (auto simp: erased_def split: sum.splits)
  next
    case False
    then obtain u r where u: "kv_Update K k ?key (encodeRecord r) rv = (u, k')" "res = (case u of Inl _ \<Rightarrow> Inl LostSession | Inr r \<Rightarrow> Inr r)"
      using assms(2) by (auto simp: release_def Let_def split: prod.splits sum.splits)
    note l = kv_Update_law [OF assms(1) u(1)]
    show "moved K ?key k k' \<and> (res = Inr rv' \<longrightarrow> at_rev K k ?key rv \<and> (fresh_rev K ?key k k' rv' \<or> rv' = rv \<and> kv_view K k' ?key = None)) \<and>
        (\<not> at_rev K k ?key rv \<longrightarrow> res = Inl LostSession \<and> same K k k')"
      using u(2) l by (auto split: sum.splits dest: wrote_fresh)
  qed
qed

interpretation store_runs: step_invariant "store_step K clientID" store_start "store_inv K clientID" for K clientID
proof
  show "store_inv K clientID w" if "store_start w" for w :: "'a store_state"
    using that by (auto simp: store_start_def store_inv_def)
  show "store_inv K clientID w'" if "store_step K clientID w w'" "store_inv K clientID w" for w w' :: "'a store_state"
  proof (cases "kv_laws K")
    case False
    then show ?thesis by (cases w') (simp add: store_inv_def)
  next
    case L: True
    from that(1) show ?thesis
    proof (cases rule: store_step.cases)
      case (store_claim S now identity username cleanStart k rec rv present calls k' held c cur)
      then show ?thesis using claim_loop_ok [OF L, of clientID k claimAttempts S now identity username cleanStart] that(2)
        store_fresh [OF _ L, of clientID k held cur k' rv c] by (simp add: claim_def claim_ok_def)
    next
      case (store_claim_failed S now identity username cleanStart k e calls k' held cur)
      then show ?thesis using claim_loop_ok [OF L, of clientID k claimAttempts S now identity username cleanStart] that(2)
        store_moved [OF _ L] by (simp add: claim_def claim_ok_def)
    next
      case (store_save rec held c rv k rv' k' cur)
      have a: "at_rev K k (sessionKey clientID) rv" "fresh_rev K (sessionKey clientID) k k' rv'" "moved K (sessionKey clientID) k k'"
        using save_laws [OF L store_save(5)] store_save(3) by auto
      then have "cur = Some c" using that(2) L store_save by (simp add: store_inv_def)
      then show ?thesis using store_fresh [OF _ L a(3,2), of held cur c] that(2) store_save(1,2) by simp
    next
      case (store_save_failed rec held c rv k e k' cur)
      then show ?thesis using store_moved [OF _ L] save_laws(1) [OF L store_save_failed(5)] that(2) by simp
    next
      case (store_release rec held c rv now k rv' rec' k' cur)
      have a: "at_rev K k (sessionKey clientID) rv" "moved K (sessionKey clientID) k k'"
        "fresh_rev K (sessionKey clientID) k k' rv' \<or> rv' = rv \<and> kv_view K k' (sessionKey clientID) = None"
        using release_laws [OF L store_release(5)] store_release(3) by auto
      have c: "cur = Some c" using that(2) L store_release a(1) by (simp add: store_inv_def)
      from a(3) show ?thesis
      proof
        assume "fresh_rev K (sessionKey clientID) k k' rv'"
        then show ?thesis using store_fresh [OF _ L a(2), of held cur rv' c] that(2) store_release(1,2) c by simp
      next
        assume e: "rv' = rv \<and> kv_view K k' (sessionKey clientID) = None"
        have "held(c \<mapsto> rv') = held" using e store_release(4) by auto
        then show ?thesis using store_moved [OF _ L a(2), of held cur] that(2) store_release(1,2) by simp
      qed
    next
      case (store_release_failed rec held c rv now k e rec' k' cur)
      then show ?thesis using store_moved [OF _ L] release_laws(1) [OF L store_release_failed(5)] that(2) by simp
    next
      case (store_delete k rv res k' held cur)
      then show ?thesis using store_moved [OF _ L] kv_Delete_law(1) [OF L store_delete(3)] that(2) by simp
    qed
  qed
qed

text \<open>C34: Only the broker (or connection) whose claim of a session record is the latest can write it: a save or a release under
  any earlier claim is refused and leaves the bucket as it is, whatever claims, writes, deletes and failures came between.\<close>

theorem only_the_latest_claim_writes:
  assumes "kv_laws K" "store_start w0" "(store_step K clientID)\<^sup>*\<^sup>* w0 (k, held, cur)"
    "held c = Some rv" "cur \<noteq> Some c" "sr_ClientID rec = clientID"
  shows "fst (save K rec rv k) = Inl LostSession \<and> kv_view K (snd (save K rec rv k)) = kv_view K k \<and>
    fst (release K now rec rv k) = Inl LostSession \<and> kv_view K (snd (snd (release K now rec rv k))) = kv_view K k"
proof -
  have "\<not> at_rev K k (sessionKey (sr_ClientID rec)) rv"
    using store_runs.reach_inv [OF assms(3,2)] assms(1,4,5,6) by (auto simp: store_inv_def)
  then show ?thesis
    using save_laws(3) [OF assms(1), of rec rv k "fst (save K rec rv k)" "snd (save K rec rv k)"]
      release_laws(3) [OF assms(1), of now rec rv k "fst (release K now rec rv k)" "fst (snd (release K now rec rv k))" "snd (snd (release K now rec rv k))"]
    by (simp add: same_def)
qed

text \<open>A bucket in memory that keeps the laws, for the examples.\<close>

type_synonym mem_bucket = "(string \<rightharpoonup> kv_value \<times> u64) \<times> u64"

definition mem_write :: "mem_bucket \<Rightarrow> string \<Rightarrow> kv_value \<Rightarrow> (kv_error + u64) \<times> mem_bucket" where
  "mem_write b key v =
    (if snd b = - 1 then (Inl ErrOther, b) else (Inr (snd b + 1), ((fst b)(key \<mapsto> (v, snd b + 1)), snd b + 1)))"

definition mem_kv :: "mem_bucket kv_ops" where
  "mem_kv = \<lparr>
    kv_Get = (\<lambda>b key. (case fst b key of None \<Rightarrow> Inl ErrKeyNotFound | Some e \<Rightarrow> Inr e, b)),
    kv_Create = (\<lambda>b key v. if fst b key \<noteq> None then (Inl ErrKeyExists, b) else mem_write b key v),
    kv_Update = (\<lambda>b key v rv. if map_option snd (fst b key) \<noteq> Some rv then (Inl ErrOther, b) else mem_write b key v),
    kv_Delete = (\<lambda>b key rv. if map_option snd (fst b key) \<noteq> Some rv \<or> snd b = - 1 then (Inl ErrOther, b)
       else (Inr (), ((fst b)(key := None), snd b + 1))),
    kv_view = fst, kv_last = snd\<rparr>"

lemma mem_kv_laws: "kv_laws mem_kv"
proof -
  have "get_law mem_kv b key" for b key by (simp add: get_law_def mem_kv_def same_def split: option.splits)
  moreover have "create_law mem_kv b key v" for b key v
    by (cases "fst b key") (auto simp: create_law_def mem_kv_def mem_write_def same_def wrote_def next_rev)
  moreover have "update_law mem_kv b key v rv" for b key v rv
    by (auto simp: update_law_def mem_kv_def mem_write_def same_def wrote_def at_rev_def next_rev)
  moreover have "delete_law mem_kv b key rv" for b key rv
    by (auto simp: delete_law_def mem_kv_def same_def erased_def at_rev_def next_rev)
  ultimately show ?thesis by (simp add: kv_laws_def)
qed

definition sample_store :: "string \<Rightarrow> session_store" where
  "sample_store owner = \<lparr>store_owner = owner, store_queueMaxAge = 0, store_maxSessionExpiry = 0, store_alive = (\<lambda>_. True)\<rparr>"

lemma claim_first: "claim K S now clientID identity username cleanStart k = claim_loop (Suc 4) K S now clientID identity username cleanStart k"
  by (simp add: claim_def claimAttempts_def numeral_eq_Suc)

definition first_record :: sessionRecord where
  "first_record = fresh_record (sample_store ''b1'') 0 ''c'' [] []"

definition second_record :: sessionRecord where
  "second_record = claimed_record (sample_store ''b2'') 1 [] [] (exported first_record)"

definition one_claim :: mem_bucket where
  "one_claim = (Map.empty(sessionKey ''c'' \<mapsto> (encodeRecord first_record, 1)), 1)"

definition two_claims :: mem_bucket where
  "two_claims = ((fst one_claim)(sessionKey ''c'' \<mapsto> (encodeRecord second_record, 2)), 2)"

lemma small_revs: "(0 :: u64) \<noteq> - 1" "(1 :: u64) \<noteq> - 1"
  by simp_all

lemma sample_claims:
  "claim mem_kv (sample_store ''b1'') 0 ''c'' [] [] False (Map.empty, 0) = (Inr (first_record, 1, False), [], one_claim)"
  "claim mem_kv (sample_store ''b2'') 1 ''c'' [] [] False one_claim = (Inr (second_record, 2, True), [], two_claims)"
proof -
  show "claim mem_kv (sample_store ''b1'') 0 ''c'' [] [] False (Map.empty, 0) = (Inr (first_record, 1, False), [], one_claim)"
    unfolding claim_first claim_loop.simps by (simp add: mem_kv_def mem_write_def createFresh_def start_over_def first_record_def one_claim_def Let_def)
  have "decodeRecord (encodeRecord first_record) = Some (exported first_record)" "resumable 1 (exported first_record)"
    by (simp_all add: decodeRecord_def encodeRecord_def first_record_def fresh_record_def exported_def resumable_def)
  then show "claim mem_kv (sample_store ''b2'') 1 ''c'' [] [] False one_claim = (Inr (second_record, 2, True), [], two_claims)"
    unfolding claim_first claim_loop.simps by (simp add: mem_kv_def mem_write_def one_claim_def two_claims_def second_record_def Let_def)
qed

theorem only_the_latest_claim_writes_witness:
  "fst (save mem_kv first_record 1 two_claims) = Inl LostSession \<and> kv_view mem_kv (snd (save mem_kv first_record 1 two_claims)) = kv_view mem_kv two_claims \<and>
   fst (release mem_kv 9 first_record 1 two_claims) = Inl LostSession \<and>
   kv_view mem_kv (snd (snd (release mem_kv 9 first_record 1 two_claims))) = kv_view mem_kv two_claims"
proof (rule only_the_latest_claim_writes [OF mem_kv_laws, where c = 1])
  show "store_start ((Map.empty, 0) :: mem_bucket, Map.empty, None)" by (simp add: store_start_def)
  have "store_step mem_kv ''c'' ((Map.empty, 0), Map.empty, None) (one_claim, Map.empty(1 \<mapsto> 1), Some 1)"
    by (rule store_step.store_claim [OF sample_claims(1)]) simp
  moreover have "store_step mem_kv ''c'' (one_claim, Map.empty(1 \<mapsto> 1), Some 1) (two_claims, Map.empty(1 \<mapsto> 1, 2 \<mapsto> 2), Some 2)"
    by (rule store_step.store_claim [OF sample_claims(2)]) simp
  ultimately show "(store_step mem_kv ''c'')\<^sup>*\<^sup>* ((Map.empty, 0), Map.empty, None) (two_claims, Map.empty(1 \<mapsto> 1, 2 \<mapsto> 2), Some 2)"
    by (meson converse_rtranclp_into_rtranclp rtranclp.rtrancl_refl)
qed (simp_all add: first_record_def fresh_record_def)

section \<open>Handing a session over\<close>

text \<open>A bucket that answers: a read of a value returns it, and a write at the current revision goes through.\<close>

definition answers :: "'k kv_ops \<Rightarrow> bool" where
  "answers K \<longleftrightarrow> (\<forall>k key e. kv_view K k key = Some e \<longrightarrow> fst (kv_Get K k key) = Inr e) \<and>
    (\<forall>k key v rv. at_rev K k key rv \<longrightarrow> kv_last K k \<noteq> - 1 \<longrightarrow> (\<exists>r. fst (kv_Update K k key v rv) = Inr r))"

text \<open>What a claim hands the connection of the record \<open>rec\<close> released at time \<open>at\<close>.\<close>

definition handed_over :: "sessionRecord \<Rightarrow> time \<Rightarrow> sessionRecord \<Rightarrow> bool" where
  "handed_over rec at rec2 \<longleftrightarrow>
    sr_Subscriptions rec2 = sr_Subscriptions rec \<and> sr_inflightWas rec2 = sr_Inflight rec \<and> sr_receivedQoS2Was rec2 = sr_ReceivedQoS2 rec \<and>
    sr_withdrawnWas rec2 = sr_Withdrawn rec \<and> sr_spillWas rec2 = sr_Spill rec \<and> sr_awayWas rec2 = at \<and>
    sr_awayFromSeqWas rec2 = sr_AwayFromSeq rec \<and> sr_awayLateSeqWas rec2 = sr_AwayLateSeq rec \<and>
    sr_deliveredSinceWas rec2 = sr_DeliveredSince rec \<and> sr_deliveredWas rec2 = sr_Delivered rec \<and>
    sr_deliveredSpillWas rec2 = sr_DeliveredSpill rec \<and> sr_replayCursorWas rec2 = sr_ReplayCursor rec \<and> sr_replayHolesWas rec2 = sr_ReplayHoles rec"

lemma claimed_released:
  assumes "\<not> sr_Attached r"
  shows "handed_over r (sr_AwayAt r) (claimed_record S now identity username r)"
  using assms by (simp add: handed_over_def claimed_record_def Let_def take_lists_def keep_was_def taken_position_def legacy_def)

lemma release_claim:
  assumes "kv_laws K" "answers K" "release K now rec rv k = (Inr rv', rec', k')" "sr_ExpirySeconds rec \<noteq> 0"
    "sr_Version rec = sessionRecordVersion" "kv_last K k' \<noteq> - 1"
    "sr_ExpirySeconds rec = neverExpires \<or> now' < now + int (unat (sr_ExpirySeconds rec)) * Second"
  shows "\<exists>rec2 rv2 k2. claim K S now' (sr_ClientID rec) identity username False k' = (Inr (rec2, rv2, True), [], k2) \<and> handed_over rec now rec2"
proof -
  let ?key = "sessionKey (sr_ClientID rec)"
  let ?r = "rec\<lparr>sr_Attached := False, sr_ExpiresAt := expiryDeadline now (sr_ExpirySeconds rec), sr_AwayAt := now\<rparr>"
  let ?e = "exported ?r"
  have "kv_Update K k ?key (encodeRecord ?r) rv = (Inr rv', k')"
    using assms(3,4) by (auto simp: release_def Let_def split: prod.splits sum.splits)
  then have v: "kv_view K k' ?key = Some (Encoded ?e, rv')"
    using kv_Update_law(2) [OF assms(1)] by (fastforce simp: wrote_def encodeRecord_def)
  obtain k1 where g: "kv_Get K k' ?key = (Inr (Encoded ?e, rv'), k1)"
    using assms(2) v unfolding answers_def by (metis prod.collapse)
  then have s: "same K k' k1" by (rule kv_Get_law(1) [OF assms(1)])
  let ?c = "claimed_record S now' identity username ?e"
  have "at_rev K k1 ?key rv'" "kv_last K k1 \<noteq> - 1" using v s assms(6) by (auto simp: at_rev_def same_def)
  then obtain r2 k2 where u: "kv_Update K k1 ?key (encodeRecord ?c) rv' = (Inr r2, k2)"
    using assms(2) unfolding answers_def by (metis prod.collapse)
  have d: "decodeRecord (Encoded ?e) = Some ?e" using assms(5) by (simp add: decodeRecord_def exported_def)
  have m: "resumable now' ?e" using assms(7) by (auto simp: resumable_def exported_def expiryDeadline_def IsZero_def)
  have "claim K S now' (sr_ClientID rec) identity username False k' = (Inr (?c, r2, True), [], k2)"
    unfolding claim_first claim_loop.simps by (simp add: g d m u Let_def)
  moreover have "handed_over rec now ?c"
    using claimed_released [of ?e S now' identity username] by (simp add: handed_over_def exported_def)
  ultimately show ?thesis by blast
qed

text \<open>C35: A session released within its Session Expiry Interval is resumed by the next broker that claims it (Session
  Present is 1), and that broker is handed exactly what the record said: the subscriptions, the unacknowledged messages,
  the received QoS 2 identifiers, the withdrawn identifiers and the position of the replay. The bucket has to answer.\<close>

theorem released_session_is_handed_over:
  assumes "kv_laws K" "answers K" "release K now rec rv k = (Inr rv', rec', k')" "sr_ExpirySeconds rec \<noteq> 0"
    "sr_Version rec = sessionRecordVersion" "kv_last K k' \<noteq> - 1"
    "sr_ExpirySeconds rec = neverExpires \<or> now' < now + int (unat (sr_ExpirySeconds rec)) * Second"
  shows "\<exists>rec2 rv2 k2. claim K S now' (sr_ClientID rec) identity username False k' = (Inr (rec2, rv2, True), [], k2) \<and> handed_over rec now rec2"
  by (rule release_claim [OF assms])

lemma mem_answers: "answers mem_kv"
proof -
  have "\<exists>r. fst (kv_Update mem_kv b key v rv) = Inr r" if "at_rev mem_kv b key rv" "kv_last mem_kv b \<noteq> - 1" for b key v rv
    using that by (auto simp: at_rev_def mem_kv_def mem_write_def)
  moreover have "fst (kv_Get mem_kv b key) = Inr e" if "kv_view mem_kv b key = Some e" for b key e
    using that by (simp add: mem_kv_def)
  ultimately show ?thesis by (simp add: answers_def)
qed

definition kept_record :: sessionRecord where
  "kept_record = first_record\<lparr>sr_ExpirySeconds := 60, sr_ReceivedQoS2 := [7]\<rparr>"

definition released_bucket :: mem_bucket where
  "released_bucket = snd (snd (release mem_kv 5 kept_record 1 one_claim))"

theorem released_session_is_handed_over_witness:
  "\<exists>rec2 rv2 k2. claim mem_kv (sample_store ''b2'') (6 * Second) ''c'' [] [] False released_bucket = (Inr (rec2, rv2, True), [], k2) \<and>
     handed_over kept_record 5 rec2"
proof -
  have "release mem_kv 5 kept_record 1 one_claim = (Inr 2, fst (snd (release mem_kv 5 kept_record 1 one_claim)), released_bucket)"
    "kv_last mem_kv released_bucket \<noteq> - 1"
    by (simp_all add: released_bucket_def release_def kept_record_def one_claim_def first_record_def fresh_record_def mem_kv_def mem_write_def Let_def)
  moreover have "sr_ExpirySeconds kept_record \<noteq> 0" "sr_Version kept_record = sessionRecordVersion" "sr_ClientID kept_record = ''c''"
    "sr_ExpirySeconds kept_record = neverExpires \<or> 6 * Second < 5 + int (unat (sr_ExpirySeconds kept_record)) * Second"
    by (simp_all add: kept_record_def first_record_def fresh_record_def Second_def)
  ultimately show ?thesis
    using released_session_is_handed_over [OF mem_kv_laws mem_answers, of 5 kept_record 1 one_claim 2 _ released_bucket "6 * Second" "sample_store ''b2''" "[]" "[]"]
    by simp
qed

end
