(* ===== verification/Retain.thy ===== *)
theory Retain
  imports Subscribe
begin

text \<open>
  Retained messages: \<^verbatim>\<open>src/retain.go\<close>, with \<^verbatim>\<open>retainedFor\<close> of \<^verbatim>\<open>src/subscribe.go\<close>. The store is a view (\<^verbatim>\<open>byTopic\<close> and
  \<^verbatim>\<open>tombstones\<close>) of a JetStream stream with one message for each subject. The stream is the parameter \<open>stream_ops\<close>: its
  operations on a world of type \<open>'w\<close>, with their documented behaviour in \<open>stream_laws\<close>. A \<^verbatim>\<open>*retained\<close> is compared by
  pointer in the code, so an entry carries the number of its allocation.

  The part of an operation under \<^verbatim>\<open>s.mu\<close> is a definition of its own, since other goroutines (the consumer, the stores of other
  clients) run between the calls to the stream and the lock.
\<close>

section \<open>The stream\<close>

record 'h stored_msg =
  sm_seq :: u64
  sm_time :: time
  sm_msg :: "'h nats_msg"

text \<open>\<open>ErrSeqNotFound\<close> is the API error 10043, \<open>ErrJS\<close> any other.\<close>

datatype js_error = ErrMsgNotFound | ErrSeqNotFound | ErrJS

record ('h, 'w) stream_ops =
  js_PublishMsg :: "'h nats_msg \<Rightarrow> 'w \<Rightarrow> (js_error + u64) \<times> 'w"
  js_GetMsg :: "u64 \<Rightarrow> 'w \<Rightarrow> (js_error + 'h stored_msg) \<times> 'w"
  js_GetLastMsgForSubject :: "string \<Rightarrow> 'w \<Rightarrow> (js_error + 'h stored_msg) \<times> 'w"
  js_DeleteMsg :: "u64 \<Rightarrow> 'w \<Rightarrow> js_error option \<times> 'w"
  js_Msgs :: "'w \<Rightarrow> (js_error + u64) \<times> 'w"
  js_view :: "'w \<Rightarrow> string \<rightharpoonup> 'h stored_msg"
  js_last :: "'w \<Rightarrow> u64"

text \<open>
  What the stream promises. \<open>js_view\<close> is what it holds: for a subject its only message (\<^verbatim>\<open>MaxMsgsPerSubject\<close> is 1). \<open>js_last\<close> is
  the last sequence it gave. A stored message replaces the one of its subject and takes a new, higher sequence. A call that
  fails may have been carried out all the same. Reads change nothing.
\<close>

definition holds :: "('h, 'w, 'a) stream_ops_scheme \<Rightarrow> 'w \<Rightarrow> u64 \<Rightarrow> bool" where
  "holds J w q \<longleftrightarrow> (\<exists>sj m. js_view J w sj = Some m \<and> sm_seq m = q)"

definition kept :: "('h, 'w, 'a) stream_ops_scheme \<Rightarrow> 'w \<Rightarrow> 'w \<Rightarrow> bool" where
  "kept J w w' \<longleftrightarrow> js_view J w' = js_view J w \<and> js_last J w' = js_last J w"

definition stored_at :: "('h, 'w, 'a) stream_ops_scheme \<Rightarrow> 'h nats_msg \<Rightarrow> 'w \<Rightarrow> 'w \<Rightarrow> u64 \<Rightarrow> bool" where
  "stored_at J msg w w' q \<longleftrightarrow> js_last J w < q \<and> js_last J w' = q \<and>
    (\<exists>t. js_view J w' = (js_view J w)(m_Subject msg \<mapsto> \<lparr>sm_seq = q, sm_time = t, sm_msg = msg\<rparr>))"

definition removed :: "('h, 'w, 'a) stream_ops_scheme \<Rightarrow> u64 \<Rightarrow> 'w \<Rightarrow> 'w \<Rightarrow> bool" where
  "removed J q w w' \<longleftrightarrow> js_last J w' = js_last J w \<and>
    js_view J w' = (\<lambda>sj. case js_view J w sj of None \<Rightarrow> None | Some m \<Rightarrow> if sm_seq m = q then None else Some m)"

definition publish_law :: "('h, 'w, 'a) stream_ops_scheme \<Rightarrow> 'h nats_msg \<Rightarrow> 'w \<Rightarrow> bool" where
  "publish_law J msg w \<longleftrightarrow>
    (case js_PublishMsg J msg w of
       (Inr q, w') \<Rightarrow> stored_at J msg w w' q
     | (Inl e, w') \<Rightarrow> kept J w w' \<or> (\<exists>q. stored_at J msg w w' q))"

definition getmsg_law :: "('h, 'w, 'a) stream_ops_scheme \<Rightarrow> u64 \<Rightarrow> 'w \<Rightarrow> bool" where
  "getmsg_law J q w \<longleftrightarrow>
    (case js_GetMsg J q w of
       (Inr m, w') \<Rightarrow> kept J w w' \<and> sm_seq m = q \<and> js_view J w (m_Subject (sm_msg m)) = Some m
     | (Inl e, w') \<Rightarrow> kept J w w' \<and> (e = ErrMsgNotFound \<longrightarrow> \<not> holds J w q))"

definition getlast_law :: "('h, 'w, 'a) stream_ops_scheme \<Rightarrow> string \<Rightarrow> 'w \<Rightarrow> bool" where
  "getlast_law J sj w \<longleftrightarrow>
    (case js_GetLastMsgForSubject J sj w of
       (Inr m, w') \<Rightarrow> kept J w w' \<and> js_view J w sj = Some m
     | (Inl e, w') \<Rightarrow> kept J w w' \<and> (e = ErrMsgNotFound \<longrightarrow> js_view J w sj = None))"

definition deletemsg_law :: "('h, 'w, 'a) stream_ops_scheme \<Rightarrow> u64 \<Rightarrow> 'w \<Rightarrow> bool" where
  "deletemsg_law J q w \<longleftrightarrow>
    (case js_DeleteMsg J q w of
       (None, w') \<Rightarrow> removed J q w w'
     | (Some e, w') \<Rightarrow> kept J w w' \<and> (e \<noteq> ErrJS \<longrightarrow> \<not> holds J w q) \<or> removed J q w w')"

definition msgs_law :: "('h, 'w, 'a) stream_ops_scheme \<Rightarrow> 'w \<Rightarrow> bool" where
  "msgs_law J w \<longleftrightarrow> kept J w (snd (js_Msgs J w))"

text \<open>Sequences tell the messages apart and are not above the last one; kept by every call (\<open>view_ok_publish\<close>, \<open>view_ok_delete\<close>).\<close>

definition view_ok :: "('h, 'w, 'a) stream_ops_scheme \<Rightarrow> 'w \<Rightarrow> bool" where
  "view_ok J w \<longleftrightarrow> (\<forall>sj m. js_view J w sj = Some m \<longrightarrow> m_Subject (sm_msg m) = sj \<and> 0 < sm_seq m \<and> sm_seq m \<le> js_last J w) \<and>
    (\<forall>sj sj' m m'. js_view J w sj = Some m \<and> js_view J w sj' = Some m' \<and> sm_seq m = sm_seq m' \<longrightarrow> sj = sj')"

definition stream_laws :: "('h, 'w, 'a) stream_ops_scheme \<Rightarrow> bool" where
  "stream_laws J \<longleftrightarrow> (\<forall>msg w. publish_law J msg w) \<and> (\<forall>q w. getmsg_law J q w) \<and> (\<forall>sj w. getlast_law J sj w) \<and>
    (\<forall>q w. deletemsg_law J q w) \<and> (\<forall>w. msgs_law J w)"

section \<open>State\<close>

record retained =
  rt_ref :: nat
  rt_topicName :: string
  rt_payload :: bytes
  rt_qos :: QoS
  rt_props :: "properties option"
  rt_stored :: time
  rt_seq :: u64
  rt_id :: string

record tombstone =
  tb_seq :: u64
  tb_stored :: time

record retainedStore =
  rs_prefix :: string
  rs_codec :: subjectCodec
  rs_byTopic :: "(string, retained) gomap"
  rs_tombstones :: "(string, tombstone) gomap"
  rs_tombstoneTTL :: duration
  rs_verifiedAt :: u64
  rs_verifyEvery :: duration
  rs_lastFull :: time
  rs_alloc :: nat

section \<open>Messages and subjects\<close>

definition retained_expired :: "time \<Rightarrow> retained \<Rightarrow> bool" where
  "retained_expired now r =
    (case rt_props r of
       None \<Rightarrow> False
     | Some props \<Rightarrow>
         (case MessageExpiryInterval props of
            None \<Rightarrow> False
          | Some i \<Rightarrow> snd (remainingExpiry i (rt_stored r) now)))"

definition retained_properties :: "retained \<Rightarrow> properties" where
  "retained_properties r =
    (case rt_props r of None \<Rightarrow> empty_props | Some cp \<Rightarrow> cp\<lparr>SubscriptionIdentifiers := []\<rparr>)"

definition retainedMarker :: string where
  "retainedMarker = ''$retained.''"

definition retainedSubject :: "string \<Rightarrow> string \<Rightarrow> string" where
  "retainedSubject pre subject = Prefix pre (retainedMarker @ subject)"

definition trimRetainedMarker :: "string \<Rightarrow> string option" where
  "trimRetainedMarker subject =
    (if length subject \<le> length retainedMarker \<or> take (length retainedMarker) subject \<noteq> retainedMarker then None
     else Some (drop (length retainedMarker) subject))"

definition newRetained :: "'h header_ops \<Rightarrow> time \<Rightarrow> nat \<Rightarrow> string \<Rightarrow> bytes \<Rightarrow> 'h option \<Rightarrow> retained" where
  "newRetained H now a topic data hdr =
    (let (qos, _, _, props) = fromNATS H \<lparr>m_Subject = [], m_Header = hdr, m_Data = data\<rparr> in
     \<lparr>rt_ref = a, rt_topicName = topic, rt_payload = data, rt_qos = qos, rt_props = Some props, rt_stored = now, rt_seq = 0,
      rt_id = messageID H \<lparr>m_Subject = [], m_Header = hdr, m_Data = []\<rparr>\<rparr>)"

section \<open>The view\<close>

text \<open>\<open>md\<close> is the metadata of the message, its stream sequence and time, if they can be read.\<close>

definition apply_tombstone :: "time \<Rightarrow> string \<Rightarrow> (u64 \<times> time) option \<Rightarrow> retainedStore \<Rightarrow> retainedStore" where
  "apply_tombstone now topic md rs =
    (let rs = rs\<lparr>rs_byTopic := AList.delete topic (rs_byTopic rs)\<rparr>;
         t = (case md of None \<Rightarrow> \<lparr>tb_seq = 0, tb_stored = now\<rparr> | Some (q, at) \<Rightarrow> \<lparr>tb_seq = q, tb_stored = at\<rparr>)
     in if tb_seq t \<noteq> 0 then rs\<lparr>rs_tombstones := AList.update topic t (rs_tombstones rs)\<rparr> else rs)"

definition apply_message :: "'h header_ops \<Rightarrow> time \<Rightarrow> string \<Rightarrow> 'h nats_msg \<Rightarrow> (u64 \<times> time) option \<Rightarrow> retainedStore \<Rightarrow> retainedStore" where
  "apply_message H now topic msg md rs =
    (let rs = rs\<lparr>rs_tombstones := AList.delete topic (rs_tombstones rs)\<rparr>;
         r = newRetained H now (rs_alloc rs) topic (m_Data msg) (m_Header msg);
         r = (case md of None \<Rightarrow> r | Some (q, at) \<Rightarrow> r\<lparr>rt_stored := at, rt_seq := q\<rparr>)
     in rs\<lparr>rs_byTopic := AList.update topic r (rs_byTopic rs), rs_alloc := Suc (rs_alloc rs)\<rparr>)"

definition apply_msg :: "'h header_ops \<Rightarrow> time \<Rightarrow> 'h nats_msg \<Rightarrow> (u64 \<times> time) option \<Rightarrow> retainedStore \<Rightarrow> retainedStore" where
  "apply_msg H now msg md rs =
    (case TrimPrefix (rs_prefix rs) (m_Subject msg) of
       None \<Rightarrow> rs
     | Some subject \<Rightarrow>
         (case trimRetainedMarker subject of
            None \<Rightarrow> rs
          | Some subject \<Rightarrow>
              let topic = codec_subjectToName (rs_codec rs) subject in
              if m_Data msg = [] then apply_tombstone now topic md rs else apply_message H now topic msg md rs))"

text \<open>\<open>mid\<close> is the random id \<^verbatim>\<open>toNATS\<close> draws.\<close>

definition store_msg :: "'h header_ops \<Rightarrow> string \<Rightarrow> retainedStore \<Rightarrow> string \<Rightarrow> string \<Rightarrow> string \<Rightarrow> publish \<Rightarrow> 'h nats_msg" where
  "store_msg H mid rs subject originClientID ident p =
    (let msg = toNATS H mid (retainedSubject (rs_prefix rs) subject) originClientID p;
         msg = (if ident \<noteq> [] then msg\<lparr>m_Header := map_option (h_Set H hdrMsgID ident) (m_Header msg)\<rparr> else msg)
     in if pb_Payload p = [] then msg\<lparr>m_Data := []\<rparr> else msg)"

definition store_finish :: "'h header_ops \<Rightarrow> time \<Rightarrow> string \<Rightarrow> publish \<Rightarrow> 'h nats_msg \<Rightarrow> u64 \<Rightarrow> retainedStore \<Rightarrow> retainedStore" where
  "store_finish H now subject p msg q rs =
    (let topic = codec_subjectToName (rs_codec rs) subject in
     if pb_Payload p = [] then
       rs\<lparr>rs_byTopic := AList.delete topic (rs_byTopic rs),
          rs_tombstones := AList.update topic \<lparr>tb_seq = q, tb_stored = now\<rparr> (rs_tombstones rs)\<rparr>
     else
       let rs = rs\<lparr>rs_tombstones := AList.delete topic (rs_tombstones rs)\<rparr>;
           (_, _, _, props) = fromNATS H msg;
           r = \<lparr>rt_ref = rs_alloc rs, rt_topicName = topic, rt_payload = pb_Payload p, rt_qos = pb_QoS p, rt_props = Some props,
                rt_stored = now, rt_seq = q, rt_id = messageID H msg\<rparr>
       in rs\<lparr>rs_byTopic := AList.update topic r (rs_byTopic rs), rs_alloc := Suc (rs_alloc rs)\<rparr>)"

definition retain_store :: "('h, 'w, 'a) stream_ops_scheme \<Rightarrow> 'h header_ops \<Rightarrow> string \<Rightarrow> time \<Rightarrow> string \<Rightarrow> string \<Rightarrow> string \<Rightarrow> publish \<Rightarrow>
    retainedStore \<Rightarrow> 'w \<Rightarrow> js_error option \<times> retainedStore \<times> 'w" where
  "retain_store J H mid now subject originClientID ident p rs w =
    (let msg = store_msg H mid rs subject originClientID ident p in
     case js_PublishMsg J msg w of
       (Inl e, w) \<Rightarrow> (Some e, rs, w)
     | (Inr q, w) \<Rightarrow> (None, store_finish H now subject p msg q rs, w))"

section \<open>Looking up, expiry and verification\<close>

definition is_entry :: "retained \<Rightarrow> retainedStore \<Rightarrow> bool" where
  "is_entry r rs = (case get (rs_byTopic rs) (rt_topicName r) of None \<Rightarrow> False | Some r' \<Rightarrow> rt_ref r' = rt_ref r)"

definition drop_entry :: "retained \<Rightarrow> retainedStore \<Rightarrow> retainedStore" where
  "drop_entry r rs = (if is_entry r rs then rs\<lparr>rs_byTopic := AList.delete (rt_topicName r) (rs_byTopic rs)\<rparr> else rs)"

definition msgGone :: "js_error \<Rightarrow> bool" where
  "msgGone e \<longleftrightarrow> e = ErrMsgNotFound \<or> e = ErrSeqNotFound"

text \<open>The second loop of \<^verbatim>\<open>discard\<close>.\<close>

fun delete_all :: "('h, 'w, 'a) stream_ops_scheme \<Rightarrow> retained list \<Rightarrow> 'w \<Rightarrow> 'w" where
  "delete_all J [] w = w"
| "delete_all J (r # es) w = delete_all J es (if rt_seq r = 0 then w else snd (js_DeleteMsg J (rt_seq r) w))"

definition discard_retained :: "('h, 'w, 'a) stream_ops_scheme \<Rightarrow> retained list \<Rightarrow> retainedStore \<Rightarrow> 'w \<Rightarrow> retainedStore \<times> 'w" where
  "discard_retained J es rs w = (fold drop_entry es rs, delete_all J es w)"

definition retain_match :: "('h, 'w, 'a) stream_ops_scheme \<Rightarrow> time \<Rightarrow> string \<Rightarrow> retainedStore \<Rightarrow> 'w \<Rightarrow> retained list \<times> retainedStore \<times> 'w" where
  "retain_match J now fltr rs w =
    (let rs' = map snd (filter (\<lambda>(topic, r). Match fltr topic) (rs_byTopic rs));
         es = filter (retained_expired now) rs';
         out = filter (\<lambda>r. \<not> retained_expired now r) rs'
     in (out, if es \<noteq> [] then discard_retained J es rs w else (rs, w)))"

definition forget_tombstone :: "string \<Rightarrow> tombstone \<Rightarrow> retainedStore \<Rightarrow> retainedStore" where
  "forget_tombstone topic t rs =
    (if get (rs_tombstones rs) topic = Some t then rs\<lparr>rs_tombstones := AList.delete topic (rs_tombstones rs)\<rparr> else rs)"

fun purge_loop :: "('h, 'w, 'a) stream_ops_scheme \<Rightarrow> (string \<times> tombstone) list \<Rightarrow> retainedStore \<Rightarrow> 'w \<Rightarrow> retainedStore \<times> 'w" where
  "purge_loop J [] rs w = (rs, w)"
| "purge_loop J ((topic, t) # ds) rs w =
    (case js_DeleteMsg J (tb_seq t) w of
       (e, w) \<Rightarrow>
         if (case e of None \<Rightarrow> False | Some e \<Rightarrow> \<not> msgGone e) then purge_loop J ds rs w
         else purge_loop J ds (forget_tombstone topic t rs) w)"

definition purgeTombstones :: "('h, 'w, 'a) stream_ops_scheme \<Rightarrow> time \<Rightarrow> retainedStore \<Rightarrow> 'w \<Rightarrow> retainedStore \<times> 'w" where
  "purgeTombstones J now rs w =
    (if rs_tombstoneTTL rs \<le> 0 then (rs, w)
     else purge_loop J (filter (\<lambda>(topic, t). rs_tombstoneTTL rs \<le> time_Sub now (tb_stored t)) (rs_tombstones rs)) rs w)"

text \<open>One round of the loop of \<^verbatim>\<open>reconcile\<close> over the entries: what the two reads answer, and what is then done under the lock.\<close>

datatype 'h lookup_verdict = KeepEntry | PutEntry "'h stored_msg" | DropEntry

definition check_entry :: "('h, 'w, 'a) stream_ops_scheme \<Rightarrow> retained \<Rightarrow> retainedStore \<Rightarrow> 'w \<Rightarrow> 'h lookup_verdict \<times> 'w" where
  "check_entry J r rs w =
    (case js_GetMsg J (rt_seq r) w of
       (Inr _, w) \<Rightarrow> (KeepEntry, w)
     | (Inl e, w) \<Rightarrow>
         if e \<noteq> ErrMsgNotFound then (KeepEntry, w)
         else case codec_nameToSubject (rs_codec rs) (rt_topicName r) of
           Inl _ \<Rightarrow> (KeepEntry, w)
         | Inr subject \<Rightarrow>
             (case js_GetLastMsgForSubject J (retainedSubject (rs_prefix rs) subject) w of
                (Inr m, w) \<Rightarrow> (if m_Data (sm_msg m) \<noteq> [] then PutEntry m else DropEntry, w)
              | (Inl e, w) \<Rightarrow> (if e \<noteq> ErrMsgNotFound then KeepEntry else DropEntry, w)))"

definition put_entry :: "'h header_ops \<Rightarrow> time \<Rightarrow> retained \<Rightarrow> 'h stored_msg \<Rightarrow> retainedStore \<Rightarrow> retainedStore" where
  "put_entry H now r m rs =
    (if is_entry r rs then
       rs\<lparr>rs_byTopic := AList.update (rt_topicName r)
           ((newRetained H now (rs_alloc rs) (rt_topicName r) (m_Data (sm_msg m)) (m_Header (sm_msg m)))
             \<lparr>rt_stored := sm_time m, rt_seq := sm_seq m\<rparr>) (rs_byTopic rs),
          rs_alloc := Suc (rs_alloc rs)\<rparr>
     else rs)"

definition settle_entry :: "'h header_ops \<Rightarrow> time \<Rightarrow> retained \<Rightarrow> 'h lookup_verdict \<Rightarrow> retainedStore \<Rightarrow> retainedStore" where
  "settle_entry H now r v rs =
    (case v of KeepEntry \<Rightarrow> rs | PutEntry m \<Rightarrow> put_entry H now r m rs | DropEntry \<Rightarrow> drop_entry r rs)"

fun reconcile_entries :: "('h, 'w, 'a) stream_ops_scheme \<Rightarrow> 'h header_ops \<Rightarrow> time \<Rightarrow> retained list \<Rightarrow> retainedStore \<Rightarrow> 'w \<Rightarrow> retainedStore \<times> 'w" where
  "reconcile_entries J H now [] rs w = (rs, w)"
| "reconcile_entries J H now (r # es) rs w =
    (let (v, w) = check_entry J r rs w in reconcile_entries J H now es (settle_entry H now r v rs) w)"

fun reconcile_tombstones :: "('h, 'w, 'a) stream_ops_scheme \<Rightarrow> (string \<times> tombstone) list \<Rightarrow> retainedStore \<Rightarrow> 'w \<Rightarrow> retainedStore \<times> 'w" where
  "reconcile_tombstones J [] rs w = (rs, w)"
| "reconcile_tombstones J ((topic, t) # ts) rs w =
    (case js_GetMsg J (tb_seq t) w of
       (res, w) \<Rightarrow> reconcile_tombstones J ts (if res = Inl ErrMsgNotFound then forget_tombstone topic t rs else rs) w)"

definition reconcile :: "('h, 'w, 'a) stream_ops_scheme \<Rightarrow> 'h header_ops \<Rightarrow> time \<Rightarrow> bool \<Rightarrow> retainedStore \<Rightarrow> 'w \<Rightarrow> bool \<times> retainedStore \<times> 'w" where
  "reconcile J H now full rs w =
    (let lcl = length (rs_byTopic rs) + length (rs_tombstones rs) in
     if lcl = 0 then (True, rs, w)
     else case js_Msgs J w of
       (Inl _, w) \<Rightarrow> (False, rs, w)
     | (Inr msgs, w) \<Rightarrow>
         if \<not> full \<and> of_nat lcl \<le> msgs then (True, rs, w)
         else
           let (rs, w) = reconcile_entries J H now (filter (\<lambda>r. rt_seq r \<noteq> 0) (map snd (rs_byTopic rs))) rs w;
               (rs, w) = reconcile_tombstones J (rs_tombstones rs) rs w
           in (True, rs, w))"

definition retain_sweep :: "('h, 'w, 'a) stream_ops_scheme \<Rightarrow> 'h header_ops \<Rightarrow> time \<Rightarrow> u64 \<Rightarrow> retainedStore \<Rightarrow> 'w \<Rightarrow> retainedStore \<times> 'w" where
  "retain_sweep J H now reconnects rs w =
    (let es = filter (retained_expired now) (map snd (rs_byTopic rs));
         (rs, w) = (if es \<noteq> [] then discard_retained J es rs w else (rs, w));
         (rs, w) = purgeTombstones J now rs w;
         due = (0 < rs_verifyEvery rs \<and> rs_verifyEvery rs \<le> time_Sub now (rs_lastFull rs));
         (ok, rs, w) = reconcile J H now (reconnects \<noteq> rs_verifiedAt rs \<or> due) rs w
     in (if ok then (if due then rs\<lparr>rs_verifiedAt := reconnects, rs_lastFull := now\<rparr> else rs\<lparr>rs_verifiedAt := reconnects\<rparr>) else rs, w))"

definition verifyAfterReconnect :: "('h, 'w, 'a) stream_ops_scheme \<Rightarrow> 'h header_ops \<Rightarrow> time \<Rightarrow> u64 \<Rightarrow> retainedStore \<Rightarrow> 'w \<Rightarrow> retainedStore \<times> 'w" where
  "verifyAfterReconnect J H now reconnects rs w =
    (if reconnects \<noteq> rs_verifiedAt rs then
       (let (ok, rs, w) = reconcile J H now True rs w in (if ok then rs\<lparr>rs_verifiedAt := reconnects\<rparr> else rs, w))
     else (rs, w))"

section \<open>Retained messages of a new subscription\<close>

definition retained_delivery :: "sub_ref \<Rightarrow> session_sub \<Rightarrow> retained \<Rightarrow> delivery" where
  "retained_delivery a sub r =
    (let props = retained_properties r in
     \<lparr>d_sub = Some a, d_id = rt_id r, d_seq = 0, d_topic = rt_topicName r, d_payload = rt_payload r,
      d_qos = minQoS (rt_qos r) (ss_grantedQoS sub), d_retain = True,
      d_props = Some (if ss_id sub \<noteq> 0 then props\<lparr>SubscriptionIdentifiers := [ss_id sub]\<rparr> else props),
      d_arrived = rt_stored r, d_expiry = None, d_quotaHeld = False, d_ackSubject = [], d_held = False, d_recordSeq = 0\<rparr>)"

definition retainedFor :: "('h, 'w, 'a) stream_ops_scheme \<Rightarrow> time \<Rightarrow> sub_ref \<Rightarrow> session_sub \<Rightarrow> byte \<Rightarrow> bool \<Rightarrow> retainedStore option \<Rightarrow> 'w \<Rightarrow>
    delivery list \<times> retainedStore option \<times> 'w" where
  "retainedFor J now a sub handling replacedExisting store w =
    (case store of
       None \<Rightarrow> ([], None, w)
     | Some rs \<Rightarrow>
         if handling = RetainSendNever \<or> ss_share sub \<noteq> [] \<or> handling = RetainSendOnNew \<and> replacedExisting then ([], Some rs, w)
         else let (out, rs, w) = retain_match J now (ss_filter sub) rs w in (map (retained_delivery a sub) out, Some rs, w))"

section \<open>What a stored message says\<close>

lemma fromNATS_header: "fromNATS H \<lparr>m_Subject = a, m_Header = m_Header msg, m_Data = b\<rparr> = fromNATS H msg"
  "messageID H \<lparr>m_Subject = a, m_Header = m_Header msg, m_Data = b\<rparr> = messageID H msg"
  by (simp_all add: fromNATS_def messageID_def)

lemma fromNATS_msgid:
  assumes "header_laws H" "m_Header msg = Some h"
  shows "fromNATS H (msg\<lparr>m_Header := Some (h_Set H hdrMsgID ident h)\<rparr>) = fromNATS H msg"
  by (simp add: fromNATS_def assms(2) Get_Values [OF assms(1)] Values_Set [OF assms(1)] hdr_ne)

lemma store_msg_fromNATS:
  assumes "header_laws H"
  shows "fromNATS H (store_msg H mid rs subject og ident p) = fromNATS H (toNATS H mid (retainedSubject (rs_prefix rs) subject) og p)"
proof -
  obtain h where "m_Header (toNATS H mid (retainedSubject (rs_prefix rs) subject) og p) = Some h" by (rule toNATS_carries [OF assms])
  then show ?thesis
    using fromNATS_msgid [OF assms] fromNATS_header(1) by (auto simp: store_msg_def Let_def fromNATS_def)
qed

end
