(* ===== verification/Retain_View.thy ===== *)
theory Retain_View
  imports Retain
begin

text \<open>
  What a broker's view of the retained messages has to do with the stream, while the consumer, the stores of this broker's
  clients, other brokers, expiry and verification interleave: \<open>retain_step\<close> is one call to the stream or one section under the
  lock. Once the consumer has caught up, the view shows what the stream holds, unless a store of this broker changed the view
  after a later message of the same topic (\<open>late_store_hides\<close>).
\<close>

section \<open>A broker's view and the stream\<close>

text \<open>
  The state: the store, the world, the messages the consumer has received and not yet applied, the sequence it has reached,
  and what is between a call to the stream and the lock: a store that has its acknowledgement, an entry that has been looked up
  or found expired, a tombstone that is known to be gone. The last component says whether a store has changed the view although
  the view already showed a later message of the topic.
\<close>

datatype 'h retain_task = Finish string publish "'h nats_msg" u64 | Settle retained "'h lookup_verdict" | Forget string tombstone

type_synonym ('h, 'w) retain_state = "retainedStore \<times> 'w \<times> 'h stored_msg list \<times> u64 \<times> 'h retain_task set \<times> bool"

definition overtaken_view :: "u64 \<Rightarrow> string \<Rightarrow> retainedStore \<Rightarrow> bool" where
  "overtaken_view q topic rs \<longleftrightarrow>
    (\<exists>r. get (rs_byTopic rs) topic = Some r \<and> q < rt_seq r) \<or> (\<exists>t. get (rs_tombstones rs) topic = Some t \<and> q < tb_seq t)"

inductive retain_step :: "('h, 'w, 'a) stream_ops_scheme \<Rightarrow> 'h header_ops \<Rightarrow> ('h, 'w) retain_state \<Rightarrow> ('h, 'w) retain_state \<Rightarrow> bool" for J H where
  retain_acked: "codec_nameToSubject (rs_codec rs) topic = Inr subject \<Longrightarrow> pb_QoS p \<le> 2 \<Longrightarrow>
    js_PublishMsg J (store_msg H mid rs subject og ident p) w = (Inr q, w') \<Longrightarrow>
    retain_step J H (rs, w, inbox, rcv, tasks, late)
      (rs, w', inbox, rcv, insert (Finish subject p (store_msg H mid rs subject og ident p) q) tasks, late)"
| retain_other: "codec_nameToSubject (rs_codec rs) topic = Inr subject \<Longrightarrow> m_Subject msg = retainedSubject (rs_prefix rs) subject \<Longrightarrow>
    js_PublishMsg J msg w = (res, w') \<Longrightarrow>
    retain_step J H (rs, w, inbox, rcv, tasks, late) (rs, w', inbox, rcv, tasks, late)"
| retain_deleted: "js_DeleteMsg J q w = (e, w') \<Longrightarrow> retain_step J H (rs, w, inbox, rcv, tasks, late) (rs, w', inbox, rcv, tasks, late)"
| retain_finish: "Finish subject p msg q \<in> tasks \<Longrightarrow>
    retain_step J H (rs, w, inbox, rcv, tasks, late)
      (store_finish H now subject p msg q rs, w, inbox, rcv, tasks - {Finish subject p msg q},
       late \<or> overtaken_view q (codec_subjectToName (rs_codec rs) subject) rs)"
| retain_receive: "js_view J w sj = Some m \<Longrightarrow> rcv < sm_seq m \<Longrightarrow>
    \<forall>sj' m'. js_view J w sj' = Some m' \<longrightarrow> sm_seq m' \<le> rcv \<or> sm_seq m \<le> sm_seq m' \<Longrightarrow>
    retain_step J H (rs, w, inbox, rcv, tasks, late) (rs, w, inbox @ [m], sm_seq m, tasks, late)"
| retain_apply: "retain_step J H (rs, w, m # inbox, rcv, tasks, late)
    (apply_msg H now (sm_msg m) (Some (sm_seq m, sm_time m)) rs, w, inbox, rcv, tasks, late)"
| retain_expire: "get (rs_byTopic rs) topic = Some r \<Longrightarrow> retained_expired now r \<Longrightarrow>
    retain_step J H (rs, w, inbox, rcv, tasks, late) (rs, w, inbox, rcv, insert (Settle r DropEntry) tasks, late)"
| retain_check: "get (rs_byTopic rs) topic = Some r \<Longrightarrow> rt_seq r \<noteq> 0 \<Longrightarrow> check_entry J r rs w = (v, w') \<Longrightarrow>
    retain_step J H (rs, w, inbox, rcv, tasks, late) (rs, w', inbox, rcv, insert (Settle r v) tasks, late)"
| retain_settle: "Settle r v \<in> tasks \<Longrightarrow>
    retain_step J H (rs, w, inbox, rcv, tasks, late) (settle_entry H now r v rs, w, inbox, rcv, tasks - {Settle r v}, late)"
| retain_purge: "get (rs_tombstones rs) topic = Some t \<Longrightarrow> js_DeleteMsg J (tb_seq t) w = (e, w') \<Longrightarrow>
    (case e of None \<Rightarrow> True | Some e \<Rightarrow> msgGone e) \<Longrightarrow>
    retain_step J H (rs, w, inbox, rcv, tasks, late) (rs, w', inbox, rcv, insert (Forget topic t) tasks, late)"
| retain_missing: "get (rs_tombstones rs) topic = Some t \<Longrightarrow> js_GetMsg J (tb_seq t) w = (Inl ErrMsgNotFound, w') \<Longrightarrow>
    retain_step J H (rs, w, inbox, rcv, tasks, late) (rs, w', inbox, rcv, insert (Forget topic t) tasks, late)"
| retain_forget: "Forget topic t \<in> tasks \<Longrightarrow>
    retain_step J H (rs, w, inbox, rcv, tasks, late) (forget_tombstone topic t rs, w, inbox, rcv, tasks - {Forget topic t}, late)"

text \<open>\<open>place\<close> is the subject of a topic in the stream. A message with a Message Expiry Interval may be gone from the view, expired.\<close>

definition place :: "retainedStore \<Rightarrow> string \<Rightarrow> string \<Rightarrow> bool" where
  "place rs topic sj \<longleftrightarrow> (\<exists>subject. codec_nameToSubject (rs_codec rs) topic = Inr subject \<and> sj = retainedSubject (rs_prefix rs) subject)"

definition header_props :: "'h header_ops \<Rightarrow> 'h nats_msg \<Rightarrow> properties" where
  "header_props H msg = snd (snd (snd (fromNATS H msg)))"

definition entry_of :: "'h header_ops \<Rightarrow> string \<Rightarrow> 'h stored_msg \<Rightarrow> retained \<Rightarrow> bool" where
  "entry_of H topic m r \<longleftrightarrow> rt_topicName r = topic \<and> rt_seq r = sm_seq m \<and> rt_payload r = m_Data (sm_msg m) \<and>
    rt_qos r = fst (fromNATS H (sm_msg m)) \<and> rt_props r = Some (header_props H (sm_msg m)) \<and> rt_id r = messageID H (sm_msg m)"

definition agrees :: "'h header_ops \<Rightarrow> retainedStore \<Rightarrow> string \<Rightarrow> 'h stored_msg \<Rightarrow> bool" where
  "agrees H rs topic m \<longleftrightarrow>
    (if m_Data (sm_msg m) = [] then
       get (rs_byTopic rs) topic = None \<and> (\<exists>t. get (rs_tombstones rs) topic = Some t \<and> tb_seq t = sm_seq m)
     else MessageExpiryInterval (header_props H (sm_msg m)) \<noteq> None \<or> (\<exists>r. get (rs_byTopic rs) topic = Some r \<and> entry_of H topic m r))"

definition gone :: "('h, 'w, 'a) stream_ops_scheme \<Rightarrow> 'w \<Rightarrow> u64 \<Rightarrow> bool" where
  "gone J w q \<longleftrightarrow> q \<le> js_last J w \<and> \<not> holds J w q"

definition expires :: "retained \<Rightarrow> bool" where
  "expires r \<longleftrightarrow> (\<exists>props. rt_props r = Some props \<and> MessageExpiryInterval props \<noteq> None)"

definition view_in :: "('h, 'w, 'a) stream_ops_scheme \<Rightarrow> retainedStore \<Rightarrow> 'w \<Rightarrow> bool" where
  "view_in J rs w \<longleftrightarrow> view_ok J w \<and> (\<forall>sj m. js_view J w sj = Some m \<longrightarrow> (\<exists>topic. place rs topic sj))"

definition inbox_ok :: "('h, 'w, 'a) stream_ops_scheme \<Rightarrow> retainedStore \<Rightarrow> 'w \<Rightarrow> 'h stored_msg list \<Rightarrow> u64 \<Rightarrow> bool" where
  "inbox_ok J rs w inbox rcv \<longleftrightarrow> rcv \<le> js_last J w \<and> sorted_wrt (\<lambda>a b. sm_seq a < sm_seq b) inbox \<and>
    (\<forall>x \<in> set inbox. 0 < sm_seq x \<and> sm_seq x \<le> rcv \<and> (\<exists>topic. place rs topic (m_Subject (sm_msg x))) \<and>
      (\<forall>m. js_view J w (m_Subject (sm_msg x)) = Some m \<longrightarrow> sm_seq x \<le> sm_seq m \<and> (sm_seq x = sm_seq m \<longrightarrow> x = m)))"

definition entries_ok :: "('h, 'w, 'a) stream_ops_scheme \<Rightarrow> retainedStore \<Rightarrow> 'w \<Rightarrow> bool" where
  "entries_ok J rs w \<longleftrightarrow> wf_map (rs_byTopic rs) \<and>
    (\<forall>topic r. get (rs_byTopic rs) topic = Some r \<longrightarrow> rt_ref r < rs_alloc rs \<and> rt_topicName r = topic \<and> rt_seq r \<le> js_last J w) \<and>
    (\<forall>topic topic' r r'. get (rs_byTopic rs) topic = Some r \<and> get (rs_byTopic rs) topic' = Some r' \<and> rt_ref r = rt_ref r' \<longrightarrow> topic = topic') \<and>
    (\<forall>topic t. get (rs_tombstones rs) topic = Some t \<longrightarrow> tb_seq t \<le> js_last J w)"

fun task_ok :: "('h, 'w, 'a) stream_ops_scheme \<Rightarrow> 'h header_ops \<Rightarrow> retainedStore \<Rightarrow> 'w \<Rightarrow> 'h retain_task \<Rightarrow> bool" where
  "task_ok J H rs w (Finish subject p msg q) \<longleftrightarrow>
    (\<exists>topic. codec_nameToSubject (rs_codec rs) topic = Inr subject) \<and> m_Subject msg = retainedSubject (rs_prefix rs) subject \<and>
    m_Data msg = pb_Payload p \<and> fst (fromNATS H msg) = pb_QoS p \<and> q \<le> js_last J w \<and>
    (\<forall>m. js_view J w (m_Subject msg) = Some m \<longrightarrow> q \<le> sm_seq m \<and> (q = sm_seq m \<longrightarrow> sm_msg m = msg))"
| "task_ok J H rs w (Settle r v) \<longleftrightarrow> rt_ref r < rs_alloc rs \<and>
    (\<forall>topic r'. get (rs_byTopic rs) topic = Some r' \<and> rt_ref r' = rt_ref r \<longrightarrow> r' = r) \<and> (expires r \<or> v = KeepEntry \<or> gone J w (rt_seq r)) \<and>
    (\<forall>m. v = PutEntry m \<longrightarrow> sm_seq m \<le> js_last J w)"
| "task_ok J H rs w (Forget topic t) \<longleftrightarrow> gone J w (tb_seq t)"

definition applied_ok :: "('h, 'w, 'a) stream_ops_scheme \<Rightarrow> 'h header_ops \<Rightarrow> retainedStore \<Rightarrow> 'w \<Rightarrow> 'h stored_msg list \<Rightarrow> u64 \<Rightarrow> bool \<Rightarrow> bool" where
  "applied_ok J H rs w inbox rcv late \<longleftrightarrow>
    (\<forall>topic sj m. place rs topic sj \<and> js_view J w sj = Some m \<and> sm_seq m \<le> rcv \<longrightarrow>
      m \<in> set inbox \<or> (\<forall>x \<in> set inbox. sm_seq m < sm_seq x) \<and> (late \<or> agrees H rs topic m))"

definition retain_inv :: "('h, 'w, 'a) stream_ops_scheme \<Rightarrow> 'h header_ops \<Rightarrow> ('h, 'w) retain_state \<Rightarrow> bool" where
  "retain_inv J H = (\<lambda>(rs, w, inbox, rcv, tasks, late).
    view_in J rs w \<and> inbox_ok J rs w inbox rcv \<and> entries_ok J rs w \<and> (\<forall>k \<in> tasks. task_ok J H rs w k) \<and> applied_ok J H rs w inbox rcv late)"

definition retain_start :: "('h, 'w, 'a) stream_ops_scheme \<Rightarrow> ('h, 'w) retain_state \<Rightarrow> bool" where
  "retain_start J = (\<lambda>(rs, w, inbox, rcv, tasks, late). view_in J rs w \<and> rs_byTopic rs = [] \<and> rs_tombstones rs = [] \<and>
    inbox = [] \<and> rcv = 0 \<and> tasks = {} \<and> \<not> late)"

section \<open>The stream moves forward\<close>

definition forward :: "('h, 'w, 'a) stream_ops_scheme \<Rightarrow> retainedStore \<Rightarrow> 'w \<Rightarrow> 'w \<Rightarrow> bool" where
  "forward J rs w w' \<longleftrightarrow> js_last J w \<le> js_last J w' \<and> view_in J rs w' \<and>
    (\<forall>sj m. js_view J w' sj = Some m \<longrightarrow> js_view J w sj = Some m \<or> js_last J w < sm_seq m)"

lemma view_okD:
  assumes "view_ok J w" "js_view J w sj = Some m"
  shows "m_Subject (sm_msg m) = sj" "0 < sm_seq m" "sm_seq m \<le> js_last J w"
    "js_view J w sj' = Some m' \<Longrightarrow> sm_seq m = sm_seq m' \<Longrightarrow> sj = sj'"
  using assms unfolding view_ok_def by blast+

lemma view_ok_sub:
  assumes "view_ok J w" "\<And>sj m. js_view J w' sj = Some m \<Longrightarrow> js_view J w sj = Some m" "js_last J w' = js_last J w"
  shows "view_ok J w'"
  unfolding view_ok_def assms(3)
proof (intro conjI allI impI; (elim conjE)?)
  fix sj m
  assume "js_view J w' sj = Some m"
  then have v: "js_view J w sj = Some m" by (rule assms(2))
  show "m_Subject (sm_msg m) = sj" "0 < sm_seq m" "sm_seq m \<le> js_last J w" by (rule view_okD [OF assms(1) v])+
next
  fix sj sj' m m'
  assume "js_view J w' sj = Some m" "js_view J w' sj' = Some m'" "sm_seq m = sm_seq m'"
  then show "sj = sj'" by (intro view_okD(4) [OF assms(1)] assms(2))
qed

lemma sub_forward:
  assumes "view_in J rs w" "\<And>sj m. js_view J w' sj = Some m \<Longrightarrow> js_view J w sj = Some m" "js_last J w' = js_last J w"
  shows "forward J rs w w'"
  using assms view_ok_sub [of J w w'] by (auto simp: forward_def view_in_def)

lemma kept_forward: "kept J w w' \<Longrightarrow> view_in J rs w \<Longrightarrow> forward J rs w w'"
  by (rule sub_forward) (simp_all add: kept_def)

lemma removed_forward: "removed J q w w' \<Longrightarrow> view_in J rs w \<Longrightarrow> forward J rs w w'"
  by (rule sub_forward) (auto simp: removed_def split: option.splits if_splits)

lemma stored_forward:
  assumes "stored_at J msg w w' q" "view_in J rs w" "place rs topic (m_Subject msg)"
  shows "forward J rs w w'"
proof -
  obtain t where t: "js_last J w < q" "js_last J w' = q"
    "js_view J w' = (js_view J w)(m_Subject msg \<mapsto> \<lparr>sm_seq = q, sm_time = t, sm_msg = msg\<rparr>)"
    using assms(1) by (auto simp: stored_at_def)
  have ok: "m_Subject (sm_msg m) = sj" "0 < sm_seq m" "sm_seq m \<le> js_last J w" if "js_view J w sj = Some m" for sj m
    using assms(2) that by (auto simp: view_in_def view_ok_def)
  have inj: "sj = sj'" if "js_view J w sj = Some m" "js_view J w sj' = Some m'" "sm_seq m = sm_seq m'" for sj sj' m m'
    using assms(2) that unfolding view_in_def view_ok_def by blast
  have less: "sm_seq m < q" if "js_view J w sj = Some m" for sj m using ok(3) [OF that] t(1) by simp
  have pos: "0 < q" using t(1) word_zero_le [of "js_last J w"] by (rule order_le_less_trans [rotated])
  have "view_ok J w'"
    unfolding view_ok_def t(2,3)
  proof (intro conjI allI impI)
    show "m_Subject (sm_msg m) = sj" "0 < sm_seq m" "sm_seq m \<le> q"
      if "((js_view J w)(m_Subject msg \<mapsto> \<lparr>sm_seq = q, sm_time = t, sm_msg = msg\<rparr>)) sj = Some m" for sj m
      using that ok [of sj m] less [of sj m] pos by (auto split: if_splits)
  next
    fix sj sj' m m'
    assume "((js_view J w)(m_Subject msg \<mapsto> \<lparr>sm_seq = q, sm_time = t, sm_msg = msg\<rparr>)) sj = Some m \<and>
      ((js_view J w)(m_Subject msg \<mapsto> \<lparr>sm_seq = q, sm_time = t, sm_msg = msg\<rparr>)) sj' = Some m' \<and> sm_seq m = sm_seq m'"
    then show "sj = sj'" using inj [of sj m sj' m'] less [of sj m] less [of sj' m'] by (auto split: if_splits)
  qed
  then show ?thesis using t assms(2,3) by (auto simp: forward_def view_in_def)
qed

lemma publish_forward:
  assumes "stream_laws J" "view_in J rs w" "place rs topic (m_Subject msg)" "js_PublishMsg J msg w = (res, w')"
  shows "forward J rs w w'"
proof -
  have "publish_law J msg w" using assms(1) by (simp add: stream_laws_def)
  then have "kept J w w' \<or> (\<exists>q. stored_at J msg w w' q)" using assms(4) by (auto simp: publish_law_def split: sum.splits)
  then show ?thesis using assms(2,3) by (auto intro: kept_forward stored_forward)
qed

lemma kept_holds: "kept J w w' \<Longrightarrow> holds J w' q = holds J w q"
  by (simp add: kept_def holds_def)

lemma delete_forward:
  assumes "stream_laws J" "view_in J rs w" "js_DeleteMsg J q w = (e, w')"
  shows "forward J rs w w'" "(case e of None \<Rightarrow> True | Some e \<Rightarrow> msgGone e) \<Longrightarrow> \<not> holds J w' q"
proof -
  have l: "deletemsg_law J q w" using assms(1) by (simp add: stream_laws_def)
  then have "kept J w w' \<or> removed J q w w'" using assms(3) by (auto simp: deletemsg_law_def split: option.splits)
  then show "forward J rs w w'" using assms(2) by (auto intro: kept_forward removed_forward)
  have r: "\<not> holds J w' q" if "removed J q w w'"
    using that by (auto simp: removed_def holds_def split: option.splits if_splits)
  show "\<not> holds J w' q" if "case e of None \<Rightarrow> True | Some e \<Rightarrow> msgGone e"
    using l assms(3) that r by (auto simp: deletemsg_law_def msgGone_def kept_holds split: option.splits)
qed

lemma getmsg_kept:
  assumes "stream_laws J" "js_GetMsg J q w = (res, w')"
  shows "kept J w w'" "res = Inl ErrMsgNotFound \<Longrightarrow> \<not> holds J w q" "res = Inr m \<Longrightarrow> holds J w q"
proof -
  have l: "getmsg_law J q w" using assms(1) by (simp add: stream_laws_def)
  then show "kept J w w'" "res = Inl ErrMsgNotFound \<Longrightarrow> \<not> holds J w q" "res = Inr m \<Longrightarrow> holds J w q"
    using assms(2) by (auto simp: getmsg_law_def holds_def split: sum.splits)
qed

lemma getlast_kept:
  assumes "stream_laws J" "js_GetLastMsgForSubject J sj w = (res, w')"
  shows "kept J w w'" "res = Inl ErrMsgNotFound \<Longrightarrow> js_view J w sj = None" "res = Inr m \<Longrightarrow> js_view J w sj = Some m"
proof -
  have l: "getlast_law J sj w" using assms(1) by (simp add: stream_laws_def)
  then show "kept J w w'" "res = Inl ErrMsgNotFound \<Longrightarrow> js_view J w sj = None" "res = Inr m \<Longrightarrow> js_view J w sj = Some m"
    using assms(2) by (auto simp: getlast_law_def split: sum.splits)
qed

lemma kept_trans: "kept J w w' \<Longrightarrow> kept J w' w'' \<Longrightarrow> kept J w w''"
  by (simp add: kept_def)

lemma forward_gone: "forward J rs w w' \<Longrightarrow> gone J w q \<Longrightarrow> gone J w' q"
  by (fastforce simp: forward_def gone_def holds_def dest: order_trans)

lemma forward_inv:
  assumes "retain_inv J H (rs, w, inbox, rcv, tasks, late)" "forward J rs w w'"
  shows "retain_inv J H (rs, w', inbox, rcv, tasks, late)"
proof -
  note i = assms(1) [unfolded retain_inv_def prod.case]
  have f: "js_last J w \<le> js_last J w'" "view_in J rs w'" "\<And>sj m. js_view J w' sj = Some m \<Longrightarrow> js_view J w sj = Some m \<or> js_last J w < sm_seq m"
    using assms(2) by (auto simp: forward_def)
  have new: "q < sm_seq m" if "js_view J w' sj = Some m" "js_view J w sj \<noteq> Some m" "q \<le> js_last J w" for sj m q
    using f(3) [OF that(1)] that(2,3) by auto
  have newer: "sm_seq x \<le> sm_seq m \<and> (sm_seq x = sm_seq m \<longrightarrow> x = m)"
    if "x \<in> set inbox" "js_view J w' (m_Subject (sm_msg x)) = Some m" for x m
  proof (cases "js_view J w (m_Subject (sm_msg x)) = Some m")
    case True
    then show ?thesis using i that(1) unfolding inbox_ok_def by blast
  next
    case False
    have "sm_seq x \<le> js_last J w" using i that(1) unfolding inbox_ok_def by (blast intro: order_trans)
    then show ?thesis using new [OF that(2) False] by force
  qed
  have "inbox_ok J rs w' inbox rcv"
    using i f(1) newer unfolding inbox_ok_def by (blast intro: order_trans)
  moreover have "entries_ok J rs w'" using i f(1) unfolding entries_ok_def by (meson order_trans)
  moreover have "task_ok J H rs w' k" if "k \<in> tasks" for k
  proof -
    have k: "task_ok J H rs w k" using i that by blast
    show ?thesis
    proof (cases k)
      case (Finish subject p msg q)
      have "q \<le> sm_seq m \<and> (q = sm_seq m \<longrightarrow> sm_msg m = msg)" if "js_view J w' (m_Subject msg) = Some m" for m
      proof (cases "js_view J w (m_Subject msg) = Some m")
        case True
        then show ?thesis using k Finish by simp
      next
        case False
        then show ?thesis using new [OF that False, of q] k Finish by force
      qed
      then show ?thesis using k f(1) Finish by (auto dest: order_trans)
    next
      case (Settle r v)
      then show ?thesis using k f(1) forward_gone [OF assms(2)] by (auto dest: order_trans)
    next
      case (Forget topic t)
      then show ?thesis using k forward_gone [OF assms(2)] by simp
    qed
  qed
  moreover have "applied_ok J H rs w' inbox rcv late"
  proof -
    have "js_view J w sj = Some m" if "js_view J w' sj = Some m" "sm_seq m \<le> rcv" for sj m
      using f(3) [OF that(1)] that(2) i by (auto simp: inbox_ok_def)
    then show ?thesis using i unfolding applied_ok_def by blast
  qed
  ultimately show ?thesis using f(2) by (simp add: retain_inv_def)
qed

section \<open>Topics and their subjects\<close>

lemma place_subject:
  assumes "place rs topic sj"
  obtains subject where "codec_nameToSubject (rs_codec rs) topic = Inr subject" "sj = retainedSubject (rs_prefix rs) subject"
    "TrimPrefix (rs_prefix rs) sj = Some (retainedMarker @ subject)" "trimRetainedMarker (retainedMarker @ subject) = Some subject"
    "codec_subjectToName (rs_codec rs) subject = topic"
proof -
  obtain subject where s: "codec_nameToSubject (rs_codec rs) topic = Inr subject" "sj = retainedSubject (rs_prefix rs) subject"
    using assms by (auto simp: place_def)
  have v: "validateName topic (escape (rs_codec rs)) = Inr ()" "subject = convert topic False (escape (rs_codec rs))"
    using nameToSubject_ok [OF s(1) [unfolded codec_simps]] by blast+
  then have n: "codec_subjectToName (rs_codec rs) subject = topic" by (simp add: codec_subjectToName_def subjectToName_convert)
  have "topic \<noteq> []" using v(1) by (auto simp: validateName_def validateCommon_def)
  then have "subject \<noteq> []" using n by (auto simp: codec_subjectToName_def)
  then show ?thesis
    using that [OF s _ _ n] s(2) by (simp add: retainedSubject_def TrimPrefix_def Prefix_def has_prefix_def trimRetainedMarker_def)
qed

lemma place_inj: "place rs topic sj \<Longrightarrow> place rs topic' sj \<Longrightarrow> topic = topic'"
  by (elim place_subject) simp

lemma apply_at:
  assumes "place rs topic (m_Subject msg)"
  shows "apply_msg H now msg md rs = (if m_Data msg = [] then apply_tombstone now topic md rs else apply_message H now topic msg md rs)"
  using assms by (elim place_subject) (simp add: apply_msg_def)

lemma newRetained_sel:
  "rt_ref (newRetained H now a topic d (m_Header msg)) = a" "rt_topicName (newRetained H now a topic d (m_Header msg)) = topic"
  "rt_payload (newRetained H now a topic d (m_Header msg)) = d" "rt_qos (newRetained H now a topic d (m_Header msg)) = fst (fromNATS H msg)"
  "rt_props (newRetained H now a topic d (m_Header msg)) = Some (header_props H msg)"
  "rt_id (newRetained H now a topic d (m_Header msg)) = messageID H msg"
  by (simp_all add: newRetained_def fromNATS_header header_props_def case_prod_beta)

lemma store_msg_facts:
  assumes "header_laws H" "pb_QoS p \<le> 2"
  shows "m_Subject (store_msg H mid rs subject og ident p) = retainedSubject (rs_prefix rs) subject"
    "m_Data (store_msg H mid rs subject og ident p) = pb_Payload p"
    "fst (fromNATS H (store_msg H mid rs subject og ident p)) = pb_QoS p"
proof -
  let ?t = "toNATS H mid (retainedSubject (rs_prefix rs) subject) og p"
  obtain h where h: "m_Header ?t = Some h" "carries_base H h og p"
    "carries_props H h (case pb_Properties p of None \<Rightarrow> empty_props | Some q \<Rightarrow> q)"
    by (rule toNATS_carries [OF assms(1)])
  have d: "m_Subject ?t = retainedSubject (rs_prefix rs) subject" "m_Data ?t = pb_Payload p" by (simp_all add: toNATS_def Let_def)
  show "m_Subject (store_msg H mid rs subject og ident p) = retainedSubject (rs_prefix rs) subject"
    "m_Data (store_msg H mid rs subject og ident p) = pb_Payload p"
    by (simp_all add: store_msg_def Let_def d)
  have q: "fst (fromNATS H ?t) = pb_QoS p"
    using h(1,2) qos_back [of "pb_QoS p"] assms(2) by (simp add: fromNATS_def carries_base_def Let_def)
  then show "fst (fromNATS H (store_msg H mid rs subject og ident p)) = pb_QoS p" by (simp add: store_msg_fromNATS [OF assms(1)])
qed

section \<open>Every step keeps the invariant\<close>

text \<open>A change of the view: an entry is an old one or newly allocated.\<close>

definition grows :: "retainedStore \<Rightarrow> retainedStore \<Rightarrow> bool" where
  "grows rs rs' \<longleftrightarrow> rs_prefix rs' = rs_prefix rs \<and> rs_codec rs' = rs_codec rs \<and> rs_alloc rs \<le> rs_alloc rs' \<and>
    (wf_map (rs_byTopic rs) \<longrightarrow> wf_map (rs_byTopic rs')) \<and>
    (\<exists>topic'. \<forall>topic r. get (rs_byTopic rs') topic = Some r \<longrightarrow>
      get (rs_byTopic rs) topic = Some r \<or> topic = topic' \<and> rs_alloc rs \<le> rt_ref r \<and> rt_ref r < rs_alloc rs' \<and> rt_topicName r = topic)"

lemma grows_place: "grows rs rs' \<Longrightarrow> place rs' = place rs"
  by (simp add: grows_def place_def fun_eq_iff)

lemma grows_task: "grows rs rs' \<Longrightarrow> task_ok J H rs w k \<Longrightarrow> task_ok J H rs' w k"
  by (cases k) (fastforce simp: grows_def)+

lemma grows_entry:
  assumes "grows rs rs'" "get (rs_byTopic rs') topic = Some r"
  shows "get (rs_byTopic rs) topic = Some r \<or> rs_alloc rs \<le> rt_ref r \<and> rt_ref r < rs_alloc rs' \<and> rt_topicName r = topic"
  using assms unfolding grows_def by blast

lemma grows_entries:
  assumes "entries_ok J rs w" "grows rs rs'"
    and "\<And>topic r. get (rs_byTopic rs') topic = Some r \<Longrightarrow> get (rs_byTopic rs) topic = Some r \<or> rt_seq r \<le> js_last J w"
    and "\<And>topic t. get (rs_tombstones rs') topic = Some t \<Longrightarrow> get (rs_tombstones rs) topic = Some t \<or> tb_seq t \<le> js_last J w"
  shows "entries_ok J rs' w"
proof -
  have old: "rt_ref x < rs_alloc rs \<and> rt_topicName x = topic \<and> rt_seq x \<le> js_last J w" if "get (rs_byTopic rs) topic = Some x" for x topic
    using assms(1) that unfolding entries_ok_def by blast
  have alloc: "rs_alloc rs \<le> rs_alloc rs'" using assms(2) by (simp add: grows_def)
  obtain t0 where t0: "\<And>topic r. get (rs_byTopic rs') topic = Some r \<Longrightarrow> get (rs_byTopic rs) topic = Some r \<or> topic = t0 \<and> rs_alloc rs \<le> rt_ref r"
    using assms(2) unfolding grows_def by blast
  show ?thesis
    unfolding entries_ok_def
  proof (intro conjI allI impI; (elim conjE)?)
    show "wf_map (rs_byTopic rs')" using assms(1,2) by (simp add: entries_ok_def grows_def)
  next
    fix topic r
    assume r: "get (rs_byTopic rs') topic = Some r"
    show "rt_ref r < rs_alloc rs'" "rt_topicName r = topic" "rt_seq r \<le> js_last J w"
      using grows_entry [OF assms(2) r] assms(3) [OF r] old [of topic r] alloc by auto
  next
    fix topic topic' r r'
    assume r: "get (rs_byTopic rs') topic = Some r" "get (rs_byTopic rs') topic' = Some r'" "rt_ref r = rt_ref r'"
    show "topic = topic'"
      using t0 [OF r(1)] t0 [OF r(2)] old [of topic r] old [of topic' r'] r(3) assms(1) unfolding entries_ok_def by (metis leD)
  next
    fix topic t
    assume "get (rs_tombstones rs') topic = Some t"
    then show "tb_seq t \<le> js_last J w" using assms(1,4) unfolding entries_ok_def by blast
  qed
qed

lemma grows_inv:
  assumes "retain_inv J H (rs, w, inbox, rcv, tasks, late)" "grows rs rs'" "late \<Longrightarrow> late'"
    and "\<And>topic r. get (rs_byTopic rs') topic = Some r \<Longrightarrow> get (rs_byTopic rs) topic = Some r \<or> rt_seq r \<le> js_last J w"
    and "\<And>topic t. get (rs_tombstones rs') topic = Some t \<Longrightarrow> get (rs_tombstones rs) topic = Some t \<or> tb_seq t \<le> js_last J w"
    and "\<And>topic sj m. place rs topic sj \<Longrightarrow> js_view J w sj = Some m \<Longrightarrow> agrees H rs topic m \<Longrightarrow> late' \<or> agrees H rs' topic m"
  shows "retain_inv J H (rs', w, inbox, rcv, tasks, late')"
proof -
  note i = assms(1) [unfolded retain_inv_def prod.case]
  note p = grows_place [OF assms(2)]
  have "entries_ok J rs' w" using i assms(4,5) by (intro grows_entries [OF _ assms(2)]) blast+
  moreover have "view_in J rs' w" "inbox_ok J rs' w inbox rcv" using i by (simp_all add: view_in_def inbox_ok_def p)
  moreover have "\<forall>k \<in> tasks. task_ok J H rs' w k" using i grows_task [OF assms(2), of J H w] by blast
  moreover have "applied_ok J H rs' w inbox rcv late'" using i assms(3,6) unfolding applied_ok_def p by blast
  ultimately show ?thesis by (simp add: retain_inv_def)
qed

lemma agrees_cong:
  "get (rs_byTopic rs') topic = get (rs_byTopic rs) topic \<Longrightarrow> get (rs_tombstones rs') topic = get (rs_tombstones rs) topic \<Longrightarrow>
    agrees H rs' topic m = agrees H rs topic m"
  by (simp add: agrees_def)

lemma fewer_tasks: "retain_inv J H (rs, w, inbox, rcv, tasks, late) \<Longrightarrow> retain_inv J H (rs, w, inbox, rcv, tasks - X, late)"
  by (auto simp: retain_inv_def)

lemma more_tasks:
  "retain_inv J H (rs, w, inbox, rcv, tasks, late) \<Longrightarrow> task_ok J H rs w k \<Longrightarrow> retain_inv J H (rs, w, inbox, rcv, insert k tasks, late)"
  by (auto simp: retain_inv_def)

lemma store_finish_view:
  assumes "codec_subjectToName (rs_codec rs) subject = topic"
  shows "grows rs (store_finish H now subject p msg q rs)"
    "get (rs_byTopic (store_finish H now subject p msg q rs)) t =
      (if t \<noteq> topic then get (rs_byTopic rs) t else if pb_Payload p = [] then None
       else Some \<lparr>rt_ref = rs_alloc rs, rt_topicName = topic, rt_payload = pb_Payload p, rt_qos = pb_QoS p, rt_props = Some (header_props H msg),
         rt_stored = now, rt_seq = q, rt_id = messageID H msg\<rparr>)"
    "get (rs_tombstones (store_finish H now subject p msg q rs)) t =
      (if t \<noteq> topic then get (rs_tombstones rs) t else if pb_Payload p = [] then Some \<lparr>tb_seq = q, tb_stored = now\<rparr> else None)"
  using assms by (auto simp: store_finish_def Let_def grows_def header_props_def case_prod_beta)

lemma inv_finish:
  assumes "retain_inv J H (rs, w, inbox, rcv, tasks, late)" "Finish subject p msg q \<in> tasks"
  shows "retain_inv J H (store_finish H now subject p msg q rs, w, inbox, rcv, tasks - X,
    late \<or> overtaken_view q (codec_subjectToName (rs_codec rs) subject) rs)"
proof -
  have k: "task_ok J H rs w (Finish subject p msg q)" using assms by (auto simp: retain_inv_def)
  then obtain topic where t: "codec_nameToSubject (rs_codec rs) topic = Inr subject" by auto
  have pl: "place rs topic (m_Subject msg)" using t k by (auto simp: place_def)
  have n: "codec_subjectToName (rs_codec rs) subject = topic"
  proof -
    obtain s where "codec_nameToSubject (rs_codec rs) topic = Inr s" "codec_subjectToName (rs_codec rs) s = topic"
      by (rule place_subject [OF pl])
    then show ?thesis using t by simp
  qed
  note v = store_finish_view [OF n]
  show ?thesis
  proof (rule fewer_tasks, rule grows_inv [OF assms(1) v(1)])
    show "get (rs_byTopic rs) tp = Some r \<or> rt_seq r \<le> js_last J w"
      if "get (rs_byTopic (store_finish H now subject p msg q rs)) tp = Some r" for tp r
      using that k unfolding v(2) by (auto split: if_splits)
    show "get (rs_tombstones rs) tp = Some r \<or> tb_seq r \<le> js_last J w"
      if "get (rs_tombstones (store_finish H now subject p msg q rs)) tp = Some r" for tp r
      using that k unfolding v(3) by (auto split: if_splits)
  next
    fix tp sj m
    assume a: "place rs tp sj" "js_view J w sj = Some m" "agrees H rs tp m"
    show "(late \<or> overtaken_view q (codec_subjectToName (rs_codec rs) subject) rs) \<or> agrees H (store_finish H now subject p msg q rs) tp m"
    proof (cases "tp = topic")
      case False
      then show ?thesis using a(3) agrees_cong [of "store_finish H now subject p msg q rs" tp rs H m] by (simp add: v)
    next
      case True
      have "sj = m_Subject msg" using a(1) pl True by (auto simp: place_def)
      then have m: "q \<le> sm_seq m" "q = sm_seq m \<Longrightarrow> sm_msg m = msg" "m_Data msg = pb_Payload p" "fst (fromNATS H msg) = pb_QoS p"
        using k a(2) by auto
      show ?thesis
      proof (cases "q = sm_seq m")
        case eq: True
        then show ?thesis using m by (simp add: agrees_def v True entry_of_def)
      next
        case False
        then have "q < sm_seq m" using m(1) by simp
        then show ?thesis using a(3) unfolding n True by (auto simp: agrees_def overtaken_view_def entry_of_def split: if_splits)
      qed
    qed
  qed auto
qed

lemma apply_view:
  assumes "rs' = apply_msg H now (sm_msg m) (Some (sm_seq m, sm_time m)) rs" "place rs topic (m_Subject (sm_msg m))" "0 < sm_seq m"
  shows "grows rs rs'" "agrees H rs' topic m"
    "t \<noteq> topic \<Longrightarrow> get (rs_byTopic rs') t = get (rs_byTopic rs) t \<and> get (rs_tombstones rs') t = get (rs_tombstones rs) t"
    "get (rs_byTopic rs') t = Some r \<Longrightarrow> get (rs_byTopic rs) t = Some r \<or> rt_seq r = sm_seq m"
    "get (rs_tombstones rs') t = Some d \<Longrightarrow> get (rs_tombstones rs) t = Some d \<or> tb_seq d = sm_seq m"
  using assms(3) unfolding assms(1) apply_at [OF assms(2)]
  by (auto simp: apply_tombstone_def apply_message_def Let_def grows_def agrees_def entry_of_def newRetained_sel split: if_splits)

lemma inv_apply:
  assumes "retain_inv J H (rs, w, m # inbox, rcv, tasks, late)"
  shows "retain_inv J H (apply_msg H now (sm_msg m) (Some (sm_seq m, sm_time m)) rs, w, inbox, rcv, tasks, late)"
proof -
  let ?rs = "apply_msg H now (sm_msg m) (Some (sm_seq m, sm_time m)) rs"
  note i = assms [unfolded retain_inv_def prod.case]
  have b: "0 < sm_seq m" "sm_seq m \<le> js_last J w" "\<And>x. x \<in> set inbox \<Longrightarrow> sm_seq m < sm_seq x"
    and cur: "\<And>m'. js_view J w (m_Subject (sm_msg m)) = Some m' \<Longrightarrow> sm_seq m \<le> sm_seq m'"
    using i by (auto simp: inbox_ok_def intro: order_trans)
  obtain topic where pl: "place rs topic (m_Subject (sm_msg m))" using i by (auto simp: inbox_ok_def)
  note v = apply_view [OF refl [of "?rs"] pl b(1)]
  have "applied_ok J H ?rs w inbox rcv late"
    unfolding applied_ok_def grows_place [OF v(1)]
  proof (intro allI impI, elim conjE)
    fix tp sj x
    assume a: "place rs tp sj" "js_view J w sj = Some x" "sm_seq x \<le> rcv"
    then have c: "x \<in> set (m # inbox) \<or> (\<forall>y \<in> set (m # inbox). sm_seq x < sm_seq y) \<and> (late \<or> agrees H rs tp x)"
      using i unfolding applied_ok_def by blast
    have sj: "m_Subject (sm_msg x) = sj" using i a(2) by (auto simp: view_in_def view_ok_def)
    consider "x = m" | "x \<in> set inbox" | "\<forall>y \<in> set (m # inbox). sm_seq x < sm_seq y" "late \<or> agrees H rs tp x"
      using c by auto
    then show "x \<in> set inbox \<or> (\<forall>y \<in> set inbox. sm_seq x < sm_seq y) \<and> (late \<or> agrees H ?rs tp x)"
    proof cases
      case 1
      then have "tp = topic" using place_inj a(1) pl sj by blast
      then show ?thesis using 1 b(3) v(2) by blast
    next
      case 3
      have "tp \<noteq> topic"
      proof
        assume "tp = topic"
        then have "sj = m_Subject (sm_msg m)" using a(1) pl by (auto simp: place_def)
        then show False using cur a(2) 3(1) by force
      qed
      then show ?thesis using 3 v(3) [of tp] agrees_cong [of ?rs tp rs H x] by auto
    qed simp
  qed
  moreover have "inbox_ok J rs w inbox rcv" using i by (auto simp: inbox_ok_def)
  moreover have "entries_ok J ?rs w"
  proof (rule grows_entries [OF _ v(1)])
    show "get (rs_byTopic rs) tp = Some r \<or> rt_seq r \<le> js_last J w" if "get (rs_byTopic ?rs) tp = Some r" for tp r
      using v(4) [OF that] b(2) by auto
    show "get (rs_tombstones rs) tp = Some r \<or> tb_seq r \<le> js_last J w" if "get (rs_tombstones ?rs) tp = Some r" for tp r
      using v(5) [OF that] b(2) by auto
  qed (use i in blast)
  moreover have "\<forall>k \<in> tasks. task_ok J H ?rs w k" using i grows_task [OF v(1), of J H w] by blast
  ultimately show ?thesis
    using i by (simp add: retain_inv_def view_in_def inbox_ok_def grows_place [OF v(1)])
qed

lemma inv_receive:
  assumes "retain_inv J H (rs, w, inbox, rcv, tasks, late)" "js_view J w sj = Some m" "rcv < sm_seq m"
    and "\<forall>sj' m'. js_view J w sj' = Some m' \<longrightarrow> sm_seq m' \<le> rcv \<or> sm_seq m \<le> sm_seq m'"
  shows "retain_inv J H (rs, w, inbox @ [m], sm_seq m, tasks, late)"
proof -
  note i = assms(1) [unfolded retain_inv_def prod.case]
  have v: "view_ok J w" using i by (simp add: view_in_def)
  have m: "m_Subject (sm_msg m) = sj" "0 < sm_seq m" "sm_seq m \<le> js_last J w" "\<exists>topic. place rs topic sj"
    using view_okD(1-3) [OF v assms(2)] i assms(2) unfolding view_in_def by blast+
  have old: "sm_seq x \<le> rcv" if "x \<in> set inbox" for x using i that by (auto simp: inbox_ok_def)
  have "inbox_ok J rs w (inbox @ [m]) (sm_seq m)"
    unfolding inbox_ok_def
  proof (intro conjI ballI)
    show "sm_seq m \<le> js_last J w" by (rule m(3))
    show "sorted_wrt (\<lambda>a b. sm_seq a < sm_seq b) (inbox @ [m])"
      using i old assms(3) by (auto simp: inbox_ok_def sorted_wrt_append intro: order_le_less_trans)
    fix x
    assume "x \<in> set (inbox @ [m])"
    then consider "x \<in> set inbox" | "x = m" by auto
    then have "0 < sm_seq x \<and> sm_seq x \<le> sm_seq m \<and> (\<exists>topic. place rs topic (m_Subject (sm_msg x))) \<and>
        (\<forall>y. js_view J w (m_Subject (sm_msg x)) = Some y \<longrightarrow> sm_seq x \<le> sm_seq y \<and> (sm_seq x = sm_seq y \<longrightarrow> x = y))"
    proof cases
      case 1
      have "sm_seq x \<le> sm_seq m" using old [OF 1] assms(3) by (simp add: less_imp_le order_trans)
      then show ?thesis using i 1 unfolding inbox_ok_def by blast
    next
      case 2
      then show ?thesis using m assms(2) by simp
    qed
    then show "0 < sm_seq x" "sm_seq x \<le> sm_seq m" "\<exists>topic. place rs topic (m_Subject (sm_msg x))"
      "\<forall>y. js_view J w (m_Subject (sm_msg x)) = Some y \<longrightarrow> sm_seq x \<le> sm_seq y \<and> (sm_seq x = sm_seq y \<longrightarrow> x = y)" by blast+
  qed
  moreover have "applied_ok J H rs w (inbox @ [m]) (sm_seq m) late"
    unfolding applied_ok_def
  proof (intro allI impI, elim conjE)
    fix tp sj' x
    assume a: "place rs tp sj'" "js_view J w sj' = Some x" "sm_seq x \<le> sm_seq m"
    show "x \<in> set (inbox @ [m]) \<or> (\<forall>y \<in> set (inbox @ [m]). sm_seq x < sm_seq y) \<and> (late \<or> agrees H rs tp x)"
    proof (cases "sm_seq x \<le> rcv")
      case True
      then show ?thesis using i a(1,2) assms(3) unfolding applied_ok_def by (fastforce intro: order_le_less_trans)
    next
      case False
      then have "sm_seq x = sm_seq m" using assms(4) a(2,3) by force
      then have "sj' = sj" by (rule view_okD(4) [OF v a(2) assms(2)])
      then show ?thesis using a(2) assms(2) by simp
    qed
  qed
  ultimately show ?thesis using i by (simp add: retain_inv_def)
qed

lemma held_not_gone: "js_view J w sj = Some m \<Longrightarrow> \<not> gone J w (sm_seq m)"
  by (auto simp: gone_def holds_def)

text \<open>An entry that is dropped or replaced is not the one that shows the stream's message: it has expired, or the stream no longer holds it.\<close>

lemma settled_other:
  assumes "task_ok J H rs w (Settle r v)" "v \<noteq> KeepEntry" "is_entry r rs" "js_view J w sj = Some m" "agrees H rs (rt_topicName r) m"
  shows "m_Data (sm_msg m) \<noteq> [] \<and> MessageExpiryInterval (header_props H (sm_msg m)) \<noteq> None"
proof -
  obtain r' where r': "get (rs_byTopic rs) (rt_topicName r) = Some r'" "rt_ref r' = rt_ref r"
    using assms(3) by (auto simp: is_entry_def split: option.splits)
  then have "r' = r" using assms(1) by auto
  then have "expires r' \<or> gone J w (rt_seq r')" using assms(1,2) by auto
  moreover have "\<not> gone J w (sm_seq m)" by (rule held_not_gone [OF assms(4)])
  ultimately show ?thesis using assms(5) r'(1) by (auto simp: agrees_def entry_of_def expires_def split: if_splits)
qed

lemma settle_view:
  assumes "task_ok J H rs w (Settle r v)"
  shows "grows rs (settle_entry H now r v rs)"
    "get (rs_byTopic (settle_entry H now r v rs)) t = Some x \<Longrightarrow> get (rs_byTopic rs) t = Some x \<or> rt_seq x \<le> js_last J w"
    "get (rs_tombstones (settle_entry H now r v rs)) t = get (rs_tombstones rs) t"
    "\<not> (v \<noteq> KeepEntry \<and> is_entry r rs \<and> t = rt_topicName r) \<Longrightarrow> get (rs_byTopic (settle_entry H now r v rs)) t = get (rs_byTopic rs) t"
  using assms by (cases v; auto simp: settle_entry_def put_entry_def drop_entry_def grows_def newRetained_sel split: if_splits)+

lemma inv_settle:
  assumes "retain_inv J H (rs, w, inbox, rcv, tasks, late)" "Settle r v \<in> tasks"
  shows "retain_inv J H (settle_entry H now r v rs, w, inbox, rcv, tasks - X, late)"
proof -
  have k: "task_ok J H rs w (Settle r v)" using assms by (auto simp: retain_inv_def)
  note s = settle_view [OF k]
  show ?thesis
  proof (rule fewer_tasks, rule grows_inv [OF assms(1) s(1)])
    fix tp sj m
    assume a: "place rs tp sj" "js_view J w sj = Some m" "agrees H rs tp m"
    show "late \<or> agrees H (settle_entry H now r v rs) tp m"
    proof (cases "v \<noteq> KeepEntry \<and> is_entry r rs \<and> tp = rt_topicName r")
      case True
      then show ?thesis using settled_other [OF k] a by (auto simp: agrees_def)
    next
      case False
      from s(4) [OF this] show ?thesis using a(3) agrees_cong [of "settle_entry H now r v rs" tp rs H m] by (simp add: s(3))
    qed
  qed (use s in auto)
qed

lemma inv_forget:
  assumes "retain_inv J H (rs, w, inbox, rcv, tasks, late)" "Forget topic t \<in> tasks"
  shows "retain_inv J H (forget_tombstone topic t rs, w, inbox, rcv, tasks - X, late)"
proof -
  have k: "gone J w (tb_seq t)" using assms by (auto simp: retain_inv_def)
  have g: "grows rs (forget_tombstone topic t rs)" by (simp add: forget_tombstone_def grows_def)
  have f: "rs_byTopic (forget_tombstone topic t rs) = rs_byTopic rs"
    "get (rs_tombstones (forget_tombstone topic t rs)) tp = (if get (rs_tombstones rs) topic = Some t \<and> tp = topic then None else get (rs_tombstones rs) tp)" for tp
    by (simp_all add: forget_tombstone_def)
  show ?thesis
  proof (rule fewer_tasks, rule grows_inv [OF assms(1) g])
    show "late \<or> agrees H (forget_tombstone topic t rs) tp m" if "place rs tp sj" "js_view J w sj = Some m" "agrees H rs tp m" for tp sj m
      using that(3) k held_not_gone [OF that(2)] by (auto simp: agrees_def f)
  qed (auto simp: f split: if_splits)
qed

lemma check_entry_gone:
  assumes "stream_laws J" "check_entry J r rs w = (v, w')"
  shows "kept J w w'" "v \<noteq> KeepEntry \<Longrightarrow> \<not> holds J w (rt_seq r)" "v = PutEntry m \<Longrightarrow> \<exists>sj. js_view J w sj = Some m"
proof -
  obtain g w1 where g: "js_GetMsg J (rt_seq r) w = (g, w1)" by fastforce
  note k = getmsg_kept [OF assms(1) g]
  have "kept J w w' \<and> (v \<noteq> KeepEntry \<longrightarrow> \<not> holds J w (rt_seq r)) \<and> (v = PutEntry m \<longrightarrow> (\<exists>sj. js_view J w sj = Some m))"
  proof (cases "g = Inl ErrMsgNotFound")
    case False
    then show ?thesis using assms(2) g k by (auto simp: check_entry_def split: sum.splits)
  next
    case True
    note n = True
    show ?thesis
    proof (cases "codec_nameToSubject (rs_codec rs) (rt_topicName r)")
      case (Inl e)
      then show ?thesis using assms(2) g k n by (simp add: check_entry_def)
    next
      case (Inr subject)
      obtain l w2 where l: "js_GetLastMsgForSubject J (retainedSubject (rs_prefix rs) subject) w1 = (l, w2)" by fastforce
      have "kept J w w2" by (rule kept_trans [OF k(1) getlast_kept(1) [OF assms(1) l]])
      moreover have "js_view J w sj = Some m" if "js_view J w1 sj = Some m" for sj using k(1) that by (simp add: kept_def)
      ultimately show ?thesis
        using assms(2) g k(2) n Inr l getlast_kept(3) [OF assms(1) l] by (auto simp: check_entry_def split: sum.splits if_splits)
    qed
  qed
  then show "kept J w w'" "v \<noteq> KeepEntry \<Longrightarrow> \<not> holds J w (rt_seq r)" "v = PutEntry m \<Longrightarrow> \<exists>sj. js_view J w sj = Some m" by blast+
qed

lemma inv_check:
  assumes "stream_laws J" "retain_inv J H (rs, w, inbox, rcv, tasks, late)" "get (rs_byTopic rs) topic = Some r"
    and "expires r \<and> v = DropEntry \<and> w' = w \<or> check_entry J r rs w = (v, w')"
  shows "retain_inv J H (rs, w', inbox, rcv, insert (Settle r v) tasks, late)"
proof -
  note i = assms(2) [unfolded retain_inv_def prod.case]
  have e: "rt_ref r < rs_alloc rs" "rt_seq r \<le> js_last J w" using i assms(3) unfolding entries_ok_def by blast+
  have u: "r' = r" if "get (rs_byTopic rs) t = Some r'" "rt_ref r' = rt_ref r" for t r'
  proof -
    have "t = topic" using i that assms(3) unfolding entries_ok_def by blast
    then show ?thesis using that(1) assms(3) by simp
  qed
  have k: "kept J w w'" using assms(4) check_entry_gone(1) [OF assms(1)] by (auto simp: kept_def)
  have "expires r \<or> v = KeepEntry \<or> gone J w' (rt_seq r)"
    using assms(4) check_entry_gone(2) [OF assms(1)] e(2) k by (auto simp: gone_def kept_holds) (auto simp: kept_def)
  moreover have "sm_seq m \<le> js_last J w'" if "v = PutEntry m" for m
  proof -
    have "check_entry J r rs w = (v, w')" using assms(4) that by auto
    from check_entry_gone(3) [OF assms(1) this that] obtain sj where "js_view J w sj = Some m" by blast
    then show ?thesis using i k view_okD(3) [of J w sj m] by (simp add: view_in_def kept_def)
  qed
  ultimately have "task_ok J H rs w' (Settle r v)" using e(1) u by auto
  moreover have "retain_inv J H (rs, w', inbox, rcv, tasks, late)"
    using assms(2) i k by (intro forward_inv [OF assms(2)] kept_forward) blast+
  ultimately show ?thesis by (rule more_tasks [rotated])
qed

lemma start_inv_retain: "retain_start J s \<Longrightarrow> retain_inv J H s"
proof -
  assume a: "retain_start J s"
  obtain rs w inbox rcv tasks late where s: "s = (rs, w, inbox, rcv, tasks, late)" by (cases s)
  have v: "view_in J rs w" "rs_byTopic rs = []" "rs_tombstones rs = []" "inbox = []" "rcv = 0" "tasks = {}"
    using a by (simp_all add: s retain_start_def)
  have "\<not> sm_seq m \<le> 0" if "js_view J w sj = Some m" for sj m
    using view_okD(2) [OF _ that] v(1) by (simp add: view_in_def)
  then have "applied_ok J H rs w [] 0 late" unfolding applied_ok_def by blast
  then show ?thesis using v by (simp add: s retain_inv_def inbox_ok_def entries_ok_def)
qed

lemma step_inv_retain:
  assumes "stream_laws J" "header_laws H" "retain_step J H s s'" "retain_inv J H s"
  shows "retain_inv J H s'"
  using assms(3)
proof (cases rule: retain_step.cases)
  case (retain_acked rs topic subject p mid og ident w q w' inbox rcv tasks late)
  let ?msg = "store_msg H mid rs subject og ident p"
  note i = assms(4) [unfolded retain_acked(1) retain_inv_def prod.case]
  note m = store_msg_facts [OF assms(2) retain_acked(4), of mid rs subject og ident]
  have "place rs topic (m_Subject ?msg)" using retain_acked(3) m(1) by (auto simp: place_def)
  then have "forward J rs w w'" using i by (intro publish_forward [OF assms(1) _ _ retain_acked(5)]) blast
  then have "retain_inv J H (rs, w', inbox, rcv, tasks, late)"
    by (rule forward_inv [OF assms(4) [unfolded retain_acked(1)]])
  moreover have "stored_at J ?msg w w' q"
  proof -
    have "publish_law J ?msg w" using assms(1) by (simp add: stream_laws_def)
    then show ?thesis using retain_acked(5) by (simp add: publish_law_def)
  qed
  then have "task_ok J H rs w' (Finish subject p ?msg q)" using m retain_acked(3) by (auto simp: stored_at_def) (metis stored_msg.select_convs(3))
  ultimately show ?thesis unfolding retain_acked(2) by (rule more_tasks)
next
  case (retain_other rs topic subject msg w res w' inbox rcv tasks late)
  have "place rs topic (m_Subject msg)" using retain_other(3,4) by (auto simp: place_def)
  then show ?thesis using assms(4) unfolding retain_other(1,2)
    by (intro forward_inv [OF assms(4) [unfolded retain_other(1)]] publish_forward [OF assms(1) _ _ retain_other(5)]) (auto simp: retain_inv_def)
next
  case (retain_deleted q w e w' rs inbox rcv tasks late)
  then show ?thesis using assms(4) unfolding retain_deleted(1,2)
    by (intro forward_inv [OF assms(4) [unfolded retain_deleted(1)]] delete_forward(1) [OF assms(1) _ retain_deleted(3)]) (auto simp: retain_inv_def)
next
  case (retain_finish subject p msg q tasks rs w inbox rcv late now)
  show ?thesis unfolding retain_finish(2) by (rule inv_finish [OF assms(4) [unfolded retain_finish(1)] retain_finish(3)])
next
  case (retain_receive w sj m rcv rs inbox tasks late)
  show ?thesis unfolding retain_receive(2) by (rule inv_receive [OF assms(4) [unfolded retain_receive(1)] retain_receive(3-5)])
next
  case (retain_apply rs w m inbox rcv tasks late now)
  show ?thesis unfolding retain_apply(2) by (rule inv_apply [OF assms(4) [unfolded retain_apply(1)]])
next
  case (retain_expire rs topic r now w inbox rcv tasks late)
  then have "expires r" by (auto simp: retained_expired_def expires_def split: option.splits)
  then show ?thesis unfolding retain_expire(2) by (intro inv_check [OF assms(1) assms(4) [unfolded retain_expire(1)] retain_expire(3)]) simp
next
  case (retain_check rs topic r w v w' inbox rcv tasks late)
  show ?thesis unfolding retain_check(2)
    by (intro inv_check [OF assms(1) assms(4) [unfolded retain_check(1)] retain_check(3)] disjI2 retain_check(5))
next
  case (retain_settle r v tasks rs w inbox rcv late now)
  show ?thesis unfolding retain_settle(2) by (rule inv_settle [OF assms(4) [unfolded retain_settle(1)] retain_settle(3)])
next
  case (retain_purge rs topic t w e w' inbox rcv tasks late)
  note i = assms(4) [unfolded retain_purge(1) retain_inv_def prod.case]
  have f: "forward J rs w w'" "\<not> holds J w' (tb_seq t)"
    using i delete_forward [OF assms(1) _ retain_purge(4), of rs] retain_purge(5) by blast+
  have "tb_seq t \<le> js_last J w" using i retain_purge(3) unfolding entries_ok_def by blast
  then have "task_ok J H rs w' (Forget topic t)" using f by (auto simp: gone_def forward_def)
  then show ?thesis unfolding retain_purge(2) by (intro more_tasks forward_inv [OF assms(4) [unfolded retain_purge(1)] f(1)])
next
  case (retain_missing rs topic t w w' inbox rcv tasks late)
  note i = assms(4) [unfolded retain_missing(1) retain_inv_def prod.case]
  note k = getmsg_kept [OF assms(1) retain_missing(4)]
  have f: "forward J rs w w'" using i kept_forward [OF k(1), of rs] by blast
  have "tb_seq t \<le> js_last J w" using i retain_missing(3) unfolding entries_ok_def by blast
  then have "task_ok J H rs w' (Forget topic t)" using k(2) kept_holds [OF k(1)] k(1) by (simp add: gone_def kept_def)
  then show ?thesis unfolding retain_missing(2) by (intro more_tasks forward_inv [OF assms(4) [unfolded retain_missing(1)] f])
next
  case (retain_forget topic t tasks rs w inbox rcv late)
  show ?thesis unfolding retain_forget(2) by (rule inv_forget [OF assms(4) [unfolded retain_forget(1)] retain_forget(3)])
qed

definition retain_inv_laws :: "('h, 'w, 'a) stream_ops_scheme \<Rightarrow> 'h header_ops \<Rightarrow> ('h, 'w) retain_state \<Rightarrow> bool" where
  "retain_inv_laws J H s \<longleftrightarrow> (stream_laws J \<and> header_laws H \<longrightarrow> retain_inv J H s)"

interpretation retained_views: step_invariant "retain_step J H" "retain_start J" "retain_inv_laws J H" for J H
  by unfold_locales (auto simp: retain_inv_laws_def intro: start_inv_retain step_inv_retain)

lemma match_topic:
  assumes "wf_map (rs_byTopic rs)" "\<And>t r. get (rs_byTopic rs) t = Some r \<Longrightarrow> rt_topicName r = t" "Match fltr topic"
  shows "filter (\<lambda>r. rt_topicName r = topic) (fst (retain_match J now fltr rs w)) =
    (case get (rs_byTopic rs) topic of None \<Rightarrow> [] | Some r \<Rightarrow> if retained_expired now r then [] else [r])"
proof -
  have k: "rt_topicName r = t" if "(t, r) \<in> set (rs_byTopic rs)" for t r using assms(2) that get_mem [OF assms(1), of t r] by simp
  have f: "filter (\<lambda>r. rt_topicName r = topic \<and> \<not> retained_expired now r) (map snd (filter (\<lambda>(t, r). Match fltr t) m)) =
      (case get m topic of None \<Rightarrow> [] | Some r \<Rightarrow> if retained_expired now r then [] else [r])"
    if "wf_map m" "\<And>t r. (t, r) \<in> set m \<Longrightarrow> rt_topicName r = t" for m
    using that
  proof (induction m)
    case (Cons e m)
    obtain t r where e: "e = (t, r)" by (cases e)
    have "rt_topicName r = t" using Cons(3) by (simp add: e)
    moreover have "wf_map m" "t \<notin> fst ` set m" using Cons(2) by (auto simp: wf_map_def e)
    moreover have "get m topic = None" if "t = topic" using calculation(3) that by (simp add: map_of_eq_None_iff)
    moreover have "filter (\<lambda>r. rt_topicName r = topic \<and> \<not> retained_expired now r) (map snd (filter (\<lambda>(t, r). Match fltr t) m)) =
      (case get m topic of None \<Rightarrow> [] | Some r \<Rightarrow> if retained_expired now r then [] else [r])"
      using Cons(3) by (intro Cons(1) calculation(2)) simp
    ultimately show ?case using assms(3) by (cases "t = topic") (simp_all add: e)
  qed simp
  show ?thesis using f [OF assms(1) k] by (simp add: retain_match_def Let_def conj_commute)
qed

section \<open>A stream in memory\<close>

text \<open>The messages, the newest first, and the last sequence.\<close>

type_synonym 'h mem_world = "'h stored_msg list \<times> u64"

definition mem_lookup :: "'h mem_world \<Rightarrow> string \<Rightarrow> 'h stored_msg option" where
  "mem_lookup w sj = find (\<lambda>m. m_Subject (sm_msg m) = sj) (fst w)"

definition mem_stream :: "('h, 'h mem_world) stream_ops" where
  "mem_stream = \<lparr>
    js_PublishMsg = (\<lambda>msg (ms, q). if q = - 1 then (Inl ErrJS, (ms, q))
      else (Inr (q + 1), (\<lparr>sm_seq = q + 1, sm_time = 0, sm_msg = msg\<rparr> # ms, q + 1))),
    js_GetMsg = (\<lambda>q w. (case find (\<lambda>m. sm_seq m = q \<and> mem_lookup w (m_Subject (sm_msg m)) = Some m) (fst w) of
      None \<Rightarrow> Inl ErrMsgNotFound | Some m \<Rightarrow> Inr m, w)),
    js_GetLastMsgForSubject = (\<lambda>sj w. (case mem_lookup w sj of None \<Rightarrow> Inl ErrMsgNotFound | Some m \<Rightarrow> Inr m, w)),
    js_DeleteMsg = (\<lambda>q w. (None, (filter (\<lambda>m. map_option sm_seq (mem_lookup w (m_Subject (sm_msg m))) \<noteq> Some q) (fst w), snd w))),
    js_Msgs = (\<lambda>w. (Inr (of_nat (length (fst w))), w)),
    js_view = mem_lookup,
    js_last = snd\<rparr>"

lemma find_filter_subject:
  assumes "\<And>m. m_Subject (sm_msg m) = sj \<Longrightarrow> P m = b"
  shows "find (\<lambda>m. m_Subject (sm_msg m) = sj) (filter P ms) = (if b then find (\<lambda>m. m_Subject (sm_msg m) = sj) ms else None)"
  using assms by (induction ms) auto

lemma find_subject: "find (\<lambda>m. m_Subject (sm_msg m) = sj) ms = Some m \<Longrightarrow> m \<in> set ms \<and> m_Subject (sm_msg m) = sj"
  by (induction ms) (auto split: if_splits)

lemma mem_stream_laws: "stream_laws mem_stream"
  unfolding stream_laws_def
proof (intro conjI allI)
  fix msg :: "'h nats_msg" and w :: "'h mem_world" and q sj
  obtain ms n where w: "w = (ms, n)" by (cases w)
  show "publish_law mem_stream msg w"
    using next_rev [of n] by (auto simp: publish_law_def mem_stream_def w stored_at_def kept_def mem_lookup_def fun_eq_iff)
  have f: "js_view mem_stream w sj = Some m \<Longrightarrow> m \<in> set (fst w) \<and> m_Subject (sm_msg m) = sj" for sj m
    using find_subject [of sj "fst w" m] by (simp add: mem_stream_def mem_lookup_def)
  show "getmsg_law mem_stream q w"
  proof (cases "find (\<lambda>m. sm_seq m = q \<and> mem_lookup w (m_Subject (sm_msg m)) = Some m) (fst w)")
    case None
    have "\<not> holds mem_stream w q"
    proof
      assume "holds mem_stream w q"
      then obtain sj m where m: "js_view mem_stream w sj = Some m" "sm_seq m = q" by (auto simp: holds_def)
      then have "mem_lookup w (m_Subject (sm_msg m)) = Some m" "m \<in> set (fst w)" using f [OF m(1)] by (simp_all add: mem_stream_def)
      then show False using None m(2) by (simp add: find_None_iff)
    qed
    then show ?thesis using None by (simp add: getmsg_law_def mem_stream_def kept_def)
  next
    case (Some m)
    then have "sm_seq m = q" "mem_lookup w (m_Subject (sm_msg m)) = Some m" by (auto simp: find_Some_iff)
    then show ?thesis using Some by (simp add: getmsg_law_def mem_stream_def kept_def)
  qed
  show "getlast_law mem_stream sj w"
    by (auto simp: getlast_law_def mem_stream_def kept_def split: option.splits)
  show "deletemsg_law mem_stream q w"
  proof -
    have "mem_lookup (filter (\<lambda>m. map_option sm_seq (mem_lookup w (m_Subject (sm_msg m))) \<noteq> Some q) (fst w), snd w) sj =
        (case mem_lookup w sj of None \<Rightarrow> None | Some m \<Rightarrow> if sm_seq m = q then None else Some m)" for sj
    proof -
      have "mem_lookup (filter (\<lambda>m. map_option sm_seq (mem_lookup w (m_Subject (sm_msg m))) \<noteq> Some q) (fst w), snd w) sj =
          (if map_option sm_seq (mem_lookup w sj) \<noteq> Some q then mem_lookup w sj else None)"
        unfolding mem_lookup_def fst_conv by (rule find_filter_subject) simp
      then show ?thesis by (auto split: option.splits)
    qed
    then show ?thesis by (simp add: deletemsg_law_def mem_stream_def removed_def fun_eq_iff)
  qed
  show "msgs_law mem_stream w" by (simp add: msgs_law_def mem_stream_def kept_def)
qed

section \<open>The view shows what the stream holds\<close>

lemma caught_up_agrees:
  assumes "retain_inv J H (rs, w, [], rcv, tasks, False)" "place rs topic sj" "js_view J w sj = Some m" "sm_seq m \<le> rcv"
  shows "agrees H rs topic m"
  using assms unfolding retain_inv_def prod.case applied_ok_def by (metis empty_iff empty_set)

text \<open>C36: Once the stream's consumer has caught up, a subscription that matches a topic is shown exactly the message the stream
  holds for it (payload, QoS, properties and id), or none when the stream holds the topic's tombstone, in whatever order this broker's
  own stores, those of other brokers, deletions, expiry and verification ran, for a message that does not expire, and unless a store of
  this broker changed the view after the view had a later message of the topic.\<close>

theorem retained_view_complete:
  assumes "stream_laws J" "header_laws H" "retain_start J s0" "(retain_step J H)\<^sup>*\<^sup>* s0 (rs, w, [], rcv, tasks, False)"
    and "\<forall>sj m. js_view J w sj = Some m \<longrightarrow> sm_seq m \<le> rcv"
    and "codec_nameToSubject (rs_codec rs) topic = Inr subject" "js_view J w (retainedSubject (rs_prefix rs) subject) = Some m"
    and "MessageExpiryInterval (header_props H (sm_msg m)) = None" "Match fltr topic"
  shows "\<exists>r. filter (\<lambda>r. rt_topicName r = topic) (fst (retain_match J now fltr rs w)) = (if m_Data (sm_msg m) = [] then [] else [r]) \<and>
    (m_Data (sm_msg m) = [] \<or> entry_of H topic m r)"
proof -
  have i: "retain_inv J H (rs, w, [], rcv, tasks, False)"
    using retained_views.reach_inv [OF assms(4,3)] assms(1,2) by (simp add: retain_inv_laws_def)
  have "place rs topic (retainedSubject (rs_prefix rs) subject)" using assms(6) by (auto simp: place_def)
  then have a: "agrees H rs topic m" using caught_up_agrees [OF i _ assms(7)] assms(5,7) by blast
  have e: "wf_map (rs_byTopic rs)" "\<And>t r. get (rs_byTopic rs) t = Some r \<Longrightarrow> rt_topicName r = t"
    using i by (auto simp: retain_inv_def entries_ok_def)
  have "\<not> retained_expired now r" if "entry_of H topic m r" for r
    using that assms(8) by (auto simp: entry_of_def retained_expired_def)
  then show ?thesis using a match_topic [OF e assms(9), where J = J and now = now and w = w] assms(8)
    by (auto simp: agrees_def split: if_splits)
qed

section \<open>Samples\<close>

definition sample_view :: retainedStore where
  "sample_view = \<lparr>rs_prefix = ''mqtt'', rs_codec = \<lparr>escape = False\<rparr>, rs_byTopic = [], rs_tombstones = [], rs_tombstoneTTL = 0, rs_verifiedAt = 0,
     rs_verifyEvery = 0, rs_lastFull = 0, rs_alloc = 0\<rparr>"

lemma sample_view_sel: "rs_prefix sample_view = ''mqtt''" "rs_codec sample_view = \<lparr>escape = False\<rparr>" "rs_byTopic sample_view = []"
  "rs_tombstones sample_view = []" "rs_alloc sample_view = 0"
  by (simp_all add: sample_view_def)

definition sample_retained :: "bytes \<Rightarrow> publish" where
  "sample_retained b = \<lparr>pb_Dup = False, pb_QoS = 1, pb_Retain = True, pb_Topic = ''a'', pb_PacketID = 5, pb_Properties = None, pb_Payload = b\<rparr>"

abbreviation sample_store_msg :: "bytes \<Rightarrow> (string \<times> string list) list nats_msg" where
  "sample_store_msg b \<equiv> store_msg alist_header ''m'' sample_view ''a'' ''c'' ''i'' (sample_retained b)"

definition sample_stored :: "u64 \<Rightarrow> bytes \<Rightarrow> (string, string list) gomap stored_msg" where
  "sample_stored q b = \<lparr>sm_seq = q, sm_time = 0, sm_msg = sample_store_msg b\<rparr>"

lemma sample_stored_seq: "sm_seq (sample_stored q b) = q"
  by (simp add: sample_stored_def)

lemma sample_topic: "codec_nameToSubject \<lparr>escape = False\<rparr> ''a'' = Inr ''a''" "codec_subjectToName \<lparr>escape = False\<rparr> ''a'' = ''a''" "Match ''a'' ''a''"
proof -
  show "codec_nameToSubject \<lparr>escape = False\<rparr> ''a'' = Inr ''a''" by (simp add: topic_eval)
  show "codec_subjectToName \<lparr>escape = False\<rparr> ''a'' = ''a''" "Match ''a'' ''a''" by code_simp+
qed

lemma sample_message:
  "m_Subject (sample_store_msg b) = ''mqtt.$retained.a''" "m_Data (sample_store_msg b) = b"
  "fst (fromNATS alist_header (sample_store_msg b)) = 1"
  using store_msg_facts [OF alist_header_laws, of "sample_retained b" "''m''" sample_view "''a''" "''c''" "''i''"]
  by (simp_all add: sample_retained_def sample_view_sel retainedSubject_def Prefix_def retainedMarker_def)

lemma sample_props: "header_props alist_header (sample_store_msg b) = empty_props" "messageID alist_header (sample_store_msg b) = ''i''"
proof -
  have "forwardable (sample_retained b)" by (simp add: forwardable_def sample_retained_def)
  then show "header_props alist_header (sample_store_msg b) = empty_props"
    by (simp add: header_props_def store_msg_fromNATS [OF alist_header_laws] fromNATS_toNATS [OF alist_header_laws]) (simp add: sample_retained_def)
  show "messageID alist_header (sample_store_msg b) = ''i''"
    by (simp add: messageID_def store_msg_def Let_def toNATS_def alist_header_def)
qed

definition sample_shown :: "u64 \<Rightarrow> bytes \<Rightarrow> retained" where
  "sample_shown q b = \<lparr>rt_ref = 0, rt_topicName = ''a'', rt_payload = b, rt_qos = 1, rt_props = Some empty_props, rt_stored = 0, rt_seq = q, rt_id = ''i''\<rparr>"

lemma sample_apply:
  "apply_msg alist_header 0 (sm_msg (sample_stored q [7])) (Some (sm_seq (sample_stored q [7]), sm_time (sample_stored q [7]))) sample_view =
    sample_view\<lparr>rs_byTopic := [(''a'', sample_shown q [7])], rs_alloc := 1\<rparr>"
proof -
  have "place sample_view ''a'' (m_Subject (sample_store_msg [7]))"
    using sample_topic(1) by (simp add: place_def sample_view_sel sample_message retainedSubject_def Prefix_def retainedMarker_def)
  from apply_at [OF this] show ?thesis
    by (simp add: sample_stored_def sample_message apply_message_def Let_def newRetained_def fromNATS_header case_prod_beta sample_props
        header_props_def [symmetric] sample_view_sel sample_shown_def)
qed

text \<open>Another broker stores the message, the consumer receives it and applies it.\<close>

lemma sample_received:
  assumes "js_view mem_stream (ms, q) ''mqtt.$retained.a'' = Some (sample_stored q [7])" "0 < q"
    and "\<And>sj m. js_view mem_stream (ms, q) sj = Some m \<Longrightarrow> sm_seq m = q"
  shows "(retain_step mem_stream alist_header)\<^sup>*\<^sup>* (sample_view, (ms, q), [], 0, tasks, False)
    (sample_view\<lparr>rs_byTopic := [(''a'', sample_shown q [7])], rs_alloc := 1\<rparr>, (ms, q), [], q, tasks, False)"
proof -
  have q: "sm_seq (sample_stored q [7]) = q" by (simp add: sample_stored_def)
  have "retain_step mem_stream alist_header (sample_view, (ms, q), [], 0, tasks, False) (sample_view, (ms, q), [] @ [sample_stored q [7]], sm_seq (sample_stored q [7]), tasks, False)"
    by (rule retain_step.retain_receive [OF assms(1)]) (use assms(2,3) q in auto)
  moreover have "retain_step mem_stream alist_header (sample_view, (ms, q), [sample_stored q [7]], q, tasks, False)
      (apply_msg alist_header 0 (sm_msg (sample_stored q [7])) (Some (sm_seq (sample_stored q [7]), sm_time (sample_stored q [7]))) sample_view,
       (ms, q), [], q, tasks, False)"
    by (rule retain_step.retain_apply)
  ultimately show ?thesis unfolding sample_apply by (simp add: q)
qed

theorem retained_view_complete_witness:
  "\<exists>r. filter (\<lambda>r. rt_topicName r = ''a'')
      (fst (retain_match mem_stream 9 ''a'' (sample_view\<lparr>rs_byTopic := [(''a'', sample_shown 1 [7])], rs_alloc := 1\<rparr>) ([sample_stored 1 [7]], 1))) =
      (if m_Data (sm_msg (sample_stored 1 [7])) = [] then [] else [r]) \<and>
    (m_Data (sm_msg (sample_stored 1 [7])) = [] \<or> entry_of alist_header ''a'' (sample_stored 1 [7]) r)"
proof (rule retained_view_complete [OF mem_stream_laws alist_header_laws, where subject = "''a''" and tasks = "{}" and rcv = 1])
  have v: "js_view mem_stream ([sample_stored 1 [7]], 1) sj = (if sj = ''mqtt.$retained.a'' then Some (sample_stored 1 [7]) else None)" for sj
    by (simp add: mem_stream_def mem_lookup_def sample_stored_def sample_message)
  show "retain_start mem_stream (sample_view, ([], 0), [], 0, {}, False)"
    by (simp add: retain_start_def view_in_def view_ok_def mem_stream_def mem_lookup_def sample_view_def)
  have "retain_step mem_stream alist_header (sample_view, ([], 0), [], 0, {}, False) (sample_view, ([sample_stored 1 [7]], 1), [], 0, {}, False)"
    by (rule retain_step.retain_other [where topic = "''a''" and msg = "sample_store_msg [7]" and res = "Inr 1"])
      (simp_all add: sample_topic sample_view_sel sample_message retainedSubject_def Prefix_def retainedMarker_def mem_stream_def sample_stored_def)
  moreover have "(retain_step mem_stream alist_header)\<^sup>*\<^sup>* (sample_view, ([sample_stored 1 [7]], 1), [], 0, {}, False)
      (sample_view\<lparr>rs_byTopic := [(''a'', sample_shown 1 [7])], rs_alloc := 1\<rparr>, ([sample_stored 1 [7]], 1), [], 1, {}, False)"
    by (rule sample_received) (auto simp: v sample_stored_seq split: if_splits)
  ultimately show "(retain_step mem_stream alist_header)\<^sup>*\<^sup>* (sample_view, ([], 0), [], 0, {}, False)
      (sample_view\<lparr>rs_byTopic := [(''a'', sample_shown 1 [7])], rs_alloc := 1\<rparr>, ([sample_stored 1 [7]], 1), [], 1, {}, False)"
    by (rule converse_rtranclp_into_rtranclp)
  show "\<forall>sj m. js_view mem_stream ([sample_stored 1 [7]], 1) sj = Some m \<longrightarrow> sm_seq m \<le> 1" by (simp add: v sample_stored_seq)
  show "codec_nameToSubject (rs_codec (sample_view\<lparr>rs_byTopic := [(''a'', sample_shown 1 [7])], rs_alloc := 1\<rparr>)) ''a'' = Inr ''a''"
    by (simp add: sample_view_sel sample_topic)
  show "js_view mem_stream ([sample_stored 1 [7]], 1)
      (retainedSubject (rs_prefix (sample_view\<lparr>rs_byTopic := [(''a'', sample_shown 1 [7])], rs_alloc := 1\<rparr>)) ''a'') = Some (sample_stored 1 [7])"
    by (simp add: v sample_view_sel retainedSubject_def Prefix_def retainedMarker_def)
  show "MessageExpiryInterval (header_props alist_header (sm_msg (sample_stored 1 [7]))) = None" by (simp add: sample_stored_def sample_props empty_props_def)
qed (rule sample_topic)

section \<open>A store that changes the view late\<close>

text \<open>A client of this broker clears the topic (sequence 1). Before its store takes the lock, another broker retains a message
  (sequence 2) and the consumer applies it. The store then removes it from the view: \<^verbatim>\<open>store\<close> does not compare sequences. The stream
  holds the message, the consumer has caught up, subscribers are sent nothing, and a full verification does not find it.\<close>

definition late_view :: retainedStore where
  "late_view = sample_view\<lparr>rs_tombstones := [(''a'', \<lparr>tb_seq = 1, tb_stored = 0\<rparr>)], rs_alloc := 1\<rparr>"

abbreviation late_world :: "(string, string list) gomap mem_world" where
  "late_world \<equiv> ([sample_stored 2 [7], sample_stored 1 []], 2)"

lemma late_store_hides:
  "(retain_step mem_stream alist_header)\<^sup>*\<^sup>* (sample_view, ([], 0), [], 0, {}, False) (late_view, late_world, [], 2, {}, True)"
  "js_view mem_stream late_world ''mqtt.$retained.a'' = Some (sample_stored 2 [7])"
  "fst (retain_match mem_stream 9 ''a'' late_view late_world) = []"
  "reconcile mem_stream alist_header 9 True late_view late_world = (True, late_view\<lparr>rs_tombstones := []\<rparr>, late_world)"
proof -
  have v: "js_view mem_stream late_world sj = (if sj = ''mqtt.$retained.a'' then Some (sample_stored 2 [7]) else None)" for sj
    by (simp add: mem_stream_def mem_lookup_def sample_stored_def sample_message)
  let ?f = "Finish ''a'' (sample_retained []) (sample_store_msg []) 1"
  have "retain_step mem_stream alist_header (sample_view, ([], 0), [], 0, {}, False) (sample_view, ([sample_stored 1 []], 1), [], 0, insert ?f {}, False)"
    by (rule retain_step.retain_acked [where topic = "''a''"])
      (simp_all add: sample_topic sample_view_sel mem_stream_def sample_stored_def sample_retained_def)
  moreover have "retain_step mem_stream alist_header (sample_view, ([sample_stored 1 []], 1), [], 0, {?f}, False) (sample_view, late_world, [], 0, {?f}, False)"
    by (rule retain_step.retain_other [where topic = "''a''" and msg = "sample_store_msg [7]" and res = "Inr 2"])
      (simp_all add: sample_topic sample_view_sel sample_message retainedSubject_def Prefix_def retainedMarker_def mem_stream_def sample_stored_def)
  moreover have "(retain_step mem_stream alist_header)\<^sup>*\<^sup>* (sample_view, late_world, [], 0, {?f}, False)
      (sample_view\<lparr>rs_byTopic := [(''a'', sample_shown 2 [7])], rs_alloc := 1\<rparr>, late_world, [], 2, {?f}, False)"
    by (rule sample_received) (auto simp: v sample_stored_seq split: if_splits)
  moreover have "retain_step mem_stream alist_header
      (sample_view\<lparr>rs_byTopic := [(''a'', sample_shown 2 [7])], rs_alloc := 1\<rparr>, late_world, [], 2, {?f}, False) (late_view, late_world, [], 2, {}, True)"
  proof -
    let ?rs = "sample_view\<lparr>rs_byTopic := [(''a'', sample_shown 2 [7])], rs_alloc := 1\<rparr>"
    have "store_finish alist_header 0 ''a'' (sample_retained []) (sample_store_msg []) 1 ?rs = late_view"
      by (simp add: store_finish_def sample_view_sel sample_topic sample_retained_def late_view_def)
    moreover have "overtaken_view 1 (codec_subjectToName (rs_codec ?rs) ''a'') ?rs"
      by (simp add: overtaken_view_def sample_view_sel sample_topic sample_shown_def)
    ultimately show ?thesis
      using retain_step.retain_finish [of "''a''" "sample_retained []" "sample_store_msg []" 1 "{?f}" mem_stream alist_header ?rs late_world "[]" 2 False 0] by simp
  qed
  ultimately show "(retain_step mem_stream alist_header)\<^sup>*\<^sup>* (sample_view, ([], 0), [], 0, {}, False) (late_view, late_world, [], 2, {}, True)"
    by (meson converse_rtranclp_into_rtranclp rtranclp.rtrancl_into_rtrancl)
  show "js_view mem_stream late_world ''mqtt.$retained.a'' = Some (sample_stored 2 [7])" by (simp add: v)
  show "fst (retain_match mem_stream 9 ''a'' late_view late_world) = []" by (simp add: retain_match_def late_view_def sample_view_sel)
  have "js_GetMsg mem_stream 1 late_world = (Inl ErrMsgNotFound, late_world)"
    by (simp add: mem_stream_def mem_lookup_def sample_stored_def sample_message)
  moreover have "js_Msgs mem_stream late_world = (Inr 2, late_world)" by (simp add: mem_stream_def)
  ultimately show "reconcile mem_stream alist_header 9 True late_view late_world = (True, late_view\<lparr>rs_tombstones := []\<rparr>, late_world)"
    by (simp add: reconcile_def late_view_def sample_view_sel forget_tombstone_def)
qed

section \<open>Verification leaves no message the stream has dropped\<close>

definition reads_answered :: "('h, 'w, 'a) stream_ops_scheme \<Rightarrow> bool" where
  "reads_answered J \<longleftrightarrow> (\<forall>q w e w'. js_GetMsg J q w = (Inl e, w') \<longrightarrow> e = ErrMsgNotFound) \<and>
    (\<forall>sj w e w'. js_GetLastMsgForSubject J sj w = (Inl e, w') \<longrightarrow> e = ErrMsgNotFound)"

text \<open>An entry of the view is one the stream holds, one without a sequence, or one that is still to be looked up.\<close>

definition entries_held :: "('h, 'w, 'a) stream_ops_scheme \<Rightarrow> 'w \<Rightarrow> retained list \<Rightarrow> retainedStore \<Rightarrow> bool" where
  "entries_held J w es rs \<longleftrightarrow> (\<forall>topic r. get (rs_byTopic rs) topic = Some r \<longrightarrow>
     rt_topicName r = topic \<and> (\<exists>subject. codec_nameToSubject (rs_codec rs) topic = Inr subject) \<and> (r \<in> set es \<or> rt_seq r = 0 \<or> holds J w (rt_seq r)))"

lemma settle_held:
  assumes "stream_laws J" "reads_answered J" "entries_held J w (r # es) rs" "check_entry J r rs w = (v, w')"
  shows "entries_held J w' es (settle_entry H now r v rs)"
proof -
  note k = check_entry_gone [OF assms(1,4)]
  have keep: "holds J w (rt_seq r)" if v: "v = KeepEntry" "get (rs_byTopic rs) (rt_topicName r) = Some r"
  proof -
    obtain g w1 where g: "js_GetMsg J (rt_seq r) w = (g, w1)" by fastforce
    obtain subject where s: "codec_nameToSubject (rs_codec rs) (rt_topicName r) = Inr subject"
      using assms(3) v(2) unfolding entries_held_def by blast
    obtain l w2 where l: "js_GetLastMsgForSubject J (retainedSubject (rs_prefix rs) subject) w1 = (l, w2)" by fastforce
    have "e = ErrMsgNotFound" if "l = Inl e" for e using assms(2) l that unfolding reads_answered_def by blast
    then have "g \<noteq> Inl ErrMsgNotFound"
      using v(1) assms(4) g s l by (auto simp: check_entry_def split: sum.splits if_splits)
    moreover have "e = ErrMsgNotFound" if "g = Inl e" for e using assms(2) g that unfolding reads_answered_def by blast
    ultimately have "\<exists>m. g = Inr m" by (cases g) auto
    then show ?thesis using getmsg_kept(3) [OF assms(1) g] by blast
  qed
  have put: "holds J w (sm_seq m)" if "v = PutEntry m" for m using k(3) [OF that] by (auto simp: holds_def)
  have old: "rt_topicName x = t" "\<exists>subject. codec_nameToSubject (rs_codec rs) t = Inr subject" "x = r \<or> x \<in> set es \<or> rt_seq x = 0 \<or> holds J w (rt_seq x)"
    if "get (rs_byTopic rs) t = Some x" for t x using assms(3) that unfolding entries_held_def by auto
  have codec: "rs_codec (settle_entry H now r v rs) = rs_codec rs"
    by (cases v) (simp_all add: settle_entry_def put_entry_def drop_entry_def)
  show ?thesis
    unfolding entries_held_def kept_holds [OF k(1)] codec
  proof (intro allI impI)
    fix t x
    assume x: "get (rs_byTopic (settle_entry H now r v rs)) t = Some x"
    consider "get (rs_byTopic rs) t = Some x" "\<not> (v \<noteq> KeepEntry \<and> is_entry r rs \<and> t = rt_topicName r)"
      | m where "v = PutEntry m" "is_entry r rs" "t = rt_topicName r" "rt_topicName x = t" "rt_seq x = sm_seq m"
      using x by (cases v) (auto simp: settle_entry_def put_entry_def drop_entry_def newRetained_sel split: if_splits)
    then show "rt_topicName x = t \<and> (\<exists>subject. codec_nameToSubject (rs_codec rs) t = Inr subject) \<and> (x \<in> set es \<or> rt_seq x = 0 \<or> holds J w (rt_seq x))"
    proof cases
      case 1
      have "holds J w (rt_seq x)" if "x = r"
      proof -
        have t: "t = rt_topicName r" using old(1) [OF 1(1)] that by simp
        then have "is_entry r rs" using 1(1) that by (simp add: is_entry_def)
        then show ?thesis using keep 1 t that by blast
      qed
      then show ?thesis using old [OF 1(1)] by blast
    next
      case 2
      obtain y where "get (rs_byTopic rs) t = Some y" using 2(2,3) by (auto simp: is_entry_def split: option.splits)
      then show ?thesis using old(2) put [OF 2(1)] 2(4,5) by auto
    qed
  qed
qed

lemma reconcile_entries_held:
  assumes "stream_laws J" "reads_answered J"
  shows "entries_held J w es rs \<Longrightarrow> reconcile_entries J H now es rs w = (rs', w') \<Longrightarrow> entries_held J w' [] rs' \<and> kept J w w'"
proof (induction es arbitrary: rs w)
  case Nil
  then show ?case by (simp add: kept_def)
next
  case (Cons r es)
  obtain v w1 where c: "check_entry J r rs w = (v, w1)" by fastforce
  have "reconcile_entries J H now es (settle_entry H now r v rs) w1 = (rs', w')" using Cons(3) c by simp
  from Cons(1) [OF settle_held [OF assms Cons(2) c] this] show ?case using kept_trans [OF check_entry_gone(1) [OF assms(1) c]] by blast
qed

lemma reconcile_tombstones_kept:
  assumes "stream_laws J"
  shows "reconcile_tombstones J ts rs w = (rs', w') \<Longrightarrow> rs_byTopic rs' = rs_byTopic rs \<and> kept J w w'"
proof (induction ts arbitrary: rs w)
  case (Cons e ts)
  obtain topic t where e: "e = (topic, t)" by (cases e)
  obtain g w1 where g: "js_GetMsg J (tb_seq t) w = (g, w1)" by fastforce
  have "reconcile_tombstones J ts (if g = Inl ErrMsgNotFound then forget_tombstone topic t rs else rs) w1 = (rs', w')"
    using Cons(2) g by (simp add: e)
  from Cons(1) [OF this] show ?case using kept_trans [OF getmsg_kept(1) [OF assms g]] by (auto simp: forget_tombstone_def split: if_splits)
qed (simp add: kept_def)

text \<open>C37: After a full verification in which the stream answered, the view holds no retained message the stream has dropped: every
  entry with a sequence (of a topic that has a subject) is one the stream holds, and the stream is unchanged.\<close>

theorem verified_view_sound:
  assumes "stream_laws J" "reads_answered J" "reconcile J H now True rs w = (True, rs', w')" "wf_map (rs_byTopic rs)"
    and "\<forall>topic r. get (rs_byTopic rs) topic = Some r \<longrightarrow> rt_topicName r = topic \<and> (\<exists>subject. codec_nameToSubject (rs_codec rs) topic = Inr subject)"
    and "get (rs_byTopic rs') topic = Some r" "rt_seq r \<noteq> 0"
  shows "holds J w (rt_seq r) \<and> js_view J w' = js_view J w"
proof -
  let ?es = "filter (\<lambda>r. rt_seq r \<noteq> 0) (map snd (rs_byTopic rs))"
  have "length (rs_byTopic rs) + length (rs_tombstones rs) \<noteq> 0" using assms(3,6) by (auto simp: reconcile_def)
  then obtain msgs w1 rs1 w2 where r: "js_Msgs J w = (Inr msgs, w1)" "reconcile_entries J H now ?es rs w1 = (rs1, w2)"
    "reconcile_tombstones J (rs_tombstones rs1) rs1 w2 = (rs', w')"
    using assms(3) by (auto simp: reconcile_def Let_def split: prod.splits sum.splits)
  have "msgs_law J w" using assms(1) by (simp add: stream_laws_def)
  then have k: "kept J w w1" using r(1) by (simp add: msgs_law_def)
  have "x \<in> set ?es \<or> rt_seq x = 0" if "get (rs_byTopic rs) t = Some x" for t x
    using map_of_SomeD [OF that] by force
  then have "entries_held J w1 ?es rs" using assms(5) unfolding entries_held_def by blast
  note e = reconcile_entries_held [OF assms(1,2) this r(2)]
  note t = reconcile_tombstones_kept [OF assms(1) r(3)]
  have "holds J w2 (rt_seq r)" using e t assms(6,7) unfolding entries_held_def by auto
  moreover have "kept J w w2" using e kept_trans [OF k] by blast
  moreover have "kept J w w'" using t kept_trans [OF \<open>kept J w w2\<close>] by blast
  ultimately show ?thesis by (simp add: kept_holds) (simp add: kept_def)
qed

definition stale_view :: retainedStore where
  "stale_view = sample_view\<lparr>rs_byTopic := [(''a'', sample_shown 1 [7])], rs_alloc := 1\<rparr>"

theorem verified_view_sound_witness:
  "holds mem_stream ([sample_stored 2 [8]], 2) (rt_seq ((sample_shown 2 [8])\<lparr>rt_ref := 1\<rparr>)) \<and>
    js_view mem_stream ([sample_stored 2 [8]], 2) = js_view mem_stream ([sample_stored 2 [8]], 2)"
proof (rule verified_view_sound [OF mem_stream_laws, where rs = stale_view and H = alist_header and now = 9 and topic = "''a''"
      and rs' = "stale_view\<lparr>rs_byTopic := [(''a'', (sample_shown 2 [8])\<lparr>rt_ref := 1\<rparr>)], rs_alloc := 2\<rparr>"])
  let ?w = "([sample_stored 2 [8]], 2 :: u64)"
  have l: "mem_lookup ?w ''mqtt.$retained.a'' = Some (sample_stored 2 [8])" by (simp add: mem_lookup_def sample_stored_def sample_message)
  have "js_GetMsg mem_stream 1 ?w = (Inl ErrMsgNotFound, ?w)" by (simp add: mem_stream_def sample_stored_def)
  moreover have "js_GetLastMsgForSubject mem_stream ''mqtt.$retained.a'' ?w = (Inr (sample_stored 2 [8]), ?w)" by (simp add: mem_stream_def l)
  moreover have "js_Msgs mem_stream ?w = (Inr 1, ?w)" by (simp add: mem_stream_def)
  ultimately show "reconcile mem_stream alist_header 9 True stale_view ?w =
      (True, stale_view\<lparr>rs_byTopic := [(''a'', (sample_shown 2 [8])\<lparr>rt_ref := 1\<rparr>)], rs_alloc := 2\<rparr>, ?w)"
    by (simp add: reconcile_def stale_view_def sample_view_sel sample_shown_def check_entry_def sample_topic retainedSubject_def Prefix_def
        retainedMarker_def sample_stored_def sample_message settle_entry_def put_entry_def is_entry_def newRetained_def fromNATS_header
        case_prod_beta sample_props header_props_def [symmetric])
  show "reads_answered (mem_stream :: ((string, string list) gomap, (string, string list) gomap mem_world) stream_ops)"
    by (auto simp: reads_answered_def mem_stream_def split: option.splits)
qed (simp_all add: stale_view_def sample_view_sel sample_shown_def sample_topic wf_map_def)

end
