(* ===== verification/Inbound.thy ===== *)
theory Inbound
  imports Conn_Write Retain Cursor Replay_Filters
begin

text \<open>
  A PUBLISH from a client and the release of a QoS 2 one: \<^verbatim>\<open>handlePublish\<close> and \<^verbatim>\<open>handlePubrel\<close> of \<^verbatim>\<open>src/publish.go\<close>, with
  \<^verbatim>\<open>resolveAlias\<close>, \<^verbatim>\<open>rejectPublish\<close>, the offline queue's \<^verbatim>\<open>keep\<close> (\<^verbatim>\<open>src/offline.go\<close>) and \<^verbatim>\<open>publishWillFor\<close>. NATS is the parameter
  \<open>nats_ops\<close>: JetStream as in \<open>stream_ops\<close>, and the client's publish and flush. The text of a Reason String is an argument. A call to
  \<^verbatim>\<open>checkpointNow\<close> is returned, with how many packets the connection had written before it. The functions tests can set between two
  calls (\<^verbatim>\<open>publishQueuedGate\<close> and the like) are nil in a broker and left out.
\<close>

section \<open>NATS\<close>

record ('h, 'w) nats_ops = "('h, 'w) stream_ops" +
  nc_PublishMsg :: "'h nats_msg \<Rightarrow> 'w \<Rightarrow> bool \<times> 'w"
  nc_IsConnected :: "'w \<Rightarrow> bool"
  nc_Reconnects :: "'w \<Rightarrow> u64"
  nc_Flush :: "'w \<Rightarrow> bool \<times> 'w"
  w_stored :: "'w \<Rightarrow> (u64 \<times> 'h nats_msg) list"
  w_live :: "'w \<Rightarrow> 'h nats_msg list"

definition MsgIDHeader :: string where
  "MsgIDHeader = ''Nats-Msg-Id''"

definition jsMsgID :: "'h header_ops \<Rightarrow> 'h nats_msg \<Rightarrow> string" where
  "jsMsgID H msg = (case m_Header msg of None \<Rightarrow> [] | Some h \<Rightarrow> h_Get H h MsgIDHeader)"

text \<open>
  What NATS promises of a publish. \<open>w_stored\<close> is what JetStream has stored and \<open>w_live\<close> what has been published live, in order. A
  message JetStream acknowledged is stored, or it has the \<^verbatim>\<open>Nats-Msg-Id\<close> of one that is. A live publish that returned no error has been
  handed to the connection; one that returned an error has not. An acknowledgement that did not come says nothing.
\<close>

definition js_publish_law :: "'h header_ops \<Rightarrow> ('h, 'w) nats_ops \<Rightarrow> 'h nats_msg \<Rightarrow> 'w \<Rightarrow> bool" where
  "js_publish_law H N msg w \<longleftrightarrow>
    (case js_PublishMsg N msg w of (res, w') \<Rightarrow>
       w_live N w' = w_live N w \<and> set (w_stored N w) \<subseteq> set (w_stored N w') \<and>
       (\<forall>q. res = Inr q \<longrightarrow> (\<exists>msg'. (q, msg') \<in> set (w_stored N w') \<and> (msg' = msg \<or> jsMsgID H msg \<noteq> [] \<and> jsMsgID H msg' = jsMsgID H msg))))"

definition nc_publish_law :: "('h, 'w) nats_ops \<Rightarrow> 'h nats_msg \<Rightarrow> 'w \<Rightarrow> bool" where
  "nc_publish_law N msg w \<longleftrightarrow>
    (case nc_PublishMsg N msg w of (ok, w') \<Rightarrow>
       w_stored N w' = w_stored N w \<and> w_live N w' = w_live N w @ (if ok then [msg] else []))"

definition flush_law :: "('h, 'w) nats_ops \<Rightarrow> 'w \<Rightarrow> bool" where
  "flush_law N w \<longleftrightarrow> w_stored N (snd (nc_Flush N w)) = w_stored N w \<and> w_live N (snd (nc_Flush N w)) = w_live N w"

definition nats_laws :: "'h header_ops \<Rightarrow> ('h, 'w) nats_ops \<Rightarrow> bool" where
  "nats_laws H N \<longleftrightarrow> (\<forall>msg w. js_publish_law H N msg w) \<and> (\<forall>msg w. nc_publish_law N msg w) \<and> (\<forall>w. flush_law N w)"

section \<open>State\<close>

record conn_in = conn_write +
  ci_aliases :: "(u16, string) gomap"
  ci_topicAliasMax :: u16
  ci_receiveMax :: u16
  ci_openQoS2 :: "(u16, unit) gomap"
  ci_requestProblemInfo :: bool

text \<open>What the broker holds: its retained messages and its offline queue (the highest sequence seen), each may be nil.\<close>

record broker_in =
  bi_retain :: "retainedStore option"
  bi_queue :: "u64 option"

datatype conn_call = CheckpointNow nat

text \<open>What a call draws from outside: whether the socket takes the packet it writes, the random ids of \<^verbatim>\<open>newMessageID\<close> (its own and
  those of the two \<^verbatim>\<open>toNATS\<close> calls), the time, and the text of the reason.\<close>

record pub_in =
  pi_ok :: bool
  pi_id :: string
  pi_mid :: string
  pi_midRetained :: string
  pi_now :: time
  pi_why :: string

type_synonym ('a, 'w) in_state = "conn_in \<times> 'a session_flow_scheme \<times> broker_in \<times> 'w \<times> conn_call list"

type_synonym ('a, 'w) in_result = "go_error option \<times> ('a, 'w) in_state"

section \<open>Helpers\<close>

definition hasWildcard :: "string \<Rightarrow> bool" where
  "hasWildcard responseTopic = contains_any responseTopic {CHR ''+'', CHR ''#''}"

definition resolveAlias :: "pub_in \<Rightarrow> publish \<Rightarrow> conn_in \<Rightarrow> string res \<times> conn_in" where
  "resolveAlias I p c =
    (case Option.bind (pb_Properties p) TopicAlias of
       None \<Rightarrow> (Inr (pb_Topic p), c)
     | Some alias \<Rightarrow>
         if ci_topicAliasMax c < alias then (Inl ErrHandler, sendDisconnect (pi_ok I) TopicAliasInvalid (pi_why I) c)
         else if pb_Topic p \<noteq> [] then (Inr (pb_Topic p), c\<lparr>ci_aliases := AList.update alias (pb_Topic p) (ci_aliases c)\<rparr>)
         else case get (ci_aliases c) alias of
           None \<Rightarrow> (Inl ErrHandler, sendDisconnect (pi_ok I) TopicAliasInvalid (pi_why I) c)
         | Some topic \<Rightarrow> (Inr topic, c))"

definition plain_ack :: "u16 \<Rightarrow> ReasonCode \<Rightarrow> ack" where
  "plain_ack i code = \<lparr>ak_PacketID = i, ak_ReasonCode = code, ak_Properties = None\<rparr>"

definition rejectPublish :: "pub_in \<Rightarrow> publish \<Rightarrow> ReasonCode \<Rightarrow> string \<Rightarrow> ('a, 'w) in_state \<Rightarrow> ('a, 'w) in_result" where
  "rejectPublish I p code reason = (\<lambda>(c, s, b, w, calls).
    let reason = (if \<not> ci_requestProblemInfo c then [] else reason);
        props = (if reason \<noteq> [] then Some (empty_props\<lparr>ReasonString := reason\<rparr>) else None);
        a = (plain_ack (pb_PacketID p) code)\<lparr>ak_Properties := props\<rparr>
    in
    if pb_QoS p = QoS0 then (None, c, s, b, w, calls)
    else if pb_QoS p = QoS1 then let (err, c) = conn_write_op (pi_ok I) (Puback a) c in (err, c, s, b, w, calls)
    else
      let s = snd (releaseQoS2 (pb_PacketID p) s);
          c = c\<lparr>ci_openQoS2 := AList.delete (pb_PacketID p) (ci_openQoS2 c)\<rparr>;
          (err, c) = conn_write_op (pi_ok I) (Pubrec a) c
      in (err, c, s, b, w, calls))"

definition hdrQueued :: string where
  "hdrQueued = ''Mqtt5-Queued''"

definition set_header :: "'h header_ops \<Rightarrow> string \<Rightarrow> string \<Rightarrow> 'h nats_msg \<Rightarrow> 'h nats_msg" where
  "set_header H k v msg = msg\<lparr>m_Header := map_option (h_Set H k v) (m_Header msg)\<rparr>"

text \<open>The error, the live message with what \<^verbatim>\<open>keep\<close> wrote on it, and the highest sequence seen.\<close>

definition queue_keep :: "'h header_ops \<Rightarrow> ('h, 'w) nats_ops \<Rightarrow> string \<Rightarrow> string \<Rightarrow> 'h nats_msg \<Rightarrow> u64 \<Rightarrow> 'w \<Rightarrow> js_error option \<times> 'h nats_msg \<times> u64 \<times> 'w" where
  "queue_keep H N pre subject msg seen w =
    (let msg = set_header H hdrQueued ''1'' msg in
     case js_PublishMsg N (msg\<lparr>m_Subject := queuedSubject pre subject\<rparr>) w of
       (Inl e, w) \<Rightarrow> (Some e, msg, seen, w)
     | (Inr q, w) \<Rightarrow> (None, set_header H hdrQueueSeq (FormatUint (unat q)) msg, saw q seen, w))"

definition pub_message :: "broker_opts \<Rightarrow> 'h header_ops \<Rightarrow> pub_in \<Rightarrow> string \<Rightarrow> string \<Rightarrow> string \<Rightarrow> bool \<Rightarrow> publish \<Rightarrow> 'h nats_msg" where
  "pub_message B H I full clientID ident dedupe p =
    (let msg = set_header H hdrMsgID ident (toNATS H (pi_mid I) full clientID p);
         msg = (if dedupe then set_header H MsgIDHeader ident msg else msg)
     in if bo_PublisherClockExpiry B \<and> Option.bind (pb_Properties p) MessageExpiryInterval \<noteq> None
        then set_header H hdrPublishedAt (FormatInt (pi_now I)) msg else msg)"

definition pub_request :: "'a session_flow_scheme \<Rightarrow> string \<Rightarrow> publish \<Rightarrow> AuthzRequest" where
  "pub_request s topic p = \<lparr>az_Action = ActionPublish, az_Resume = False, az_Will = False, az_ClientID = s_clientID s,
     az_Identity = s_identity s, az_Username = s_username s, az_Topic = topic, az_QoS = pb_QoS p, az_Retain = pb_Retain p\<rparr>"

section \<open>Forwarding\<close>

text \<open>The live publish, and with \<^verbatim>\<open>DurablePublish\<close> the wait until the server has it.\<close>

definition publish_live :: "broker_opts \<Rightarrow> ('h, 'w) nats_ops \<Rightarrow> publish \<Rightarrow> 'h nats_msg \<Rightarrow> 'w \<Rightarrow> bool \<times> 'w" where
  "publish_live B N p msg w =
    (let connected = nc_IsConnected N w; reconnects = nc_Reconnects N w in
     case nc_PublishMsg N msg w of
       (ok, w) \<Rightarrow>
         if \<not> ok then (False, w)
         else if bo_DurablePublish B \<and> QoS0 < pb_QoS p then
           (case nc_Flush N w of
              (ok, w) \<Rightarrow> if \<not> ok then (False, w) else (\<not> (connected \<and> nc_Reconnects N w \<noteq> reconnects), w))
         else (True, w))"

definition acknowledge :: "pub_in \<Rightarrow> publish \<Rightarrow> bool \<Rightarrow> ('a, 'w) in_state \<Rightarrow> ('a, 'w) in_result" where
  "acknowledge I p dedupe = (\<lambda>(c, s, b, w, calls).
    let s = (if dedupe then s\<lparr>s_publishIDs := id_done (pb_PacketID p) (s_publishIDs s)\<rparr> else s) in
    if pb_QoS p = QoS0 then (None, c, s, b, w, calls)
    else if pb_QoS p = QoS1 then
      let (err, c) = conn_write_op (pi_ok I) (Puback (plain_ack (pb_PacketID p) Success)) c in (err, c, s, b, w, calls)
    else
      let s = qos2Forwarded (pb_PacketID p) s;
          calls = calls @ [CheckpointNow (length (c_wire c))];
          (err, c) = conn_write_op (pi_ok I) (Pubrec (plain_ack (pb_PacketID p) Success)) c
      in (err, c, s, b, w, calls))"

text \<open>From the live publish on; before it the queue's copy; before that the retained one.\<close>

definition publish_then_ack :: "broker_opts \<Rightarrow> ('h, 'w) nats_ops \<Rightarrow> pub_in \<Rightarrow> publish \<Rightarrow> bool \<Rightarrow> 'h nats_msg \<Rightarrow> ('a, 'w) in_state \<Rightarrow> ('a, 'w) in_result" where
  "publish_then_ack B N I p dedupe msg = (\<lambda>(c, s, b, w, calls).
    case publish_live B N p msg w of
      (ok, w) \<Rightarrow>
        if \<not> ok then rejectPublish I p ImplementationSpecificError (pi_why I) (c, s, b, w, calls)
        else acknowledge I p dedupe (c, s, b, w, calls))"

definition queue_then_publish :: "broker_opts \<Rightarrow> 'h header_ops \<Rightarrow> ('h, 'w) nats_ops \<Rightarrow> pub_in \<Rightarrow> publish \<Rightarrow> string \<Rightarrow> bool \<Rightarrow> 'h nats_msg \<Rightarrow>
    ('a, 'w) in_state \<Rightarrow> ('a, 'w) in_result" where
  "queue_then_publish B H N I p subject dedupe msg = (\<lambda>(c, s, b, w, calls).
    case bi_queue b of
      Some seen \<Rightarrow>
        if QoS0 < pb_QoS p then
          (case queue_keep H N (bo_SubjectPrefix B) subject msg seen w of
             (Some _, msg, seen, w) \<Rightarrow> rejectPublish I p ImplementationSpecificError (pi_why I) (c, s, b, w, calls)
           | (None, msg, seen, w) \<Rightarrow> publish_then_ack B N I p dedupe msg (c, s, b\<lparr>bi_queue := Some seen\<rparr>, w, calls))
        else publish_then_ack B N I p dedupe msg (c, s, b, w, calls)
    | None \<Rightarrow> publish_then_ack B N I p dedupe msg (c, s, b, w, calls))"

definition forward_publish :: "(bytes \<Rightarrow> bytes) \<Rightarrow> broker_opts \<Rightarrow> 'h header_ops \<Rightarrow> ('h, 'w) nats_ops \<Rightarrow> pub_in \<Rightarrow> publish \<Rightarrow> string \<Rightarrow> string \<Rightarrow>
    ('a, 'w) in_state \<Rightarrow> ('a, 'w) in_result" where
  "forward_publish sha B H N I p topic subject = (\<lambda>(c, s, b, w, calls).
    let full = Prefix (bo_SubjectPrefix B) subject;
        dedupe = (bo_DurablePublishDedupe B \<and> QoS0 < pb_QoS p);
        (ident, ids) = (if dedupe then idFor sha (pb_PacketID p) (pb_Dup p) topic (pb_Payload p) (pi_id I) (s_publishIDs s) else (pi_id I, s_publishIDs s));
        s = s\<lparr>s_publishIDs := ids\<rparr>;
        msg = pub_message B H I full (s_clientID s) ident dedupe p
    in
    if pb_Retain p then
      (case bi_retain b of
         None \<Rightarrow> (Some Panic, c, s, b, w, calls)
       | Some rs \<Rightarrow>
           (case retain_store N H (pi_midRetained I) (pi_now I) subject (s_clientID s) ident p rs w of
              (Some _, rs, w) \<Rightarrow> rejectPublish I p UnspecifiedError (pi_why I) (c, s, b, w, calls)
            | (None, rs, w) \<Rightarrow> queue_then_publish B H N I p subject dedupe msg (c, s, b\<lparr>bi_retain := Some rs\<rparr>, w, calls)))
    else queue_then_publish B H N I p subject dedupe msg (c, s, b, w, calls))"

section \<open>The handlers\<close>

text \<open>Before the Receive Maximum: what is wrong with the packet, with the reason code of the DISCONNECT.\<close>

definition publish_fault :: "broker_opts \<Rightarrow> broker_in \<Rightarrow> publish \<Rightarrow> ReasonCode option" where
  "publish_fault B b p =
    (if \<exists>props. pb_Properties p = Some props \<and> SubscriptionIdentifiers props \<noteq> [] then Some ProtocolError
     else if bo_maxQoS B < pb_QoS p then Some QoSNotSupported
     else if pb_Retain p \<and> bi_retain b = None then Some RetainNotSupported
     else if \<exists>props. pb_Properties p = Some props \<and> hasWildcard (ResponseTopic props) then Some ProtocolError
     else None)"

text \<open>From the duplicate check on, with the topic resolved and valid.\<close>

definition accept_publish :: "(bytes \<Rightarrow> bytes) \<Rightarrow> broker_opts \<Rightarrow> authorizer \<Rightarrow> 'h header_ops \<Rightarrow> ('h, 'w) nats_ops \<Rightarrow> pub_in \<Rightarrow> publish \<Rightarrow> string \<Rightarrow>
    ('a, 'w) in_state \<Rightarrow> ('a, 'w) in_result" where
  "accept_publish sha B authz H N I p topic = (\<lambda>(c, s, b, w, calls).
    let (dup, s) = (if pb_QoS p = QoS2 then markQoS2Received (pb_PacketID p) s else (False, s)) in
    if dup then let (err, c) = conn_write_op (pi_ok I) (Pubrec (plain_ack (pb_PacketID p) Success)) c in (err, c, s, b, w, calls)
    else case authorize authz (pub_request s topic p) of
      Unavailable \<Rightarrow> rejectPublish I p ImplementationSpecificError [] (c, s, b, w, calls)
    | Deny \<Rightarrow> rejectPublish I p NotAuthorized [] (c, s, b, w, calls)
    | Allow \<Rightarrow>
        (case codec_nameToSubject (bo_codec B) topic of
           Inl _ \<Rightarrow> rejectPublish I p TopicNameInvalid (pi_why I) (c, s, b, w, calls)
         | Inr subject \<Rightarrow> forward_publish sha B H N I p topic subject (c, s, b, w, calls)))"

definition handlePublish :: "(bytes \<Rightarrow> bytes) \<Rightarrow> broker_opts \<Rightarrow> authorizer \<Rightarrow> 'h header_ops \<Rightarrow> ('h, 'w) nats_ops \<Rightarrow> pub_in \<Rightarrow> publish \<Rightarrow>
    ('a, 'w) in_state \<Rightarrow> ('a, 'w) in_result" where
  "handlePublish sha B authz H N I p = (\<lambda>(c, s, b, w, calls).
    case publish_fault B b p of
      Some code \<Rightarrow> (Some ErrHandler, sendDisconnect (pi_ok I) code (pi_why I) c, s, b, w, calls)
    | None \<Rightarrow>
        (case resolveAlias I p c of
           (Inl e, c) \<Rightarrow> (Some e, c, s, b, w, calls)
         | (Inr topic, c) \<Rightarrow>
             if codec_validateName (bo_codec B) topic \<noteq> Inr () then rejectPublish I p TopicNameInvalid (pi_why I) (c, s, b, w, calls)
             else if bo_RestrictDollarTopics B \<and> dollarName topic then rejectPublish I p TopicNameInvalid (pi_why I) (c, s, b, w, calls)
             else if pb_QoS p = QoS2 \<and> get (ci_openQoS2 c) (pb_PacketID p) = None then
               (if unat (ci_receiveMax c) \<le> length (ci_openQoS2 c) then
                  (Some ErrHandler, sendDisconnect (pi_ok I) ReceiveMaximumExceeded (pi_why I) c, s, b, w, calls)
                else accept_publish sha B authz H N I p topic
                  (c\<lparr>ci_openQoS2 := AList.update (pb_PacketID p) () (ci_openQoS2 c)\<rparr>, s, b, w, calls))
             else accept_publish sha B authz H N I p topic (c, s, b, w, calls)))"

definition handlePubrel :: "pub_in \<Rightarrow> ack \<Rightarrow> ('a, 'w) in_state \<Rightarrow> ('a, 'w) in_result" where
  "handlePubrel I a = (\<lambda>(c, s, b, w, calls).
    let c = c\<lparr>ci_openQoS2 := AList.delete (ak_PacketID a) (ci_openQoS2 c)\<rparr>;
        (found, s) = releaseQoS2 (ak_PacketID a) s;
        code = (if found then Success else PacketIdentifierNotFound);
        calls = calls @ [CheckpointNow (length (c_wire c))];
        (err, c) = conn_write_op (pi_ok I) (Pubcomp (plain_ack (ak_PacketID a) code)) c
    in (err, c, s, b, w, calls))"

section \<open>A Will\<close>

definition willKeepAttempts :: nat where
  "willKeepAttempts = 3"

text \<open>\<open>keepWill\<close>: a try that failed leaves its mark on the message's header, as \<^verbatim>\<open>keep\<close> does.\<close>

fun keepWill :: "nat \<Rightarrow> 'h header_ops \<Rightarrow> ('h, 'w) nats_ops \<Rightarrow> string \<Rightarrow> string \<Rightarrow> 'h nats_msg \<Rightarrow> u64 \<Rightarrow> 'w \<Rightarrow> js_error option \<times> 'h nats_msg \<times> u64 \<times> 'w" where
  "keepWill 0 H N pre subject msg seen w = (None, msg, seen, w)"
| "keepWill (Suc n) H N pre subject msg seen w =
    (case queue_keep H N pre subject msg seen w of
       (None, msg, seen, w) \<Rightarrow> (None, msg, seen, w)
     | (Some e, msg, seen, w) \<Rightarrow> if n = 0 then (Some e, msg, seen, w) else keepWill n H N pre subject msg seen w)"

definition will_publish :: "will \<Rightarrow> publish" where
  "will_publish will = \<lparr>pb_Dup = False, pb_QoS = wl_QoS will, pb_Retain = wl_Retain will, pb_Topic = wl_Topic will, pb_PacketID = 0,
     pb_Properties = willProperties will, pb_Payload = wl_Payload will\<rparr>"

definition publishWillFor :: "broker_opts \<Rightarrow> 'h header_ops \<Rightarrow> ('h, 'w) nats_ops \<Rightarrow> pub_in \<Rightarrow> string \<Rightarrow> will \<Rightarrow> broker_in \<Rightarrow> 'w \<Rightarrow> broker_in \<times> 'w" where
  "publishWillFor B H N I clientID will b w =
    (case codec_nameToSubject (bo_codec B) (wl_Topic will) of
       Inl _ \<Rightarrow> (b, w)
     | Inr subject \<Rightarrow>
         let p = will_publish will;
             (b, w) = (case bi_retain b of
                None \<Rightarrow> (b, w)
              | Some rs \<Rightarrow>
                  if wl_Retain will then
                    (let (_, rs, w) = retain_store N H (pi_midRetained I) (pi_now I) subject clientID (pi_id I) p rs w in (b\<lparr>bi_retain := Some rs\<rparr>, w))
                  else (b, w));
             msg = set_header H hdrMsgID (pi_id I) (toNATS H (pi_mid I) (Prefix (bo_SubjectPrefix B) subject) clientID p);
             (msg, b, w) = (case bi_queue b of
                None \<Rightarrow> (msg, b, w)
              | Some seen \<Rightarrow>
                  if QoS0 < pb_QoS p then
                    (let (_, msg, seen, w) = keepWill (if bo_DurablePublish B then willKeepAttempts else 1) H N (bo_SubjectPrefix B) subject msg seen w
                     in (msg, b\<lparr>bi_queue := Some seen\<rparr>, w))
                  else (msg, b, w))
         in (b, snd (nc_PublishMsg N msg w)))"

end
