(* ===== verification/Inbound_Ack.thy ===== *)
theory Inbound_Ack
  imports Inbound
begin

text \<open>
  What an acknowledgement of a client's PUBLISH promises: a success is written only after the message is with NATS, and a QoS 2
  message that was accepted is forwarded once, however often it is sent again before its PUBREL.
\<close>

section \<open>What a write puts on the wire\<close>

fun success_ack :: "packet \<Rightarrow> bool" where
  "success_ack (Puback a) = (ak_ReasonCode a = Success)"
| "success_ack (Pubrec a) = (ak_ReasonCode a = Success)"
| "success_ack _ = False"

definition wrote_success :: "'a conn_write_scheme \<Rightarrow> 'b conn_write_scheme \<Rightarrow> bool" where
  "wrote_success c c' \<longleftrightarrow> (\<exists>pk raw. c_wire c' = c_wire c @ [(pk, raw)] \<and> success_ack pk)"

lemma writeLocked_wire: "writeLocked ok final pk raw c = (err, c') \<Longrightarrow> c_wire c' = c_wire c \<or> (\<exists>raw'. c_wire c' = c_wire c @ [(pk, raw')])"
  by (auto simp: writeLocked_def Let_def split: if_splits sum.splits prod.splits)

lemma writePacket_wire:
  assumes "writePacket ok pk final c = (r, c')"
  shows "c_wire c' = c_wire c \<or> (\<exists>pk' raw. c_wire c' = c_wire c @ [(pk', raw)] \<and> (pk' = pk \<or> withoutOptionalProperties pk = Some pk'))"
proof -
  have f: "fst (fitPacket c pk raw) = pk \<or> withoutOptionalProperties pk = Some (fst (fitPacket c pk raw))" for raw
    by (auto simp: fitPacket_def split: option.splits sum.splits)
  show ?thesis
  proof (cases "final \<and> \<not> c_connected c \<or> (\<exists>e. encode_packet pk = Inl e)")
    case True
    then show ?thesis using assms by (auto simp: writePacket_def split: sum.splits if_splits)
  next
    case False
    then obtain raw where raw: "encode_packet pk = Inr raw" by (cases "encode_packet pk") auto
    obtain pk' raw' where p: "fitPacket c pk raw = (pk', raw')" by fastforce
    obtain err c1 where w: "writeLocked ok final pk' raw' c = (err, c1)" by fastforce
    show ?thesis using assms False raw p w writeLocked_wire [OF w] f [of raw]
      by (auto simp: writePacket_def Let_def split: if_splits)
  qed
qed

lemma write_ack_wire:
  assumes "conn_write_op ok pk c = (err, c')" "pk = Puback a \<or> pk = Pubrec a"
  shows "c_wire c' = c_wire c \<or> (\<exists>a' raw. ak_ReasonCode a' = ak_ReasonCode a \<and> (c_wire c' = c_wire c @ [(Puback a', raw)] \<or> c_wire c' = c_wire c @ [(Pubrec a', raw)]))"
proof -
  obtain d where "writePacket ok pk False c = (d, c')" using assms(1) by (auto simp: conn_write_op_def split: prod.splits)
  moreover have "ak_ReasonCode a' = ak_ReasonCode a" if "strip_ack a = Some a'" for a'
    using that by (auto simp: strip_ack_def)
  ultimately show ?thesis using writePacket_wire [of ok pk False c d c'] assms(2) by auto blast+
qed

lemma write_error_ack:
  assumes "conn_write_op ok pk c = (err, c')" "pk = Puback a \<or> pk = Pubrec a" "ak_ReasonCode a \<noteq> Success"
  shows "\<not> wrote_success c c'"
  using write_ack_wire [OF assms(1,2)] assms(3) by (auto simp: wrote_success_def)

lemma reject_no_success:
  assumes "rejectPublish I p code reason (c, s, b, w, calls) = (err, c', s', b', w', calls')" "code \<noteq> Success"
  shows "\<not> wrote_success c c'"
proof -
  define a where "a = (plain_ack (pb_PacketID p) code)\<lparr>ak_Properties :=
    (if (if \<not> ci_requestProblemInfo c then [] else reason) \<noteq> []
     then Some (empty_props\<lparr>ReasonString := if \<not> ci_requestProblemInfo c then [] else reason\<rparr>) else None)\<rparr>"
  have a: "ak_ReasonCode a \<noteq> Success" using assms(2) by (simp add: a_def plain_ack_def)
  consider "pb_QoS p = QoS0" "c' = c" | "conn_write_op (pi_ok I) (Puback a) c = (err, c')"
    | "conn_write_op (pi_ok I) (Pubrec a) (c\<lparr>ci_openQoS2 := AList.delete (pb_PacketID p) (ci_openQoS2 c)\<rparr>) = (err, c')"
    using assms(1) unfolding rejectPublish_def a_def by (auto simp: Let_def split: if_splits prod.splits)
  then show ?thesis
  proof cases
    case 1
    then show ?thesis by (simp add: wrote_success_def)
  next
    case 2
    from write_error_ack [OF this _ a] show ?thesis by simp
  next
    case 3
    from write_error_ack [OF this _ a] show ?thesis by (simp add: wrote_success_def)
  qed
qed

section \<open>Headers the broker adds\<close>

definition message_hdrs :: "string set" where
  "message_hdrs = {hdrQoS, hdrRetain, hdrOrigin, hdrPayloadFormat, hdrMessageExpiry, hdrContentType, hdrResponseTopic, hdrCorrelationData, hdrUserProperty}"

lemma fromNATS_set_header:
  assumes "header_laws H" "k \<notin> message_hdrs"
  shows "fromNATS H (set_header H k v msg) = fromNATS H msg"
proof -
  have v: "h_Values H (h_Set H k v h) k' = h_Values H h k'" if "k' \<in> message_hdrs" for k' h
    using that assms(2) by (auto simp: Values_Set [OF assms(1)])
  have g: "h_Get H (h_Set H k v h) k' = h_Get H h k'" if "k' \<in> message_hdrs" for k' h
    by (simp add: Get_Values [OF assms(1)] v [OF that])
  have m: "hdrQoS \<in> message_hdrs" "hdrRetain \<in> message_hdrs" "hdrOrigin \<in> message_hdrs" "hdrPayloadFormat \<in> message_hdrs"
    "hdrMessageExpiry \<in> message_hdrs" "hdrContentType \<in> message_hdrs" "hdrResponseTopic \<in> message_hdrs"
    "hdrCorrelationData \<in> message_hdrs" "hdrUserProperty \<in> message_hdrs"
    by (simp_all add: message_hdrs_def)
  show ?thesis by (cases "m_Header msg") (simp_all add: fromNATS_def set_header_def g [OF m(1)] g [OF m(2)] g [OF m(3)] g [OF m(4)]
      g [OF m(5)] g [OF m(6)] g [OF m(7)] g [OF m(8)] v [OF m(9)])
qed

lemma broker_hdrs: "hdrQueued \<notin> message_hdrs" "hdrQueueSeq \<notin> message_hdrs" "hdrMsgID \<notin> message_hdrs" "MsgIDHeader \<notin> message_hdrs"
  "hdrPublishedAt \<notin> message_hdrs"
  by (simp_all add: message_hdrs_def hdr_names hdrQueued_def MsgIDHeader_def hdrPublishedAt_def)

lemma set_header_sel [simp]: "m_Subject (set_header H k v msg) = m_Subject msg" "m_Data (set_header H k v msg) = m_Data msg"
  by (simp_all add: set_header_def)

text \<open>\<open>msg\<close> is the PUBLISH \<open>p\<close> of client \<open>og\<close> on a subject: payload, QoS, RETAIN, origin and properties read back from it.\<close>

definition copy_of :: "'h header_ops \<Rightarrow> string \<Rightarrow> string \<Rightarrow> publish \<Rightarrow> 'h nats_msg \<Rightarrow> bool" where
  "copy_of H sj og p msg \<longleftrightarrow> m_Subject msg = sj \<and> m_Data msg = pb_Payload p \<and> fromNATS H msg = fromNATS H (toNATS H [] sj og p)"
lemma copy_set_header:
  assumes "header_laws H" "k \<notin> message_hdrs" "copy_of H sj og p msg"
  shows "copy_of H sj og p (set_header H k v msg)"
  using assms(3) by (simp add: copy_of_def fromNATS_set_header [OF assms(1,2)])

lemma toNATS_sel: "m_Subject (toNATS H mid sj og p) = sj" "m_Data (toNATS H mid sj og p) = pb_Payload p"
  by (simp_all add: toNATS_def Let_def)

text \<open>What \<^verbatim>\<open>fromNATS\<close> reads depends on neither the random id nor the subject.\<close>

lemma fromNATS_toNATS_same:
  assumes "header_laws H"
  shows "fromNATS H (toNATS H mid sj og p) = fromNATS H (toNATS H mid' sj' og p)"
proof -
  obtain h where h: "m_Header (toNATS H mid sj og p) = Some h" "carries_base H h og p"
    "carries_props H h (case pb_Properties p of None \<Rightarrow> empty_props | Some q \<Rightarrow> q)"
    by (rule toNATS_carries [OF assms])
  obtain h' where h': "m_Header (toNATS H mid' sj' og p) = Some h'" "carries_base H h' og p"
    "carries_props H h' (case pb_Properties p of None \<Rightarrow> empty_props | Some q \<Rightarrow> q)"
    by (rule toNATS_carries [OF assms])
  show ?thesis using h h' by (simp add: fromNATS_def carries_base_def carries_props_def)
qed

lemma pub_message_copy:
  assumes "header_laws H"
  shows "copy_of H full og p (pub_message B H I full og ident dedupe p)"
proof -
  have "copy_of H full og p (toNATS H (pi_mid I) full og p)"
    using fromNATS_toNATS_same [OF assms] by (auto simp: copy_of_def toNATS_sel)
  then show ?thesis unfolding pub_message_def Let_def by (auto intro!: copy_set_header [OF assms] simp: broker_hdrs)
qed

section \<open>From the acknowledgement back\<close>

text \<open>What holds of the session and of the calls when a new message has been acknowledged: for QoS 2 the identifier is known and no
  longer being forwarded, and the record was written before the PUBREC.\<close>

definition noted :: "publish \<Rightarrow> nat \<Rightarrow> 'a session_flow_scheme \<Rightarrow> conn_call list \<Rightarrow> bool" where
  "noted p n s calls \<longleftrightarrow> pb_QoS p \<noteq> QoS0 \<and> (pb_QoS p = QoS1 \<or>
    get (s_receivedQoS2 s) (pb_PacketID p) \<noteq> None \<and> get (s_qos2Forwarding s) (pb_PacketID p) = None \<and> CheckpointNow n \<in> set calls)"

lemma acknowledge_noted:
  assumes "acknowledge I p dedupe (c, s, b, w, calls) = (err, c', s', b', w', calls')" "wrote_success c c'"
    and "pb_QoS p = QoS0 \<or> pb_QoS p = QoS1 \<or> get (s_receivedQoS2 s) (pb_PacketID p) \<noteq> None"
  shows "w' = w \<and> b' = b \<and> noted p (length (c_wire c)) s' calls'"
proof -
  have "c_wire c' \<noteq> c_wire c" using assms(2) by (auto simp: wrote_success_def)
  then show ?thesis using assms(1,3)
    by (auto simp: acknowledge_def noted_def Let_def qos2Forwarded_def split: if_splits prod.splits)
qed

lemma publish_live_laws:
  assumes "nats_laws H N" "publish_live B N p msg w = (ok, w')"
  shows "w_stored N w' = w_stored N w" "ok \<Longrightarrow> w_live N w' = w_live N w @ [msg]"
proof -
  obtain a w1 where a: "nc_PublishMsg N msg w = (a, w1)" by fastforce
  have l: "nc_publish_law N msg w" "flush_law N w1" using assms(1) by (simp_all add: nats_laws_def)
  show "w_stored N w' = w_stored N w" "ok \<Longrightarrow> w_live N w' = w_live N w @ [msg]"
    using assms(2) a l by (auto simp: publish_live_def nc_publish_law_def flush_law_def Let_def split: if_splits prod.splits)
qed

lemma then_ack_success:
  assumes "nats_laws H N" "publish_then_ack B N I p dedupe msg (c, s, b, w, calls) = (err, c', s', b', w', calls')" "wrote_success c c'"
    and "pb_QoS p = QoS0 \<or> pb_QoS p = QoS1 \<or> get (s_receivedQoS2 s) (pb_PacketID p) \<noteq> None"
  shows "w_live N w' = w_live N w @ [msg] \<and> w_stored N w' = w_stored N w \<and> noted p (length (c_wire c)) s' calls'"
proof -
  obtain ok w1 where o': "publish_live B N p msg w = (ok, w1)" by fastforce
  have ok: "ok"
  proof (rule ccontr)
    assume "\<not> ok"
    then show False using reject_no_success [of I p ImplementationSpecificError "pi_why I" c s b w1 calls] assms(2,3) o'
      by (simp add: publish_then_ack_def)
  qed
  then have "acknowledge I p dedupe (c, s, b, w1, calls) = (err, c', s', b', w', calls')"
    using assms(2) o' by (simp add: publish_then_ack_def)
  from acknowledge_noted [OF this assms(3,4)] show ?thesis using publish_live_laws [OF assms(1) o'] ok by simp
qed

text \<open>The queue's copy is stored, or one with the same \<^verbatim>\<open>Nats-Msg-Id\<close>.\<close>

definition kept_copy :: "'h header_ops \<Rightarrow> ('h, 'w) nats_ops \<Rightarrow> string \<Rightarrow> string \<Rightarrow> publish \<Rightarrow> 'w \<Rightarrow> bool" where
  "kept_copy H N sj og p w \<longleftrightarrow> (\<exists>q msg m. (q, m) \<in> set (w_stored N w) \<and> copy_of H sj og p msg \<and>
    (m = msg \<or> jsMsgID H msg \<noteq> [] \<and> jsMsgID H m = jsMsgID H msg))"

lemma js_publish_kept:
  assumes "nats_laws H N" "js_PublishMsg N msg w = (res, w')"
  shows "w_live N w' = w_live N w" "set (w_stored N w) \<subseteq> set (w_stored N w')"
    "res = Inr q \<Longrightarrow> copy_of H sj og p msg \<Longrightarrow> kept_copy H N sj og p w'"
proof -
  have l: "js_publish_law H N msg w" using assms(1) by (simp add: nats_laws_def)
  then show "w_live N w' = w_live N w" "set (w_stored N w) \<subseteq> set (w_stored N w')"
    "res = Inr q \<Longrightarrow> copy_of H sj og p msg \<Longrightarrow> kept_copy H N sj og p w'"
    using assms(2) unfolding js_publish_law_def kept_copy_def by auto
qed

lemma kept_copy_mono: "kept_copy H N sj og p w \<Longrightarrow> set (w_stored N w) \<subseteq> set (w_stored N w') \<Longrightarrow> kept_copy H N sj og p w'"
  unfolding kept_copy_def by blast

lemma queue_keep_laws:
  assumes "header_laws H" "nats_laws H N" "queue_keep H N pre subject msg seen w = (e, msg', seen', w')" "copy_of H sj og p msg"
  shows "w_live N w' = w_live N w" "set (w_stored N w) \<subseteq> set (w_stored N w')" "copy_of H sj og p msg'"
    "e = None \<Longrightarrow> kept_copy H N (queuedSubject pre subject) og p w'"
proof -
  let ?m = "set_header H hdrQueued ''1'' msg"
  obtain res w1 where r: "js_PublishMsg N (?m\<lparr>m_Subject := queuedSubject pre subject\<rparr>) w = (res, w1)" by fastforce
  have c: "copy_of H sj og p ?m" by (rule copy_set_header [OF assms(1) broker_hdrs(1) assms(4)])
  have q: "copy_of H (queuedSubject pre subject) og p (?m\<lparr>m_Subject := queuedSubject pre subject\<rparr>)"
    using c fromNATS_toNATS_same [OF assms(1)] fromNATS_header(1) by (auto simp: copy_of_def fromNATS_def)
  have w: "w' = w1" "e = None \<longleftrightarrow> (\<exists>q. res = Inr q)" "copy_of H sj og p msg'"
    using assms(3) r c copy_set_header [OF assms(1) broker_hdrs(2) c] by (auto simp: queue_keep_def Let_def split: sum.splits)
  show "w_live N w' = w_live N w" "set (w_stored N w) \<subseteq> set (w_stored N w')" "copy_of H sj og p msg'"
    "e = None \<Longrightarrow> kept_copy H N (queuedSubject pre subject) og p w'"
    using js_publish_kept [OF assms(2) r] q w by auto
qed

lemma queue_then_success:
  assumes "header_laws H" "nats_laws H N" "copy_of H sj og p msg"
    and "queue_then_publish B H N I p subject dedupe msg (c, s, b, w, calls) = (err, c', s', b', w', calls')" "wrote_success c c'"
    and "pb_QoS p = QoS0 \<or> pb_QoS p = QoS1 \<or> get (s_receivedQoS2 s) (pb_PacketID p) \<noteq> None"
  shows "(\<exists>msg. copy_of H sj og p msg \<and> w_live N w' = w_live N w @ [msg]) \<and> set (w_stored N w) \<subseteq> set (w_stored N w') \<and>
    (bi_queue b = None \<or> kept_copy H N (queuedSubject (bo_SubjectPrefix B) subject) og p w') \<and> noted p (length (c_wire c)) s' calls'"
proof -
  have fin: "(\<exists>m. copy_of H sj og p m \<and> w_live N w' = w_live N w1 @ [m]) \<and> w_stored N w' = w_stored N w1 \<and> noted p (length (c_wire c)) s' calls'"
    if "publish_then_ack B N I p dedupe m (c, s, b1, w1, calls) = (err, c', s', b', w', calls')" "copy_of H sj og p m" for m b1 w1
    using then_ack_success [OF assms(2) that(1) assms(5,6)] that(2) by blast
  show ?thesis
  proof (cases "\<exists>seen. bi_queue b = Some seen \<and> QoS0 < pb_QoS p")
    case False
    then have r: "publish_then_ack B N I p dedupe msg (c, s, b, w, calls) = (err, c', s', b', w', calls')"
      using assms(4) by (auto simp: queue_then_publish_def split: option.splits if_splits)
    note f = fin [OF r assms(3)]
    moreover have "bi_queue b = None" using False f by (auto simp: noted_def word_gt_0)
    ultimately show ?thesis by auto
  next
    case True
    then obtain seen where seen: "bi_queue b = Some seen" "QoS0 < pb_QoS p" by blast
    obtain e m seen' w1 where k: "queue_keep H N (bo_SubjectPrefix B) subject msg seen w = (e, m, seen', w1)" by (metis prod_cases4)
    note l = queue_keep_laws [OF assms(1,2) k assms(3)]
    have "e = None"
    proof (rule ccontr)
      assume "e \<noteq> None"
      then have "rejectPublish I p ImplementationSpecificError (pi_why I) (c, s, b, w1, calls) = (err, c', s', b', w', calls')"
        using assms(4) seen k by (auto simp: queue_then_publish_def)
      then show False using reject_no_success assms(5) by fastforce
    qed
    moreover from this have "publish_then_ack B N I p dedupe m (c, s, b\<lparr>bi_queue := Some seen'\<rparr>, w1, calls) = (err, c', s', b', w', calls')"
      using assms(4) seen k by (simp add: queue_then_publish_def)
    ultimately show ?thesis using fin l kept_copy_mono [of H N _ og p w1 w'] by fastforce
  qed
qed

lemma retain_store_laws:
  assumes "header_laws H" "nats_laws H N" "retain_store N H mid now subject og ident p rs w = (e, rs', w')"
  shows "w_live N w' = w_live N w" "set (w_stored N w) \<subseteq> set (w_stored N w')"
    "e = None \<Longrightarrow> kept_copy H N (retainedSubject (rs_prefix rs) subject) og p w'"
proof -
  let ?m = "store_msg H mid rs subject og ident p"
  obtain res w1 where r: "js_PublishMsg N ?m w = (res, w1)" by fastforce
  have "copy_of H (retainedSubject (rs_prefix rs) subject) og p ?m"
    unfolding copy_of_def store_msg_fromNATS [OF assms(1)]
    using fromNATS_toNATS_same [OF assms(1)] by (auto simp: store_msg_def toNATS_sel Let_def)
  moreover have "w' = w1" "e = None \<longleftrightarrow> (\<exists>q. res = Inr q)"
    using assms(3) r by (auto simp: retain_store_def Let_def split: sum.splits)
  ultimately show "w_live N w' = w_live N w" "set (w_stored N w) \<subseteq> set (w_stored N w')"
    "e = None \<Longrightarrow> kept_copy H N (retainedSubject (rs_prefix rs) subject) og p w'"
    using js_publish_kept [OF assms(2) r] by auto
qed

text \<open>The message is with NATS: published live once, its queue copy stored when there is a queue, its retained copy when it is retained.\<close>

definition forwarded :: "broker_opts \<Rightarrow> 'h header_ops \<Rightarrow> ('h, 'w) nats_ops \<Rightarrow> broker_in \<Rightarrow> string \<Rightarrow> string \<Rightarrow> publish \<Rightarrow> 'w \<Rightarrow> 'w \<Rightarrow> bool" where
  "forwarded B H N b subject og p w w' \<longleftrightarrow>
    (\<exists>msg. copy_of H (Prefix (bo_SubjectPrefix B) subject) og p msg \<and> w_live N w' = w_live N w @ [msg]) \<and>
    (bi_queue b = None \<or> kept_copy H N (queuedSubject (bo_SubjectPrefix B) subject) og p w') \<and>
    (\<not> pb_Retain p \<or> (\<exists>rs. bi_retain b = Some rs \<and> kept_copy H N (retainedSubject (rs_prefix rs) subject) og p w'))"

lemma forward_success:
  assumes "header_laws H" "nats_laws H N"
    and "forward_publish sha B H N I p topic subject (c, s, b, w, calls) = (err, c', s', b', w', calls')" "wrote_success c c'"
    and "pb_QoS p = QoS0 \<or> pb_QoS p = QoS1 \<or> get (s_receivedQoS2 s) (pb_PacketID p) \<noteq> None"
  shows "forwarded B H N b subject (s_clientID s) p w w' \<and> noted p (length (c_wire c)) s' calls'"
proof -
  define dedupe where "dedupe = (bo_DurablePublishDedupe B \<and> QoS0 < pb_QoS p)"
  obtain ident ids where i: "(if dedupe then idFor sha (pb_PacketID p) (pb_Dup p) topic (pb_Payload p) (pi_id I) (s_publishIDs s) else (pi_id I, s_publishIDs s)) = (ident, ids)"
    by fastforce
  let ?s = "s\<lparr>s_publishIDs := ids\<rparr>"
  define msg where "msg = pub_message B H I (Prefix (bo_SubjectPrefix B) subject) (s_clientID s) ident dedupe p"
  have m: "copy_of H (Prefix (bo_SubjectPrefix B) subject) (s_clientID s) p msg" unfolding msg_def by (rule pub_message_copy [OF assms(1)])
  have q: "pb_QoS p = QoS0 \<or> pb_QoS p = QoS1 \<or> get (s_receivedQoS2 ?s) (pb_PacketID p) \<noteq> None" using assms(5) by simp
  note eq = assms(3) [unfolded forward_publish_def dedupe_def [symmetric] Let_def prod.case i, simplified]
  show ?thesis
  proof (cases "pb_Retain p")
    case False
    then have "queue_then_publish B H N I p subject dedupe msg (c, ?s, b, w, calls) = (err, c', s', b', w', calls')" using eq by (simp add: msg_def)
    from queue_then_success [OF assms(1,2) m this assms(4) q] False show ?thesis by (auto simp: forwarded_def)
  next
    case True
    then obtain rs where rs: "bi_retain b = Some rs"
      using eq assms(4) by (auto simp: wrote_success_def split: option.splits)
    obtain e rs1 w1 where r: "retain_store N H (pi_midRetained I) (pi_now I) subject (s_clientID s) ident p rs w = (e, rs1, w1)" by (metis prod_cases3)
    note l = retain_store_laws [OF assms(1,2) r]
    have e: "e = None"
    proof (rule ccontr)
      assume "e \<noteq> None"
      then have "rejectPublish I p UnspecifiedError (pi_why I) (c, ?s, b, w1, calls) = (err, c', s', b', w', calls')" using eq True rs r by auto
      then show False using reject_no_success assms(4) by fastforce
    qed
    then have "queue_then_publish B H N I p subject dedupe msg (c, ?s, b\<lparr>bi_retain := Some rs1\<rparr>, w1, calls) = (err, c', s', b', w', calls')"
      using eq True rs r by (simp add: msg_def)
    from queue_then_success [OF assms(1,2) m this assms(4) q] show ?thesis
      using l e rs kept_copy_mono [of H N "retainedSubject (rs_prefix rs) subject" "s_clientID s" p w1 w'] by (auto simp: forwarded_def)
  qed
qed

section \<open>The handler\<close>

lemma sendDisconnect_wire: "\<exists>xs. c_wire (sendDisconnect ok code reason c) = c_wire c @ xs \<and> (\<forall>(pk, raw) \<in> set xs. \<not> success_ack pk)"
proof -
  define d where "d = Disconnect \<lparr>rs_ReasonCode = code, rs_Properties = (if reason \<noteq> [] then Some (empty_props\<lparr>ReasonString := reason\<rparr>) else None)\<rparr>"
  obtain r c' where w: "writePacket ok d True c = (r, c')" by fastforce
  have "\<not> success_ack pk" if "pk = d \<or> withoutOptionalProperties d = Some pk" for pk using that by (auto simp: d_def)
  then have "\<exists>xs. c_wire c' = c_wire c @ xs \<and> (\<forall>(pk, raw) \<in> set xs. \<not> success_ack pk)" using writePacket_wire [OF w] by fastforce
  then show ?thesis using w by (simp add: sendDisconnect_def d_def [symmetric])
qed

lemma disconnect_no_success: "\<not> wrote_success c (sendDisconnect ok code reason c)"
  using sendDisconnect_wire [of ok code reason c] by (force simp: wrote_success_def)

lemma resolveAlias_wire:
  assumes "resolveAlias I p c = (res, c1)"
  shows "case res of Inl _ \<Rightarrow> \<not> wrote_success c c1 | Inr _ \<Rightarrow> c_wire c1 = c_wire c"
  using assms by (auto simp: resolveAlias_def disconnect_no_success split: option.splits if_splits)

lemma markQoS2Received_facts:
  assumes "markQoS2Received i s = (again, s')"
  shows "again \<longleftrightarrow> get (s_receivedQoS2 s) i \<noteq> None" "get (s_receivedQoS2 s') i \<noteq> None" "pub_request s' topic p = pub_request s topic p"
    "s_clientID s' = s_clientID s"
  using assms by (auto simp: markQoS2Received_def pub_request_def Let_def)

lemma accept_success:
  assumes "header_laws H" "nats_laws H N"
    and "accept_publish sha B authz H N I p topic (c, s, b, w, calls) = (err, c', s', b', w', calls')" "wrote_success c c'"
    and "pb_QoS p \<le> 2" "\<not> (pb_QoS p = QoS2 \<and> get (s_receivedQoS2 s) (pb_PacketID p) \<noteq> None)"
  shows "\<exists>subject. codec_nameToSubject (bo_codec B) topic = Inr subject \<and> authorize authz (pub_request s topic p) = Allow \<and>
    forwarded B H N b subject (s_clientID s) p w w' \<and> noted p (length (c_wire c)) s' calls'"
proof -
  obtain again s1 where m: "(if pb_QoS p = QoS2 then markQoS2Received (pb_PacketID p) s else (False, s)) = (again, s1)" by fastforce
  have f: "\<not> again" "pub_request s1 topic p = pub_request s topic p" "s_clientID s1 = s_clientID s"
    "pb_QoS p = QoS2 \<longrightarrow> get (s_receivedQoS2 s1) (pb_PacketID p) \<noteq> None"
    using m markQoS2Received_facts [of "pb_PacketID p" s again s1] assms(6) by (auto split: if_splits)
  have q: "pb_QoS p = QoS0 \<or> pb_QoS p = QoS1 \<or> get (s_receivedQoS2 s1) (pb_PacketID p) \<noteq> None"
    using f(4) QoS_Valid_cases [of "pb_QoS p"] assms(5) by (auto simp: QoS_Valid_def)
  note eq = assms(3) [unfolded accept_publish_def Let_def prod.case m, simplified f]
  have a: "authorize authz (pub_request s topic p) = Allow"
    using eq reject_no_success assms(4) by (cases "authorize authz (pub_request s topic p)") fastforce+
  obtain subject where sj: "codec_nameToSubject (bo_codec B) topic = Inr subject"
    using eq a reject_no_success assms(4) by (cases "codec_nameToSubject (bo_codec B) topic") fastforce+
  have "forward_publish sha B H N I p topic subject (c, s1, b, w, calls) = (err, c', s', b', w', calls')" using eq a sj by simp
  from forward_success [OF assms(1,2) this assms(4) q] show ?thesis using sj a f(3) by simp
qed

lemma handle_accepts:
  assumes "handlePublish sha B authz H N I p (c, s, b, w, calls) = (err, c', s', b', w', calls')" "wrote_success c c'"
  obtains topic c1 where "fst (resolveAlias I p c) = Inr topic" "c_wire c1 = c_wire c"
    "accept_publish sha B authz H N I p topic (c1, s, b, w, calls) = (err, c', s', b', w', calls')"
proof -
  have "publish_fault B b p = None"
    using assms disconnect_no_success [of c] by (auto simp: handlePublish_def split: option.splits)
  obtain res c1 where r: "resolveAlias I p c = (res, c1)" by fastforce
  note w = resolveAlias_wire [OF r]
  obtain topic where t: "res = Inr topic"
    using assms r w \<open>publish_fault B b p = None\<close> by (cases res) (auto simp: handlePublish_def)
  have w1: "c_wire c1 = c_wire c" using w t by simp
  note eq = assms(1) [unfolded handlePublish_def prod.case \<open>publish_fault B b p = None\<close> option.case r t sum.case]
  have no: "\<not> wrote_success c c2" if "\<not> wrote_success c1 c2" for c2 :: conn_in using that w1 by (simp add: wrote_success_def)
  have rej: "\<not> wrote_success c c2" if "rejectPublish I p TopicNameInvalid (pi_why I) (c1, s, b, w, calls) = (e, c2, s2, b2, w2, calls2)" for e c2 s2 b2 w2 calls2
    using no [OF reject_no_success [OF that]] by simp
  show ?thesis
  proof (cases "pb_QoS p = QoS2 \<and> get (ci_openQoS2 c1) (pb_PacketID p) = None")
    case False
    then show ?thesis using that [of topic c1] r t w1 eq assms(2) rej by (auto split: if_splits)
  next
    case True
    let ?c = "c1\<lparr>ci_openQoS2 := AList.update (pb_PacketID p) () (ci_openQoS2 c1)\<rparr>"
    show ?thesis using that [of topic ?c] r t w1 eq assms(2) rej True no [OF disconnect_no_success] by (auto split: if_splits)
  qed
qed


section \<open>A QoS 2 message is forwarded once\<close>

text \<open>What happens to a session: a PUBLISH, a PUBREL, a new connection. The session and the broker stay.\<close>

datatype in_event = PublishIn pub_in publish | PubrelIn pub_in ack | Reconnect conn_in

fun in_step :: "(bytes \<Rightarrow> bytes) \<Rightarrow> broker_opts \<Rightarrow> authorizer \<Rightarrow> 'h header_ops \<Rightarrow> ('h, 'w) nats_ops \<Rightarrow> in_event \<Rightarrow> ('a, 'w) in_state \<Rightarrow> ('a, 'w) in_state" where
  "in_step sha B authz H N (PublishIn I p) st = snd (handlePublish sha B authz H N I p st)"
| "in_step sha B authz H N (PubrelIn I a) st = snd (handlePubrel I a st)"
| "in_step sha B authz H N (Reconnect c) st = (c, snd st)"

fun in_received :: "u16 \<Rightarrow> ('a, 'w) in_state \<Rightarrow> bool" where
  "in_received i (c, s, b, w, calls) \<longleftrightarrow> get (s_receivedQoS2 s) i \<noteq> None"

fun in_world :: "('a, 'w) in_state \<Rightarrow> broker_in \<times> 'w" where
  "in_world (c, s, b, w, calls) = (b, w)"

definition repeats :: "broker_opts \<Rightarrow> u16 \<Rightarrow> string \<Rightarrow> publish \<Rightarrow> bool" where
  "repeats B i topic p \<longleftrightarrow> pb_QoS p = QoS2 \<and> pb_PacketID p = i \<and> pb_Topic p = topic \<and> topic \<noteq> [] \<and>
    codec_validateName (bo_codec B) topic = Inr () \<and> \<not> (bo_RestrictDollarTopics B \<and> dollarName topic)"

text \<open>Before the PUBREL, a QoS 2 PUBLISH with the identifier is the message sent again.\<close>

fun unreleased :: "broker_opts \<Rightarrow> u16 \<Rightarrow> string \<Rightarrow> in_event \<Rightarrow> bool" where
  "unreleased B i topic (PublishIn I p) \<longleftrightarrow> pb_PacketID p \<noteq> i \<or> pb_QoS p = QoS0 \<or> pb_QoS p = QoS1 \<or> repeats B i topic p"
| "unreleased B i topic (PubrelIn I a) \<longleftrightarrow> ak_PacketID a \<noteq> i"
| "unreleased B i topic (Reconnect c) \<longleftrightarrow> True"

definition other_msg :: "u16 \<Rightarrow> publish \<Rightarrow> bool" where
  "other_msg i p \<longleftrightarrow> pb_PacketID p \<noteq> i \<or> pb_QoS p = QoS0 \<or> pb_QoS p = QoS1"

lemma reject_received: "other_msg i p \<Longrightarrow> in_received i (snd (rejectPublish I p code reason st)) = in_received i st"
  by (cases st) (auto simp: rejectPublish_def other_msg_def releaseQoS2_def Let_def split: prod.splits)

lemma acknowledge_received: "in_received i (snd (acknowledge I p dedupe st)) = in_received i st"
  by (cases st) (auto simp: acknowledge_def qos2Forwarded_def Let_def split: prod.splits)

lemma then_ack_received: "other_msg i p \<Longrightarrow> in_received i (snd (publish_then_ack B N I p dedupe msg st)) = in_received i st"
  by (cases st) (auto simp: publish_then_ack_def reject_received acknowledge_received split: prod.splits)

lemma queue_then_received: "other_msg i p \<Longrightarrow> in_received i (snd (queue_then_publish B H N I p subject dedupe msg st)) = in_received i st"
  by (cases st) (auto simp: queue_then_publish_def reject_received then_ack_received split: prod.splits option.splits)

lemma forward_received: "other_msg i p \<Longrightarrow> in_received i (snd (forward_publish sha B H N I p topic subject st)) = in_received i st"
  by (cases st) (auto simp: forward_publish_def Let_def reject_received queue_then_received split: prod.splits option.splits)

lemma accept_received: "other_msg i p \<Longrightarrow> in_received i (snd (accept_publish sha B authz H N I p topic st)) = in_received i st"
  by (cases st) (auto simp: accept_publish_def Let_def reject_received forward_received markQoS2Received_def other_msg_def
      split: prod.splits verdict.splits sum.splits if_splits)

lemma handle_received: "other_msg i p \<Longrightarrow> in_received i (snd (handlePublish sha B authz H N I p st)) = in_received i st"
  by (cases st) (auto simp: handlePublish_def reject_received accept_received split: prod.splits option.splits sum.splits if_splits)

lemma repeat_accept:
  assumes "in_received i (c, s, b, w, calls)" "pb_QoS p = QoS2" "pb_PacketID p = i"
  shows "in_world (snd (accept_publish sha B authz H N I p topic (c, s, b, w, calls))) = (b, w) \<and>
    in_received i (snd (accept_publish sha B authz H N I p topic (c, s, b, w, calls)))"
  using assms by (auto simp: accept_publish_def markQoS2Received_def Let_def split: prod.splits)

lemma repeat_world:
  assumes "in_received i st" "repeats B i topic p"
  shows "in_world (snd (handlePublish sha B authz H N I p st)) = in_world st \<and> in_received i (snd (handlePublish sha B authz H N I p st))"
proof -
  obtain c s b w calls where st: "st = (c, s, b, w, calls)" by (cases st)
  have p: "pb_QoS p = QoS2" "pb_PacketID p = i" "pb_Topic p = topic" "topic \<noteq> []" "codec_validateName (bo_codec B) topic = Inr ()"
    "\<not> (bo_RestrictDollarTopics B \<and> dollarName topic)" using assms(2) by (auto simp: repeats_def)
  have r: "in_received i (c1, s, b, w, calls)" for c1 using assms(1) by (simp add: st)
  obtain res c1 where a: "resolveAlias I p c = (res, c1)" by fastforce
  have t: "res = Inr t \<Longrightarrow> t = topic" for t using a p(3,4) by (auto simp: resolveAlias_def split: option.splits if_splits)
  show ?thesis
    using repeat_accept [OF r p(1,2), where sha = sha and B = B and authz = authz and H = H and N = N and I = I and topic = topic] r a t p
    by (auto simp: st handlePublish_def split: option.splits sum.splits if_splits)
qed

lemma run_received:
  assumes "in_received i st" "list_all (unreleased B i topic) es"
  shows "in_received i (fold (in_step sha B authz H N) es st)"
  using assms
proof (induction es arbitrary: st)
  case (Cons e es)
  have "in_received i (in_step sha B authz H N e st)"
  proof (cases e)
    case (PublishIn I p)
    then consider "other_msg i p" | "repeats B i topic p" using Cons(3) by (auto simp: other_msg_def)
    then show ?thesis
    proof cases
      case 1
      then show ?thesis using Cons(2) PublishIn by (simp add: handle_received)
    next
      case 2
      then show ?thesis using PublishIn by (simp add: repeat_world [OF Cons(2)])
    qed
  next
    case (PubrelIn I a)
    then show ?thesis using Cons(2,3) by (cases st) (auto simp: handlePubrel_def releaseQoS2_def Let_def split: prod.splits)
  next
    case (Reconnect c)
    then show ?thesis using Cons(2) by (cases st) simp
  qed
  then show ?case using Cons(1,3) by simp
qed simp

text \<open>C39: Exactly once. After a QoS 2 PUBLISH has been accepted (its identifier is in the session, as the preceding property says of an
  acknowledged one), sending it again, with whatever was published and whichever connections came in between and as long as it has
  not been released by its PUBREL, does not reach NATS: the world, the retained messages and the queue are unchanged. The identifier stays
  known.\<close>

theorem qos2_forwarded_once:
  assumes "in_received i st" "list_all (unreleased B i topic) es" "repeats B i topic p"
  shows "in_world (snd (handlePublish sha B authz H N I p (fold (in_step sha B authz H N) es st))) = in_world (fold (in_step sha B authz H N) es st) \<and>
    in_received i (snd (handlePublish sha B authz H N I p (fold (in_step sha B authz H N) es st)))"
  by (rule repeat_world [OF run_received [OF assms(1,2)] assms(3)])

section \<open>Samples\<close>

text \<open>NATS in memory: what JetStream stored and what was published live.\<close>

type_synonym 'h mem_nats_world = "(u64 \<times> 'h nats_msg) list \<times> 'h nats_msg list"

definition mem_nats :: "('h, 'h mem_nats_world) nats_ops" where
  "mem_nats = \<lparr>
    js_PublishMsg = (\<lambda>msg (st, lv). (Inr (of_nat (length st) + 1), (st @ [(of_nat (length st) + 1, msg)], lv))),
    js_GetMsg = (\<lambda>q w. (Inl ErrJS, w)), js_GetLastMsgForSubject = (\<lambda>sj w. (Inl ErrJS, w)), js_DeleteMsg = (\<lambda>q w. (Some ErrJS, w)),
    js_Msgs = (\<lambda>w. (Inl ErrJS, w)), js_view = (\<lambda>w. Map.empty), js_last = (\<lambda>w. 0),
    nc_PublishMsg = (\<lambda>msg (st, lv). (True, (st, lv @ [msg]))), nc_IsConnected = (\<lambda>w. True), nc_Reconnects = (\<lambda>w. 0), nc_Flush = (\<lambda>w. (True, w)),
    w_stored = fst, w_live = snd\<rparr>"

lemma mem_nats_laws: "nats_laws H mem_nats"
  by (auto simp: nats_laws_def js_publish_law_def nc_publish_law_def flush_law_def mem_nats_def)

definition sample_in :: conn_in where
  "sample_in = \<lparr>c_ref = 0, c_clientMaxPacketSize = 0, c_outAlias = None, c_closed = False, c_connected = True, c_disconnectSent = False,
     c_lingers = False, c_wire = [], ci_aliases = [], ci_topicAliasMax = 10, ci_receiveMax = 10, ci_openQoS2 = [], ci_requestProblemInfo = True\<rparr>"

definition sample_pub :: "QoS \<Rightarrow> bool \<Rightarrow> publish" where
  "sample_pub qos again = \<lparr>pb_Dup = again, pb_QoS = qos, pb_Retain = False, pb_Topic = ''a'', pb_PacketID = 5, pb_Properties = None, pb_Payload = [7]\<rparr>"

definition sample_draw :: pub_in where
  "sample_draw = \<lparr>pi_ok = True, pi_id = ''i'', pi_mid = ''m'', pi_midRetained = ''n'', pi_now = 0, pi_why = []\<rparr>"

definition sample_broker :: broker_in where
  "sample_broker = \<lparr>bi_retain = None, bi_queue = Some 0\<rparr>"

lemma sample_ack_write:
  "conn_write_op True (Pubrec (plain_ack 5 Success)) (sample_in\<lparr>ci_openQoS2 := x\<rparr>) =
    (None, sample_in\<lparr>ci_openQoS2 := x, c_wire := [(Pubrec (plain_ack 5 Success), [0x50, 2, 0, 5])]\<rparr>)"
  by (simp add: conn_write_op_def writePacket_def sample_in_def plain_ack_def encode_packet_def ack_encode_def noProps_def go_index_def reservedFlags_def
      props_encode_def w_varByteInt_eq appendVarByteInt_eq vbi.simps MaxVarByteInt_def fitPacket_def tooLarge_def
      overLimit_def writeLocked_def w_byte_def w_uint16_def)

abbreviation sample_open :: conn_in where
  "sample_open \<equiv> sample_in\<lparr>ci_openQoS2 := [(5, ())]\<rparr>"

definition sample_sess :: session_flow where
  "sample_sess = session_flow.truncate (session_subs.truncate (session_replay.truncate (newSession ''c'' ''i'')))"

lemma sample_published:
  fixes s :: "'a session_flow_scheme"
  shows "\<exists>s' w'. queue_then_publish sample_opts alist_header mem_nats sample_draw (sample_pub 2 False) ''a'' False msg (sample_open, s, sample_broker, ([], []), []) =
    (None, sample_open\<lparr>c_wire := [(Pubrec (plain_ack 5 Success), [0x50, 2, 0, 5])]\<rparr>, s', sample_broker\<lparr>bi_queue := Some 1\<rparr>, w', [CheckpointNow 0])"
proof -
  have k: "\<exists>m w. queue_keep alist_header mem_nats ''mqtt'' ''a'' msg 0 ([], []) = (None, m, 1, w)"
    by (simp add: queue_keep_def mem_nats_def saw_def Let_def)
  have l: "\<exists>w'. publish_live sample_opts mem_nats (sample_pub 2 False) m w = (True, w')" for m and w :: "(string, string list) gomap mem_nats_world"
    by (cases w) (simp add: publish_live_def mem_nats_def sample_opts_def)
  have ack: "\<exists>s'. acknowledge sample_draw (sample_pub 2 False) False (sample_open, s, b, w, []) =
    (None, sample_open\<lparr>c_wire := [(Pubrec (plain_ack 5 Success), [0x50, 2, 0, 5])]\<rparr>, s', b, w, [CheckpointNow 0])" for b and w :: "(string, string list) gomap mem_nats_world"
    using sample_ack_write [of "[(5, ())]"] by (simp add: acknowledge_def sample_pub_def sample_draw_def Let_def) (simp add: sample_in_def)
  have "\<exists>s' w'. publish_then_ack sample_opts mem_nats sample_draw (sample_pub 2 False) False m (sample_open, s, b, w, []) =
    (None, sample_open\<lparr>c_wire := [(Pubrec (plain_ack 5 Success), [0x50, 2, 0, 5])]\<rparr>, s', b, w', [CheckpointNow 0])" for m b and w :: "(string, string list) gomap mem_nats_world"
  proof -
    obtain w1 where w1: "publish_live sample_opts mem_nats (sample_pub 2 False) m w = (True, w1)" using l [of m w] by blast
    obtain s1 where "acknowledge sample_draw (sample_pub 2 False) False (sample_open, s, b, w1, []) =
      (None, sample_open\<lparr>c_wire := [(Pubrec (plain_ack 5 Success), [0x50, 2, 0, 5])]\<rparr>, s1, b, w1, [CheckpointNow 0])" using ack [of b w1] by blast
    then show ?thesis using w1 by (cases w1) (simp add: publish_then_ack_def)
  qed
  then show ?thesis using k by (auto simp: queue_then_publish_def sample_broker_def sample_pub_def sample_opts_def)
qed

lemma sample_handled:
  "\<exists>s' w'. handlePublish sha sample_opts None alist_header mem_nats sample_draw (sample_pub 2 False) (sample_in, sample_sess, sample_broker, ([], []), []) =
    (None, sample_open\<lparr>c_wire := [(Pubrec (plain_ack 5 Success), [0x50, 2, 0, 5])]\<rparr>, s', sample_broker\<lparr>bi_queue := Some 1\<rparr>, w', [CheckpointNow 0])"
proof -
  have t: "codec_validateName \<lparr>escape = False\<rparr> ''a'' = Inr ()" "codec_nameToSubject \<lparr>escape = False\<rparr> ''a'' = Inr ''a''" by (simp_all add: topic_eval)
  have r: "resolveAlias sample_draw (sample_pub 2 False) sample_in = (Inr ''a'', sample_in)" by (simp add: resolveAlias_def sample_pub_def)
  have f: "publish_fault sample_opts sample_broker (sample_pub 2 False) = None" by (simp add: publish_fault_def sample_pub_def sample_opts_def)
  have m: "\<exists>s1. markQoS2Received 5 sample_sess = (False, s1)"
    by (simp add: markQoS2Received_def sample_sess_def session_flow.truncate_def session_subs.truncate_def session_replay.truncate_def newSession_def)
  have fw: "\<exists>msg s1. forward_publish sha sample_opts alist_header mem_nats sample_draw (sample_pub 2 False) ''a'' ''a'' (sample_open, s, sample_broker, ([], []), []) =
      queue_then_publish sample_opts alist_header mem_nats sample_draw (sample_pub 2 False) ''a'' False msg (sample_open, s1, sample_broker, ([], []), [])" for s :: session_flow
    by (auto simp: forward_publish_def sample_pub_def sample_opts_def Let_def)
  have "\<exists>s' w'. accept_publish sha sample_opts None alist_header mem_nats sample_draw (sample_pub 2 False) ''a'' (sample_open, sample_sess, sample_broker, ([], []), []) =
    (None, sample_open\<lparr>c_wire := [(Pubrec (plain_ack 5 Success), [0x50, 2, 0, 5])]\<rparr>, s', sample_broker\<lparr>bi_queue := Some 1\<rparr>, w', [CheckpointNow 0])"
  proof -
    obtain s1 where "markQoS2Received 5 sample_sess = (False, s1)" using m by blast
    moreover obtain msg s2 where "forward_publish sha sample_opts alist_header mem_nats sample_draw (sample_pub 2 False) ''a'' ''a'' (sample_open, s1, sample_broker, ([], []), []) =
      queue_then_publish sample_opts alist_header mem_nats sample_draw (sample_pub 2 False) ''a'' False msg (sample_open, s2, sample_broker, ([], []), [])" using fw by blast
    moreover have "pb_QoS (sample_pub 2 False) = 2" "pb_PacketID (sample_pub 2 False) = 5" "bo_codec sample_opts = \<lparr>escape = False\<rparr>"
      by (simp_all add: sample_pub_def sample_opts_def)
    ultimately show ?thesis using sample_published [of msg s2] t by (simp add: accept_publish_def authorize_def)
  qed
  moreover have "pb_QoS (sample_pub 2 False) = 2" "pb_PacketID (sample_pub 2 False) = 5" "bo_codec sample_opts = \<lparr>escape = False\<rparr>"
    "\<not> bo_RestrictDollarTopics sample_opts" "ci_openQoS2 sample_in = []" "ci_receiveMax sample_in = 10"
    by (simp_all add: sample_pub_def sample_opts_def sample_in_def)
  ultimately show ?thesis using f r t by (simp add: handlePublish_def)
qed


theorem qos2_forwarded_once_witness:
  "let st = (sample_in, sample_sess\<lparr>s_receivedQoS2 := [(5, ())]\<rparr>, sample_broker, ([], []), []);
       step = in_step id sample_opts None alist_header mem_nats;
       st1 = fold step [PublishIn sample_draw ((sample_pub 2 False)\<lparr>pb_PacketID := 6\<rparr>), PublishIn sample_draw (sample_pub 2 True), Reconnect sample_in,
         PubrelIn sample_draw (plain_ack 6 Success)] st;
       st2 = snd (handlePublish id sample_opts None alist_header mem_nats sample_draw (sample_pub 2 True) st1)
   in in_world st2 = in_world st1 \<and> in_received 5 st2"
proof -
  have "codec_validateName \<lparr>escape = False\<rparr> ''a'' = Inr ()" by (simp add: topic_eval)
  then have "repeats sample_opts 5 ''a'' (sample_pub 2 True)" by (simp add: repeats_def sample_pub_def sample_opts_def)
  then show ?thesis unfolding Let_def
    by (intro qos2_forwarded_once [where topic = "''a''" and B = sample_opts]) (simp_all add: sample_pub_def plain_ack_def)
qed

end
