(* ===== verification/Payload_Store.thy ===== *)
theory Payload_Store
  imports Session_Store Packet_IO "HOL-Library.Sublist"
begin

text \<open>
  The payload bucket beside the session records (\<^verbatim>\<open>src/sessionstore.go\<close>): payloads too large for a record, and the chunks a record
  that does not fit one value is spilled to. The bucket is the parameter \<open>blob_ops\<close> on a world of type \<open>'b\<close>, with what it promises
  in \<open>blob_laws\<close>; SHA-256 is the argument \<open>sha\<close>; the JSON encoding of a record and of its entries is \<open>json_ops\<close>. The first
  component of a state is whether the bucket was opened (\<^verbatim>\<open>s.blobs\<close> is not nil).
\<close>

section \<open>The bucket\<close>

text \<open>The result is false for a call that failed. A failed call may have been carried out.\<close>

record 'b blob_ops =
  bk_Create :: "'b \<Rightarrow> bool \<times> 'b"
  bk_Open :: "'b \<Rightarrow> bool \<times> 'b"
  bk_Put :: "string \<Rightarrow> bytes \<Rightarrow> 'b \<Rightarrow> bool \<times> 'b"
  bk_Get :: "string \<Rightarrow> 'b \<Rightarrow> bytes option \<times> 'b"
  bk_Delete :: "string \<Rightarrow> 'b \<Rightarrow> bool \<times> 'b"
  bk_view :: "'b \<Rightarrow> string \<rightharpoonup> bytes"

definition put_law :: "'b blob_ops \<Rightarrow> string \<Rightarrow> bytes \<Rightarrow> 'b \<Rightarrow> bool" where
  "put_law K key raw b \<longleftrightarrow>
    (case bk_Put K key raw b of
       (True, b') \<Rightarrow> bk_view K b' = (bk_view K b)(key \<mapsto> raw)
     | (False, b') \<Rightarrow> bk_view K b' = bk_view K b \<or> bk_view K b' = (bk_view K b)(key \<mapsto> raw))"

definition blob_laws :: "'b blob_ops \<Rightarrow> bool" where
  "blob_laws K \<longleftrightarrow>
    (\<forall>b. bk_view K (snd (bk_Create K b)) = bk_view K b) \<and> (\<forall>b. bk_view K (snd (bk_Open K b)) = bk_view K b) \<and>
    (\<forall>key raw b. put_law K key raw b) \<and>
    (\<forall>key b. bk_view K (snd (bk_Get K key b)) = bk_view K b \<and> (\<forall>v. fst (bk_Get K key b) = Some v \<longrightarrow> bk_view K b key = Some v)) \<and>
    (\<forall>key b. bk_view K (snd (bk_Delete K key b)) = (bk_view K b)(key := None) \<or>
      \<not> fst (bk_Delete K key b) \<and> bk_view K (snd (bk_Delete K key b)) = bk_view K b)"

text \<open>The bucket can be reached.\<close>

definition blob_answers :: "'b blob_ops \<Rightarrow> bool" where
  "blob_answers K \<longleftrightarrow> (\<forall>b. fst (bk_Open K b)) \<and> (\<forall>key b. fst (bk_Get K key b) = bk_view K b key)"

record json_ops =
  jo_entry :: "storedInflight \<Rightarrow> bytes"
  jo_entries :: "bytes \<Rightarrow> storedInflight list option"
  jo_id :: "storedDelivered \<Rightarrow> bytes"
  jo_ids :: "bytes \<Rightarrow> storedDelivered list option"
  jo_recordLen :: "sessionRecord \<Rightarrow> int"

fun json_join :: "bytes list \<Rightarrow> bytes" where
  "json_join [] = []"
| "json_join [x] = x"
| "json_join (x # y # r) = x @ 0x2C # json_join (y # r)"

definition json_list :: "('x \<Rightarrow> bytes) \<Rightarrow> 'x list \<Rightarrow> bytes" where
  "json_list f xs = 0x5B # json_join (map f xs) @ [0x5D]"

text \<open>An entry's \<^verbatim>\<open>ID\<close> is a number and an id's is a string, so a chunk of the one is never a chunk of the other.\<close>

definition json_laws :: "json_ops \<Rightarrow> bool" where
  "json_laws J \<longleftrightarrow> (\<forall>xs ys. ys \<noteq> [] \<longrightarrow> json_list (jo_entry J) xs \<noteq> json_list (jo_id J) ys)"

type_synonym 'b blobs = "bool \<times> 'b"

section \<open>Limits\<close>

record payload_store =
  pl_maxPayload :: int
  pl_maxSessionExpiry :: duration
  pl_spillChunkIDs :: int

definition maxStoredPublish :: int where "maxStoredPublish = 16 * 1024"

definition blobTTL :: "duration \<Rightarrow> duration" where
  "blobTTL maxSessionExpiry = 2 * maxSessionExpiry"

definition blobStale :: "payload_store \<Rightarrow> time \<Rightarrow> time \<Rightarrow> bool" where
  "blobStale P now t = (let age = time_Sub now t in IsZero t \<or> age < 0 \<or> blobTTL (pl_maxSessionExpiry P) sdiv 4 < age)"

definition defaultMaxPayload :: int where "defaultMaxPayload = 1048576"

definition max_value :: "payload_store \<Rightarrow> int" where
  "max_value P = (if pl_maxPayload P \<le> 0 then defaultMaxPayload else pl_maxPayload P)"

definition valueLimit :: "payload_store \<Rightarrow> int" where
  "valueLimit P = max_value P - max_value P div 8"

definition blobLimit :: "payload_store \<Rightarrow> int" where
  "blobLimit P = max_value P - 512"

section \<open>Keys\<close>

definition hex_digit :: "nat \<Rightarrow> char" where
  "hex_digit n = ''0123456789abcdef'' ! n"

definition hex_of :: "bytes \<Rightarrow> string" where
  "hex_of bs = concat (map (\<lambda>b. [hex_digit (unat b div 16), hex_digit (unat b mod 16)]) bs)"

definition blobOwner :: "(bytes \<Rightarrow> bytes) \<Rightarrow> string \<Rightarrow> string" where
  "blobOwner sha clientID = hex_of (take 16 (sha (bytes_of_string clientID)))"

definition blobDigest :: "string \<Rightarrow> string" where
  "blobDigest key = rev (takeWhile (\<lambda>c. c \<noteq> CHR ''.'') (rev key))"

definition blobKeyFor :: "(bytes \<Rightarrow> bytes) \<Rightarrow> string \<Rightarrow> bytes \<Rightarrow> string" where
  "blobKeyFor sha owner raw = owner @ ''.'' @ hex_of (sha raw)"

section \<open>Reading and writing payloads\<close>

definition blobBucket :: "'b blob_ops \<Rightarrow> bool \<Rightarrow> 'b blobs \<Rightarrow> bool \<times> 'b blobs" where
  "blobBucket K create st =
    (let (opened, b) = st in
     if opened then (True, st)
     else let (ok, b) = (if create then bk_Create K b else bk_Open K b) in (ok, (ok, b)))"

definition putBlob :: "'b blob_ops \<Rightarrow> (bytes \<Rightarrow> bytes) \<Rightarrow> string \<Rightarrow> bytes \<Rightarrow> 'b blobs \<Rightarrow> string option \<times> 'b blobs" where
  "putBlob K sha owner raw st =
    (let (ok, st) = blobBucket K True st in
     if \<not> ok then (None, st)
     else let key = blobKeyFor sha owner raw; (ok, b) = bk_Put K key raw (snd st)
       in (if ok then Some key else None, (fst st, b)))"

definition deleteBlob :: "'b blob_ops \<Rightarrow> string \<Rightarrow> 'b blobs \<Rightarrow> bool \<times> 'b blobs" where
  "deleteBlob K key st =
    (if CHR ''.'' \<notin> set key then (True, st)
     else let (ok, st) = blobBucket K False st in
       if \<not> ok then (False, st) else let (ok, b) = bk_Delete K key (snd st) in (ok, (fst st, b)))"

definition getBlob :: "'b blob_ops \<Rightarrow> (bytes \<Rightarrow> bytes) \<Rightarrow> string \<Rightarrow> 'b blobs \<Rightarrow> bytes option \<times> 'b blobs" where
  "getBlob K sha key st =
    (let (ok, st) = blobBucket K False st in
     if \<not> ok then (None, st)
     else case bk_Get K key (snd st) of
       (None, b) \<Rightarrow> (None, (fst st, b))
     | (Some raw, b) \<Rightarrow> (if hex_of (sha raw) \<noteq> blobDigest key then None else Some raw, (fst st, b)))"

section \<open>Chunks of in-flight entries\<close>

definition defaultSpillChunkIDs :: int where "defaultSpillChunkIDs = 1024"

text \<open>The spans \<^verbatim>\<open>pack\<close> divides the entries from \<open>i\<close> on into; \<open>n\<close> entries are left.\<close>

fun pack_loop :: "storedInflight list \<Rightarrow> int list \<Rightarrow> int \<Rightarrow> int \<Rightarrow> nat \<Rightarrow> nat \<Rightarrow> int \<Rightarrow> (nat \<times> nat) list \<Rightarrow> (nat \<times> nat) list" where
  "pack_loop es sizes chunkMax ids i 0 used spans = spans"
| "pack_loop es sizes chunkMax ids i (Suc n) used spans =
    (let new = (spans = [] \<or> chunkMax < used + sizes ! i \<or> uint (si_ID (es ! (i - 1))) mod ids = 0);
         spans = (if new then spans @ [(i, i)] else spans);
         used = (if new then 2 else used) + sizes ! i
     in pack_loop es sizes chunkMax ids (Suc i) n used (butlast spans @ [(fst (last spans), Suc i)]))"

definition spill_pack :: "payload_store \<Rightarrow> storedInflight list \<Rightarrow> int list \<Rightarrow> nat \<Rightarrow> (nat \<times> nat) list" where
  "spill_pack P es sizes i =
    pack_loop es sizes (blobLimit P) (if pl_spillChunkIDs P \<le> 0 then defaultSpillChunkIDs else pl_spillChunkIDs P) i (length es - i) 2 []"

definition spillKeyLen :: int where "spillKeyLen = 32 + 1 + 64"

text \<open>\<^verbatim>\<open>recordSizer\<close>: \<open>base\<close> is the record without either list; \<^verbatim>\<open>,"Inflight":[]\<close> has 14 bytes and \<^verbatim>\<open>,"Spill":[]\<close> 11.\<close>

definition sizer_of :: "int \<Rightarrow> int list \<Rightarrow> nat \<Rightarrow> nat \<Rightarrow> int" where
  "sizer_of base sizes keep chunks =
    base + (if 0 < keep then 14 + sum_list (take keep sizes) - 1 else 0) +
    (if 0 < chunks then 11 + int chunks * (spillKeyLen + 3) - 1 else 0)"

function keep_loop :: "(nat \<Rightarrow> nat \<Rightarrow> bool) \<Rightarrow> (nat \<Rightarrow> (nat \<times> nat) list) \<Rightarrow> nat \<Rightarrow> (nat \<times> nat) list \<Rightarrow> nat \<times> (nat \<times> nat) list" where
  "keep_loop fits pack keep spans =
    (if keep = 0 then (keep, spans)
     else let keep = keep - max 1 (keep div 8); spans = pack keep in
       if fits keep (length spans) then (keep, spans) else keep_loop fits pack keep spans)"
  by auto
termination by (relation "measure (\<lambda>(_, _, keep, _). keep)") auto

fun trim_spans :: "(nat \<Rightarrow> bool) \<Rightarrow> (nat \<times> nat) list \<Rightarrow> (nat \<times> nat) list" where
  "trim_spans fits spans = (if spans \<noteq> [] \<and> \<not> fits (length spans) then trim_spans fits (butlast spans) else spans)"

declare keep_loop.simps [simp del] trim_spans.simps [simp del]

text \<open>The chunks written and named; the result is the names and how many entries they hold.\<close>

fun spill_write :: "'b blob_ops \<Rightarrow> (bytes \<Rightarrow> bytes) \<Rightarrow> string \<Rightarrow> string list \<Rightarrow> bytes list \<Rightarrow> (nat \<times> nat) list \<Rightarrow> 'b blobs \<Rightarrow>
    (string list \<times> nat \<times> bool) \<times> 'b blobs" where
  "spill_write K sha owner known raws [] st = (([], 0, True), st)"
| "spill_write K sha owner known raws ((i, j) # spans) st =
    (let raw = json_list (\<lambda>r. r) (take (j - i) (drop i raws));
         key = blobKeyFor sha owner raw;
         (put, st) = (if key \<in> set known then (Some key, st) else putBlob K sha owner raw st)
     in case put of
          None \<Rightarrow> (([], 0, False), st)
        | Some _ \<Rightarrow> let ((keys, kept, ok), st) = spill_write K sha owner known raws spans st in ((key # keys, kept + (j - i), ok), st))"

section \<open>Delivered ids\<close>

function trim_loop :: "(nat \<Rightarrow> bool) \<Rightarrow> nat \<Rightarrow> nat" where
  "trim_loop fits keep = (if keep = 0 \<or> fits keep then keep else trim_loop fits (keep - max 1 (keep div 8)))"
  by auto
termination by (relation "measure snd") auto

declare trim_loop.simps [simp del]

definition trimDelivered :: "json_ops \<Rightarrow> sessionRecord \<Rightarrow> int \<Rightarrow> nat \<times> sessionRecord" where
  "trimDelivered J rec budget =
    (let ids = sr_Delivered rec; n = length ids; base = jo_recordLen J (rec\<lparr>sr_Delivered := []\<rparr>);
         keep = trim_loop (\<lambda>k. jo_recordLen J (rec\<lparr>sr_Delivered := drop (n - k) ids\<rparr>) - base \<le> budget) n
     in if ids = [] then (0, rec) else (n - keep, rec\<lparr>sr_Delivered := drop (n - keep) ids\<rparr>))"

text \<open>\<^verbatim>\<open>hash/fnv\<close>'s 32-bit FNV-1a.\<close>

definition fnv32a :: "bytes \<Rightarrow> 32 word" where
  "fnv32a bs = fold (\<lambda>b h. (h XOR ucast b) * 16777619) bs 2166136261"

definition endsChunk :: "string \<Rightarrow> bool" where
  "endsChunk i \<longleftrightarrow> fnv32a (bytes_of_string i) mod 512 = 0"

text \<open>How many ids of the record's value take at most the budget.\<close>

fun within_budget :: "json_ops \<Rightarrow> int \<Rightarrow> int \<Rightarrow> storedDelivered list \<Rightarrow> nat" where
  "within_budget J budget used [] = 0"
| "within_budget J budget used (d # ds) =
    (let used = used + int (length (jo_id J d)) + 1 in if budget < used then 0 else Suc (within_budget J budget used ds))"

fun chunk_loop :: "json_ops \<Rightarrow> int \<Rightarrow> storedDelivered list \<Rightarrow> storedDelivered list \<Rightarrow> int \<Rightarrow> storedDelivered list list" where
  "chunk_loop J chunkMax [] cur used = (if cur \<noteq> [] then [cur] else [])"
| "chunk_loop J chunkMax (d # ds) cur used =
    (let n = int (length (jo_id J d)) + 1; full = (cur \<noteq> [] \<and> chunkMax < used + n);
         chunks = (if full then [cur] else []);
         cur = (if full then [] else cur) @ [d];
         used = (if full then 2 else used) + n
     in chunks @ (if endsChunk (sd_ID d) then cur # chunk_loop J chunkMax ds [] 2 else chunk_loop J chunkMax ds cur used))"

definition maxDeliveredChunks :: nat where "maxDeliveredChunks = 1024"

text \<open>The chunks named and how many ids were not kept; \<open>ok\<close> is false after the first write error.\<close>

fun delivered_write :: "'b blob_ops \<Rightarrow> (bytes \<Rightarrow> bytes) \<Rightarrow> json_ops \<Rightarrow> string \<Rightarrow> string list \<Rightarrow> nat \<Rightarrow> bool \<Rightarrow> storedDelivered list list \<Rightarrow>
    'b blobs \<Rightarrow> (string list \<times> nat) \<times> 'b blobs" where
  "delivered_write K sha J owner known i ok [] st = (([], 0), st)"
| "delivered_write K sha J owner known i ok (chunk # chunks) st =
    (let raw = json_list (jo_id J) chunk;
         key = blobKeyFor sha owner raw;
         (kept, ok, st) =
           (if \<not> (i < maxDeliveredChunks \<and> ok) then (False, ok, st)
            else if key \<in> set known then (True, ok, st)
            else let (put, st) = putBlob K sha owner raw st in (put \<noteq> None, put \<noteq> None, st));
         ((keys, lost), st) = delivered_write K sha J owner known (Suc i) ok chunks st
     in (if kept then (key # keys, lost) else (keys, lost + length chunk), st))"

definition spillDelivered :: "'b blob_ops \<Rightarrow> (bytes \<Rightarrow> bytes) \<Rightarrow> json_ops \<Rightarrow> payload_store \<Rightarrow> sessionRecord \<Rightarrow> int \<Rightarrow> string list \<Rightarrow>
    'b blobs \<Rightarrow> (nat \<times> sessionRecord) \<times> 'b blobs" where
  "spillDelivered K sha J P rec limit known st =
    (let over = sr_deliveredOver rec; rec = rec\<lparr>sr_deliveredOver := []\<rparr> in
     if over = [] then ((0, rec), st)
     else
       let n = within_budget J (limit div 2) 0 (sr_Delivered rec);
           over = drop n (sr_Delivered rec) @ over;
           rec = rec\<lparr>sr_Delivered := take n (sr_Delivered rec)\<rparr>;
           ((keys, lost), st) = delivered_write K sha J (blobOwner sha (sr_ClientID rec)) known 0 True (chunk_loop J (blobLimit P) over [] 2) st;
           rec = rec\<lparr>sr_DeliveredSpill := keys\<rparr>
       in ((lost, if 0 < lost then rec\<lparr>sr_ReplayCursor := 0, sr_ReplayHoles := []\<rparr> else rec), st))"

section \<open>Spilling a record\<close>

text \<open>The result is how many entries were lost and whether every write succeeded.\<close>

definition spillRecordReusing :: "'b blob_ops \<Rightarrow> (bytes \<Rightarrow> bytes) \<Rightarrow> json_ops \<Rightarrow> payload_store \<Rightarrow> sessionRecord \<Rightarrow> int \<Rightarrow> string list \<Rightarrow>
    'b blobs \<Rightarrow> (nat \<times> bool \<times> sessionRecord) \<times> 'b blobs" where
  "spillRecordReusing K sha J P rec limit known st =
    (let (n, rec) = trimDelivered J (rec\<lparr>sr_Spill := []\<rparr>) (limit div 2);
         rec = (if 0 < n then rec\<lparr>sr_ReplayCursor := 0, sr_ReplayHoles := []\<rparr> else rec);
         es = sr_Inflight rec in
     if jo_recordLen J rec \<le> limit \<or> es = [] then ((0, True, rec), st)
     else
       let raws = map (jo_entry J) es;
           sizes = map (\<lambda>raw. int (length raw) + 1) raws;
           base = jo_recordLen J (rec\<lparr>sr_Inflight := [], sr_Spill := []\<rparr>);
           fits = (\<lambda>keep chunks. sizer_of base sizes keep chunks \<le> limit);
           (keep, spans) = keep_loop fits (spill_pack P es sizes) (length es) [];
           spans = (if keep = 0 then trim_spans (fits 0) spans else spans);
           ((keys, kept, ok), st) = spill_write K sha (blobOwner sha (sr_ClientID rec)) known raws spans st
       in ((length es - (keep + kept), ok, rec\<lparr>sr_Inflight := take keep es, sr_Spill := keys\<rparr>), st))"

fun load_chunks :: "'b blob_ops \<Rightarrow> (bytes \<Rightarrow> bytes) \<Rightarrow> (bytes \<Rightarrow> 'x list option) \<Rightarrow> string list \<Rightarrow> 'b blobs \<Rightarrow> ('x list \<times> nat) \<times> 'b blobs" where
  "load_chunks K sha unmarshal [] st = (([], 0), st)"
| "load_chunks K sha unmarshal (key # named) st =
    (let (raw, st) = getBlob K sha key st;
         ((xs, bad), st) = load_chunks K sha unmarshal named st
     in case Option.bind raw unmarshal of None \<Rightarrow> ((xs, Suc bad), st) | Some chunk \<Rightarrow> ((chunk @ xs, bad), st))"

definition loadDeliveredSpill :: "'b blob_ops \<Rightarrow> (bytes \<Rightarrow> bytes) \<Rightarrow> json_ops \<Rightarrow> string list \<Rightarrow> 'b blobs \<Rightarrow> (storedDelivered list \<times> nat) \<times> 'b blobs" where
  "loadDeliveredSpill K sha J named st = load_chunks K sha (jo_ids J) named st"

definition loadSpill :: "'b blob_ops \<Rightarrow> (bytes \<Rightarrow> bytes) \<Rightarrow> json_ops \<Rightarrow> string list \<Rightarrow> 'b blobs \<Rightarrow> (storedInflight list \<times> nat) \<times> 'b blobs" where
  "loadSpill K sha J named st = load_chunks K sha (jo_entries J) named st"

definition fitRecord :: "json_ops \<Rightarrow> sessionRecord \<Rightarrow> int \<Rightarrow> (nat \<times> nat) \<times> sessionRecord" where
  "fitRecord J rec limit =
    (let n = length (sr_Inflight rec);
         keep = trim_loop (\<lambda>k. jo_recordLen J (rec\<lparr>sr_Inflight := take k (sr_Inflight rec)\<rparr>) \<le> limit) n;
         rec = rec\<lparr>sr_Inflight := take keep (sr_Inflight rec)\<rparr>;
         m = length (sr_ReceivedQoS2 rec);
         keepIDs = trim_loop (\<lambda>k. jo_recordLen J (rec\<lparr>sr_ReceivedQoS2 := take k (sr_ReceivedQoS2 rec)\<rparr>) \<le> limit) m
     in ((n - keep, m - keepIDs), rec\<lparr>sr_ReceivedQoS2 := take keepIDs (sr_ReceivedQoS2 rec)\<rparr>))"

section \<open>Keys and payloads\<close>

lemma hex_digit_plain: "n < 16 \<Longrightarrow> hex_digit n \<noteq> CHR ''.''"
proof -
  have "\<forall>m \<in> {..<16}. hex_digit m \<noteq> CHR ''.''" by code_simp
  then show "n < 16 \<Longrightarrow> hex_digit n \<noteq> CHR ''.''" by blast
qed

lemma hex_of_plain: "CHR ''.'' \<notin> set (hex_of bs)"
proof -
  have "unat b div 16 < 16" "unat b mod 16 < 16" for b :: byte using unat_byte_less [of b] by auto
  then have "CHR ''.'' \<noteq> hex_digit (unat b div 16)" "CHR ''.'' \<noteq> hex_digit (unat b mod 16)" for b :: byte
    using hex_digit_plain by metis+
  then show ?thesis by (simp add: hex_of_def)
qed

lemma blobDigest_key [simp]: "blobDigest (blobKeyFor sha owner raw) = hex_of (sha raw)"
proof -
  have "takeWhile (\<lambda>c. c \<noteq> CHR ''.'') (rev (hex_of (sha raw)) @ CHR ''.'' # rev owner) = rev (hex_of (sha raw))"
    using hex_of_plain [of "sha raw"] by (subst takeWhile_append2) auto
  then show ?thesis by (simp add: blobDigest_def blobKeyFor_def)
qed

text \<open>A payload is found again when the bucket holds it and can be reached.\<close>

definition stored_under :: "'b blob_ops \<Rightarrow> (bytes \<Rightarrow> bytes) \<Rightarrow> 'b blobs \<Rightarrow> string \<Rightarrow> bytes \<Rightarrow> bool" where
  "stored_under K sha st key raw \<longleftrightarrow> bk_view K (snd st) key = Some raw \<and> blobDigest key = hex_of (sha raw)"

lemma bucket_view: "blob_laws K \<Longrightarrow> bk_view K (snd (snd (blobBucket K create st))) = bk_view K (snd st)"
  by (auto simp: blob_laws_def blobBucket_def split: prod.splits) (metis snd_conv)+

lemma getBlob_view: "blob_laws K \<Longrightarrow> bk_view K (snd (snd (getBlob K sha key st))) = bk_view K (snd st)"
  using bucket_view [of K False st]
  by (auto simp: getBlob_def blob_laws_def split: prod.splits option.splits) (metis snd_conv)+

lemma getBlob_stored:
  assumes "blob_answers K" "blob_laws K" "stored_under K sha st key raw"
  shows "fst (getBlob K sha key st) = Some raw"
proof -
  obtain ok st' where b: "blobBucket K False st = (ok, st')" by (cases "blobBucket K False st")
  then have "ok" using assms(1) by (auto simp: blobBucket_def blob_answers_def split: if_splits prod.splits) (metis fst_conv)
  moreover have "bk_view K (snd st') key = Some raw"
    using bucket_view [OF assms(2), of False st] b assms(3) by (simp add: stored_under_def)
  then have "fst (bk_Get K key (snd st')) = Some raw" using assms(1) by (simp add: blob_answers_def)
  ultimately show ?thesis using b assms(3) by (auto simp: getBlob_def stored_under_def split: prod.splits)
qed

lemma putBlob_view:
  assumes "blob_laws K" "putBlob K sha owner raw st = (r, st')"
  shows "bk_view K (snd st') = bk_view K (snd st) \<or> bk_view K (snd st') = (bk_view K (snd st))(blobKeyFor sha owner raw \<mapsto> raw)"
    and "r \<noteq> None \<Longrightarrow> r = Some (blobKeyFor sha owner raw) \<and> bk_view K (snd st') = (bk_view K (snd st))(blobKeyFor sha owner raw \<mapsto> raw)"
proof -
  let ?key = "blobKeyFor sha owner raw"
  obtain ok st1 where b: "blobBucket K True st = (ok, st1)" by (cases "blobBucket K True st")
  have v: "bk_view K (snd st1) = bk_view K (snd st)" using bucket_view [OF assms(1), of True st] b by simp
  obtain put b' where p: "bk_Put K ?key raw (snd st1) = (put, b')" by (cases "bk_Put K ?key raw (snd st1)")
  have l: "put_law K ?key raw (snd st1)" using assms(1) by (simp add: blob_laws_def)
  show "bk_view K (snd st') = bk_view K (snd st) \<or> bk_view K (snd st') = (bk_view K (snd st))(?key \<mapsto> raw)"
    using assms(2) b p l v by (cases ok; cases put) (auto simp: putBlob_def put_law_def Let_def)
  show "r \<noteq> None \<Longrightarrow> r = Some ?key \<and> bk_view K (snd st') = (bk_view K (snd st))(?key \<mapsto> raw)"
    using assms(2) b p l v by (cases ok; cases put) (auto simp: putBlob_def put_law_def Let_def)
qed

text \<open>
  Writes keep what is stored: with no collision of the digest among the contents of \<open>R\<close>, a write of one of them leaves the values
  of the others' keys as they are.
\<close>

definition contents_ok :: "'b blob_ops \<Rightarrow> (bytes \<Rightarrow> bytes) \<Rightarrow> string \<Rightarrow> bytes set \<Rightarrow> 'b blobs \<Rightarrow> string \<Rightarrow> bool" where
  "contents_ok K sha owner R st key \<longleftrightarrow> (\<exists>raw \<in> R. key = blobKeyFor sha owner raw \<and> bk_view K (snd st) key = Some raw)"

lemma hex_of_inj: "hex_of xs = hex_of ys \<Longrightarrow> xs = ys"
proof (induction xs arbitrary: ys)
  case Nil
  then show ?case by (cases ys) (auto simp: hex_of_def)
next
  case (Cons x xs)
  then obtain y ys' where ys: "ys = y # ys'" by (cases ys) (auto simp: hex_of_def)
  have d: "m < 16 \<Longrightarrow> n < 16 \<Longrightarrow> hex_digit m = hex_digit n \<Longrightarrow> m = n" for m n
  proof -
    have "\<forall>m \<in> {..<16}. \<forall>n \<in> {..<16}. hex_digit m = hex_digit n \<longrightarrow> m = n" by code_simp
    then show "m < 16 \<Longrightarrow> n < 16 \<Longrightarrow> hex_digit m = hex_digit n \<Longrightarrow> m = n" by blast
  qed
  have e: "hex_digit (unat x div 16) = hex_digit (unat y div 16)" "hex_digit (unat x mod 16) = hex_digit (unat y mod 16)"
    "hex_of xs = hex_of ys'" using Cons.prems ys by (auto simp: hex_of_def)
  have "unat x div 16 < 16" "unat y div 16 < 16" using unat_byte_less [of x] unat_byte_less [of y] by auto
  then have "unat x div 16 = unat y div 16" "unat x mod 16 = unat y mod 16" using d e(1,2) by simp_all
  then have "unat x = unat y" by (metis div_mult_mod_eq)
  then show ?case using Cons.IH [OF e(3)] ys by (simp add: word_unat_eq_iff)
qed

lemma key_inj: "inj_on sha R \<Longrightarrow> raw \<in> R \<Longrightarrow> raw' \<in> R \<Longrightarrow> blobKeyFor sha owner raw = blobKeyFor sha owner raw' \<Longrightarrow> raw = raw'"
  by (auto simp: blobKeyFor_def dest!: hex_of_inj inj_onD)

lemma putBlob_keeps:
  assumes "blob_laws K" "inj_on sha R" "raw \<in> R" "putBlob K sha owner raw st = (r, st')" "contents_ok K sha owner R st key"
  shows "contents_ok K sha owner R st' key"
  using putBlob_view(1) [OF assms(1,4)] assms(2,3,5) key_inj [OF assms(2)]
  unfolding contents_ok_def by (metis fun_upd_apply)

lemma putBlob_stores:
  assumes "blob_laws K" "raw \<in> R" "putBlob K sha owner raw st = (Some key, st')"
  shows "contents_ok K sha owner R st' key \<and> key = blobKeyFor sha owner raw"
  using putBlob_view(2) [OF assms(1,3)] assms(2) by (auto simp: contents_ok_def)

section \<open>What is spilled is found again\<close>

definition slice :: "'x list \<Rightarrow> nat \<times> nat \<Rightarrow> 'x list" where
  "slice es p = take (snd p - fst p) (drop (fst p) es)"

definition slices :: "'x list \<Rightarrow> (nat \<times> nat) list \<Rightarrow> 'x list" where
  "slices es spans = concat (map (slice es) spans)"

text \<open>The spans cover the entries from \<open>f\<close> to \<open>i\<close> without a gap.\<close>

definition spans_ok :: "'x list \<Rightarrow> nat \<Rightarrow> nat \<Rightarrow> (nat \<times> nat) list \<Rightarrow> bool" where
  "spans_ok es f i spans \<longleftrightarrow> f \<le> i \<and> slices es spans = take (i - f) (drop f es) \<and> (spans = [] \<longrightarrow> i = f) \<and>
    (spans \<noteq> [] \<longrightarrow> snd (last spans) = i \<and> fst (last spans) \<le> i) \<and> (\<forall>p \<in> set spans. fst p \<le> snd p \<and> snd p \<le> length es)"

lemma slice_Suc:
  assumes "a \<le> i" "i < length es"
  shows "take (Suc i - a) (drop a es) = take (i - a) (drop a es) @ [es ! i]"
proof -
  have "Suc i - a = Suc (i - a)" using assms(1) by simp
  moreover have "i - a < length (drop a es)" using assms by simp
  ultimately show ?thesis using assms by (simp add: take_Suc_conv_app_nth)
qed

lemma spans_new: "spans_ok es f i spans \<Longrightarrow> i < length es \<Longrightarrow> spans_ok es f i (spans @ [(i, i)])"
  by (auto simp: spans_ok_def slices_def slice_def)

lemma spans_grow:
  assumes "spans_ok es f i spans" "spans \<noteq> []" "i < length es"
  shows "spans_ok es f (Suc i) (butlast spans @ [(fst (last spans), Suc i)])"
proof -
  let ?a = "fst (last spans)" and ?b = "butlast spans"
  have s: "spans = ?b @ [(?a, i)]" using assms(1,2) by (cases spans rule: rev_cases) (auto simp: spans_ok_def)
  have a: "?a \<le> i" "f \<le> i" "slices es spans = take (i - f) (drop f es)" using assms(1,2) by (auto simp: spans_ok_def)
  have "slices es (?b @ [(?a, Suc i)]) = slices es spans @ [es ! i]"
    by (subst (3) s) (simp add: slices_def slice_def slice_Suc [OF a(1) assms(3)])
  moreover have "\<forall>p \<in> set ?b. fst p \<le> snd p \<and> snd p \<le> length es"
    using assms(1) by (auto simp: spans_ok_def dest: in_set_butlastD)
  ultimately show ?thesis using a assms(3) slice_Suc [OF a(2) assms(3)] by (auto simp: spans_ok_def)
qed

lemma pack_loop_ok:
  "spans_ok es f i spans \<Longrightarrow> i + n = length es \<Longrightarrow> spans_ok es f (length es) (pack_loop es sizes chunkMax ids i n used spans)"
proof (induction n arbitrary: i used spans)
  case 0
  then show ?case by simp
next
  case (Suc n)
  define new where "new \<longleftrightarrow> spans = [] \<or> chunkMax < used + sizes ! i \<or> uint (si_ID (es ! (i - 1))) mod ids = 0"
  define sp where "sp = (if new then spans @ [(i, i)] else spans)"
  have "i < length es" using Suc.prems(2) by simp
  then have "spans_ok es f i sp" using Suc.prems(1) by (simp add: sp_def spans_new)
  moreover have "sp \<noteq> []" by (auto simp: sp_def new_def)
  ultimately have "spans_ok es f (Suc i) (butlast sp @ [(fst (last sp), Suc i)])" using Suc.prems(2) by (intro spans_grow) auto
  then have "spans_ok es f (length es)
      (pack_loop es sizes chunkMax ids (Suc i) n ((if new then 2 else used) + sizes ! i) (butlast sp @ [(fst (last sp), Suc i)]))"
    using Suc.IH Suc.prems(2) by auto
  then show ?case unfolding sp_def new_def by (simp only: pack_loop.simps Let_def)
qed

lemma spill_pack_ok: "k \<le> length es \<Longrightarrow> spans_ok es k (length es) (spill_pack P es sizes k)"
  unfolding spill_pack_def by (rule pack_loop_ok) (auto simp: spans_ok_def slices_def)

lemma keep_loop_ok: "keep_loop fits pack keep spans = (k, sp) \<Longrightarrow> keep \<noteq> 0 \<Longrightarrow> sp = pack k \<and> k < keep"
proof (induction fits pack keep spans rule: keep_loop.induct)
  case (1 fits pack keep spans)
  let ?k = "keep - max 1 (keep div 8)"
  have lt: "?k < keep" using 1(3) by auto
  show ?case
  proof (cases "fits ?k (length (pack ?k))")
    case True
    then show ?thesis using 1(2,3) lt by (auto simp: keep_loop.simps [of fits pack keep] Let_def)
  next
    case False
    then have r: "keep_loop fits pack ?k (pack ?k) = (k, sp)" using 1(2,3) by (simp add: keep_loop.simps [of fits pack keep] Let_def)
    show ?thesis
    proof (cases "?k = 0")
      case True
      then show ?thesis using r lt by (auto simp: keep_loop.simps [of fits pack 0])
    next
      case k: False
      show ?thesis using 1(1) [OF 1(3) refl refl _ r k] False lt by auto
    qed
  qed
qed

lemma trim_spans_prefix: "prefix (trim_spans fits spans) spans"
proof (induction fits spans rule: trim_spans.induct)
  case (1 fits spans)
  show ?case
  proof (cases "spans \<noteq> [] \<and> \<not> fits (length spans)")
    case True
    then have "prefix (trim_spans fits (butlast spans)) (butlast spans)" by (rule 1)
    then show ?thesis using True by (simp add: trim_spans.simps [of fits spans]) (metis prefix_order.trans prefixeq_butlast)
  next
    case False
    then show ?thesis by (simp only: trim_spans.simps [of fits spans] if_False prefix_order.refl)
  qed
qed

abbreviation chunk_key :: "(bytes \<Rightarrow> bytes) \<Rightarrow> string \<Rightarrow> ('x \<Rightarrow> bytes) \<Rightarrow> 'x list \<Rightarrow> string" where
  "chunk_key sha owner f xs \<equiv> blobKeyFor sha owner (json_list f xs)"

text \<open>A chunk that is named without being written is stored.\<close>

definition known_ok :: "'b blob_ops \<Rightarrow> (bytes \<Rightarrow> bytes) \<Rightarrow> string \<Rightarrow> bytes set \<Rightarrow> 'b blobs \<Rightarrow> string list \<Rightarrow> bool" where
  "known_ok K sha owner R st known \<longleftrightarrow>
    (\<forall>raw \<in> R. blobKeyFor sha owner raw \<in> set known \<longrightarrow> contents_ok K sha owner R st (blobKeyFor sha owner raw))"

lemma known_mono: "known_ok K sha owner R st known \<Longrightarrow>
    (\<And>key. contents_ok K sha owner R st key \<Longrightarrow> contents_ok K sha owner R st' key) \<Longrightarrow> known_ok K sha owner R st' known"
  by (simp add: known_ok_def)

lemma json_slice: "json_list (\<lambda>r. r) (take n (drop i (map f xs))) = json_list f (take n (drop i xs))"
  by (simp add: json_list_def take_map drop_map)

lemma spill_write_ok:
  assumes "blob_laws K" "inj_on sha R" "\<forall>p. json_list f (slice es p) \<in> R" "known_ok K sha owner R st known"
    "spill_write K sha owner known (map f es) spans st = ((ks, kept, ok), st')"
  shows "\<exists>sps. prefix sps spans \<and> ks = map (\<lambda>p. chunk_key sha owner f (slice es p)) sps \<and> kept = sum_list (map (\<lambda>p. snd p - fst p) sps) \<and>
    (\<forall>key \<in> set ks. contents_ok K sha owner R st' key) \<and> (\<forall>key. contents_ok K sha owner R st key \<longrightarrow> contents_ok K sha owner R st' key)"
  using assms(4,5)
proof (induction spans arbitrary: st ks kept)
  case Nil
  then show ?case by auto
next
  case (Cons p spans)
  obtain i j where p: "p = (i, j)" by (cases p)
  let ?raw = "json_list f (slice es p)" and ?key = "chunk_key sha owner f (slice es p)"
  have j: "json_list (\<lambda>r. r) (take (j - i) (drop i (map f es))) = ?raw" using p by (simp only: json_slice slice_def) simp
  define put where "put = (if ?key \<in> set known then (Some ?key, st) else putBlob K sha owner ?raw st)"
  obtain r st1 where r: "put = (r, st1)" by (cases put)
  have R: "?raw \<in> R" using assms(3) by blast
  have keeps: "contents_ok K sha owner R st1 key" if "contents_ok K sha owner R st key" for key
    using that r putBlob_keeps [OF assms(1,2) R] unfolding put_def by (auto split: if_splits)
  have w: "spill_write K sha owner known (map f es) (p # spans) st =
      (case r of None \<Rightarrow> (([], 0, False), st1)
       | Some _ \<Rightarrow> let ((ks, kept, ok), st) = spill_write K sha owner known (map f es) spans st1 in ((?key # ks, kept + (j - i), ok), st))"
    using r unfolding put_def p by (simp only: spill_write.simps Let_def j [unfolded p] prod.case)
  show ?case
  proof (cases r)
    case None
    then show ?thesis using w Cons.prems(2) keeps by auto
  next
    case (Some k)
    obtain ks1 kept1 ok1 st2 where w1: "spill_write K sha owner known (map f es) spans st1 = ((ks1, kept1, ok1), st2)"
      by (metis prod.collapse)
    then have e: "ks = ?key # ks1" "kept = kept1 + (j - i)" "ok = ok1" "st' = st2" using w Some Cons.prems(2) by auto
    have key: "contents_ok K sha owner R st1 ?key"
      using r Some Cons.prems(1) R putBlob_stores [OF assms(1) R] unfolding put_def by (auto simp: known_ok_def split: if_splits)
    obtain sps where s: "prefix sps spans" "ks1 = map (\<lambda>p. chunk_key sha owner f (slice es p)) sps"
      "kept1 = sum_list (map (\<lambda>p. snd p - fst p) sps)" "\<forall>key \<in> set ks1. contents_ok K sha owner R st2 key"
      "\<forall>key. contents_ok K sha owner R st1 key \<longrightarrow> contents_ok K sha owner R st2 key"
      using Cons.IH [of st1 ks1 kept1] known_mono [OF Cons.prems(1) keeps] w1 e(3,4) by blast
    have "prefix (p # sps) (p # spans)" using s(1) by simp
    moreover have "ks = map (\<lambda>p. chunk_key sha owner f (slice es p)) (p # sps)" using e(1) s(2) by simp
    moreover have "kept = sum_list (map (\<lambda>p. snd p - fst p) (p # sps))" using e(2) s(3) p by simp
    moreover have "\<forall>key \<in> set ks. contents_ok K sha owner R st' key" using e(1,4) s(4,5) key by simp
    moreover have "\<forall>key. contents_ok K sha owner R st key \<longrightarrow> contents_ok K sha owner R st' key" using keeps s(5) e(4) by blast
    ultimately show ?thesis by blast
  qed
qed

lemma slices_length:
  "\<forall>p \<in> set spans. fst p \<le> snd p \<and> snd p \<le> length es \<Longrightarrow> length (slices es spans) = sum_list (map (\<lambda>p. snd p - fst p) spans)"
  by (induction spans) (auto simp: slices_def slice_def)

lemma slices_prefix:
  assumes "spans_ok es f (length es) spans" "prefix sps spans" "length es \<le> f + sum_list (map (\<lambda>p. snd p - fst p) sps)"
  shows "slices es sps = drop f es"
proof -
  obtain more' where m: "spans = sps @ more'" using assms(2) by (auto elim: prefixE)
  have s: "slices es spans = drop f es" "\<forall>p \<in> set sps. fst p \<le> snd p \<and> snd p \<le> length es"
    using assms(1) m by (auto simp: spans_ok_def)
  have "length (drop f es) \<le> length (slices es sps)" using slices_length [OF s(2)] assms(3) by simp
  moreover have "slices es sps @ slices es more' = drop f es" using s(1) m by (simp add: slices_def)
  ultimately show ?thesis by (metis append_Nil2 append_eq_append_conv_if length_append le_add1 le_antisym take_all_iff append_take_drop_id)
qed

lemma load_chunks_ok:
  assumes "blob_laws K" "blob_answers K" "\<forall>c \<in> set cs. unmarshal (json_list f c) = Some c"
    "\<forall>c \<in> set cs. bk_view K (snd st) (chunk_key sha owner f c) = Some (json_list f c)"
  shows "fst (load_chunks K sha unmarshal (map (chunk_key sha owner f) cs) st) = (concat cs, 0)"
  using assms(3,4)
proof (induction cs arbitrary: st)
  case Nil
  then show ?case by simp
next
  case (Cons c cs)
  obtain r st1 where g: "getBlob K sha (chunk_key sha owner f c) st = (r, st1)" by (cases "getBlob K sha (chunk_key sha owner f c) st")
  have "r = Some (json_list f c)"
    using getBlob_stored [OF assms(2,1), of sha st "chunk_key sha owner f c" "json_list f c"] g Cons.prems(2) by (simp add: stored_under_def)
  moreover have "bk_view K (snd st1) = bk_view K (snd st)" using getBlob_view [OF assms(1)] g by (metis snd_conv)
  ultimately show ?case using Cons.IH [of st1] Cons.prems g
    by (cases "load_chunks K sha unmarshal (map (chunk_key sha owner f) cs) st1") auto
qed

text \<open>A record spilled without a loss: its entries are those of the value followed by those of the chunks, which the bucket holds.\<close>

definition spilled :: "'b blob_ops \<Rightarrow> (bytes \<Rightarrow> bytes) \<Rightarrow> ('x \<Rightarrow> bytes) \<Rightarrow> string \<Rightarrow> bytes set \<Rightarrow> 'b blobs \<Rightarrow> 'x list \<Rightarrow> string list \<Rightarrow> 'x list \<Rightarrow> bool" where
  "spilled K sha f owner R st whole ks xs \<longleftrightarrow> (\<exists>cs. ks = map (chunk_key sha owner f) cs \<and> concat cs = xs \<and>
    (\<forall>c \<in> set cs. json_list f c \<in> R \<and> (\<exists>p. c = slice whole p)) \<and> (\<forall>key \<in> set ks. contents_ok K sha owner R st key))"

lemma trim_loop_le: "trim_loop fits m \<le> m"
proof (induction fits m rule: trim_loop.induct)
  case (1 fits keep)
  show ?case
  proof (cases "keep = 0 \<or> fits keep")
    case True
    then show ?thesis by (simp add: trim_loop.simps [of fits keep])
  next
    case False
    have "trim_loop fits (keep - max 1 (keep div 8)) \<le> keep - max 1 (keep div 8)" by (rule 1 [OF False])
    then show ?thesis using False by (simp add: trim_loop.simps [of fits keep])
  qed
qed

lemma fitRecord_uncut: "fitRecord J rec limit = ((0, 0), rec') \<Longrightarrow> rec' = rec"
  using trim_loop_le [of _ "length (sr_Inflight rec)"] trim_loop_le [of _ "length (sr_ReceivedQoS2 rec)"]
  by (auto simp: fitRecord_def Let_def)

lemma trimDelivered_fields:
  "trimDelivered J rec budget = (n, rec') \<Longrightarrow> rec' = rec\<lparr>sr_Delivered := sr_Delivered rec'\<rparr> \<and> (n = 0 \<longrightarrow> rec' = rec)"
  using trim_loop_le [of _ "length (sr_Delivered rec)"] by (auto simp: trimDelivered_def Let_def split: if_splits)

lemma spillRecord_ok:
  assumes "blob_laws K" "inj_on sha R" "\<forall>p. json_list (jo_entry J) (slice (sr_Inflight rec) p) \<in> R"
    "known_ok K sha (blobOwner sha (sr_ClientID rec)) R st known"
    "spillRecordReusing K sha J P rec limit known st = ((0, ok, rec'), st')"
  shows "\<exists>xs. sr_Inflight rec = sr_Inflight rec' @ xs \<and>
      spilled K sha (jo_entry J) (blobOwner sha (sr_ClientID rec)) R st' (sr_Inflight rec) (sr_Spill rec') xs"
    and "contents_ok K sha (blobOwner sha (sr_ClientID rec)) R st key \<Longrightarrow> contents_ok K sha (blobOwner sha (sr_ClientID rec)) R st' key"
    and "\<exists>i ks d c h. rec' = rec\<lparr>sr_Inflight := i, sr_Spill := ks, sr_Delivered := d, sr_ReplayCursor := c, sr_ReplayHoles := h\<rparr>"
    and "sr_ReplayCursor rec' \<noteq> 0 \<Longrightarrow> sr_Delivered rec' = sr_Delivered rec \<and> sr_ReplayCursor rec' = sr_ReplayCursor rec \<and>
      sr_ReplayHoles rec' = sr_ReplayHoles rec"
proof -
  let ?o = "blobOwner sha (sr_ClientID rec)" and ?es = "sr_Inflight rec"
  obtain n rec1 where t: "trimDelivered J (rec\<lparr>sr_Spill := []\<rparr>) (limit div 2) = (n, rec1)"
    by (cases "trimDelivered J (rec\<lparr>sr_Spill := []\<rparr>) (limit div 2)")
  define rec2 where "rec2 = (if 0 < n then rec1\<lparr>sr_ReplayCursor := 0, sr_ReplayHoles := []\<rparr> else rec1)"
  have r1: "rec1 = rec\<lparr>sr_Spill := [], sr_Delivered := sr_Delivered rec1\<rparr>" "n = 0 \<Longrightarrow> rec1 = rec\<lparr>sr_Spill := []\<rparr>"
    using trimDelivered_fields [OF t] by simp_all
  have r2: "rec2 = rec\<lparr>sr_Spill := [], sr_Delivered := sr_Delivered rec2, sr_ReplayCursor := sr_ReplayCursor rec2, sr_ReplayHoles := sr_ReplayHoles rec2\<rparr>"
  proof (cases "n = 0")
    case True
    then have "rec2 = rec\<lparr>sr_Spill := []\<rparr>" using r1(2) by (simp add: rec2_def)
    then show ?thesis by (cases rec) simp
  next
    case False
    then show ?thesis unfolding rec2_def by (subst (1 2) r1(1)) simp
  qed
  have r2c: "sr_ReplayCursor rec2 \<noteq> 0 \<Longrightarrow> rec2 = rec\<lparr>sr_Spill := []\<rparr>"
    using r1(2) unfolding rec2_def by (auto split: if_splits)
  have f2: "sr_Inflight rec2 = ?es" "sr_ClientID rec2 = sr_ClientID rec" "sr_Spill rec2 = []" by (subst r2, simp)+
  define go where "go \<longleftrightarrow> \<not> (jo_recordLen J rec2 \<le> limit \<or> ?es = [])"
  define sizes where "sizes = map (\<lambda>raw. int (length raw) + 1) (map (jo_entry J) ?es)"
  define fits where "fits = (\<lambda>keep chunks. sizer_of (jo_recordLen J (rec2\<lparr>sr_Inflight := [], sr_Spill := []\<rparr>)) sizes keep chunks \<le> limit)"
  have fits0: "(\<lambda>chunks. sizer_of (jo_recordLen J (rec2\<lparr>sr_Inflight := [], sr_Spill := []\<rparr>)) sizes 0 chunks \<le> limit) = fits 0"
    by (simp add: fits_def)
  obtain keep sp0 where kl: "keep_loop fits (spill_pack P ?es sizes) (length ?es) [] = (keep, sp0)"
    by (cases "keep_loop fits (spill_pack P ?es sizes) (length ?es) []")
  define spans where "spans = (if keep = 0 then trim_spans (fits 0) sp0 else sp0)"
  obtain ks kept ok1 st1 where w: "spill_write K sha ?o known (map (jo_entry J) ?es) spans st = ((ks, kept, ok1), st1)" by (metis prod.collapse)
  have res: "spillRecordReusing K sha J P rec limit known st =
      (if \<not> go then ((0, True, rec2), st)
       else ((length ?es - (keep + kept), ok1, rec2\<lparr>sr_Inflight := take keep ?es, sr_Spill := ks\<rparr>), st1))"
    by (simp only: spillRecordReusing_def t Let_def prod.case rec2_def [symmetric] f2 sizes_def [symmetric] fits0 fits_def [symmetric] kl
        spans_def [symmetric] w) (simp add: go_def)
  have rec': "rec' = (if go then rec2\<lparr>sr_Inflight := take keep ?es, sr_Spill := ks\<rparr> else rec2)" "st' = (if go then st1 else st)"
    "go \<Longrightarrow> length ?es \<le> keep + kept" using res assms(5) by (auto split: if_splits)
  obtain sps where s: "prefix sps spans" "ks = map (\<lambda>p. chunk_key sha ?o (jo_entry J) (slice ?es p)) sps"
    "kept = sum_list (map (\<lambda>p. snd p - fst p) sps)" "\<forall>key \<in> set ks. contents_ok K sha ?o R st1 key"
    "\<forall>key. contents_ok K sha ?o R st key \<longrightarrow> contents_ok K sha ?o R st1 key"
    using spill_write_ok [OF assms(1-4) w] by blast
  show "contents_ok K sha ?o R st key \<Longrightarrow> contents_ok K sha ?o R st' key" using s(5) rec'(2) by simp
  obtain d c h where r: "rec2 = rec\<lparr>sr_Spill := [], sr_Delivered := d, sr_ReplayCursor := c, sr_ReplayHoles := h\<rparr>" using r2 by blast
  have "\<exists>i ks. rec' = rec\<lparr>sr_Inflight := i, sr_Spill := ks, sr_Delivered := d, sr_ReplayCursor := c, sr_ReplayHoles := h\<rparr>"
  proof (cases go)
    case True
    then show ?thesis unfolding rec'(1) r by (intro exI [of _ "take keep ?es"] exI [of _ ks]) simp
  next
    case False
    then show ?thesis unfolding rec'(1) r by (intro exI [of _ ?es] exI [of _ "[]"]) (cases rec, simp)
  qed
  then show "\<exists>i ks d c h. rec' = rec\<lparr>sr_Inflight := i, sr_Spill := ks, sr_Delivered := d, sr_ReplayCursor := c, sr_ReplayHoles := h\<rparr>"
    by blast
  show "sr_ReplayCursor rec' \<noteq> 0 \<Longrightarrow> sr_Delivered rec' = sr_Delivered rec \<and> sr_ReplayCursor rec' = sr_ReplayCursor rec \<and>
      sr_ReplayHoles rec' = sr_ReplayHoles rec"
    using r2c unfolding rec'(1) by (auto split: if_splits)
  show "\<exists>xs. ?es = sr_Inflight rec' @ xs \<and> spilled K sha (jo_entry J) ?o R st' ?es (sr_Spill rec') xs"
  proof (cases go)
    case False
    then show ?thesis using rec'(1) f2 by (auto simp: spilled_def)
  next
    case True
    then have "length ?es \<noteq> 0" by (auto simp: go_def)
    then have k: "sp0 = spill_pack P ?es sizes keep" "keep < length ?es" using keep_loop_ok [OF kl] by blast+
    have "spans_ok ?es keep (length ?es) sp0" unfolding k(1) using k(2) by (intro spill_pack_ok) simp
    moreover have "prefix spans sp0" unfolding spans_def by (simp add: trim_spans_prefix)
    with s(1) have "prefix sps sp0" by (rule prefix_order.trans)
    ultimately have "slices ?es sps = drop keep ?es" using rec'(3) [OF True] s(3) by (intro slices_prefix) auto
    then have "concat (map (slice ?es) sps) = drop keep ?es" by (simp add: slices_def)
    moreover have "sr_Inflight rec' = take keep ?es" "sr_Spill rec' = map (chunk_key sha ?o (jo_entry J)) (map (slice ?es) sps)"
      "st' = st1" "sr_Spill rec' = ks" using rec'(1,2) True s(2) by simp_all
    moreover have "\<forall>c \<in> set (map (slice ?es) sps). json_list (jo_entry J) c \<in> R \<and> (\<exists>p. c = slice ?es p)" using assms(3) by auto
    ultimately have "spilled K sha (jo_entry J) ?o R st' ?es (sr_Spill rec') (drop keep ?es)" unfolding spilled_def using s(4) by metis
    then show ?thesis using \<open>sr_Inflight rec' = take keep ?es\<close> by (intro exI [of _ "drop keep ?es"]) simp
  qed
qed

lemma spilled_loads:
  assumes "blob_laws K" "blob_answers K" "inj_on sha R" "spilled K sha (jo_entry J) owner R st es ks xs"
    "\<forall>p. jo_entries J (json_list (jo_entry J) (slice es p)) = Some (slice es p)"
    "\<forall>key \<in> set ks. bk_view K (snd st') key = bk_view K (snd st) key"
  shows "fst (loadSpill K sha J ks st') = (xs, 0)"
proof -
  obtain cs where c: "ks = map (chunk_key sha owner (jo_entry J)) cs" "concat cs = xs" "\<forall>c \<in> set cs. json_list (jo_entry J) c \<in> R \<and> (\<exists>p. c = slice es p)"
    "\<forall>key \<in> set ks. contents_ok K sha owner R st key" using assms(4) by (auto simp: spilled_def)
  have "bk_view K (snd st') (chunk_key sha owner (jo_entry J) c) = Some (json_list (jo_entry J) c)" if "c \<in> set cs" for c
  proof -
    let ?key = "chunk_key sha owner (jo_entry J) c"
    have "contents_ok K sha owner R st ?key" using c(1,4) that by simp
    then obtain raw where "raw \<in> R" "?key = blobKeyFor sha owner raw" "bk_view K (snd st) ?key = Some raw" by (auto simp: contents_ok_def)
    moreover have "json_list (jo_entry J) c \<in> R" "?key \<in> set ks" using c(1,3) that by simp_all
    ultimately show ?thesis using key_inj [OF assms(3), of "json_list (jo_entry J) c" raw owner] assms(6) by simp
  qed
  moreover have "jo_entries J (json_list (jo_entry J) c) = Some c" if "c \<in> set cs" for c using c(3) assms(5) that by metis
  ultimately show ?thesis unfolding loadSpill_def c(1) c(2) [symmetric] by (intro load_chunks_ok [OF assms(1,2)]) auto
qed

section \<open>Spilled ids are found again\<close>

lemma slice_of_concat:
  assumes "c \<in> set cs"
  shows "\<exists>p. c = slice (concat cs) p"
proof -
  obtain a b where "cs = a @ c # b" using assms by (meson split_list)
  then have "slice (concat cs) (length (concat a), length (concat a) + length c) = c" by (simp add: slice_def)
  then show ?thesis by metis
qed

lemma chunk_loop_concat: "concat (chunk_loop J m ds cur used) = cur @ ds"
  by (induction ds arbitrary: cur used) (auto simp: Let_def)

lemma chunk_loop_ne: "c \<in> set (chunk_loop J m ds cur used) \<Longrightarrow> c \<noteq> []"
  by (induction ds arbitrary: cur used) (auto simp: Let_def split: if_splits)

lemma delivered_write_ok:
  assumes "blob_laws K" "inj_on sha R" "\<forall>c \<in> set cs. json_list (jo_id J) c \<in> R" "known_ok K sha owner R st known"
    "delivered_write K sha J owner known i ok cs st = ((ks, lost), st')"
  shows "(\<forall>key. contents_ok K sha owner R st key \<longrightarrow> contents_ok K sha owner R st' key) \<and>
    (lost = 0 \<and> [] \<notin> set cs \<longrightarrow> ks = map (chunk_key sha owner (jo_id J)) cs \<and> (\<forall>key \<in> set ks. contents_ok K sha owner R st' key))"
  using assms(3-5)
proof (induction cs arbitrary: i ok st ks lost st')
  case Nil
  then show ?case by simp
next
  case (Cons c cs)
  let ?raw = "json_list (jo_id J) c" and ?key = "chunk_key sha owner (jo_id J) c"
  have R: "?raw \<in> R" using Cons.prems(1) by simp
  define r where "r = (if \<not> (i < maxDeliveredChunks \<and> ok) then (False, ok, st) else if ?key \<in> set known then (True, ok, st)
    else let (put, st) = putBlob K sha owner ?raw st in (put \<noteq> None, put \<noteq> None, st))"
  obtain kept' ok1 st1 where r1: "r = (kept', ok1, st1)" by (cases r)
  obtain put st2 where p: "putBlob K sha owner ?raw st = (put, st2)" by (cases "putBlob K sha owner ?raw st")
  have keeps: "contents_ok K sha owner R st1 key" if "contents_ok K sha owner R st key" for key
    using r1 p that putBlob_keeps [OF assms(1,2) R p that] unfolding r_def by (auto split: if_splits)
  have stored: "contents_ok K sha owner R st1 ?key" if k: "kept'"
  proof (cases "?key \<in> set known")
    case True
    then have "st1 = st" using r1 k unfolding r_def by (auto split: if_splits)
    then show ?thesis using Cons.prems(2) R True by (simp add: known_ok_def)
  next
    case False
    then obtain key where "put = Some key" "st1 = st2" using r1 p k unfolding r_def by (auto split: if_splits)
    then show ?thesis using putBlob_stores [OF assms(1) R p [unfolded \<open>put = Some key\<close>]] by auto
  qed
  obtain ks1 lost1 st3 where w: "delivered_write K sha J owner known (Suc i) ok1 cs st1 = ((ks1, lost1), st3)" by (metis prod.collapse)
  have "delivered_write K sha J owner known i ok (c # cs) st = (let (kept', ok, st) = r; ((ks, lost), st) =
      delivered_write K sha J owner known (Suc i) ok cs st in (if kept' then (?key # ks, lost) else (ks, lost + length c), st))"
    unfolding r_def by (simp only: delivered_write.simps Let_def)
  then have e: "st' = st3" "kept' \<Longrightarrow> ks = ?key # ks1 \<and> lost = lost1" "\<not> kept' \<Longrightarrow> ks = ks1 \<and> lost = lost1 + length c"
    using Cons.prems(3) r1 w by (auto split: if_splits)
  have ih: "(\<forall>key. contents_ok K sha owner R st1 key \<longrightarrow> contents_ok K sha owner R st3 key) \<and>
    (lost1 = 0 \<and> [] \<notin> set cs \<longrightarrow> ks1 = map (chunk_key sha owner (jo_id J)) cs \<and> (\<forall>key \<in> set ks1. contents_ok K sha owner R st3 key))"
    using Cons.prems(1) by (intro Cons.IH [OF _ known_mono [OF Cons.prems(2)] w]) (simp_all add: keeps)
  show ?case
  proof (intro conjI impI)
    show "\<forall>key. contents_ok K sha owner R st key \<longrightarrow> contents_ok K sha owner R st' key" using keeps ih e(1) by blast
    assume z: "lost = 0 \<and> [] \<notin> set (c # cs)"
    then have k: "kept'" using e(3) by auto
    then show "ks = map (chunk_key sha owner (jo_id J)) (c # cs)" using e(2) ih z by simp
    show "\<forall>key \<in> set ks. contents_ok K sha owner R st' key" using k e(1,2) ih z stored by auto
  qed
qed

lemma spillDelivered_ok:
  assumes "blob_laws K" "inj_on sha R" "\<forall>p. json_list (jo_id J) (slice (sr_Delivered rec @ sr_deliveredOver rec) p) \<in> R"
    "known_ok K sha (blobOwner sha (sr_ClientID rec)) R st known" "spillDelivered K sha J P rec limit known st = ((lost, rec'), st')"
  shows "contents_ok K sha (blobOwner sha (sr_ClientID rec)) R st key \<Longrightarrow> contents_ok K sha (blobOwner sha (sr_ClientID rec)) R st' key"
    and "\<exists>d ks c h. rec' = rec\<lparr>sr_deliveredOver := [], sr_Delivered := d, sr_DeliveredSpill := ks, sr_ReplayCursor := c, sr_ReplayHoles := h\<rparr>"
proof -
  let ?o = "blobOwner sha (sr_ClientID rec)"
  define n where "n = within_budget J (limit div 2) 0 (sr_Delivered rec)"
  define over where "over = drop n (sr_Delivered rec) @ sr_deliveredOver rec"
  define cs where "cs = chunk_loop J (blobLimit P) over [] 2"
  obtain ks l st1 where w: "delivered_write K sha J ?o known 0 True cs st = ((ks, l), st1)" by (metis prod.collapse)
  define rec1 where "rec1 = rec\<lparr>sr_deliveredOver := [], sr_Delivered := take n (sr_Delivered rec), sr_DeliveredSpill := ks\<rparr>"
  have res: "spillDelivered K sha J P rec limit known st =
      (if sr_deliveredOver rec = [] then ((0, rec\<lparr>sr_deliveredOver := []\<rparr>), st)
       else ((l, if 0 < l then rec1\<lparr>sr_ReplayCursor := 0, sr_ReplayHoles := []\<rparr> else rec1), st1))"
    using w unfolding cs_def over_def n_def rec1_def by (simp add: spillDelivered_def Let_def)
  have "json_list (jo_id J) c \<in> R" if c: "c \<in> set cs" for c
  proof -
    obtain i j where "c = slice over (i, j)" using slice_of_concat [OF c] by (auto simp: cs_def chunk_loop_concat)
    moreover have "over = drop (min n (length (sr_Delivered rec))) (sr_Delivered rec @ sr_deliveredOver rec)" by (simp add: over_def min_def)
    ultimately have "c = slice (sr_Delivered rec @ sr_deliveredOver rec) (i + min n (length (sr_Delivered rec)), j + min n (length (sr_Delivered rec)))"
      by (simp only: slice_def fst_conv snd_conv drop_drop diff_add_inverse2 add_diff_cancel_right)
    then show ?thesis using assms(3) by metis
  qed
  then show "contents_ok K sha ?o R st key \<Longrightarrow> contents_ok K sha ?o R st' key"
    using delivered_write_ok [OF assms(1,2) _ assms(4) w] res assms(5) by (auto split: if_splits)
  show "\<exists>d ks c h. rec' = rec\<lparr>sr_deliveredOver := [], sr_Delivered := d, sr_DeliveredSpill := ks, sr_ReplayCursor := c, sr_ReplayHoles := h\<rparr>"
  proof (cases "sr_deliveredOver rec = []")
    case True
    then have "rec' = rec\<lparr>sr_deliveredOver := []\<rparr>" using res assms(5) by simp
    then show ?thesis
      by (intro exI [of _ "sr_Delivered rec"] exI [of _ "sr_DeliveredSpill rec"] exI [of _ "sr_ReplayCursor rec"] exI [of _ "sr_ReplayHoles rec"])
        (cases rec, simp)
  next
    case over: False
    then show ?thesis
    proof (cases "0 < l")
      case True
      then have "rec' = rec1\<lparr>sr_ReplayCursor := 0, sr_ReplayHoles := []\<rparr>" using res assms(5) over by simp
      then show ?thesis unfolding rec1_def by blast
    next
      case False
      then have "rec' = rec1" using res assms(5) over by simp
      then show ?thesis unfolding rec1_def
        by (intro exI [of _ "take n (sr_Delivered rec)"] exI [of _ ks] exI [of _ "sr_ReplayCursor rec"] exI [of _ "sr_ReplayHoles rec"])
          (cases rec, simp)
    qed
  qed
qed

end
