(* ===== verification/Inflight_Record.thy ===== *)
theory Inflight_Record
  imports Payload_Store
begin

text \<open>
  What a session record keeps of the unacknowledged messages: \<^verbatim>\<open>inflightState\<close>, \<^verbatim>\<open>stashBlobs\<close>, \<^verbatim>\<open>spillInto\<close>, \<^verbatim>\<open>commitSpill\<close> and
  \<^verbatim>\<open>reapBlobs\<close> of \<^verbatim>\<open>src/session.go\<close>, with the two writers of the record: \<^verbatim>\<open>releaseStoredSession\<close> of \<^verbatim>\<open>src/broker.go\<close>, when the
  connection ends, and \<^verbatim>\<open>checkpointSession\<close> of \<^verbatim>\<open>src/checkpoint.go\<close>, while it lasts. The session is extended by the chunks its last record named.
  The clock is an argument.
\<close>

record session_spill = session_replay +
  s_spillKeys :: "string list"
  s_spillAt :: time
  s_spillReused :: bool
  s_deliveredKeys :: "string list"
  s_deliveredKeysAt :: time
  s_deliveredReused :: bool

section \<open>The entries of a record\<close>

record pendingBlob =
  pn_index :: nat
  pn_id :: u16
  pn_raw :: bytes

definition encodeStorable :: "outbound \<Rightarrow> bytes option" where
  "encodeStorable o' =
    (case ob_publish o' of
       None \<Rightarrow> None
     | Some p \<Rightarrow> (case encode_packet (Publish (p\<lparr>pb_Dup := False\<rparr>)) of Inl _ \<Rightarrow> None | Inr raw \<Rightarrow> Some raw))"

definition stored_blank :: "u16 \<Rightarrow> QoS \<Rightarrow> storedInflight" where
  "stored_blank i q = \<lparr>si_ID = i, si_QoS = q, si_Rel = False, si_Seq = 0, si_Retain = False, si_SubID = 0, si_Ack = [], si_Pub = [],
     si_Blob = [], si_BlobAt = zeroTime, si_At = zeroTime, si_Exp = None\<rparr>"

text \<open>An entry with a copy in the offline queue. A nil \<^verbatim>\<open>publish\<close> is a panic.\<close>

definition stored_queued :: "outbound \<Rightarrow> storedInflight res" where
  "stored_queued o' =
    (case ob_publish o' of
       None \<Rightarrow> Inl Panic
     | Some p \<Rightarrow> Inr ((stored_blank (ob_packetID o') (ob_qos o'))\<lparr>si_Seq := ob_queueSeq o', si_Ack := ob_ackSubject o', si_Retain := pb_Retain p,
         si_SubID := (case pb_Properties p of None \<Rightarrow> 0
           | Some q \<Rightarrow> (case SubscriptionIdentifiers q of [] \<Rightarrow> 0 | n # _ \<Rightarrow> n))\<rparr>))"

text \<open>The loop over the entries in the order they were sent; \<open>n\<close> entries were recorded before. The result is the entries, how
  many were left out, and the payloads to be written.\<close>

fun inflight_loop :: "payload_store option \<Rightarrow> time \<Rightarrow> int \<Rightarrow> int \<Rightarrow> nat \<Rightarrow> outbound list \<Rightarrow>
    (storedInflight list \<times> nat \<times> pendingBlob list) res" where
  "inflight_loop P now inlineLimit inlineLeft n [] = Inr ([], 0, [])"
| "inflight_loop P now inlineLimit inlineLeft n (o' # os) =
    (let st = stored_blank (ob_packetID o') (ob_qos o');
         timed = st\<lparr>si_At := ob_arrived o', si_Exp := ob_expiry o'\<rparr>;
         record' = (\<lambda>st left pend. rbind (inflight_loop P now inlineLimit left (Suc n) os) (\<lambda>(es, un, ps). Inr (st # es, un, pend @ ps)));
         leave = rbind (inflight_loop P now inlineLimit inlineLeft n os) (\<lambda>(es, un, ps). Inr (es, Suc un, ps)) in
     if ob_awaitingPubcomp o' then record' (st\<lparr>si_Rel := True, si_Ack := ob_ackSubject o'\<rparr>) inlineLeft []
     else if ob_queueSeq o' \<noteq> 0 then rbind (stored_queued o') (\<lambda>st. record' st inlineLeft [])
     else case encodeStorable o' of
       None \<Rightarrow> leave
     | Some raw \<Rightarrow>
         if int (length raw) \<le> inlineLimit \<and> int (length raw) \<le> inlineLeft
         then record' (timed\<lparr>si_Pub := raw\<rparr>) (inlineLeft - int (length raw)) []
         else (case P of
             None \<Rightarrow> leave
           | Some P' \<Rightarrow>
               if blobLimit P' < int (length raw) then leave
               else if ob_blobKey o' \<noteq> [] \<and> \<not> blobStale P' now (ob_blobAt o')
               then record' (timed\<lparr>si_Blob := ob_blobKey o', si_BlobAt := ob_blobAt o'\<rparr>) inlineLeft []
               else record' timed inlineLeft [\<lparr>pn_index = n, pn_id = ob_packetID o', pn_raw = raw\<rparr>]))"

definition maxInt :: int where "maxInt = 2 ^ 63 - 1"

definition inflightState :: "payload_store option \<Rightarrow> time \<Rightarrow> 'a session_flow_scheme \<Rightarrow>
    (storedInflight list \<times> u16 list \<times> nat \<times> pendingBlob list) res" where
  "inflightState P now s =
    (let inlineLimit = (case P of None \<Rightarrow> maxStoredPublish | Some P \<Rightarrow> min maxStoredPublish (valueLimit P div 4));
         inlineLeft = (case P of None \<Rightarrow> maxInt | Some P \<Rightarrow> valueLimit P div 4);
         received = sort (filter (\<lambda>i. get (s_qos2Forwarding s) i = None) (map fst (s_receivedQoS2 s)))
     in rbind (inflight_loop P now inlineLimit inlineLeft 0 (unacknowledged s)) (\<lambda>(es, un, ps). Inr (es, received, un, ps)))"

section \<open>Payloads\<close>

definition set_blob :: "u16 \<Rightarrow> string \<Rightarrow> time \<Rightarrow> 'a session_flow_scheme \<Rightarrow> 'a session_flow_scheme" where
  "set_blob i key at s =
    (case get (s_inflight s) i of
       None \<Rightarrow> s
     | Some o' \<Rightarrow> s\<lparr>s_inflight := AList.update i (o'\<lparr>ob_blobKey := key, ob_blobAt := at\<rparr>) (s_inflight s)\<rparr>)"

text \<open>The entries whose payload was not written are in the list of the result.\<close>

fun stash_loop :: "'b blob_ops \<Rightarrow> (bytes \<Rightarrow> bytes) \<Rightarrow> string \<Rightarrow> time \<Rightarrow> pendingBlob list \<Rightarrow> storedInflight list \<Rightarrow> 'a session_flow_scheme \<Rightarrow>
    'b blobs \<Rightarrow> (nat list \<times> storedInflight list \<times> 'a session_flow_scheme) \<times> 'b blobs" where
  "stash_loop K sha owner now [] es s st = (([], es, s), st)"
| "stash_loop K sha owner now (p # ps) es s st =
    (case putBlob K sha owner (pn_raw p) st of
       (None, st) \<Rightarrow> let ((gone, es, s), st) = stash_loop K sha owner now ps es s st in ((pn_index p # gone, es, s), st)
     | (Some key, st) \<Rightarrow>
         stash_loop K sha owner now ps (es[pn_index p := (es ! pn_index p)\<lparr>si_Blob := key, si_BlobAt := now\<rparr>])
           (set_blob (pn_id p) key now s) st)"

definition stashBlobs :: "'b blob_ops \<Rightarrow> (bytes \<Rightarrow> bytes) \<Rightarrow> time \<Rightarrow> sessionRecord \<Rightarrow> pendingBlob list \<Rightarrow> 'a session_flow_scheme \<Rightarrow>
    'b blobs \<Rightarrow> (nat \<times> sessionRecord \<times> 'a session_flow_scheme) \<times> 'b blobs" where
  "stashBlobs K sha now rec pending s st =
    (let ((gone, es, s), st) = stash_loop K sha (blobOwner sha (s_clientID s)) now pending (sr_Inflight rec) s st
     in ((length (remdups gone), rec\<lparr>sr_Inflight := map snd (filter (\<lambda>(i, _). i \<notin> set gone) (enumerate 0 es))\<rparr>, s), st))"

fun delete_loop :: "'b blob_ops \<Rightarrow> string list \<Rightarrow> 'b blobs \<Rightarrow> string list \<times> 'b blobs" where
  "delete_loop K [] st = ([], st)"
| "delete_loop K (key # dead) st =
    (let (ok, st) = deleteBlob K key st; (failed, st) = delete_loop K dead st in (if ok then failed else key # failed, st))"

definition reapBlobs :: "'b blob_ops \<Rightarrow> 'a session_flow_scheme \<Rightarrow> 'b blobs \<Rightarrow> 'a session_flow_scheme \<times> 'b blobs" where
  "reapBlobs K s st =
    (let held = filter (\<lambda>key. key \<noteq> []) (map (\<lambda>(_, o'). ob_blobKey o') (s_inflight s));
         (failed, st) = delete_loop K (filter (\<lambda>key. key \<notin> set held) (s_deadBlobs s)) st
     in (s\<lparr>s_deadBlobs := failed\<rparr>, st))"

section \<open>Spilled chunks\<close>

definition spillDeliveredInto :: "'b blob_ops \<Rightarrow> (bytes \<Rightarrow> bytes) \<Rightarrow> json_ops \<Rightarrow> payload_store \<Rightarrow> time \<Rightarrow> sessionRecord \<Rightarrow> 'a session_spill_scheme \<Rightarrow>
    'b blobs \<Rightarrow> (nat \<times> sessionRecord \<times> 'a session_spill_scheme) \<times> 'b blobs" where
  "spillDeliveredInto K sha J P now rec s st =
    (let reuse = (s_deliveredKeys s \<noteq> [] \<and> \<not> blobStale P now (s_deliveredKeysAt s));
         ((lost, rec), st) = spillDelivered K sha J P rec (valueLimit P) (if reuse then s_deliveredKeys s else []) st
     in ((lost, rec, s\<lparr>s_deliveredReused := reuse\<rparr>), st))"

definition spillInto :: "'b blob_ops \<Rightarrow> (bytes \<Rightarrow> bytes) \<Rightarrow> json_ops \<Rightarrow> payload_store \<Rightarrow> time \<Rightarrow> sessionRecord \<Rightarrow> 'a session_spill_scheme \<Rightarrow>
    'b blobs \<Rightarrow> (nat \<times> bool \<times> sessionRecord \<times> 'a session_spill_scheme) \<times> 'b blobs" where
  "spillInto K sha J P now rec s st =
    (let ((_, rec, s), st) = spillDeliveredInto K sha J P now rec s st;
         reuse = (s_spillKeys s \<noteq> [] \<and> \<not> blobStale P now (s_spillAt s));
         ((lost, ok, rec), st) = spillRecordReusing K sha J P rec (valueLimit P) (if reuse then s_spillKeys s else []) st
     in ((lost, ok, rec, s\<lparr>s_spillReused := reuse\<rparr>), st))"

definition commitDeliveredSpill :: "'b blob_ops \<Rightarrow> sessionRecord \<Rightarrow> time \<Rightarrow> 'a session_spill_scheme \<Rightarrow> 'b blobs \<Rightarrow> 'a session_spill_scheme \<times> 'b blobs" where
  "commitDeliveredSpill K rec wroteAt s st =
    (let old = s_deliveredKeys s;
         s = (if \<not> s_deliveredReused s \<or> old = [] then s\<lparr>s_deliveredKeysAt := wroteAt\<rparr> else s)
     in (s\<lparr>s_deliveredKeys := sr_DeliveredSpill rec\<rparr>, snd (delete_loop K (filter (\<lambda>key. key \<notin> set (sr_DeliveredSpill rec)) old) st)))"

definition commitSpill :: "'b blob_ops \<Rightarrow> sessionRecord \<Rightarrow> time \<Rightarrow> 'a session_spill_scheme \<Rightarrow> 'b blobs \<Rightarrow> 'a session_spill_scheme \<times> 'b blobs" where
  "commitSpill K rec wroteAt s st =
    (let (s, st) = commitDeliveredSpill K rec wroteAt s st;
         old = s_spillKeys s;
         s = (if \<not> s_spillReused s \<or> old = [] then s\<lparr>s_spillAt := wroteAt\<rparr> else s)
     in (s\<lparr>s_spillKeys := sr_Spill rec\<rparr>, snd (delete_loop K (filter (\<lambda>key. key \<notin> set (sr_Spill rec)) old) st)))"

definition blobsStale :: "payload_store \<Rightarrow> time \<Rightarrow> 'a session_spill_scheme \<Rightarrow> bool" where
  "blobsStale P now s \<longleftrightarrow>
    list_ex (\<lambda>(_, o'). ob_blobKey o' \<noteq> [] \<and> blobStale P now (ob_blobAt o')) (s_inflight s) \<or>
    s_spillKeys s \<noteq> [] \<and> blobStale P now (s_spillAt s) \<or> s_deliveredKeys s \<noteq> [] \<and> blobStale P now (s_deliveredKeysAt s)"

section \<open>Writing the record\<close>

text \<open>What a broker's store consists of: the record bucket, the payload bucket, SHA-256, JSON and the limits.\<close>

record ('k, 'b) store_env =
  se_kv :: "'k kv_ops"
  se_blobs :: "'b blob_ops"
  se_sha :: "bytes \<Rightarrow> bytes"
  se_json :: json_ops
  se_limits :: payload_store
  se_delivered :: delivered_bounds

definition retire_all :: "'a session_flow_scheme \<Rightarrow> 'a session_flow_scheme" where
  "retire_all s =
    fold (\<lambda>(i, o') s. let (o', s) = retireBlobLocked o' s in s\<lparr>s_inflight := AList.update i o' (s_inflight s)\<rparr>) (s_inflight s) s"

text \<open>The record with the unacknowledged messages in it, and how many of them it could not take.\<close>

definition inflight_into :: "('k, 'b) store_env \<Rightarrow> time \<Rightarrow> bool \<Rightarrow> sessionRecord \<Rightarrow> 'a session_spill_scheme \<Rightarrow> 'b blobs \<Rightarrow>
    ((nat \<times> nat \<times> sessionRecord \<times> 'a session_spill_scheme) \<times> 'b blobs) res" where
  "inflight_into E now last' rec s st =
    rbind (inflightState (Some (se_limits E)) now s) (\<lambda>(es, received, unrecorded, pending).
    let ((notStored, rec, s), st) = stashBlobs (se_blobs E) (se_sha E) now (rec\<lparr>sr_Inflight := es, sr_ReceivedQoS2 := received\<rparr>) pending s st;
        ((lost, _, rec, s), st) =
          (if last' then ((0, True, rec\<lparr>sr_DeliveredSpill := []\<rparr>, s), st)
           else spillInto (se_blobs E) (se_sha E) (se_json E) (se_limits E) now rec s st);
        ((cut, cutQoS2), rec) = fitRecord (se_json E) rec (valueLimit (se_limits E))
    in Inr ((notStored, unrecorded + notStored + lost + cut + cutQoS2, rec, s), st))"

text \<open>\<^verbatim>\<open>commitDeliveredSpill\<close> clears \<^verbatim>\<open>deliveredOver\<close> of the record it shares with the session.\<close>

definition releaseStoredSession :: "('k, 'b) store_env \<Rightarrow> time \<Rightarrow> u64 \<Rightarrow> 'a session_spill_scheme \<Rightarrow> 'k \<Rightarrow> 'b blobs \<Rightarrow>
    ('a session_spill_scheme \<times> 'k \<times> 'b blobs) res" where
  "releaseStoredSession E now gen s k st =
    (case snapshot gen s of
       None \<Rightarrow> Inr (s, k, st)
     | Some (rec, rv) \<Rightarrow>
         let rec = (snd (awayStateInto (se_delivered E) now s rec))\<lparr>sr_DeliveredSince := deliveredFloor now s\<rparr> in
         rbind (inflight_into E now (sr_ExpirySeconds rec = 0) rec s st) (\<lambda>((_, _, rec, s), st).
         case release (se_kv E) now rec rv k of
           (Inl _, _, k) \<Rightarrow> Inr (s, k, st)
         | (Inr newRev, rec, k) \<Rightarrow>
             let s = commitRecord gen (rec\<lparr>sr_deliveredOver := []\<rparr>) newRev s;
                 (s, st) = commitSpill (se_blobs E) rec now s st;
                 s = (if sr_ExpirySeconds rec = 0 then retire_all s else s);
                 (s, st) = reapBlobs (se_blobs E) s st
             in Inr (s, k, st)))"

text \<open>\<open>at\<close> is the connection's \<^verbatim>\<open>livePosition\<close>: when it was taken and the sequence a replay would start at.\<close>

record checkpointMark =
  cm_activity :: u64
  cm_fromSeq :: u64
  cm_written :: bool

definition checkpointSession :: "('k, 'b) store_env \<Rightarrow> time \<Rightarrow> bool \<Rightarrow> bool \<Rightarrow> u64 \<Rightarrow> time \<times> u64 \<Rightarrow> u64 \<Rightarrow> checkpointMark \<Rightarrow>
    'a session_spill_scheme \<Rightarrow> 'k \<Rightarrow> 'b blobs \<Rightarrow> (store_error option \<times> checkpointMark \<times> 'a session_spill_scheme \<times> 'k \<times> 'b blobs) res" where
  "checkpointSession E now queue closed activity at gen mark s k st =
    (if s_expirySeconds s = 0 \<or> closed then Inr (None, mark, s, k, st)
     else if cm_written mark \<and> activity = cm_activity mark \<and> snd at = cm_fromSeq mark \<and> \<not> blobsStale (se_limits E) now s
     then Inr (None, mark, s, k, st)
     else case snapshot gen s of
       None \<Rightarrow> Inr (None, mark, s, k, st)
     | Some (rec, rv) \<Rightarrow>
         let rec = (if queue then
               snd (deliveredSinceInto (se_delivered E) (snd at) (fst at - session_window s) s
                 (rec\<lparr>sr_AwayAt := fst at, sr_AwayFromSeq := snd at, sr_AwayLateSeq := 0, sr_DeliveredSince := fst at - session_window s\<rparr>))
             else rec) in
         rbind (inflight_into E now False rec s st) (\<lambda>((notStored, _, rec, s), st).
         case save (se_kv E) rec rv k of
           (Inl e, k) \<Rightarrow> Inr (Some e, mark, s, k, st)
         | (Inr newRev, k) \<Rightarrow>
             let s = commitRecord gen rec newRev s;
                 (s, st) = commitSpill (se_blobs E) rec now s st;
                 (s, st) = reapBlobs (se_blobs E) s st
             in Inr (None, if 0 < notStored then \<lparr>cm_activity = 0, cm_fromSeq = 0, cm_written = False\<rparr>
                  else \<lparr>cm_activity = activity, cm_fromSeq = snd at, cm_written = True\<rparr>, s, k, st)))"

definition persistLateCopy :: "('k, 'b) store_env \<Rightarrow> time \<Rightarrow> 'a session_spill_scheme \<Rightarrow> 'k \<Rightarrow> 'b blobs \<Rightarrow>
    'a session_spill_scheme \<times> 'k \<times> 'b blobs" where
  "persistLateCopy E now s k st =
    (case lateRecord (se_delivered E) now s of
       None \<Rightarrow> (s, k, st)
     | Some (rec, rv, gen) \<Rightarrow>
         let ((_, rec, s), st) = spillDeliveredInto (se_blobs E) (se_sha E) (se_json E) (se_limits E) now rec s st in
         case save (se_kv E) rec rv k of
           (Inl _, k) \<Rightarrow> (s, k, st)
         | (Inr newRev, k) \<Rightarrow>
             let (s, st) = commitDeliveredSpill (se_blobs E) rec now (commitRecord gen rec newRev s) st in (s, k, st))"

end
