(* ===== verification/Inflight_Move.thy ===== *)
theory Inflight_Move
  imports Inflight_Restore
begin

text \<open>
  A session that moves to another broker is sent the packets it has not acknowledged. What \<^verbatim>\<open>inflightState\<close> and \<^verbatim>\<open>stashBlobs\<close>
  record of an entry (\<open>recorded\<close>) is enough for \<^verbatim>\<open>restoreEntry\<close> to rebuild it, and the entries come back in order.
\<close>

section \<open>What is owed\<close>

definition no_expiry :: "publish \<Rightarrow> publish" where
  "no_expiry p = p\<lparr>pb_Properties := map_option (\<lambda>q. q\<lparr>MessageExpiryInterval := None\<rparr>) (pb_Properties p)\<rparr>"

text \<open>
  What the client is owed for an entry: a PUBREL, or its PUBLISH with the Packet Identifier and QoS it had. The expiry of an entry without
  a queue copy counts on from where it was; that of a queued one is taken from the queue.
\<close>

definition owed_packet :: "outbound \<Rightarrow> publish option \<times> (time \<times> u32 option) option" where
  "owed_packet o' =
    (if ob_awaitingPubcomp o' then (None, None)
     else if ob_queueSeq o' = 0 then (map_option (\<lambda>p. norm_publish (p\<lparr>pb_Dup := False\<rparr>)) (ob_publish o'), Some (ob_arrived o', ob_expiry o'))
     else (map_option (\<lambda>p. norm_publish (no_expiry (p\<lparr>pb_Dup := False\<rparr>))) (ob_publish o'), None))"

definition owed_to :: "outbound \<Rightarrow> u16 \<times> QoS \<times> bool \<times> publish option \<times> (time \<times> u32 option) option" where
  "owed_to o' = (ob_packetID o', ob_qos o', ob_awaitingPubcomp o', owed_packet o')"

text \<open>The entries a broker sends: the PUBLISH is well formed and names the entry's Packet Identifier and QoS.\<close>

definition sound_publish :: "outbound \<Rightarrow> publish \<Rightarrow> bool" where
  "sound_publish o' p \<longleftrightarrow> pb_PacketID p = ob_packetID o' \<and> pb_QoS p = ob_qos o' \<and> QoS0 < ob_qos o' \<and> wf_publish p"

definition sound_entry :: "outbound \<Rightarrow> bool" where
  "sound_entry o' \<longleftrightarrow> ob_packetID o' \<noteq> 0 \<and>
    (if ob_awaitingPubcomp o' then ob_qos o' = QoS2
     else (\<exists>p. ob_publish o' = Some p \<and> sound_publish o' p \<and>
       (ob_queueSeq o' = 0 \<longrightarrow> \<not> IsZero (ob_arrived o') \<and>
         (ob_expiry o' = None \<longrightarrow> MessageExpiryInterval (norm_props PUBLISH (pb_Properties p)) = None))))"

text \<open>The message in the queue is the one the PUBLISH was made from: only a Subscription Identifier was added and the expiry counted down.\<close>

definition made_from :: "broker_opts \<Rightarrow> 'h header_ops \<Rightarrow> 'h nats_msg \<Rightarrow> outbound \<Rightarrow> bool" where
  "made_from B H msg o' \<longleftrightarrow> (\<exists>subject p q ids ex. TrimPrefix (bo_SubjectPrefix B) (m_Subject msg) = Some subject \<and> ob_publish o' = Some p \<and>
    pb_Topic p = codec_subjectToName (bo_codec B) subject \<and> pb_Payload p = m_Data msg \<and> q = snd (snd (snd (fromNATS H msg))) \<and>
    SubscriptionIdentifiers q = [] \<and> (ids = [] \<or> (\<exists>n. n \<noteq> 0 \<and> ids = [n])) \<and>
    pb_Properties p = Some (q\<lparr>SubscriptionIdentifiers := ids, MessageExpiryInterval := ex\<rparr>))"

section \<open>What is recorded of an entry\<close>

definition recorded :: "'b blob_ops \<Rightarrow> (bytes \<Rightarrow> bytes) \<Rightarrow> string \<Rightarrow> bytes set \<Rightarrow> 'b blobs \<Rightarrow> outbound \<Rightarrow> storedInflight \<Rightarrow> bool" where
  "recorded K sha owner R st o' e \<longleftrightarrow> si_ID e = ob_packetID o' \<and> si_QoS e = ob_qos o' \<and> si_Rel e = ob_awaitingPubcomp o' \<and>
    (ob_awaitingPubcomp o' \<longrightarrow> si_Blob e = []) \<and> (\<not> ob_awaitingPubcomp o' \<longrightarrow>
      (if ob_queueSeq o' \<noteq> 0 then stored_queued o' = Inr e
       else \<exists>raw. encodeStorable o' = Some raw \<and> si_At e = ob_arrived o' \<and> si_Exp e = ob_expiry o' \<and>
         (si_Blob e = [] \<and> si_Pub e = raw \<or> si_Blob e = blobKeyFor sha owner raw \<and> raw \<in> R \<and> contents_ok K sha owner R st (si_Blob e))))"

text \<open>Before its payload is written an entry that waits for it names neither.\<close>

definition awaits :: "pendingBlob list \<Rightarrow> nat \<Rightarrow> outbound \<Rightarrow> storedInflight \<Rightarrow> bool" where
  "awaits ps i o' e \<longleftrightarrow> (\<exists>raw. \<lparr>pn_index = i, pn_id = ob_packetID o', pn_raw = raw\<rparr> \<in> set ps \<and> \<not> ob_awaitingPubcomp o' \<and> ob_queueSeq o' = 0 \<and>
    encodeStorable o' = Some raw \<and> e = (stored_blank (ob_packetID o') (ob_qos o'))\<lparr>si_At := ob_arrived o', si_Exp := ob_expiry o'\<rparr>)"

lemma recorded_mono:
  "recorded K sha owner R st o' e \<Longrightarrow> (\<And>key. contents_ok K sha owner R st key \<Longrightarrow> contents_ok K sha owner R st' key) \<Longrightarrow>
    recorded K sha owner R st' o' e"
  unfolding recorded_def by metis

text \<open>The payload an entry of the record names is the one its message holds.\<close>

definition names_own :: "outbound \<Rightarrow> storedInflight \<Rightarrow> bool" where
  "names_own o' e \<longleftrightarrow> si_Blob e = [] \<or> si_Blob e = ob_blobKey o'"

definition loop_post :: "'b blob_ops \<Rightarrow> (bytes \<Rightarrow> bytes) \<Rightarrow> string \<Rightarrow> bytes set \<Rightarrow> 'b blobs \<Rightarrow> nat \<Rightarrow> outbound list \<Rightarrow> storedInflight list \<Rightarrow>
    pendingBlob list \<Rightarrow> bool" where
  "loop_post K sha owner R st n os es ps \<longleftrightarrow> length es = length os \<and> distinct (map pn_index ps) \<and>
    (\<forall>p \<in> set ps. n \<le> pn_index p \<and> pn_index p < n + length os \<and> pn_raw p \<in> R \<and> pn_id p = ob_packetID (os ! (pn_index p - n))) \<and>
    (\<forall>i < length os. awaits ps (n + i) (os ! i) (es ! i) \<or>
      recorded K sha owner R st (os ! i) (es ! i) \<and> names_own (os ! i) (es ! i) \<and> n + i \<notin> pn_index ` set ps)"

text \<open>A payload that was written before is still there.\<close>

definition blobs_kept :: "'b blob_ops \<Rightarrow> (bytes \<Rightarrow> bytes) \<Rightarrow> string \<Rightarrow> bytes set \<Rightarrow> 'b blobs \<Rightarrow> outbound \<Rightarrow> bool" where
  "blobs_kept K sha owner R st o' \<longleftrightarrow> (\<forall>raw. encodeStorable o' = Some raw \<longrightarrow> raw \<in> R \<and>
    (ob_blobKey o' \<noteq> [] \<longrightarrow> ob_blobKey o' = blobKeyFor sha owner raw \<and> contents_ok K sha owner R st (ob_blobKey o')))"

lemma loop_postD:
  assumes "loop_post K sha owner R st n os es ps"
  shows "length es = length os" "distinct (map pn_index ps)"
    "\<And>p. p \<in> set ps \<Longrightarrow> n \<le> pn_index p \<and> pn_index p < n + length os \<and> pn_raw p \<in> R \<and> pn_id p = ob_packetID (os ! (pn_index p - n))"
    "\<And>i. i < length os \<Longrightarrow> awaits ps (n + i) (os ! i) (es ! i) \<or>
      recorded K sha owner R st (os ! i) (es ! i) \<and> names_own (os ! i) (es ! i) \<and> n + i \<notin> pn_index ` set ps"
  using assms unfolding loop_post_def by blast+

lemma loop_postI:
  assumes "length es = length os" "distinct (map pn_index ps)"
    "\<And>p. p \<in> set ps \<Longrightarrow> n \<le> pn_index p \<and> pn_index p < n + length os \<and> pn_raw p \<in> R \<and> pn_id p = ob_packetID (os ! (pn_index p - n))"
    "\<And>i. i < length os \<Longrightarrow> awaits ps (n + i) (os ! i) (es ! i) \<or>
      recorded K sha owner R st (os ! i) (es ! i) \<and> names_own (os ! i) (es ! i) \<and> n + i \<notin> pn_index ` set ps"
  shows "loop_post K sha owner R st n os es ps"
  using assms unfolding loop_post_def by blast

lemma pending_Suc: "Suc n \<le> i \<Longrightarrow> (o' # os) ! (i - n) = os ! (i - Suc n)"
  by (simp add: nth_Cons')

lemma loop_post_cons:
  assumes "loop_post K sha owner R st (Suc n) os es ps" "recorded K sha owner R st o' e" "names_own o' e"
  shows "loop_post K sha owner R st n (o' # os) (e # es) ps"
proof (rule loop_postI)
  note l = loop_postD [OF assms(1)]
  show "length (e # es) = length (o' # os)" using l(1) by simp
  show "distinct (map pn_index ps)" by (rule l(2))
  show "n \<le> pn_index p \<and> pn_index p < n + length (o' # os) \<and> pn_raw p \<in> R \<and> pn_id p = ob_packetID ((o' # os) ! (pn_index p - n))"
    if "p \<in> set ps" for p using l(3) [OF that] pending_Suc [of n "pn_index p" o' os] by simp
  show "awaits ps (n + i) ((o' # os) ! i) ((e # es) ! i) \<or>
      recorded K sha owner R st ((o' # os) ! i) ((e # es) ! i) \<and> names_own ((o' # os) ! i) ((e # es) ! i) \<and> n + i \<notin> pn_index ` set ps"
    if "i < length (o' # os)" for i
  proof (cases i)
    case 0
    have "n \<notin> pn_index ` set ps" using l(3) by fastforce
    then show ?thesis using 0 assms(2,3) by simp
  next
    case (Suc j)
    then show ?thesis using l(4) [of j] that by simp
  qed
qed

lemma loop_post_pending:
  assumes "loop_post K sha owner R st (Suc n) os es ps" "raw \<in> R" "encodeStorable o' = Some raw" "\<not> ob_awaitingPubcomp o'" "ob_queueSeq o' = 0"
    "p = \<lparr>pn_index = n, pn_id = ob_packetID o', pn_raw = raw\<rparr>"
    "e = (stored_blank (ob_packetID o') (ob_qos o'))\<lparr>si_At := ob_arrived o', si_Exp := ob_expiry o'\<rparr>"
  shows "loop_post K sha owner R st n (o' # os) (e # es) (p # ps)"
proof (rule loop_postI)
  note l = loop_postD [OF assms(1)]
  have n: "n \<notin> pn_index ` set ps" using l(3) by fastforce
  show "length (e # es) = length (o' # os)" using l(1) by simp
  show "distinct (map pn_index (p # ps))" using l(2) n assms(6) by simp
  show "n \<le> pn_index p' \<and> pn_index p' < n + length (o' # os) \<and> pn_raw p' \<in> R \<and> pn_id p' = ob_packetID ((o' # os) ! (pn_index p' - n))"
    if "p' \<in> set (p # ps)" for p'
    using l(3) [of p'] that assms(2,6) pending_Suc [of n "pn_index p'" o' os] by (cases "p' = p") simp_all
  show "awaits (p # ps) (n + i) ((o' # os) ! i) ((e # es) ! i) \<or>
      recorded K sha owner R st ((o' # os) ! i) ((e # es) ! i) \<and> names_own ((o' # os) ! i) ((e # es) ! i) \<and> n + i \<notin> pn_index ` set (p # ps)"
    if "i < length (o' # os)" for i
  proof (cases i)
    case 0
    then show ?thesis using assms(3-7) by (simp add: awaits_def)
  next
    case (Suc j)
    have "awaits ps (Suc n + j) (os ! j) (es ! j) \<or>
        recorded K sha owner R st (os ! j) (es ! j) \<and> names_own (os ! j) (es ! j) \<and> Suc n + j \<notin> pn_index ` set ps"
      using l(4) [of j] that Suc by simp
    moreover have "awaits (p # ps) (Suc n + j) x y" if "awaits ps (Suc n + j) x y" for x y using that by (auto simp: awaits_def)
    ultimately show ?thesis using Suc assms(6) by auto
  qed
qed

lemma inflight_loop_post:
  assumes "inflight_loop P now lim left n os = Inr (es, 0, ps)" "\<forall>o' \<in> set os. blobs_kept K sha owner R st o'"
  shows "loop_post K sha owner R st n os es ps"
  using assms
proof (induction os arbitrary: left n es ps)
  case Nil
  then show ?case by (simp add: loop_post_def)
next
  case (Cons o' os)
  let ?b = "stored_blank (ob_packetID o') (ob_qos o')"
  let ?timed = "?b\<lparr>si_At := ob_arrived o', si_Exp := ob_expiry o'\<rparr>"
  have kept: "blobs_kept K sha owner R st o'" "\<forall>o' \<in> set os. blobs_kept K sha owner R st o'" using Cons.prems(2) by simp_all
  have go: "loop_post K sha owner R st n (o' # os) es ps"
    if r: "rbind (inflight_loop P now lim l (Suc n) os) (\<lambda>(es, un, ps). Inr (e # es, un, [] @ ps)) = Inr (es, 0, ps)" and e: "recorded K sha owner R st o' e" "names_own o' e" for l e
  proof -
    obtain es1 where l: "inflight_loop P now lim l (Suc n) os = Inr (es1, 0, ps)" "es = e # es1" using r by (auto simp: rbind_Inr_iff)
    show ?thesis unfolding l(2) by (rule loop_post_cons [OF Cons.IH [OF l(1) kept(2)] e(1,2)])
  qed
  show ?case
  proof (cases "ob_awaitingPubcomp o'")
    case True
    then show ?thesis using Cons.prems(1) by (intro go [of left "?b\<lparr>si_Rel := True, si_Ack := ob_ackSubject o'\<rparr>"])
        (simp_all add: Let_def recorded_def stored_blank_def names_own_def)
  next
    case rel: False
    show ?thesis
    proof (cases "ob_queueSeq o' = 0")
      case False
      then obtain e where e: "stored_queued o' = Inr e" using Cons.prems(1) rel by (auto simp: Let_def rbind_Inr_iff)
      then have "recorded K sha owner R st o' e" "names_own o' e" using rel False
        by (auto simp: recorded_def names_own_def stored_queued_def stored_blank_def split: option.splits)
      then show ?thesis using go [of left e] Cons.prems(1) rel False e by (simp add: Let_def)
    next
      case True
      then obtain raw where raw: "encodeStorable o' = Some raw" using Cons.prems(1) rel
        by (cases "encodeStorable o'") (auto simp: Let_def rbind_Inr_iff)
      have R: "raw \<in> R" using kept(1) raw by (simp add: blobs_kept_def)
      show ?thesis
      proof (cases "int (length raw) \<le> lim \<and> int (length raw) \<le> left")
        case inl: True
        then have "recorded K sha owner R st o' (?timed\<lparr>si_Pub := raw\<rparr>)" "names_own o' (?timed\<lparr>si_Pub := raw\<rparr>)"
          using rel True raw by (simp_all add: recorded_def names_own_def stored_blank_def)
        then show ?thesis using go [of "left - int (length raw)"] Cons.prems(1) rel True raw inl by (simp add: Let_def)
      next
        case out: False
        then obtain P' where P: "P = Some P'" "\<not> blobLimit P' < int (length raw)" using Cons.prems(1) rel True raw
          by (cases P) (auto simp: Let_def rbind_Inr_iff split: if_splits)
        show ?thesis
        proof (cases "ob_blobKey o' \<noteq> [] \<and> \<not> blobStale P' now (ob_blobAt o')")
          case stored: True
          then have "recorded K sha owner R st o' (?timed\<lparr>si_Blob := ob_blobKey o', si_BlobAt := ob_blobAt o'\<rparr>)"
            using rel True raw kept(1) unfolding recorded_def blobs_kept_def by (auto simp: stored_blank_def)
          then show ?thesis using go [of left "?timed\<lparr>si_Blob := ob_blobKey o', si_BlobAt := ob_blobAt o'\<rparr>"] Cons.prems(1) rel True raw out P stored
            by (simp add: Let_def names_own_def)
        next
          case pend: False
          then obtain es1 ps1 where l: "inflight_loop P now lim left (Suc n) os = Inr (es1, 0, ps1)" "es = ?timed # es1"
            "ps = \<lparr>pn_index = n, pn_id = ob_packetID o', pn_raw = raw\<rparr> # ps1"
            using Cons.prems(1) rel True raw out P by (auto simp: Let_def rbind_Inr_iff)
          show ?thesis unfolding l(2,3) by (rule loop_post_pending [OF Cons.IH [OF l(1) kept(2)] R raw rel True refl refl])
        qed
      qed
    qed
  qed
qed

section \<open>Writing the payloads\<close>

lemma stash_loop_ok:
  assumes "blob_laws K" "inj_on sha R" "stash_loop K sha owner now ps es s st = (([], es', s'), st')"
    "distinct (map pn_index ps)" "\<forall>p \<in> set ps. pn_index p < length es \<and> pn_raw p \<in> R"
  shows "length es' = length es \<and> (\<forall>i < length es. i \<notin> pn_index ` set ps \<longrightarrow> es' ! i = es ! i) \<and>
    (\<forall>p \<in> set ps. es' ! pn_index p = (es ! pn_index p)\<lparr>si_Blob := blobKeyFor sha owner (pn_raw p), si_BlobAt := now\<rparr> \<and>
      contents_ok K sha owner R st' (blobKeyFor sha owner (pn_raw p))) \<and>
    (\<forall>key. contents_ok K sha owner R st key \<longrightarrow> contents_ok K sha owner R st' key)"
  using assms(3-5)
proof (induction ps arbitrary: es s st)
  case Nil
  have "es' = es" "st' = st" using Nil(1) unfolding stash_loop.simps(1) prod.inject by blast+
  then show ?case by simp
next
  case (Cons p ps)
  obtain r st1 where r: "putBlob K sha owner (pn_raw p) st = (r, st1)" by (cases "putBlob K sha owner (pn_raw p) st")
  have R: "pn_raw p \<in> R" "pn_index p < length es" using Cons.prems(3) by simp_all
  obtain key where key: "r = Some key" using Cons.prems(1) r by (cases r) (auto split: prod.splits)
  then have put: "contents_ok K sha owner R st1 key" "key = blobKeyFor sha owner (pn_raw p)" using putBlob_stores [OF assms(1) R(1)] r by auto
  let ?es = "es[pn_index p := (es ! pn_index p)\<lparr>si_Blob := key, si_BlobAt := now\<rparr>]"
  have l: "stash_loop K sha owner now ps ?es (set_blob (pn_id p) key now s) st1 = (([], es', s'), st')" using Cons.prems(1) r key by simp
  have d: "distinct (map pn_index ps)" "\<forall>p \<in> set ps. pn_index p < length ?es \<and> pn_raw p \<in> R" "pn_index p \<notin> pn_index ` set ps"
    using Cons.prems(2,3) by simp_all
  note ih = Cons.IH [OF l d(1,2)]
  have keeps: "contents_ok K sha owner R st' k" if "contents_ok K sha owner R st k" for k
    using ih putBlob_keeps [OF assms(1,2) R(1) r that] by blast
  have "es' ! pn_index p = ?es ! pn_index p" using ih d(3) R(2) by simp
  then have "es' ! pn_index p = (es ! pn_index p)\<lparr>si_Blob := key, si_BlobAt := now\<rparr>" using R(2) by simp
  moreover have "contents_ok K sha owner R st' key" using ih put(1) by blast
  moreover have "es' ! pn_index q = (es ! pn_index q)\<lparr>si_Blob := blobKeyFor sha owner (pn_raw q), si_BlobAt := now\<rparr> \<and>
      contents_ok K sha owner R st' (blobKeyFor sha owner (pn_raw q))" if "q \<in> set ps" for q
  proof -
    have "pn_index q \<noteq> pn_index p" using d(3) that by (metis imageI)
    then show ?thesis using ih that by simp
  qed
  ultimately have "\<forall>q \<in> set (p # ps). es' ! pn_index q = (es ! pn_index q)\<lparr>si_Blob := blobKeyFor sha owner (pn_raw q), si_BlobAt := now\<rparr> \<and>
      contents_ok K sha owner R st' (blobKeyFor sha owner (pn_raw q))" using put(2) by simp
  moreover have "\<forall>i < length es. i \<notin> pn_index ` set (p # ps) \<longrightarrow> es' ! i = es ! i" using ih by simp
  moreover have "length es' = length es" using ih by simp
  ultimately show ?case using keeps by blast
qed

lemma stash_recorded:
  assumes "blob_laws K" "inj_on sha R" "loop_post K sha owner R st 0 os es ps"
    "stash_loop K sha owner now ps es s st = (([], es', s'), st')"
  shows "list_all2 (recorded K sha owner R st') os es'" "contents_ok K sha owner R st key \<Longrightarrow> contents_ok K sha owner R st' key"
proof -
  note l = loop_postD [OF assms(3)]
  have b: "\<forall>p \<in> set ps. pn_index p < length es \<and> pn_raw p \<in> R" using l(1,3) by simp
  note k = stash_loop_ok [OF assms(1,2,4) l(2) b]
  show "contents_ok K sha owner R st key \<Longrightarrow> contents_ok K sha owner R st' key" using k by blast
  have "recorded K sha owner R st' (os ! i) (es' ! i)" if "i < length os" for i
  proof (cases "awaits ps i (os ! i) (es ! i)")
    case True
    then obtain raw where a: "\<lparr>pn_index = i, pn_id = ob_packetID (os ! i), pn_raw = raw\<rparr> \<in> set ps" "\<not> ob_awaitingPubcomp (os ! i)"
      "ob_queueSeq (os ! i) = 0" "encodeStorable (os ! i) = Some raw"
      "es ! i = (stored_blank (ob_packetID (os ! i)) (ob_qos (os ! i)))\<lparr>si_At := ob_arrived (os ! i), si_Exp := ob_expiry (os ! i)\<rparr>"
      by (auto simp: awaits_def)
    have "es' ! i = (es ! i)\<lparr>si_Blob := blobKeyFor sha owner raw, si_BlobAt := now\<rparr>" "contents_ok K sha owner R st' (blobKeyFor sha owner raw)"
      using k a(1) by fastforce+
    moreover have "raw \<in> R" using b a(1) by fastforce
    ultimately show ?thesis using a by (simp add: recorded_def stored_blank_def)
  next
    case False
    then have r: "recorded K sha owner R st (os ! i) (es ! i)" "i \<notin> pn_index ` set ps" using l(4) [OF that] by simp_all
    then have "es' ! i = es ! i" using k that l(1) by simp
    moreover have "recorded K sha owner R st' (os ! i) (es ! i)" by (rule recorded_mono [OF r(1)]) (use k in blast)
    ultimately show ?thesis by simp
  qed
  then show "list_all2 (recorded K sha owner R st') os es'" using k l(1) by (simp add: list_all2_conv_all_nth)
qed

lemma stashBlobs_recorded:
  assumes "blob_laws K" "inj_on sha R" "loop_post K sha (blobOwner sha (s_clientID s)) R st 0 os (sr_Inflight rec) ps"
    "stashBlobs K sha now rec ps s st = ((0, rec', s'), st')"
  shows "list_all2 (recorded K sha (blobOwner sha (s_clientID s)) R st') os (sr_Inflight rec')"
    "contents_ok K sha (blobOwner sha (s_clientID s)) R st key \<Longrightarrow> contents_ok K sha (blobOwner sha (s_clientID s)) R st' key"
    "\<exists>es. rec' = rec\<lparr>sr_Inflight := es\<rparr>"
proof -
  obtain gone es' s1 st1 where l: "stash_loop K sha (blobOwner sha (s_clientID s)) now ps (sr_Inflight rec) s st = ((gone, es', s1), st1)"
    by (metis prod.collapse)
  have e: "gone = []" "rec' = rec\<lparr>sr_Inflight := es'\<rparr>" "st1 = st'" using assms(4) l by (auto simp: stashBlobs_def Let_def)
  note r = stash_recorded [OF assms(1-3) l [unfolded e(1,3)]]
  show "list_all2 (recorded K sha (blobOwner sha (s_clientID s)) R st') os (sr_Inflight rec')" using r(1) e(2) by simp
  show "contents_ok K sha (blobOwner sha (s_clientID s)) R st key \<Longrightarrow> contents_ok K sha (blobOwner sha (s_clientID s)) R st' key" by (rule r(2))
  show "\<exists>es. rec' = rec\<lparr>sr_Inflight := es\<rparr>" using e(2) by blast
qed

section \<open>The payloads of the record are held by the session\<close>

definition held_by :: "'a session_flow_scheme \<Rightarrow> storedInflight \<Rightarrow> bool" where
  "held_by s e \<longleftrightarrow> si_Blob e = [] \<or> (\<exists>(i, o') \<in> set (s_inflight s). ob_blobKey o' = si_Blob e)"

lemma putBlob_key: "putBlob K sha owner raw st = (Some key, st') \<Longrightarrow> key = blobKeyFor sha owner raw"
  by (auto simp: putBlob_def Let_def split: prod.splits if_splits)

lemma stash_loop_blobs:
  assumes "stash_loop K sha owner now ps es s st = (([], es', s'), st')" "distinct (map pn_id ps)" "\<forall>p \<in> set ps. get (s_inflight s) (pn_id p) \<noteq> None"
  shows "(\<forall>p \<in> set ps. \<exists>o'. get (s_inflight s') (pn_id p) = Some o' \<and> ob_blobKey o' = blobKeyFor sha owner (pn_raw p)) \<and>
    (\<forall>i. i \<notin> pn_id ` set ps \<longrightarrow> get (s_inflight s') i = get (s_inflight s) i) \<and> s' = s\<lparr>s_inflight := s_inflight s'\<rparr>"
  using assms
proof (induction ps arbitrary: es s st)
  case Nil
  then have "s' = s" by simp
  then show ?case by simp
next
  case (Cons p ps)
  obtain r st1 where r: "putBlob K sha owner (pn_raw p) st = (r, st1)" by (cases "putBlob K sha owner (pn_raw p) st")
  obtain key where key: "r = Some key" using Cons.prems(1) r by (cases r) (auto split: prod.splits)
  obtain ob where ob: "get (s_inflight s) (pn_id p) = Some ob" using Cons.prems(3) by auto
  let ?s = "set_blob (pn_id p) key now s"
  have g: "get (s_inflight ?s) i = (if i = pn_id p then Some (ob\<lparr>ob_blobKey := key, ob_blobAt := now\<rparr>) else get (s_inflight s) i)" for i
    using ob by (simp add: set_blob_def)
  have s: "?s = s\<lparr>s_inflight := s_inflight ?s\<rparr>" using ob by (simp add: set_blob_def)
  have d: "pn_id p \<notin> pn_id ` set ps" "distinct (map pn_id ps)" using Cons.prems(2) by simp_all
  have l: "stash_loop K sha owner now ps (es[pn_index p := (es ! pn_index p)\<lparr>si_Blob := key, si_BlobAt := now\<rparr>]) ?s st1 = (([], es', s'), st')"
    using Cons.prems(1) r key by simp
  have in_ps: "\<forall>q \<in> set ps. get (s_inflight ?s) (pn_id q) \<noteq> None" using Cons.prems(3) g by auto
  note ih = Cons.IH [OF l d(2) in_ps]
  have "get (s_inflight s') (pn_id p) = Some (ob\<lparr>ob_blobKey := key, ob_blobAt := now\<rparr>)" using ih d(1) g by simp
  moreover have "key = blobKeyFor sha owner (pn_raw p)" using putBlob_key r key by blast
  moreover have "get (s_inflight s') i = get (s_inflight s) i" if "i \<notin> pn_id ` set (p # ps)" for i using ih g that by simp
  moreover have "s' = s\<lparr>s_inflight := s_inflight s'\<rparr>"
  proof -
    have "s' = ?s\<lparr>s_inflight := s_inflight s'\<rparr>" using ih by blast
    also have "\<dots> = s\<lparr>s_inflight := s_inflight s'\<rparr>" by (subst s) simp
    finally show ?thesis .
  qed
  ultimately show ?case using ih by auto
qed

text \<open>The in-flight set is indexed by Packet Identifier.\<close>

definition inflight_ok :: "'a session_flow_scheme \<Rightarrow> bool" where
  "inflight_ok s \<longleftrightarrow> wf_map (s_inflight s) \<and> (\<forall>(i, o') \<in> set (s_inflight s). ob_packetID o' = i)"

lemma unacknowledged_facts:
  assumes "inflight_ok s"
  shows "distinct (map ob_packetID (unacknowledged s))" "o' \<in> set (unacknowledged s) \<Longrightarrow> get (s_inflight s) (ob_packetID o') = Some o'"
proof -
  have i: "\<And>i o'. (i, o') \<in> set (s_inflight s) \<Longrightarrow> ob_packetID o' = i" and w: "wf_map (s_inflight s)"
    using assms by (auto simp: inflight_ok_def)
  have m: "mset (unacknowledged s) = mset (map snd (s_inflight s))" by (simp add: unacknowledged_def)
  have "map ob_packetID (map snd (s_inflight s)) = map fst (s_inflight s)" using i by (auto intro: map_cong)
  then have "mset (map ob_packetID (unacknowledged s)) = mset (map fst (s_inflight s))" using m by (metis mset_map)
  then show "distinct (map ob_packetID (unacknowledged s))" using w unfolding wf_map_def by (metis mset_eq_imp_distinct_iff)
  show "o' \<in> set (unacknowledged s) \<Longrightarrow> get (s_inflight s) (ob_packetID o') = Some o'"
  proof -
    assume "o' \<in> set (unacknowledged s)"
    then obtain i where "(i, o') \<in> set (s_inflight s)" by (auto simp: unacknowledged_def)
    then show ?thesis using i w get_mem by metis
  qed
qed

lemma stash_held:
  assumes "loop_post K sha owner R st 0 os es ps" "stash_loop K sha owner now ps es s st = (([], es', s'), st')" "blob_laws K" "inj_on sha R"
    "distinct (map ob_packetID os)" "\<forall>o' \<in> set os. get (s_inflight s) (ob_packetID o') = Some o'"
  shows "\<forall>e \<in> set es'. held_by s' e" "s' = s\<lparr>s_inflight := s_inflight s'\<rparr>"
proof -
  note l = loop_postD [OF assms(1)]
  have b: "\<forall>p \<in> set ps. pn_index p < length es \<and> pn_raw p \<in> R" using l(1,3) by simp
  have ids: "map pn_id ps = map (\<lambda>p. ob_packetID (os ! pn_index p)) ps" using l(3) by simp
  have "inj_on (\<lambda>p. ob_packetID (os ! pn_index p)) (set ps)"
  proof (rule inj_onI)
    fix p q assume pq: "p \<in> set ps" "q \<in> set ps" "ob_packetID (os ! pn_index p) = ob_packetID (os ! pn_index q)"
    then have "pn_index p = pn_index q" using l(3) assms(5) by (auto simp: distinct_conv_nth)
    then show "p = q" using pq(1,2) l(2) by (simp add: distinct_map inj_on_def)
  qed
  moreover have "distinct ps" using l(2) by (simp add: distinct_map)
  ultimately have d: "distinct (map pn_id ps)" unfolding ids by (simp add: distinct_map)
  have some: "\<forall>p \<in> set ps. get (s_inflight s) (pn_id p) \<noteq> None"
  proof
    fix p assume "p \<in> set ps"
    then have "pn_id p = ob_packetID (os ! pn_index p)" "os ! pn_index p \<in> set os" using l(3) [of p] by simp_all
    then show "get (s_inflight s) (pn_id p) \<noteq> None" using assms(6) by simp
  qed
  note k = stash_loop_ok [OF assms(3,4,2) l(2) b] and s = stash_loop_blobs [OF assms(2) d some]
  show "s' = s\<lparr>s_inflight := s_inflight s'\<rparr>" using s by blast
  have "held_by s' (es' ! i)" if i: "i < length os" for i
  proof (cases "i \<in> pn_index ` set ps")
    case True
    then obtain p where p: "p \<in> set ps" "pn_index p = i" by auto
    then have "si_Blob (es' ! i) = blobKeyFor sha owner (pn_raw p)" using k by fastforce
    moreover obtain ob where "get (s_inflight s') (pn_id p) = Some ob" "ob_blobKey ob = blobKeyFor sha owner (pn_raw p)" using s p(1) by blast
    ultimately show ?thesis unfolding held_by_def by (auto dest!: map_of_SomeD)
  next
    case False
    then have n: "names_own (os ! i) (es ! i)" using l(4) [OF i] by (force simp: awaits_def)
    have "es' ! i = es ! i" using k False i l(1) by simp
    moreover have "ob_packetID (os ! i) \<notin> pn_id ` set ps"
    proof
      assume "ob_packetID (os ! i) \<in> pn_id ` set ps"
      then obtain p where p: "p \<in> set ps" "ob_packetID (os ! i) = ob_packetID (os ! pn_index p)" "pn_index p < length os" using l(3) by auto
      then have "pn_index p = i" using assms(5) i by (auto simp: distinct_conv_nth)
      then show False using False p(1) by auto
    qed
    then have "get (s_inflight s') (ob_packetID (os ! i)) = Some (os ! i)" using s assms(6) i by simp
    ultimately show ?thesis using n unfolding held_by_def names_own_def by (auto dest!: map_of_SomeD)
  qed
  then show "\<forall>e \<in> set es'. held_by s' e" using k l(1) by (metis in_set_conv_nth)
qed

section \<open>Releasing\<close>

text \<open>
  The payloads a session knows of. \<open>R\<close> is the set of contents at hand, among which SHA-256 has no collision: the PUBLISH of each entry, and
  what the keys the session holds stand for.
\<close>

definition session_payloads :: "('k, 'b) store_env \<Rightarrow> bytes set \<Rightarrow> 'a session_spill_scheme \<Rightarrow> 'b blobs \<Rightarrow> bool" where
  "session_payloads E R s st \<longleftrightarrow> (let K = se_blobs E; sha = se_sha E; J = se_json E; owner = blobOwner sha (s_clientID s) in
    inj_on sha R \<and> (\<forall>(i, o') \<in> set (s_inflight s). blobs_kept K sha owner R st o') \<and>
    (\<forall>key \<in> set (s_spillKeys s). contents_ok K sha owner R st key \<and>
      (\<exists>xs. json_list (jo_entry J) xs \<in> R \<and> key = chunk_key sha owner (jo_entry J) xs)) \<and>
    (\<forall>key \<in> set (s_deliveredKeys s). contents_ok K sha owner R st key \<and>
      (\<exists>ys. ys \<noteq> [] \<and> json_list (jo_id J) ys \<in> R \<and> key = chunk_key sha owner (jo_id J) ys)) \<and>
    (\<forall>key \<in> set (s_deadBlobs s). \<exists>o'. \<exists>raw \<in> R. encodeStorable o' = Some raw \<and> key = blobKeyFor sha owner raw))"

text \<open>The record before it is spilled.\<close>

definition stashed_record :: "('k, 'b) store_env \<Rightarrow> time \<Rightarrow> sessionRecord \<Rightarrow> 'a session_spill_scheme \<Rightarrow> 'b blobs \<Rightarrow> sessionRecord res" where
  "stashed_record E now rec s st =
    rbind (inflightState (Some (se_limits E)) now s) (\<lambda>(es, received, unrecorded, pending).
    Inr (fst (snd (fst (stashBlobs (se_blobs E) (se_sha E) now (rec\<lparr>sr_Inflight := es, sr_ReceivedQoS2 := received\<rparr>) pending s st)))))"

text \<open>The chunks it may be spilled to are in \<open>R\<close>, and JSON reads its entries back (their strings are UTF-8).\<close>

definition record_payloads :: "('k, 'b) store_env \<Rightarrow> bytes set \<Rightarrow> time \<Rightarrow> sessionRecord \<Rightarrow> 'a session_spill_scheme \<Rightarrow> 'b blobs \<Rightarrow> bool" where
  "record_payloads E R now rec s st \<longleftrightarrow> (case stashed_record E now rec s st of Inl _ \<Rightarrow> True | Inr rec1 \<Rightarrow>
    (\<forall>p. let chunk = slice (sr_Inflight rec1) p; raw = json_list (jo_entry (se_json E)) chunk in
      raw \<in> R \<and> jo_entries (se_json E) raw = Some chunk) \<and>
    (\<forall>p. json_list (jo_id (se_json E)) (slice (sr_Delivered rec1 @ sr_deliveredOver rec1) p) \<in> R))"

definition all_recorded :: "('k, 'b) store_env \<Rightarrow> bytes set \<Rightarrow> string \<Rightarrow> outbound list \<Rightarrow> 'a session_flow_scheme \<Rightarrow> sessionRecord \<Rightarrow> 'b blobs \<Rightarrow> bool" where
  "all_recorded E R owner os s rec st \<longleftrightarrow> (\<exists>xs.
    list_all2 (recorded (se_blobs E) (se_sha E) owner R st) os (sr_Inflight rec @ xs) \<and>
    spilled (se_blobs E) (se_sha E) (jo_entry (se_json E)) owner R st (sr_Inflight rec @ xs) (sr_Spill rec) xs \<and>
    (\<forall>p. jo_entries (se_json E) (json_list (jo_entry (se_json E)) (slice (sr_Inflight rec @ xs) p)) = Some (slice (sr_Inflight rec @ xs) p)) \<and>
    (\<forall>e \<in> set (sr_Inflight rec @ xs). held_by s e))"

definition same_session :: "'a session_spill_scheme \<Rightarrow> 'a session_spill_scheme \<Rightarrow> bool" where
  "same_session s s' \<longleftrightarrow> s_clientID s' = s_clientID s \<and> s_deadBlobs s' = s_deadBlobs s \<and> s_spillKeys s' = s_spillKeys s \<and>
    s_deliveredKeys s' = s_deliveredKeys s"

definition same_record :: "sessionRecord \<Rightarrow> sessionRecord \<Rightarrow> bool" where
  "same_record rec rec' \<longleftrightarrow> sr_ClientID rec' = sr_ClientID rec \<and> sr_Version rec' = sr_Version rec \<and> sr_ExpirySeconds rec' = sr_ExpirySeconds rec \<and>
    sr_Subscriptions rec' = sr_Subscriptions rec \<and> sr_Withdrawn rec' = sr_Withdrawn rec"

lemma list_all2_mono_st:
  assumes "list_all2 (recorded K sha owner R st) os es" "\<And>key. contents_ok K sha owner R st key \<Longrightarrow> contents_ok K sha owner R st' key"
  shows "list_all2 (recorded K sha owner R st') os es"
  using assms(1) by (rule list_all2_mono) (rule recorded_mono [OF _ assms(2)])

lemma known_of_contents: "\<forall>key \<in> set ks. contents_ok K sha owner R st key \<Longrightarrow> known_ok K sha owner R st ks"
  by (simp add: known_ok_def)

lemma spillInto_ok:
  assumes "blob_laws (se_blobs E)" "inj_on (se_sha E) R" "sr_ClientID rec = s_clientID s"
    "\<forall>key \<in> set (s_spillKeys s) \<union> set (s_deliveredKeys s). contents_ok (se_blobs E) (se_sha E) (blobOwner (se_sha E) (s_clientID s)) R st key"
    "\<forall>p. json_list (jo_entry (se_json E)) (slice (sr_Inflight rec) p) \<in> R"
    "\<forall>p. json_list (jo_id (se_json E)) (slice (sr_Delivered rec @ sr_deliveredOver rec) p) \<in> R"
    "spillInto (se_blobs E) (se_sha E) (se_json E) (se_limits E) now rec s st = ((0, ok, rec', s'), st')"
  shows "\<exists>xs. sr_Inflight rec = sr_Inflight rec' @ xs \<and>
      spilled (se_blobs E) (se_sha E) (jo_entry (se_json E)) (blobOwner (se_sha E) (s_clientID s)) R st' (sr_Inflight rec) (sr_Spill rec') xs"
    "contents_ok (se_blobs E) (se_sha E) (blobOwner (se_sha E) (s_clientID s)) R st key \<Longrightarrow>
      contents_ok (se_blobs E) (se_sha E) (blobOwner (se_sha E) (s_clientID s)) R st' key"
    "same_record rec rec'" "sr_ReceivedQoS2 rec' = sr_ReceivedQoS2 rec" "same_session s s'" "s_inflight s' = s_inflight s"
proof -
  let ?K = "se_blobs E" and ?sha = "se_sha E" and ?J = "se_json E" and ?P = "se_limits E"
  let ?o = "blobOwner ?sha (s_clientID s)"
  define known where "known = (if s_deliveredKeys s \<noteq> [] \<and> \<not> blobStale ?P now (s_deliveredKeysAt s) then s_deliveredKeys s else [])"
  define known2 where "known2 = (if s_spillKeys s \<noteq> [] \<and> \<not> blobStale ?P now (s_spillAt s) then s_spillKeys s else [])"
  have dk: "\<forall>key \<in> set (s_deliveredKeys s). contents_ok ?K ?sha ?o R st key"
    and sk: "\<forall>key \<in> set (s_spillKeys s). contents_ok ?K ?sha ?o R st key" using assms(4) by blast+
  obtain lost1 rec1 st1 where d: "spillDelivered ?K ?sha ?J ?P rec (valueLimit ?P) known st = ((lost1, rec1), st1)" by (metis prod.collapse)
  obtain lost2 ok2 rec2 st2 where r: "spillRecordReusing ?K ?sha ?J ?P rec1 (valueLimit ?P) known2 st1 = ((lost2, ok2, rec2), st2)" by (metis prod.collapse)
  have e: "lost2 = 0" "rec2 = rec'" "st2 = st'" "s' = s\<lparr>s_deliveredReused := s_deliveredReused s', s_spillReused := s_spillReused s'\<rparr>"
    using assms(7) d r by (auto simp: spillInto_def spillDeliveredInto_def Let_def known_def known2_def split: if_splits)
  show "same_session s s'" "s_inflight s' = s_inflight s" by (subst e(4), simp add: same_session_def)+
  have k1: "known_ok ?K ?sha (blobOwner ?sha (sr_ClientID rec)) R st known" using dk assms(3) by (simp add: known_def known_ok_def)
  note d' = spillDelivered_ok [OF assms(1,2) assms(6) k1 d]
  obtain dd ks c h where r1: "rec1 = rec\<lparr>sr_deliveredOver := [], sr_Delivered := dd, sr_DeliveredSpill := ks, sr_ReplayCursor := c, sr_ReplayHoles := h\<rparr>"
    using d'(2) by blast
  have o1: "sr_ClientID rec1 = s_clientID s" "sr_Inflight rec1 = sr_Inflight rec" using r1 assms(3) by simp_all
  have k2: "known_ok ?K ?sha (blobOwner ?sha (sr_ClientID rec1)) R st1 known2"
    using sk d'(1) assms(3) o1(1) by (simp add: known2_def known_ok_def)
  have p1: "\<forall>p. json_list (jo_entry ?J) (slice (sr_Inflight rec1) p) \<in> R" using assms(5) o1(2) by simp
  note r' = spillRecord_ok [OF assms(1,2) p1 k2 r [unfolded e(1)]]
  show "\<exists>xs. sr_Inflight rec = sr_Inflight rec' @ xs \<and> spilled ?K ?sha (jo_entry ?J) ?o R st' (sr_Inflight rec) (sr_Spill rec') xs"
    using r'(1) o1 e(2,3) by simp
  show "contents_ok ?K ?sha ?o R st key \<Longrightarrow> contents_ok ?K ?sha ?o R st' key" using d'(1) r'(2) assms(3) o1(1) e(3) by simp
  obtain i ks2 d2 c2 h2 where r2: "rec' = rec1\<lparr>sr_Inflight := i, sr_Spill := ks2, sr_Delivered := d2, sr_ReplayCursor := c2, sr_ReplayHoles := h2\<rparr>"
    using r'(3) e(2) by blast
  show "same_record rec rec'" "sr_ReceivedQoS2 rec' = sr_ReceivedQoS2 rec" unfolding r2 r1 by (simp_all add: same_record_def)
qed

lemma stashBlobs_ok:
  assumes "blob_laws K" "inj_on sha R" "loop_post K sha (blobOwner sha (s_clientID s)) R st 0 os (sr_Inflight rec) ps"
    "stashBlobs K sha now rec ps s st = ((0, rec', s'), st')" "distinct (map ob_packetID os)" "\<forall>o' \<in> set os. get (s_inflight s) (ob_packetID o') = Some o'"
  shows "list_all2 (recorded K sha (blobOwner sha (s_clientID s)) R st') os (sr_Inflight rec')"
    "contents_ok K sha (blobOwner sha (s_clientID s)) R st key \<Longrightarrow> contents_ok K sha (blobOwner sha (s_clientID s)) R st' key"
    "\<exists>es. rec' = rec\<lparr>sr_Inflight := es\<rparr>" "\<forall>e \<in> set (sr_Inflight rec'). held_by s' e" "s' = s\<lparr>s_inflight := s_inflight s'\<rparr>"
proof -
  obtain gone es' s1 st1 where l: "stash_loop K sha (blobOwner sha (s_clientID s)) now ps (sr_Inflight rec) s st = ((gone, es', s1), st1)"
    by (metis prod.collapse)
  have e: "gone = []" "rec' = rec\<lparr>sr_Inflight := es'\<rparr>" "st1 = st'" "s1 = s'" using assms(4) l by (auto simp: stashBlobs_def Let_def)
  note l' = l [unfolded e(1,3,4)]
  note r = stash_recorded [OF assms(1-3) l'] and h = stash_held [OF assms(3) l' assms(1,2,5,6)]
  show "list_all2 (recorded K sha (blobOwner sha (s_clientID s)) R st') os (sr_Inflight rec')" using r(1) e(2) by simp
  show "contents_ok K sha (blobOwner sha (s_clientID s)) R st key \<Longrightarrow> contents_ok K sha (blobOwner sha (s_clientID s)) R st' key" by (rule r(2))
  show "\<exists>es. rec' = rec\<lparr>sr_Inflight := es\<rparr>" using e(2) by blast
  show "\<forall>e \<in> set (sr_Inflight rec'). held_by s' e" using h(1) e(2) by simp
  show "s' = s\<lparr>s_inflight := s_inflight s'\<rparr>" by (rule h(2))
qed

definition received_ids :: "'a session_flow_scheme \<Rightarrow> u16 list" where
  "received_ids s = sort (filter (\<lambda>i. get (s_qos2Forwarding s) i = None) (map fst (s_receivedQoS2 s)))"

lemma inflightState_post:
  assumes "inflightState P now s = Inr (es, received, 0, ps)" "\<forall>(i, o') \<in> set (s_inflight s). blobs_kept K sha owner R st o'"
  shows "loop_post K sha owner R st 0 (unacknowledged s) es ps" "received = received_ids s"
proof -
  have "\<forall>o' \<in> set (unacknowledged s). blobs_kept K sha owner R st o'" using assms(2) by (auto simp: unacknowledged_def)
  moreover obtain lim left where "inflight_loop P now lim left 0 (unacknowledged s) = Inr (es, 0, ps)"
    using assms(1) by (auto simp: inflightState_def Let_def rbind_Inr_iff)
  ultimately show "loop_post K sha owner R st 0 (unacknowledged s) es ps" using inflight_loop_post by blast
  show "received = received_ids s" using assms(1) by (auto simp: inflightState_def received_ids_def Let_def rbind_Inr_iff)
qed

lemma inflight_into_steps:
  assumes "inflight_into E now False rec s st = Inr ((ns, 0, rec', s'), st')"
  obtains es received ps rec1 s1 st1 ok rec2 where "inflightState (Some (se_limits E)) now s = Inr (es, received, 0, ps)"
    "stashBlobs (se_blobs E) (se_sha E) now (rec\<lparr>sr_Inflight := es, sr_ReceivedQoS2 := received\<rparr>) ps s st = ((0, rec1, s1), st1)"
    "spillInto (se_blobs E) (se_sha E) (se_json E) (se_limits E) now rec1 s1 st1 = ((0, ok, rec2, s'), st')" "rec2 = rec'"
proof -
  obtain es received un ps where i: "inflightState (Some (se_limits E)) now s = Inr (es, received, un, ps)"
    using assms by (auto simp: inflight_into_def rbind_Inr_iff)
  obtain n1 rec1 s1 st1 where b: "stashBlobs (se_blobs E) (se_sha E) now (rec\<lparr>sr_Inflight := es, sr_ReceivedQoS2 := received\<rparr>) ps s st = ((n1, rec1, s1), st1)"
    by (metis prod.collapse)
  obtain lost ok rec2 s2 st2 where p: "spillInto (se_blobs E) (se_sha E) (se_json E) (se_limits E) now rec1 s1 st1 = ((lost, ok, rec2, s2), st2)"
    by (metis prod.collapse)
  obtain c q rec3 where f: "fitRecord (se_json E) rec2 (valueLimit (se_limits E)) = ((c, q), rec3)" by (metis prod.collapse)
  have "un = 0" "n1 = 0" "lost = 0" "c = 0" "q = 0" "rec3 = rec'" "s2 = s'" "st2 = st'" using assms i b p f by (auto simp: inflight_into_def)
  then show thesis using that i b p f fitRecord_uncut by blast
qed

lemma inflight_into_ok:
  assumes "blob_laws (se_blobs E)" "session_payloads E R s st" "inflight_ok s" "sr_ClientID rec = s_clientID s" "record_payloads E R now rec s st"
    "inflight_into E now False rec s st = Inr ((ns, 0, rec', s'), st')"
  shows "all_recorded E R (blobOwner (se_sha E) (s_clientID s)) (unacknowledged s) s' rec' st'" "same_record rec rec'"
    "sr_ReceivedQoS2 rec' = received_ids s" "same_session s s'"
proof -
  let ?K = "se_blobs E" and ?sha = "se_sha E" and ?J = "se_json E"
  let ?o = "blobOwner ?sha (s_clientID s)"
  obtain es received ps rec1 s1 st1 ok rec2 where i: "inflightState (Some (se_limits E)) now s = Inr (es, received, 0, ps)"
    and b: "stashBlobs ?K ?sha now (rec\<lparr>sr_Inflight := es, sr_ReceivedQoS2 := received\<rparr>) ps s st = ((0, rec1, s1), st1)"
    and p: "spillInto ?K ?sha ?J (se_limits E) now rec1 s1 st1 = ((0, ok, rec2, s'), st')" and e: "rec2 = rec'"
    using inflight_into_steps [OF assms(6)] by metis
  have kept: "inj_on ?sha R" "\<forall>(i, o') \<in> set (s_inflight s). blobs_kept ?K ?sha ?o R st o'"
    using assms(2) unfolding session_payloads_def Let_def by blast+
  note post = inflightState_post [OF i kept(2)]
  have lp: "loop_post ?K ?sha ?o R st 0 (unacknowledged s) (sr_Inflight (rec\<lparr>sr_Inflight := es, sr_ReceivedQoS2 := received\<rparr>)) ps" using post(1) by simp
  note ua = unacknowledged_facts [OF assms(3)]
  note st = stashBlobs_ok [OF assms(1) kept(1) lp b ua(1)]
  have mem: "\<forall>o' \<in> set (unacknowledged s). get (s_inflight s) (ob_packetID o') = Some o'" using ua(2) by blast
  obtain es1 where r1: "rec1 = rec\<lparr>sr_ReceivedQoS2 := received, sr_Inflight := es1\<rparr>" using st(3) [OF mem] by auto
  have s1: "s1 = s\<lparr>s_inflight := s_inflight s1\<rparr>" by (rule st(5) [OF mem])
  have same: "s_clientID s1 = s_clientID s" "same_session s s1" by (subst s1, simp add: same_session_def)+
  have "stashed_record E now rec s st = Inr rec1" using i b by (simp add: stashed_record_def)
  then have rp: "\<forall>p. json_list (jo_entry ?J) (slice (sr_Inflight rec1) p) \<in> R"
    "\<forall>p. jo_entries ?J (json_list (jo_entry ?J) (slice (sr_Inflight rec1) p)) = Some (slice (sr_Inflight rec1) p)"
    "\<forall>p. json_list (jo_id ?J) (slice (sr_Delivered rec1 @ sr_deliveredOver rec1) p) \<in> R"
    using assms(5) by (simp_all add: record_payloads_def Let_def)
  have keys: "s_spillKeys s1 = s_spillKeys s" "s_deliveredKeys s1 = s_deliveredKeys s" using same(2) by (simp_all add: same_session_def)
  have "\<forall>key \<in> set (s_spillKeys s) \<union> set (s_deliveredKeys s). contents_ok ?K ?sha ?o R st key"
    using assms(2) unfolding session_payloads_def Let_def by blast
  then have sk: "\<forall>key \<in> set (s_spillKeys s1) \<union> set (s_deliveredKeys s1). contents_ok ?K ?sha (blobOwner ?sha (s_clientID s1)) R st1 key"
    unfolding keys same(1) using st(2) [OF mem] by blast
  have cl: "sr_ClientID rec1 = s_clientID s1" using r1 same(1) assms(4) by simp
  note sp = spillInto_ok [OF assms(1) kept(1) cl sk rp(1,3) p [unfolded e]]
  obtain xs where x: "sr_Inflight rec1 = sr_Inflight rec' @ xs" "spilled ?K ?sha (jo_entry ?J) ?o R st' (sr_Inflight rec1) (sr_Spill rec') xs"
    using sp(1) same(1) by auto
  have "list_all2 (recorded ?K ?sha ?o R st') (unacknowledged s) (sr_Inflight rec1)"
    by (rule list_all2_mono_st [OF st(1) [OF mem]]) (use sp(2) same(1) in simp)
  moreover have "\<forall>e \<in> set (sr_Inflight rec1). held_by s' e" using st(4) [OF mem] sp(6) by (simp add: held_by_def)
  ultimately show "all_recorded E R ?o (unacknowledged s) s' rec' st'" unfolding all_recorded_def x(1) [symmetric] using x rp(2) by metis
  show "same_record rec rec'" using sp(3) r1 by (simp add: same_record_def)
  show "sr_ReceivedQoS2 rec' = received_ids s" using sp(4) r1 post(2) by simp
  show "same_session s s'" using sp(5) same(2) by (simp add: same_session_def)
qed

section \<open>What is deleted afterwards is not what the record names\<close>

lemma deleteBlob_view:
  assumes "blob_laws K" "key' \<noteq> key"
  shows "bk_view K (snd (snd (deleteBlob K key st))) key' = bk_view K (snd st) key'"
proof (cases "CHR ''.'' \<in> set key")
  case False
  then show ?thesis by (simp add: deleteBlob_def)
next
  case True
  obtain ok st1 where b: "blobBucket K False st = (ok, st1)" by (cases "blobBucket K False st")
  have v: "bk_view K (snd st1) = bk_view K (snd st)" using bucket_view [OF assms(1), of False st] b by simp
  obtain d b' where r: "bk_Delete K key (snd st1) = (d, b')" by (cases "bk_Delete K key (snd st1)")
  have "bk_view K (snd (bk_Delete K key (snd st1))) = (bk_view K (snd st1))(key := None) \<or>
      bk_view K (snd (bk_Delete K key (snd st1))) = bk_view K (snd st1)" using assms(1) unfolding blob_laws_def by blast
  then have "bk_view K b' key' = bk_view K (snd st1) key'" using r assms(2) by (metis fun_upd_other snd_conv)
  then show ?thesis using True b r v by (simp add: deleteBlob_def Let_def)
qed

lemma delete_loop_view:
  assumes "blob_laws K"
  shows "key \<notin> set ks \<Longrightarrow> bk_view K (snd (snd (delete_loop K ks st))) key = bk_view K (snd st) key"
proof (induction ks arbitrary: st)
  case Nil
  then show ?case by simp
next
  case (Cons k ks)
  obtain ok st1 where d: "deleteBlob K k st = (ok, st1)" by (cases "deleteBlob K k st")
  obtain f st2 where l: "delete_loop K ks st1 = (f, st2)" by (cases "delete_loop K ks st1")
  have "bk_view K (snd st1) key = bk_view K (snd st) key" using deleteBlob_view [OF assms, of key k st] Cons.prems d by simp
  moreover have "bk_view K (snd st2) key = bk_view K (snd st1) key" using Cons.IH [of st1] Cons.prems l by simp
  ultimately show ?case using d l by simp
qed

lemma commit_reap_view:
  assumes "blob_laws K" "commitSpill K rec t s st = (s2, st2)" "reapBlobs K s2 st2 = (s3, st3)"
    "key \<notin> set (s_deliveredKeys s)" "key \<in> set (s_spillKeys s) \<Longrightarrow> key \<in> set (sr_Spill rec)"
    "key \<in> set (s_deadBlobs s) \<Longrightarrow> key \<noteq> [] \<and> (\<exists>(i, o') \<in> set (s_inflight s). ob_blobKey o' = key)"
  shows "bk_view K (snd st3) key = bk_view K (snd st) key"
proof -
  define ks where "ks = filter (\<lambda>key. key \<notin> set (sr_DeliveredSpill rec)) (s_deliveredKeys s)"
  define ks2 where "ks2 = filter (\<lambda>key. key \<notin> set (sr_Spill rec)) (s_spillKeys s)"
  define ks3 where "ks3 = filter (\<lambda>key. key \<notin> set (filter (\<lambda>key. key \<noteq> []) (map (\<lambda>(_, o'). ob_blobKey o') (s_inflight s)))) (s_deadBlobs s)"
  have s2: "s_inflight s2 = s_inflight s" "s_deadBlobs s2 = s_deadBlobs s" "st2 = snd (delete_loop K ks2 (snd (delete_loop K ks st)))"
    using assms(2) by (auto simp: commitSpill_def commitDeliveredSpill_def Let_def ks_def ks2_def split: if_splits)
  have s3: "st3 = snd (delete_loop K ks3 st2)"
    using assms(3) unfolding reapBlobs_def Let_def s2(1,2) ks3_def [symmetric] by (auto split: prod.splits)
  have "key \<notin> set ks" "key \<notin> set ks2" "key \<notin> set ks3" using assms(4-6) by (auto simp: ks_def ks2_def ks3_def)
  then show ?thesis unfolding s3 s2(3) by (simp add: delete_loop_view [OF assms(1)])
qed

lemma storable_hd:
  assumes "encodeStorable o' = Some raw"
  shows "raw \<noteq> [] \<and> hd raw \<noteq> 0x5B"
proof -
  obtain p where "encode_packet (Publish p) = Inr raw" using assms by (auto simp: encodeStorable_def split: option.splits sum.splits)
  then obtain f body where pe: "packet_encode (Publish p) = Inr (f, body)" and r: "\<exists>xs. raw = (push_bit 4 (packet_Type (Publish p)) OR f) # xs"
    by (auto simp: encode_packet_def rbind_Inr_iff appendVarByteInt_eq split: if_splits)
  obtain xs where x: "raw = (push_bit 4 (packet_Type (Publish p)) OR f) # xs" using r by blast
  have "push_bit 4 (packet_Type (Publish p)) OR f \<noteq> 0x5B"
  proof
    assume "push_bit 4 (packet_Type (Publish p)) OR f = 0x5B"
    then have "drop_bit 4 (0x5B :: byte) = packet_Type (Publish p)"
      using fixed_header_bits(1) [of "packet_Type (Publish p)" f] packet_encode_flags [OF pe] by simp
    then show False by simp
  qed
  then show ?thesis using x by simp
qed

lemma json_hd: "json_list f xs \<noteq> [] \<and> hd (json_list f xs) = 0x5B"
  by (simp add: json_list_def)

lemma storable_not_json: "encodeStorable o' = Some raw \<Longrightarrow> raw \<noteq> json_list f xs"
  using storable_hd json_hd by metis

lemma recorded_raw:
  assumes "recorded K sha owner R st o' e" "si_Blob e \<noteq> []"
  shows "\<exists>raw \<in> R. encodeStorable o' = Some raw \<and> si_Blob e = blobKeyFor sha owner raw"
proof (cases "ob_queueSeq o' = 0")
  case True
  then show ?thesis using assms unfolding recorded_def by auto
next
  case False
  then have "ob_awaitingPubcomp o' \<or> stored_queued o' = Inr e" using assms(1) by (auto simp: recorded_def)
  then have "si_Blob e = []" using assms(1) by (auto simp: recorded_def stored_queued_def stored_blank_def split: option.splits)
  then show ?thesis using assms(2) by simp
qed

lemma recorded_view:
  "recorded K sha owner R st o' e \<Longrightarrow> (si_Blob e \<noteq> [] \<Longrightarrow> bk_view K (snd st') (si_Blob e) = bk_view K (snd st) (si_Blob e)) \<Longrightarrow>
    recorded K sha owner R st' o' e"
  unfolding recorded_def contents_ok_def by (metis append_is_Nil_conv blobKeyFor_def not_Cons_self2)

text \<open>The record is still complete once the payloads nobody needs are gone.\<close>

definition still_recorded :: "('k, 'b) store_env \<Rightarrow> bytes set \<Rightarrow> string \<Rightarrow> outbound list \<Rightarrow> sessionRecord \<Rightarrow> 'b blobs \<Rightarrow> bool" where
  "still_recorded E R owner os rec st \<longleftrightarrow> (\<exists>xs. list_all2 (recorded (se_blobs E) (se_sha E) owner R st) os (sr_Inflight rec @ xs) \<and>
    (\<forall>b. bk_view (se_blobs E) (snd b) = bk_view (se_blobs E) (snd st) \<longrightarrow> fst (loadSpill (se_blobs E) (se_sha E) (se_json E) (sr_Spill rec) b) = (xs, 0)))"

lemma commit_keeps:
  assumes "blob_laws (se_blobs E)" "blob_answers (se_blobs E)" "json_laws (se_json E)" "session_payloads E R s0 st0" "same_session s0 s"
    "all_recorded E R (blobOwner (se_sha E) (s_clientID s0)) os s rec st"
    "commitSpill (se_blobs E) rec' t s' st = (s2, st2)" "reapBlobs (se_blobs E) s2 st2 = (s3, st3)"
    "sr_Spill rec' = sr_Spill rec" "same_session s s'" "s_inflight s' = s_inflight s"
  shows "still_recorded E R (blobOwner (se_sha E) (s_clientID s0)) os rec st3"
proof -
  let ?K = "se_blobs E" and ?sha = "se_sha E" and ?J = "se_json E"
  let ?o = "blobOwner ?sha (s_clientID s0)"
  obtain xs where x: "list_all2 (recorded ?K ?sha ?o R st) os (sr_Inflight rec @ xs)"
    "spilled ?K ?sha (jo_entry ?J) ?o R st (sr_Inflight rec @ xs) (sr_Spill rec) xs"
    "\<forall>p. jo_entries ?J (json_list (jo_entry ?J) (slice (sr_Inflight rec @ xs) p)) = Some (slice (sr_Inflight rec @ xs) p)"
    "\<forall>e \<in> set (sr_Inflight rec @ xs). held_by s e" using assms(6) unfolding all_recorded_def by blast
  have inj: "inj_on ?sha R"
    and sp: "\<forall>key \<in> set (s_spillKeys s0). \<exists>ys. json_list (jo_entry ?J) ys \<in> R \<and> key = chunk_key ?sha ?o (jo_entry ?J) ys"
    and de: "\<forall>key \<in> set (s_deliveredKeys s0). \<exists>ys. ys \<noteq> [] \<and> json_list (jo_id ?J) ys \<in> R \<and> key = chunk_key ?sha ?o (jo_id ?J) ys"
    and dead: "\<forall>key \<in> set (s_deadBlobs s0). \<exists>o'. \<exists>raw \<in> R. encodeStorable o' = Some raw \<and> key = blobKeyFor ?sha ?o raw"
    using assms(4) unfolding session_payloads_def Let_def by blast+
  have same: "s_deadBlobs s' = s_deadBlobs s0" "s_spillKeys s' = s_spillKeys s0" "s_deliveredKeys s' = s_deliveredKeys s0"
    using assms(5,10) by (simp_all add: same_session_def)
  have chunk: "bk_view ?K (snd st3) key = bk_view ?K (snd st) key" if key: "key \<in> set (sr_Spill rec)" for key
  proof (rule commit_reap_view [OF assms(1,7,8)])
    obtain c where c: "key = chunk_key ?sha ?o (jo_entry ?J) c" "json_list (jo_entry ?J) c \<in> R" using x(2) key unfolding spilled_def by auto
    show "key \<notin> set (s_deliveredKeys s')"
      using de c key_inj [OF inj] assms(3) unfolding same json_laws_def by metis
    show "key \<in> set (sr_Spill rec')" using key assms(9) by simp
    show "key \<in> set (s_deadBlobs s') \<Longrightarrow> key \<noteq> [] \<and> (\<exists>(i, o') \<in> set (s_inflight s'). ob_blobKey o' = key)"
      using dead c key_inj [OF inj] storable_not_json unfolding same by metis
  qed
  have blob: "bk_view ?K (snd st3) (si_Blob e) = bk_view ?K (snd st) (si_Blob e)"
    if e: "recorded ?K ?sha ?o R st o' e" "held_by s e" "si_Blob e \<noteq> []" for o' e
  proof (rule commit_reap_view [OF assms(1,7,8)])
    obtain raw where raw: "raw \<in> R" "encodeStorable o' = Some raw" "si_Blob e = blobKeyFor ?sha ?o raw" using recorded_raw [OF e(1,3)] by blast
    show "si_Blob e \<notin> set (s_deliveredKeys s')" using de raw key_inj [OF inj] storable_not_json unfolding same by metis
    show "si_Blob e \<in> set (sr_Spill rec')" if "si_Blob e \<in> set (s_spillKeys s')"
      using that sp raw key_inj [OF inj] storable_not_json unfolding same by metis
    show "si_Blob e \<noteq> [] \<and> (\<exists>(i, o') \<in> set (s_inflight s'). ob_blobKey o' = si_Blob e)"
      using e(2,3) assms(11) by (simp add: held_by_def)
  qed
  have "list_all2 (recorded ?K ?sha ?o R st3) os (sr_Inflight rec @ xs)"
  proof (rule list_all2_all_nthI)
    show "length os = length (sr_Inflight rec @ xs)" using x(1) by (rule list_all2_lengthD)
    fix i assume i: "i < length os"
    have r: "recorded ?K ?sha ?o R st (os ! i) ((sr_Inflight rec @ xs) ! i)" by (rule list_all2_nthD [OF x(1) i])
    have "held_by s ((sr_Inflight rec @ xs) ! i)" using x(4) i list_all2_lengthD [OF x(1)] by (metis nth_mem)
    then show "recorded ?K ?sha ?o R st3 (os ! i) ((sr_Inflight rec @ xs) ! i)" using recorded_view [OF r] blob [OF r] by blast
  qed
  moreover have "fst (loadSpill ?K ?sha ?J (sr_Spill rec) b) = (xs, 0)" if "bk_view ?K (snd b) = bk_view ?K (snd st3)" for b
    by (rule spilled_loads [OF assms(1,2) inj x(2,3)]) (use chunk that in simp)
  ultimately show ?thesis unfolding still_recorded_def by blast
qed

end
