(* ===== verification/Session_Move.thy ===== *)
theory Session_Move
  imports Inflight_Move Retain_View
begin

text \<open>
  The other half of a move: \<^verbatim>\<open>restoreSessionState\<close> on a new session rebuilds what a complete record says, entry by entry and in order; then the
  whole way from \<^verbatim>\<open>releaseStoredSession\<close> on one broker over \<^verbatim>\<open>claim\<close> to the restored session on another.
\<close>

section \<open>One entry\<close>

lemma norm_props_idem [simp]: "norm_props t (Some (norm_props t x)) = norm_props t x"
proof -
  have "\<forall>y \<in> set (items (norm_props t x)). allowedIn (fst y) t"
    using items_restrict [of t] by (cases x) (simp_all add: norm_props_def items_empty)
  then show ?thesis by (simp add: norm_props_def restrict_legal)
qed

lemma restore_stored:
  assumes "sound_entry o'" "\<not> ob_awaitingPubcomp o'" "ob_queueSeq o' = 0" "encodeStorable o' = Some raw"
    "si_ID e = ob_packetID o'" "si_QoS e = ob_qos o'" "si_At e = ob_arrived o'" "si_Exp e = ob_expiry o'" "si_Pub e = raw"
  shows "\<exists>ob. restoreStoredPublish now e = Some ob \<and> owed_to ob = owed_to o'"
proof -
  obtain p where p: "ob_publish o' = Some p" "sound_publish o' p" "\<not> IsZero (ob_arrived o')"
    "ob_expiry o' = None \<Longrightarrow> MessageExpiryInterval (norm_props PUBLISH (pb_Properties p)) = None"
    using assms(1-3) by (auto simp: sound_entry_def)
  let ?p = "p\<lparr>pb_Dup := False\<rparr>"
  have w: "wf_packet (Publish ?p)" "pb_QoS p \<noteq> QoS0" "pb_PacketID p = ob_packetID o'" "pb_QoS p = ob_qos o'"
    using p(2) by (auto simp: sound_publish_def wf_publish_def)
  have enc: "encode_packet (Publish ?p) = Inr raw" using assms(4) p(1) by (auto simp: encodeStorable_def split: sum.splits)
  have "read_packet \<lparr>sdata = raw, sfin = EOF\<rparr> 0 = Inr (norm_packet (Publish ?p), \<lparr>sdata = [], sfin = EOF\<rparr>)"
    using read_encode [OF w(1) enc, of "\<lparr>sdata = raw, sfin = EOF\<rparr>" "[]" 0] by simp
  moreover define n where "n = norm_publish ?p"
  ultimately have rd: "read_packet \<lparr>sdata = si_Pub e, sfin = EOF\<rparr> 0 = Inr (Publish n, \<lparr>sdata = [], sfin = EOF\<rparr>)" using assms(9) by simp
  have n: "n\<lparr>pb_PacketID := si_ID e, pb_QoS := si_QoS e, pb_Dup := False\<rparr> = n" "pb_QoS n \<noteq> QoS0" "pb_Dup n = False" "pb_QoS n = ob_qos o'"
    using w(2-4) assms(5,6) by (simp_all add: n_def norm_publish_def)
  have nn: "norm_publish (n\<lparr>pb_Dup := False\<rparr>) = n" using w(2) by (simp add: n_def norm_publish_def)
  have ex: "(case ob_expiry o' of Some e \<Rightarrow> Some e | None \<Rightarrow> Option.bind (pb_Properties n) MessageExpiryInterval) = ob_expiry o'"
    using p(4) by (cases "ob_expiry o'") (simp_all add: n_def norm_publish_def)
  let ?ob = "(new_outbound (ob_packetID o') (ob_qos o') n)\<lparr>ob_arrived := ob_arrived o', ob_expiry := ob_expiry o'\<rparr>"
  have "restoreStoredPublish now e = Some ?ob"
    unfolding restoreStoredPublish_def rd using n p(3) ex assms(5-8) by (simp add: Let_def)
  moreover have "owed_to ?ob = owed_to o'"
    using assms(2,3) p(1) nn by (simp add: owed_to_def owed_packet_def new_outbound_def n_def [symmetric])
  ultimately show ?thesis by blast
qed

lemma restore_queued:
  assumes "\<not> ob_awaitingPubcomp o'" "sound_entry o'" "ob_queueSeq o' \<noteq> 0" "stored_queued o' = Inr e" "made_from B H msg o'" "TrimPrefix (bo_SubjectPrefix B) (m_Subject msg) = Some subject"
  shows "owed_to (queued_outbound H now (e\<lparr>si_Pub := raw\<rparr>) msg (queued_delivery B H now (e\<lparr>si_Pub := raw\<rparr>) subject msg)) = owed_to o'"
proof -
  obtain subject' p q ids ex where m: "ob_publish o' = Some p" "pb_Topic p = codec_subjectToName (bo_codec B) subject'" "pb_Payload p = m_Data msg"
    "q = snd (snd (snd (fromNATS H msg)))" "SubscriptionIdentifiers q = []" "ids = [] \<or> (\<exists>n. n \<noteq> 0 \<and> ids = [n])"
    "pb_Properties p = Some (q\<lparr>SubscriptionIdentifiers := ids, MessageExpiryInterval := ex\<rparr>)"
    "TrimPrefix (bo_SubjectPrefix B) (m_Subject msg) = Some subject'" using assms(5) unfolding made_from_def by blast
  have [simp]: "subject' = subject" using m(8) assms(6) by simp
  have s: "pb_PacketID p = ob_packetID o'" "pb_QoS p = ob_qos o'" using assms(1,2) m(1) by (auto simp: sound_entry_def sound_publish_def)
  have e: "si_ID e = ob_packetID o'" "si_QoS e = ob_qos o'" "si_Seq e = ob_queueSeq o'" "si_Retain e = pb_Retain p"
    "si_SubID e = (case ids of [] \<Rightarrow> 0 | n # _ \<Rightarrow> n)"
    using assms(4) m(1,7) by (auto simp: stored_queued_def stored_blank_def)
  let ?d = "queued_delivery B H now (e\<lparr>si_Pub := raw\<rparr>) subject msg"
  have "(if si_SubID e \<noteq> 0 then q\<lparr>SubscriptionIdentifiers := [si_SubID e]\<rparr> else q) = q\<lparr>SubscriptionIdentifiers := ids\<rparr>"
    using m(5,6) e(5) by auto
  then have d: "d_props ?d = Some (q\<lparr>SubscriptionIdentifiers := ids\<rparr>)" "d_topic ?d = pb_Topic p" "d_payload ?d = pb_Payload p"
    using m(2-4) by (auto simp: queued_delivery_def Let_def split: prod.splits)
  have a: "d_topic (fst (applyExpiry now d)) = d_topic d" "d_payload (fst (applyExpiry now d)) = d_payload d"
    "map_option (\<lambda>q. q\<lparr>MessageExpiryInterval := None\<rparr>) (d_props (fst (applyExpiry now d))) = map_option (\<lambda>q. q\<lparr>MessageExpiryInterval := None\<rparr>) (d_props d)" for d
    by (auto simp: applyExpiry_def Let_def split: option.splits prod.splits)
  have "no_expiry \<lparr>pb_Dup = False, pb_QoS = ob_qos o', pb_Retain = pb_Retain p, pb_Topic = pb_Topic p, pb_PacketID = ob_packetID o',
      pb_Properties = d_props (fst (applyExpiry now ?d)), pb_Payload = pb_Payload p\<rparr> = no_expiry (p\<lparr>pb_Dup := False\<rparr>)"
    using a(3) [of ?d] d(1) m(7) s by (cases p) (simp add: no_expiry_def)
  then show ?thesis using assms(1,3) m(1) e a d
    by (simp add: owed_to_def owed_packet_def queued_outbound_def new_outbound_def Let_def)
qed

text \<open>The queue still has the message of an entry that is to be read from it. Reads leave the stream as it is.\<close>

definition in_queue :: "broker_opts \<Rightarrow> 'h header_ops \<Rightarrow> ('h, 'w, 'a) stream_ops_scheme \<Rightarrow> 'w \<Rightarrow> outbound \<Rightarrow> bool" where
  "in_queue B H J w o' \<longleftrightarrow> ob_awaitingPubcomp o' \<or> ob_queueSeq o' = 0 \<or>
    (\<forall>w'. kept J w w' \<longrightarrow> (\<exists>msg. fst (queue_message H J (bo_SubjectPrefix B) (ob_queueSeq o') w') = Inr msg \<and> made_from B H msg o'))"

text \<open>What the restore reads from is what the record was written to.\<close>

definition reads_from :: "('k, 'b) store_env \<Rightarrow> ('h, 'w, 'a) stream_ops_scheme \<Rightarrow> 'b blobs \<Rightarrow> 'w \<Rightarrow> ('b, 'w) restore_state \<Rightarrow> bool" where
  "reads_from E J st w rs \<longleftrightarrow> bk_view (se_blobs E) (snd (fst rs)) = bk_view (se_blobs E) (snd st) \<and> kept J w (snd rs)"

lemma queue_message_kept: "stream_laws J \<Longrightarrow> kept J w (snd (queue_message H J pre q w))"
proof -
  assume "stream_laws J"
  then have "getmsg_law J q w" by (simp add: stream_laws_def)
  then show ?thesis by (auto simp: getmsg_law_def queue_message_def Let_def split: prod.splits sum.splits)
qed

lemma restoreEntry_rel:
  assumes "si_ID e \<noteq> 0" "si_Rel e" "si_ID e = ob_packetID o'" "ob_awaitingPubcomp o'" "ob_qos o' = QoS2"
  shows "\<exists>ob. restoreEntry E B H J queue now e rs = (Some ob, rs) \<and> owed_to ob = owed_to o'"
  using assms by (simp add: restoreEntry_def owed_to_def owed_packet_def new_outbound_def)

lemma restoreEntry_stored:
  assumes "blob_laws (se_blobs E)" "blob_answers (se_blobs E)" "inj_on (se_sha E) R" "recorded (se_blobs E) (se_sha E) owner R st o' e" "sound_entry o'"
    "\<not> ob_awaitingPubcomp o'" "ob_queueSeq o' = 0" "bk_view (se_blobs E) (snd (fst rs)) = bk_view (se_blobs E) (snd st)"
  shows "\<exists>ob st'. restoreEntry E B H J queue now e rs = (Some ob, (st', snd rs)) \<and> owed_to ob = owed_to o' \<and>
    bk_view (se_blobs E) (snd st') = bk_view (se_blobs E) (snd st)"
proof -
  let ?K = "se_blobs E" and ?sha = "se_sha E"
  obtain raw where r: "encodeStorable o' = Some raw" "si_At e = ob_arrived o'" "si_Exp e = ob_expiry o'"
    "si_Blob e = [] \<and> si_Pub e = raw \<or> si_Blob e = blobKeyFor ?sha owner raw \<and> raw \<in> R \<and> contents_ok ?K ?sha owner R st (si_Blob e)"
    and i: "si_ID e = ob_packetID o'" "si_QoS e = ob_qos o'" "\<not> si_Rel e" using assms(4,6,7) by (auto simp: recorded_def)
  have raw: "raw \<noteq> []" using storable_hd [OF r(1)] by simp
  have z: "si_ID e \<noteq> 0" using assms(5) i(1) by (simp add: sound_entry_def)
  obtain got st' where g: "(if si_Blob e \<noteq> [] then getBlob ?K ?sha (si_Blob e) (fst rs) else (Some (si_Pub e), fst rs)) = (got, st')" by (metis surj_pair)
  have "got = Some raw \<and> bk_view ?K (snd st') = bk_view ?K (snd st)"
  proof (cases "si_Blob e = []")
    case True
    moreover have "blobKeyFor ?sha owner raw \<noteq> []" by (simp add: blobKeyFor_def)
    ultimately show ?thesis using g r(4) assms(8) by auto
  next
    case False
    then obtain raw' where "raw' \<in> R" "si_Blob e = blobKeyFor ?sha owner raw'" "bk_view ?K (snd st) (si_Blob e) = Some raw'"
      "si_Blob e = blobKeyFor ?sha owner raw" "raw \<in> R" using r(4) by (auto simp: contents_ok_def)
    then have "stored_under ?K ?sha (fst rs) (si_Blob e) raw" using key_inj [OF assms(3)] assms(8) by (metis blobDigest_key stored_under_def)
    then show ?thesis using getBlob_stored [OF assms(2,1)] getBlob_view [OF assms(1), of ?sha "si_Blob e" "fst rs"] g False assms(8)
      by (metis fst_conv snd_conv)
  qed
  moreover obtain ob where "restoreStoredPublish now (e\<lparr>si_Pub := raw\<rparr>) = Some ob" "owed_to ob = owed_to o'"
    using restore_stored [OF assms(5-7) r(1), of "e\<lparr>si_Pub := raw\<rparr>" now] i r(2,3) by auto
  moreover have "owed_to (ob\<lparr>ob_blobKey := k, ob_blobAt := t\<rparr>) = owed_to ob" for ob k t by (simp add: owed_to_def owed_packet_def)
  ultimately show ?thesis using z i(3) raw g by (simp add: restoreEntry_def)
qed

lemma restoreEntry_queued:
  assumes "recorded (se_blobs E) (se_sha E) owner R st o' e" "sound_entry o'" "\<not> ob_awaitingPubcomp o'" "ob_queueSeq o' \<noteq> 0"
    "in_queue B H J w o'" "kept J w (snd rs)" "stream_laws J"
  shows "\<exists>ob w'. restoreEntry E B H J True now e rs = (Some ob, (fst rs, w')) \<and> owed_to ob = owed_to o' \<and> kept J w w'"
proof -
  have q: "stored_queued o' = Inr e" using assms(1,3,4) by (simp add: recorded_def)
  obtain p where p: "ob_publish o' = Some p" using q by (auto simp: stored_queued_def split: option.splits)
  have e: "si_ID e = ob_packetID o'" "si_QoS e = ob_qos o'" "si_Seq e = ob_queueSeq o'" "si_Blob e = []" "si_Pub e = []" "\<not> si_Rel e"
    using q p by (auto simp: stored_queued_def stored_blank_def)
  have s: "si_ID e \<noteq> 0" "si_QoS e \<noteq> QoS0" using assms(2,3) e(1,2) by (auto simp: sound_entry_def sound_publish_def)
  obtain msg where m: "fst (queue_message H J (bo_SubjectPrefix B) (si_Seq e) (snd rs)) = Inr msg" "made_from B H msg o'"
    using assms(3-6) e(3) by (auto simp: in_queue_def)
  obtain w' where w: "queue_message H J (bo_SubjectPrefix B) (si_Seq e) (snd rs) = (Inr msg, w')" using m(1) by (metis prod.collapse)
  obtain subject where sub: "TrimPrefix (bo_SubjectPrefix B) (m_Subject msg) = Some subject" using m(2) by (auto simp: made_from_def)
  have "kept J w w'" using queue_message_kept [OF assms(7), of "snd rs" H "bo_SubjectPrefix B" "si_Seq e"] w assms(6) by (simp add: kept_def)
  moreover have "e\<lparr>si_Pub := []\<rparr> = e" using e(5) by simp
  ultimately show ?thesis using s e w sub assms(4) restore_queued [OF assms(3,2,4) q m(2) sub, of now "[]"]
    by (simp add: restoreEntry_def Let_def)
qed

lemma restoreEntry_ok:
  assumes "blob_laws (se_blobs E)" "blob_answers (se_blobs E)" "inj_on (se_sha E) R" "stream_laws J"
    "recorded (se_blobs E) (se_sha E) owner R st o' e" "sound_entry o'" "in_queue B H J w o'" "reads_from E J st w rs"
  shows "\<exists>ob rs'. restoreEntry E B H J True now e rs = (Some ob, rs') \<and> owed_to ob = owed_to o' \<and> reads_from E J st w rs'"
proof (cases "ob_awaitingPubcomp o'")
  case True
  moreover have "si_ID e = ob_packetID o'" "si_Rel e" "si_ID e \<noteq> 0" "ob_qos o' = QoS2"
    using assms(5,6) True by (auto simp: recorded_def sound_entry_def)
  ultimately show ?thesis using restoreEntry_rel [of e o' E B H J True now rs] assms(8) by blast
next
  case rel: False
  have v: "bk_view (se_blobs E) (snd (fst rs)) = bk_view (se_blobs E) (snd st)" "kept J w (snd rs)" using assms(8) by (simp_all add: reads_from_def)
  show ?thesis
  proof (cases "ob_queueSeq o' = 0")
    case True
    obtain ob st' where "restoreEntry E B H J True now e rs = (Some ob, (st', snd rs))" "owed_to ob = owed_to o'"
      "bk_view (se_blobs E) (snd st') = bk_view (se_blobs E) (snd st)"
      using restoreEntry_stored [OF assms(1-3,5,6) rel True v(1)] by blast
    then show ?thesis using v(2) by (simp add: reads_from_def)
  next
    case False
    obtain ob w' where "restoreEntry E B H J True now e rs = (Some ob, (fst rs, w'))" "owed_to ob = owed_to o'" "kept J w w'"
      using restoreEntry_queued [OF assms(5,6) rel False assms(7) v(2) assms(4)] by blast
    then show ?thesis using v(1) by (simp add: reads_from_def)
  qed
qed

section \<open>The whole state\<close>

lemma noteDelivered_flow [simp]:
  "s_inflight (snd (noteDelivered bd now i q s)) = s_inflight s" "s_sendSeq (snd (noteDelivered bd now i q s)) = s_sendSeq s"
  "s_receivedQoS2 (snd (noteDelivered bd now i q s)) = s_receivedQoS2 s"
proof -
  have c: "s_inflight (set_cur f s) = s_inflight s" "s_sendSeq (set_cur f s) = s_sendSeq s" "s_receivedQoS2 (set_cur f s) = s_receivedQoS2 s"
    "s_inflight (note_mark now i q s) = s_inflight s" "s_sendSeq (note_mark now i q s) = s_sendSeq s" "s_receivedQoS2 (note_mark now i q s) = s_receivedQoS2 s"
    for f and s :: "'z session_replay_scheme" by (simp_all add: set_cur_def note_mark_def)
  have "s_inflight (prune bd now s) = s_inflight s" "s_sendSeq (prune bd now s) = s_sendSeq s" "s_receivedQoS2 (prune bd now s) = s_receivedQoS2 s"
    for s :: "'a session_replay_scheme" by (simp_all add: prune_def dropCursorLocked_def setCursorLocked_def set_cur_def Let_def)
  then show "s_inflight (snd (noteDelivered bd now i q s)) = s_inflight s" "s_sendSeq (snd (noteDelivered bd now i q s)) = s_sendSeq s"
    "s_receivedQoS2 (snd (noteDelivered bd now i q s)) = s_receivedQoS2 s" by (simp_all add: noteDelivered_def Let_def c)
qed

text \<open>A session in which exactly the messages \<open>os\<close> were restored, in this order.\<close>

definition restored_to :: "'a session_flow_scheme \<Rightarrow> outbound list \<Rightarrow> bool" where
  "restored_to s os \<longleftrightarrow> s_inflight s = map (\<lambda>o'. (ob_packetID o', o')) os \<and> map ob_seq os = map of_nat [1..<Suc (length os)] \<and>
    s_sendSeq s = of_nat (length os)"

lemma update_new: "get m k = None \<Longrightarrow> AList.update k v m = m @ [(k, v)]"
  by (induction m) (auto split: if_splits)

lemma restore_one:
  assumes "restored_to s os" "ob_packetID ob \<notin> ob_packetID ` set os"
  shows "restored_to (restoreInflight ob s) (os @ [ob\<lparr>ob_seq := of_nat (Suc (length os))\<rparr>])"
proof -
  have g: "get (s_inflight s) (ob_packetID ob) = None" using assms by (auto simp: restored_to_def map_of_eq_None_iff)
  then have "restoreInflight ob s = trackInflight ob s" by (simp add: restoreInflight_def)
  then show ?thesis using assms(1) update_new [OF g] by (simp add: restored_to_def trackInflight_def Let_def add.commute)
qed

lemma restored_sorted:
  assumes "restored_to s os" "length os < 2 ^ 64"
  shows "unacknowledged s = os"
proof -
  have "map ob_seq os ! i \<le> map ob_seq os ! j" if "i \<le> j" "j < length os" for i j
  proof -
    have s: "map ob_seq os = map of_nat [1..<Suc (length os)]" using assms(1) by (simp add: restored_to_def)
    have "map ob_seq os ! k = of_nat (Suc k)" if "k < length os" for k
      using that unfolding s by (simp del: upt_Suc)
    moreover have "(of_nat (Suc i) :: u64) \<le> of_nat (Suc j)"
      using that assms(2) by (simp add: word_le_nat_alt unat_of_nat del: of_nat_Suc)
    ultimately show ?thesis using that by simp
  qed
  then have "sorted (map ob_seq os)" by (simp add: sorted_iff_nth_mono)
  then show ?thesis using assms(1) by (simp add: unacknowledged_def restored_to_def comp_def sort_key_id_if_sorted)
qed

lemma ids_bounded: "distinct (map ob_packetID os) \<Longrightarrow> length os \<le> 65536"
proof -
  assume "distinct (map ob_packetID os)"
  then have "length os = card (set (map ob_packetID os))" by (metis distinct_card length_map)
  also have "\<dots> \<le> card (UNIV :: u16 set)" by (rule card_mono) simp_all
  also have "\<dots> = 65536" by (simp add: card_word)
  finally show ?thesis .
qed

lemma restore_loop_ok:
  assumes "blob_laws (se_blobs E)" "blob_answers (se_blobs E)" "inj_on (se_sha E) R" "stream_laws J"
  shows "list_all2 (recorded (se_blobs E) (se_sha E) owner R st) os es \<Longrightarrow> \<forall>o' \<in> set os. sound_entry o' \<and> in_queue B H J w o' \<Longrightarrow>
    reads_from E J st w rs \<Longrightarrow> restored_to s done' \<Longrightarrow> distinct (map ob_packetID (done' @ os)) \<Longrightarrow>
    \<exists>calls s' rs' obs. restore_loop E B H J True bd now es s rs = ((0, calls, s'), rs') \<and> restored_to s' (done' @ obs) \<and>
      map owed_to obs = map owed_to os \<and> s_receivedQoS2 s' = s_receivedQoS2 s"
proof (induction es arbitrary: os s rs done')
  case Nil
  then show ?case by (intro exI [of _ "[]"] exI [of _ s] exI [of _ rs]) simp
next
  case (Cons e es)
  obtain o' os' where os: "os = o' # os'" "recorded (se_blobs E) (se_sha E) owner R st o' e" "list_all2 (recorded (se_blobs E) (se_sha E) owner R st) os' es"
    using Cons.prems(1) by (auto simp: list_all2_Cons2)
  obtain ob rs1 where r: "restoreEntry E B H J True now e rs = (Some ob, rs1)" "owed_to ob = owed_to o'" "reads_from E J st w rs1"
    using restoreEntry_ok [OF assms os(2) _ _ Cons.prems(3)] Cons.prems(2) os(1) by fastforce
  have i: "ob_packetID ob = ob_packetID o'" using r(2) by (simp add: owed_to_def)
  let ?ob = "ob\<lparr>ob_seq := of_nat (Suc (length done'))\<rparr>"
  define s1 where "s1 = (if ob_msgID ob \<noteq> [] then snd (noteDelivered bd now (ob_msgID ob) (ob_queueSeq ob) (restoreInflight ob s)) else restoreInflight ob s)"
  have "restored_to (restoreInflight ob s) (done' @ [?ob])" using restore_one [OF Cons.prems(4)] Cons.prems(5) os(1) i by auto
  then have d1: "restored_to s1 (done' @ [?ob])" by (simp add: s1_def restored_to_def)
  have d2: "distinct (map ob_packetID ((done' @ [?ob]) @ os'))" using Cons.prems(5) os(1) i by simp
  have d3: "\<forall>o' \<in> set os'. sound_entry o' \<and> in_queue B H J w o'" using Cons.prems(2) os(1) by simp
  obtain calls s' rs' obs where l: "restore_loop E B H J True bd now es s1 rs1 = ((0, calls, s'), rs')" "restored_to s' ((done' @ [?ob]) @ obs)"
    "map owed_to obs = map owed_to os'" "s_receivedQoS2 s' = s_receivedQoS2 s1"
    using Cons.IH [OF os(3) d3 r(3) d1 d2] by blast
  have "restore_loop E B H J True bd now (e # es) s rs = ((0, (if si_Rel e \<and> si_Ack e \<noteq> [] then [HoldAck (si_Ack e)] else []) @ calls, s'), rs')"
    using r(1) l(1) by (simp add: s1_def [symmetric])
  moreover have "owed_to ?ob = owed_to ob" by (simp add: owed_to_def owed_packet_def)
  then have "map owed_to (?ob # obs) = map owed_to os" using r(2) l(3) os(1) by simp
  moreover have "s_receivedQoS2 s' = s_receivedQoS2 s" using l(4) by (simp add: s1_def restoreInflight_def trackInflight_def Let_def split: option.splits)
  moreover have "restored_to s' (done' @ ?ob # obs)" using l(2) by simp
  ultimately show ?case by blast
qed

lemma restoreWithdrawn_flow:
  "s_inflight (restoreWithdrawn ws s) = s_inflight s \<and> s_sendSeq (restoreWithdrawn ws s) = s_sendSeq s \<and>
    s_receivedQoS2 (restoreWithdrawn ws s) = s_receivedQoS2 s"
proof -
  let ?f = "\<lambda>w s. if 2 \<le> sw_Age w \<or> get (s_inflight s) (sw_ID w) \<noteq> None then s
    else s\<lparr>s_withdrawn := AList.update (sw_ID w) \<lparr>wd_madeAt = s_attaches s - sw_Age w, wd_owed = sw_Owed w, wd_quotaHolder = None\<rparr> (s_withdrawn s)\<rparr>"
  have "s_inflight (fold ?f ws s) = s_inflight s \<and> s_sendSeq (fold ?f ws s) = s_sendSeq s \<and> s_receivedQoS2 (fold ?f ws s) = s_receivedQoS2 s"
    for s :: "'a session_flow_scheme" by (induction ws arbitrary: s) (simp_all del: not_None_eq)
  then show ?thesis by (simp add: restoreWithdrawn_def Let_def)
qed

lemma restoreReceived_keys: "fst ` set (s_receivedQoS2 (restoreReceivedQoS2 ids s)) = fst ` set (s_receivedQoS2 s) \<union> set ids"
proof -
  have "fst ` set (fold (\<lambda>i. AList.update i ()) ids m) = fst ` set m \<union> set ids" for m :: "(u16, unit) gomap"
    by (induction ids arbitrary: m) (auto simp: update_keys dom_update)
  then show ?thesis by (simp add: restoreReceivedQoS2_def)
qed

definition new_session :: "string \<Rightarrow> string \<Rightarrow> session_spill" where
  "new_session clientID nuid = session_replay.extend (newSession clientID nuid) (session_spill.fields [] zeroTime False [] zeroTime False)"

lemma new_session_flow:
  "s_inflight (new_session clientID nuid) = []" "s_sendSeq (new_session clientID nuid) = 0" "s_receivedQoS2 (new_session clientID nuid) = []"
  by (simp_all add: new_session_def newSession_def session_replay.defs session_spill.defs)

lemma restoreSessionState_ok:
  assumes "blob_laws (se_blobs E)" "blob_answers (se_blobs E)" "inj_on (se_sha E) R" "stream_laws J" "still_recorded E R owner os rec0 st"
    "sr_inflightWas rec = sr_Inflight rec0" "sr_spillWas rec = sr_Spill rec0" "\<forall>o' \<in> set os. sound_entry o' \<and> in_queue B H J w o'"
    "distinct (map ob_packetID os)" "s_inflight s = []" "s_sendSeq s = 0"
  shows "\<exists>calls s' rs'. restoreSessionState E B H J True bd now rec s ((opened, snd st), w) = ((0, calls, s'), rs') \<and>
    map owed_to (unacknowledged s') = map owed_to os \<and> fst ` set (s_receivedQoS2 s') = fst ` set (s_receivedQoS2 s) \<union> set (sr_receivedQoS2Was rec)"
proof -
  let ?K = "se_blobs E" and ?sha = "se_sha E"
  define s1 where "s1 = (if sr_receivedQoS2Was rec \<noteq> [] then restoreReceivedQoS2 (sr_receivedQoS2Was rec) s else s)"
  define s2 where "s2 = (if sr_withdrawnWas rec \<noteq> [] then restoreWithdrawn (sr_withdrawnWas rec) s1 else s1)"
  define s3 where "s3 = (if sr_spillWas rec \<noteq> [] then s2\<lparr>s_spillKeys := sr_spillWas rec, s_spillAt := zeroTime\<rparr> else s2)"
  have r1: "fst ` set (s_receivedQoS2 s1) = fst ` set (s_receivedQoS2 s) \<union> set (sr_receivedQoS2Was rec)"
    using restoreReceived_keys [of "sr_receivedQoS2Was rec" s] by (simp add: s1_def)
  have f: "s_inflight s3 = []" "s_sendSeq s3 = 0" "s_receivedQoS2 s3 = s_receivedQoS2 s1"
    using assms(10,11) by (simp_all add: s3_def s2_def s1_def restoreWithdrawn_flow restoreReceivedQoS2_def)
  obtain xs where x: "list_all2 (recorded ?K ?sha owner R st) os (sr_Inflight rec0 @ xs)"
    "\<And>b. bk_view ?K (snd b) = bk_view ?K (snd st) \<Longrightarrow> fst (loadSpill ?K ?sha (se_json E) (sr_Spill rec0) b) = (xs, 0)"
    using assms(5) unfolding still_recorded_def by blast
  obtain spl bs where l: "(if sr_spillWas rec \<noteq> [] then loadSpill ?K ?sha (se_json E) (sr_spillWas rec) (opened, snd st) else (([], 0), (opened, snd st))) = (spl, bs)"
    by (metis surj_pair)
  have spl: "spl = (xs, 0)"
    using l x(2) [of "(opened, snd st)"] assms(7) by (cases "sr_Spill rec0 = []") (auto simp: loadSpill_def)
  have "bk_view ?K (snd (snd (load_chunks ?K ?sha um ks b))) = bk_view ?K (snd b)" for um :: "bytes \<Rightarrow> storedInflight list option" and ks b
  proof (induction ks arbitrary: b)
    case (Cons k ks)
    obtain r b1 where g: "getBlob ?K ?sha k b = (r, b1)" by (cases "getBlob ?K ?sha k b")
    then have "bk_view ?K (snd b1) = bk_view ?K (snd b)" using getBlob_view [OF assms(1), of ?sha k b] by simp
    then show ?case using Cons.IH [of b1] g by (auto split: prod.splits option.splits)
  qed simp
  then have bs: "bk_view ?K (snd bs) = bk_view ?K (snd st)" using l unfolding loadSpill_def by (metis snd_conv)
  have "restored_to s3 []" using f by (simp add: restored_to_def)
  moreover have "reads_from E J st w (bs, w)" using bs by (simp add: reads_from_def kept_def)
  ultimately obtain calls s' rs' obs where lp: "restore_loop E B H J True bd now (sr_Inflight rec0 @ xs) s3 (bs, w) = ((0, calls, s'), rs')"
    "restored_to s' obs" "map owed_to obs = map owed_to os" "s_receivedQoS2 s' = s_receivedQoS2 s3"
    using restore_loop_ok [OF assms(1-4) x(1) assms(8), of "(bs, w)" s3 "[]" bd now] assms(9) by auto
  have "length obs = length os" using lp(3) map_eq_imp_length_eq by blast
  then have "length obs < 2 ^ 64" using ids_bounded [OF assms(9)] by simp
  then have "unacknowledged s' = obs" by (rule restored_sorted [OF lp(2)])
  moreover have "restoreSessionState E B H J True bd now rec s ((opened, snd st), w) = ((0, calls, s'), rs')"
    unfolding restoreSessionState_def Let_def s1_def [symmetric] s2_def [symmetric] s3_def [symmetric] fst_conv l spl assms(6)
    by (simp add: lp(1))
  ultimately show ?thesis using lp(3,4) f(3) r1 by auto
qed

section \<open>From one broker to another\<close>

definition released_record :: "('k, 'b) store_env \<Rightarrow> time \<Rightarrow> 'a session_replay_scheme \<Rightarrow> sessionRecord \<Rightarrow> sessionRecord" where
  "released_record E now s rec = (snd (awayStateInto (se_delivered E) now s rec))\<lparr>sr_DeliveredSince := deliveredFloor now s\<rparr>"

lemma released_record_fields:
  "same_record rec (released_record E now s rec)"
  by (simp add: same_record_def released_record_def awayStateInto_def cursorIntoLocked_def delivered_into_def Let_def)

lemma snapshot_fields: "snapshot gen s = Some (rec, rv) \<Longrightarrow> sr_ExpirySeconds rec = s_expirySeconds s"
  by (auto simp: snapshot_def split: option.splits if_splits)

lemma release_commits:
  assumes "snapshot gen s = Some (rec, rv)" "s_expirySeconds s \<noteq> 0"
    "inflight_into E now False (released_record E now s rec) s st = Inr ((ns, lost, rec', s'), st')"
    "release (se_kv E) now rec' rv k = (Inr newRev, rec'', k')" "releaseStoredSession E now gen s k st = Inr (s'', k'', st'')"
    "sr_ExpirySeconds rec' \<noteq> 0"
  shows "k'' = k'" "\<exists>s1 s2 st2. commitSpill (se_blobs E) rec'' now s1 st' = (s2, st2) \<and> reapBlobs (se_blobs E) s2 st2 = (s'', st'') \<and>
      same_session s' s1 \<and> s_inflight s1 = s_inflight s'" "sr_Spill rec'' = sr_Spill rec'"
proof -
  let ?s1 = "commitRecord gen (rec''\<lparr>sr_deliveredOver := []\<rparr>) newRev s'"
  have z: "sr_ExpirySeconds (released_record E now s rec) \<noteq> 0"
    using released_record_fields [of rec E now s] snapshot_fields [OF assms(1)] assms(2) by (simp add: same_record_def)
  have x: "sr_ExpirySeconds rec'' \<noteq> 0" "sr_Spill rec'' = sr_Spill rec'"
    using assms(4,6) by (auto simp: release_def Let_def split: prod.splits sum.splits)
  then show "sr_Spill rec'' = sr_Spill rec'" by simp
  obtain s2 st2 where c: "commitSpill (se_blobs E) rec'' now ?s1 st' = (s2, st2)" by (metis surj_pair)
  obtain s3 st3 where r: "reapBlobs (se_blobs E) s2 st2 = (s3, st3)" by (metis surj_pair)
  have "releaseStoredSession E now gen s k st = Inr (s3, k', st3)"
    using z x(1) by (simp add: releaseStoredSession_def assms(1,4) released_record_def [symmetric] assms(3) c r)
  then have e: "s3 = s''" "k' = k''" "st3 = st''" using assms(5) by simp_all
  show "k'' = k'" using e(2) by simp
  have "same_session s' ?s1 \<and> s_inflight ?s1 = s_inflight s'" by (simp add: same_session_def commitRecord_def)
  then show "\<exists>s1 s2 st2. commitSpill (se_blobs E) rec'' now s1 st' = (s2, st2) \<and> reapBlobs (se_blobs E) s2 st2 = (s'', st'') \<and>
      same_session s' s1 \<and> s_inflight s1 = s_inflight s'" using c r e by metis
qed

text \<open>The buckets and the stream keep their promises and can be reached.\<close>

definition stores_ok :: "('k, 'b) store_env \<Rightarrow> ('h, 'w, 'a) stream_ops_scheme \<Rightarrow> bool" where
  "stores_ok E J \<longleftrightarrow> blob_laws (se_blobs E) \<and> blob_answers (se_blobs E) \<and> json_laws (se_json E) \<and> kv_laws (se_kv E) \<and> answers (se_kv E) \<and> stream_laws J"

text \<open>The session is in order, and the messages that were queued are still in the queue.\<close>

definition session_ok :: "('k, 'b) store_env \<Rightarrow> bytes set \<Rightarrow> broker_opts \<Rightarrow> 'h header_ops \<Rightarrow> ('h, 'w, 'a) stream_ops_scheme \<Rightarrow> 'w \<Rightarrow>
    'c session_spill_scheme \<Rightarrow> 'b blobs \<Rightarrow> bool" where
  "session_ok E R B H J w s st \<longleftrightarrow> inflight_ok s \<and> session_payloads E R s st \<and> (\<forall>o' \<in> set (unacknowledged s). sound_entry o' \<and> in_queue B H J w o')"

text \<open>The release is the session's own, leaves nothing out, and is written.\<close>

definition released_whole :: "('k, 'b) store_env \<Rightarrow> bytes set \<Rightarrow> time \<Rightarrow> u64 \<Rightarrow> 'c session_spill_scheme \<Rightarrow> 'k \<Rightarrow> 'b blobs \<Rightarrow> bool" where
  "released_whole E R now gen s k st \<longleftrightarrow> (\<exists>rec rv ns rec' s' st' r.
    snapshot gen s = Some (rec, rv) \<and> sr_ClientID rec = s_clientID s \<and> sr_Version rec = sessionRecordVersion \<and> s_expirySeconds s \<noteq> 0 \<and>
    record_payloads E R now (released_record E now s rec) s st \<and>
    inflight_into E now False (released_record E now s rec) s st = Inr ((ns, 0, rec', s'), st') \<and> fst (release (se_kv E) now rec' rv k) = Inr r)"

text \<open>C40: A session that is released by one broker and resumed on another is owed the same packets: the broker that claims it within the Session
  Expiry Interval restores every unacknowledged message, in the order sent, with its Packet Identifier, QoS and state (a PUBREL stays a PUBREL, and a
  PUBLISH is the same PUBLISH, whether it was kept in the record, in the payload bucket, in a spilled chunk or in the queue), and the received QoS 2
  identifiers. No payload the record needs is deleted on the way.\<close>

theorem unacknowledged_messages_move:
  assumes "stores_ok E J" "session_ok E R B H J w s st" "released_whole E R now gen s k st" "releaseStoredSession E now gen s k st = Inr (s', k', st')"
    "kv_last (se_kv E) k' \<noteq> - 1" "s_expirySeconds s = neverExpires \<or> now' < now + int (unat (s_expirySeconds s)) * Second"
  shows "\<exists>rec rv k2 calls s2 rs. claim (se_kv E) S now' (s_clientID s) identity username False k' = (Inr (rec, rv, True), [], k2) \<and>
    restoreSessionState E B H J True bd now' rec (new_session (s_clientID s) nuid) ((False, snd st'), w) = ((0, calls, s2), rs) \<and>
    map owed_to (unacknowledged s2) = map owed_to (unacknowledged s) \<and>
    fst ` set (s_receivedQoS2 s2) = {i \<in> fst ` set (s_receivedQoS2 s). get (s_qos2Forwarding s) i = None}"
proof -
  have laws: "blob_laws (se_blobs E)" "blob_answers (se_blobs E)" "json_laws (se_json E)" "kv_laws (se_kv E)" "answers (se_kv E)" "stream_laws J"
    using assms(1) by (simp_all add: stores_ok_def)
  have ok: "inflight_ok s" "session_payloads E R s st" "\<forall>o' \<in> set (unacknowledged s). sound_entry o' \<and> in_queue B H J w o'"
    using assms(2) by (simp_all add: session_ok_def)
  have inj: "inj_on (se_sha E) R" using ok(2) unfolding session_payloads_def Let_def by blast
  obtain rec rv ns rec' s1 st1 r where sn: "snapshot gen s = Some (rec, rv)" and rec: "sr_ClientID rec = s_clientID s" "sr_Version rec = sessionRecordVersion"
    and ex: "s_expirySeconds s \<noteq> 0" and rp: "record_payloads E R now (released_record E now s rec) s st"
    and into: "inflight_into E now False (released_record E now s rec) s st = Inr ((ns, 0, rec', s1), st1)"
    and "fst (release (se_kv E) now rec' rv k) = Inr r" using assms(3) unfolding released_whole_def by blast
  then obtain rec'' k1 where rel: "release (se_kv E) now rec' rv k = (Inr r, rec'', k1)" by (metis prod.collapse)
  have f: "same_record rec (released_record E now s rec)" by (rule released_record_fields)
  have cl: "sr_ClientID (released_record E now s rec) = s_clientID s" using f rec(1) by (simp add: same_record_def)
  note ii = inflight_into_ok [OF laws(1) ok(2,1) cl rp into]
  have rf: "sr_ClientID rec' = s_clientID s" "sr_Version rec' = sessionRecordVersion" "sr_ExpirySeconds rec' = s_expirySeconds s"
    using f ii(2) rec snapshot_fields [OF sn] by (simp_all add: same_record_def)
  note rc = release_commits [OF sn ex into rel assms(4)]
  have ne: "sr_ExpirySeconds rec' \<noteq> 0" using rf(3) ex by simp
  obtain sa sb stb where c: "commitSpill (se_blobs E) rec'' now sa st1 = (sb, stb)" "reapBlobs (se_blobs E) sb stb = (s', st')" "same_session s1 sa"
    "s_inflight sa = s_inflight s1" using rc(2) [OF ne] by blast
  have still: "still_recorded E R (blobOwner (se_sha E) (s_clientID s)) (unacknowledged s) rec' st'"
    by (rule commit_keeps [OF laws(1-3) ok(2) ii(4) ii(1) c(1,2) rc(3) [OF ne] c(3,4)])
  have "kv_last (se_kv E) k1 \<noteq> - 1" "sr_ExpirySeconds rec' = neverExpires \<or> now' < now + int (unat (sr_ExpirySeconds rec')) * Second"
    using assms(5,6) rc(1) [OF ne] rf(3) by simp_all
  then obtain rec2 rv2 k2 where cm: "claim (se_kv E) S now' (s_clientID s) identity username False k' = (Inr (rec2, rv2, True), [], k2)" "handed_over rec' now rec2"
    using release_claim [OF laws(4,5) rel ne rf(2)] rf(1) rc(1) [OF ne] by metis
  have h: "sr_inflightWas rec2 = sr_Inflight rec'" "sr_spillWas rec2 = sr_Spill rec'" "sr_receivedQoS2Was rec2 = received_ids s"
    using cm(2) ii(3) by (simp_all add: handed_over_def)
  have "\<exists>calls s2 rs. restoreSessionState E B H J True bd now' rec2 (new_session (s_clientID s) nuid) ((False, snd st'), w) = ((0, calls, s2), rs) \<and>
      map owed_to (unacknowledged s2) = map owed_to (unacknowledged s) \<and>
      fst ` set (s_receivedQoS2 s2) = fst ` set (s_receivedQoS2 (new_session (s_clientID s) nuid)) \<union> set (sr_receivedQoS2Was rec2)"
    by (rule restoreSessionState_ok [OF laws(1,2) inj laws(6) still h(1,2) ok(3) unacknowledged_facts(1) [OF ok(1)] new_session_flow(1,2)])
  then obtain calls s2 rs where rs: "restoreSessionState E B H J True bd now' rec2 (new_session (s_clientID s) nuid) ((False, snd st'), w) = ((0, calls, s2), rs)"
    "map owed_to (unacknowledged s2) = map owed_to (unacknowledged s)" "fst ` set (s_receivedQoS2 s2) = set (received_ids s)"
    unfolding new_session_flow(3) h(3) list.set(1) image_empty Un_empty_left by (elim exE conjE)
  have "set (received_ids s) = {i \<in> fst ` set (s_receivedQoS2 s). get (s_qos2Forwarding s) i = None}" by (auto simp: received_ids_def)
  with rs(3) have rq: "fst ` set (s_receivedQoS2 s2) = {i \<in> fst ` set (s_receivedQoS2 s). get (s_qos2Forwarding s) i = None}" by (rule trans)
  show ?thesis by (intro exI conjI, rule cm(1), rule rs(1), rule rs(2), rule rq)
qed

section \<open>An instance\<close>

definition mem_blobs :: "(string \<rightharpoonup> bytes) blob_ops" where
  "mem_blobs = \<lparr>bk_Create = (\<lambda>b. (True, b)), bk_Open = (\<lambda>b. (True, b)), bk_Put = (\<lambda>key raw b. (True, b(key \<mapsto> raw))),
     bk_Get = (\<lambda>key b. (b key, b)), bk_Delete = (\<lambda>key b. (True, b(key := None))), bk_view = (\<lambda>b. b)\<rparr>"

lemma mem_blobs_laws: "blob_laws mem_blobs" "blob_answers mem_blobs"
  by (simp_all add: blob_laws_def blob_answers_def put_law_def mem_blobs_def)

definition moved_publish :: "u16 \<Rightarrow> properties option \<Rightarrow> publish" where
  "moved_publish i q = \<lparr>pb_Dup = False, pb_QoS = 1, pb_Retain = False, pb_Topic = ''a'', pb_PacketID = i, pb_Properties = q, pb_Payload = [0x41]\<rparr>"

definition moved_rel :: outbound where
  "moved_rel = (new_outbound 1 QoS2 zero_publish)\<lparr>ob_awaitingPubcomp := True, ob_seq := 1\<rparr>"

definition moved_inline :: outbound where
  "moved_inline = (new_outbound 2 1 (moved_publish 2 None))\<lparr>ob_arrived := 3, ob_seq := 2\<rparr>"

definition moved_queued :: outbound where
  "moved_queued = (new_outbound 3 1 (moved_publish 3 (Some empty_props)))\<lparr>ob_arrived := 3, ob_seq := 3, ob_queueSeq := 1\<rparr>"

definition moved_session :: session_spill where
  "moved_session = (new_session ''c'' ''n'')\<lparr>s_expirySeconds := 60, s_inflight := [(3, moved_queued), (1, moved_rel), (2, moved_inline)],
     s_receivedQoS2 := [(8, ()), (7, ())], s_qos2Forwarding := [(8, ())], s_rec := Some first_record, s_rev := 1, s_claimGen := 1\<rparr>"

definition moved_raw :: bytes where
  "moved_raw = [0x32, 7, 0, 1, 0x61, 0, 2, 0, 0x41]"

definition moved_entries :: "storedInflight list" where
  "moved_entries = [(stored_blank 1 QoS2)\<lparr>si_Rel := True\<rparr>, (stored_blank 2 1)\<lparr>si_At := 3, si_Pub := moved_raw\<rparr>, (stored_blank 3 1)\<lparr>si_Seq := 1\<rparr>]"

definition moved_json :: json_ops where
  "moved_json = \<lparr>jo_entry = (\<lambda>e. [4, ucast (si_ID e)]),
     jo_entries = (\<lambda>raw. Some (map (\<lambda>b. moved_entries ! (unat b - 1)) (filter (\<lambda>b. b \<in> {1, 2, 3}) raw))),
     jo_id = (\<lambda>_. [9]), jo_ids = (\<lambda>_. None), jo_recordLen = (\<lambda>_. 0)\<rparr>"

definition moved_env :: "(mem_bucket, string \<rightharpoonup> bytes) store_env" where
  "moved_env = \<lparr>se_kv = mem_kv, se_blobs = mem_blobs, se_sha = (\<lambda>b. b), se_json = moved_json,
     se_limits = \<lparr>pl_maxPayload = 1048576, pl_maxSessionExpiry = 3600 * Second, pl_spillChunkIDs = 0\<rparr>,
     se_delivered = \<lparr>db_stored = 4096, db_spilled = 65536\<rparr>\<rparr>"

definition moved_bounds :: bounds where
  "moved_bounds = \<lparr>bd_scanAfter = 1024, bd_idBound = 4 * 4096, bd_maxHoles = 1024\<rparr>"

definition moved_queue :: "(string, string list) gomap mem_world" where
  "moved_queue = ([\<lparr>sm_seq = 1, sm_time = 2, sm_msg = \<lparr>m_Subject = ''mqtt.$queue.a'', m_Header = None, m_Data = [0x41]\<rparr>\<rparr>], 1)"

lemma json_join_Cons: "\<exists>r. json_join (map f (x # xs)) = f x @ r"
  by (cases xs) auto

lemma moved_json_laws: "json_laws moved_json"
proof -
  have "json_list (jo_entry moved_json) xs \<noteq> json_list (jo_id moved_json) ys" if ne: "ys \<noteq> []" for xs ys
  proof -
    obtain y ys' where ys: "ys = y # ys'" using ne by (cases ys) auto
    obtain r where r: "json_join (map (jo_id moved_json) ys) = 9 # r" using json_join_Cons [of "jo_id moved_json" y ys'] ys by (auto simp: moved_json_def)
    show ?thesis
    proof (cases xs)
      case Nil
      then show ?thesis using r by (simp add: json_list_def)
    next
      case (Cons x xs')
      then show ?thesis using r json_join_Cons [of "jo_entry moved_json" x xs'] by (auto simp: json_list_def moved_json_def)
    qed
  qed
  then show ?thesis by (simp add: json_laws_def)
qed

lemma moved_json_reads: "set xs \<subseteq> set moved_entries \<Longrightarrow> jo_entries moved_json (json_list (jo_entry moved_json) xs) = Some xs"
proof -
  have f: "filter (\<lambda>b. b \<in> {1, 2, 3}) (json_join (map (jo_entry moved_json) ys)) = map (\<lambda>e. ucast (si_ID e)) ys" if "set ys \<subseteq> set moved_entries" for ys
    using that
  proof (induction ys rule: induct_list012)
    case (2 x)
    then show ?case by (auto simp: moved_json_def moved_entries_def stored_blank_def)
  next
    case (3 x y zs)
    then show ?case by (auto simp: moved_json_def moved_entries_def stored_blank_def)
  qed simp
  assume xs: "set xs \<subseteq> set moved_entries"
  then have "map ((\<lambda>b. moved_entries ! (unat b - 1)) \<circ> (\<lambda>e. ucast (si_ID e) :: byte)) xs = map (\<lambda>e. e) xs"
    by (intro map_cong) (auto simp: moved_entries_def stored_blank_def)
  then show ?thesis using f [OF xs] by (simp add: json_list_def moved_json_def)
qed

lemma moved_sorted: "unacknowledged moved_session = [moved_rel, moved_inline, moved_queued]"
  by (simp add: unacknowledged_def moved_session_def moved_rel_def moved_inline_def moved_queued_def new_outbound_def word_le_nat_alt)

lemma moved_encoding: "encodeStorable moved_inline = Some moved_raw"
  by (simp add: encodeStorable_def moved_inline_def new_outbound_def moved_publish_def moved_raw_def encode_packet_def publish_encode_def props_encode_def
      QoS_Valid_def checkStringLen_def w_varByteInt_eq appendVarByteInt_eq vbi.simps w_string_def w_uint16_def bytes_of_string_def MaxVarByteInt_def)

lemma moved_state:
  "inflightState (Some (se_limits moved_env)) 5 moved_session = Inr (moved_entries, [7], 0, [])"
proof -
  have v: "valueLimit (se_limits moved_env) = 917504" by (simp add: valueLimit_def max_value_def moved_env_def)
  have q: "stored_queued moved_queued = Inr (moved_entries ! 2)"
    by (simp add: stored_queued_def moved_queued_def new_outbound_def moved_publish_def moved_entries_def stored_blank_def empty_props_def)
  have "inflight_loop (Some (se_limits moved_env)) 5 16384 229376 0 (unacknowledged moved_session) = Inr (moved_entries, 0, [])"
    unfolding moved_sorted using moved_encoding q
    by (simp add: Let_def moved_rel_def moved_inline_def moved_queued_def new_outbound_def moved_entries_def stored_blank_def moved_raw_def)
  moreover have "sort (filter (\<lambda>i. get (s_qos2Forwarding moved_session) i = None) (map fst (s_receivedQoS2 moved_session))) = [7]"
    by (simp add: moved_session_def)
  ultimately show ?thesis by (simp add: inflightState_def v maxStoredPublish_def)
qed

abbreviation moved_record :: sessionRecord where
  "moved_record \<equiv> released_record moved_env 5 moved_session (first_record\<lparr>sr_ExpirySeconds := 60\<rparr>)"

lemma moved_snapshot: "snapshot 1 moved_session = Some (first_record\<lparr>sr_ExpirySeconds := 60\<rparr>, 1)"
  by (simp add: snapshot_def moved_session_def new_session_def newSession_def session_replay.defs session_spill.defs first_record_def fresh_record_def
      empty_record_def withdrawnLocked_def)

lemma moved_record_lists: "sr_Delivered moved_record = []" "sr_deliveredOver moved_record = []"
  by (simp_all add: released_record_def awayStateInto_def cursorIntoLocked_def delivered_into_def deliveredFromLocked_def splitDelivered_def listed_def sort_delivered_def
      moved_session_def new_session_def newSession_def session_replay.defs session_spill.defs Let_def)

abbreviation moved_stashed :: sessionRecord where
  "moved_stashed \<equiv> moved_record\<lparr>sr_Inflight := moved_entries, sr_ReceivedQoS2 := [7]\<rparr>"

lemma moved_stash: "stashBlobs K sha now (rec\<lparr>sr_Inflight := moved_entries, sr_ReceivedQoS2 := [7]\<rparr>) [] s st =
    ((0, rec\<lparr>sr_Inflight := moved_entries, sr_ReceivedQoS2 := [7]\<rparr>, s), st)"
  by (simp add: stashBlobs_def moved_entries_def)

lemma moved_stashed_record: "stashed_record moved_env 5 moved_record moved_session st = Inr moved_stashed"
  by (simp add: stashed_record_def moved_state moved_stash)

lemma moved_into:
  "\<exists>s'. inflight_into moved_env 5 False moved_record moved_session st = Inr ((0, 0, moved_stashed\<lparr>sr_Spill := []\<rparr>, s'), st)"
proof -
  have len: "jo_recordLen (se_json moved_env) r = 0" for r by (simp add: moved_env_def moved_json_def)
  have v: "valueLimit (se_limits moved_env) = 917504" by (simp add: valueLimit_def max_value_def moved_env_def)
  have o: "moved_stashed\<lparr>sr_deliveredOver := []\<rparr> = moved_stashed" using moved_record_lists(2) by (cases moved_record) simp
  have "\<exists>s'. spillInto (se_blobs moved_env) (se_sha moved_env) (se_json moved_env) (se_limits moved_env) 5 moved_stashed moved_session st =
      ((0, True, moved_stashed\<lparr>sr_Spill := []\<rparr>, s'), st)"
    by (simp add: spillInto_def spillDeliveredInto_def spillDelivered_def spillRecordReusing_def trimDelivered_def moved_record_lists o len v Let_def)
  moreover have "fitRecord (se_json moved_env) r (valueLimit (se_limits moved_env)) = ((0, 0), r)" for r
    by (simp add: fitRecord_def trim_loop.simps len v Let_def)
  ultimately show ?thesis by (auto simp: inflight_into_def moved_state moved_stash)
qed

lemma moved_queue_view: "js_view mem_stream moved_queue = Map.empty(''mqtt.$queue.a'' \<mapsto> hd (fst moved_queue))"
  by (auto simp: mem_stream_def mem_lookup_def moved_queue_def)

lemma moved_in_queue: "in_queue sample_opts alist_header mem_stream moved_queue moved_queued"
proof -
  let ?m = "hd (fst moved_queue)"
  have "js_GetMsg mem_stream 1 w' = (Inr ?m, w')" if "kept mem_stream moved_queue w'" for w'
  proof -
    have v: "mem_lookup w' sj = (if sj = ''mqtt.$queue.a'' then Some ?m else None)" for sj
      using that moved_queue_view by (auto simp: kept_def mem_stream_def)
    have "?m \<in> set (fst w')" using v [of "''mqtt.$queue.a''"] find_subject by (fastforce simp: mem_lookup_def)
    then have "find (\<lambda>m. sm_seq m = 1 \<and> mem_lookup w' (m_Subject (sm_msg m)) = Some m) (fst w') = Some ?m"
      using v by (cases "find (\<lambda>m. sm_seq m = 1 \<and> mem_lookup w' (m_Subject (sm_msg m)) = Some m) (fst w')")
        (auto simp: find_None_iff find_Some_iff moved_queue_def split: if_splits)
    then show ?thesis by (simp add: mem_stream_def)
  qed
  moreover have "made_from sample_opts alist_header \<lparr>m_Subject = liveSubject ''mqtt'' ''mqtt.$queue.a'',
      m_Header = Some (setArrived alist_header (Some (h_Set alist_header hdrQueueSeq q (h_new alist_header))) 2), m_Data = [0x41]\<rparr> moved_queued" for q
    by (simp add: made_from_def sample_opts_def liveSubject_def queuedSubject_def Prefix_def TrimPrefix_def has_prefix_def moved_queued_def new_outbound_def
        moved_publish_def codec_subjectToName_def fromNATS_def alist_header_def setArrived_def hdr_names hdrArrived_def hdrQueueSeq_def Let_def)
      (intro exI [of _ "[]"] exI [of _ None] conjI disjI1 refl, simp add: empty_props_def)
  ultimately show ?thesis by (auto simp: in_queue_def queue_message_def moved_queued_def new_outbound_def moved_queue_def sample_opts_def)
qed

lemma moved_stores: "stores_ok moved_env (mem_stream :: ((string, string list) gomap, (string, string list) gomap mem_world) stream_ops)"
  using mem_blobs_laws moved_json_laws mem_kv_laws mem_answers mem_stream_laws by (simp add: stores_ok_def moved_env_def)

lemma moved_entries_sound: "sound_entry moved_rel" "sound_entry moved_inline" "sound_entry moved_queued"
  by (simp_all add: sound_entry_def sound_publish_def wf_publish_def moved_rel_def moved_inline_def moved_queued_def new_outbound_def moved_publish_def
      QoS_Valid_def wf_string_def validateUTF8_def bytes_of_string_def norm_props_def IsZero_def zeroTime_def empty_props_def wf_props_def
      props_wf_def items_def opt_item_def seq_item_def)

lemma moved_ok: "session_ok moved_env UNIV sample_opts alist_header mem_stream moved_queue moved_session (False, Map.empty)"
proof -
  have i: "inflight_ok moved_session"
    by (simp add: inflight_ok_def wf_map_def moved_session_def moved_rel_def moved_inline_def moved_queued_def new_outbound_def)
  have p: "session_payloads moved_env UNIV moved_session (False, Map.empty)"
    by (simp add: session_payloads_def blobs_kept_def moved_session_def moved_rel_def moved_inline_def moved_queued_def new_outbound_def moved_env_def
        new_session_def newSession_def session_replay.defs session_spill.defs Let_def)
  have q: "in_queue sample_opts alist_header mem_stream moved_queue moved_rel" "in_queue sample_opts alist_header mem_stream moved_queue moved_inline"
    by (simp_all add: in_queue_def moved_rel_def moved_inline_def new_outbound_def)
  show ?thesis unfolding session_ok_def moved_sorted using i p q moved_in_queue moved_entries_sound by simp
qed

lemma moved_written: "\<exists>rec'' k'. release mem_kv 5 (moved_stashed\<lparr>sr_Spill := []\<rparr>) 1 one_claim = (Inr 2, rec'', k') \<and> snd k' = 2"
proof -
  have "sr_ClientID moved_record = ''c''" "sr_ExpirySeconds moved_record = 60"
    using released_record_fields [of "first_record\<lparr>sr_ExpirySeconds := 60\<rparr>" moved_env 5 moved_session]
    by (simp_all add: same_record_def first_record_def fresh_record_def)
  then show ?thesis by (simp add: release_def mem_kv_def mem_write_def one_claim_def Let_def)
qed

lemma moved_whole: "released_whole moved_env UNIV 5 1 moved_session one_claim (False, Map.empty)"
proof -
  have "record_payloads moved_env UNIV 5 moved_record moved_session (False, Map.empty)"
  proof -
    have "set (slice moved_entries p) \<subseteq> set moved_entries" for p
      unfolding slice_def by (meson set_take_subset set_drop_subset order_trans)
    moreover have "se_json moved_env = moved_json" by (simp add: moved_env_def)
    ultimately show ?thesis using moved_json_reads by (simp add: record_payloads_def moved_stashed_record)
  qed
  moreover obtain s' where "inflight_into moved_env 5 False moved_record moved_session (False, Map.empty) =
      Inr ((0, 0, moved_stashed\<lparr>sr_Spill := []\<rparr>, s'), (False, Map.empty))" using moved_into by blast
  moreover have "fst (release (se_kv moved_env) 5 (moved_stashed\<lparr>sr_Spill := []\<rparr>) 1 one_claim) = Inr 2" using moved_written by (auto simp: moved_env_def)
  moreover have "s_clientID moved_session = ''c''" "s_expirySeconds moved_session = 60" "sr_ClientID first_record = ''c''"
      "sr_Version first_record = sessionRecordVersion"
    by (simp_all add: moved_session_def new_session_def newSession_def session_replay.defs session_spill.defs first_record_def fresh_record_def)
  ultimately show ?thesis unfolding released_whole_def using moved_snapshot
    by (intro exI conjI) (assumption | simp)+
qed

lemma moved_released: "\<exists>s' k' st'. releaseStoredSession moved_env 5 1 moved_session one_claim (False, Map.empty) = Inr (s', k', st') \<and> kv_last (se_kv moved_env) k' \<noteq> - 1"
proof -
  have kv: "se_kv moved_env = mem_kv" by (simp add: moved_env_def)
  obtain s1 where i: "inflight_into moved_env 5 False moved_record moved_session (False, Map.empty) =
      Inr ((0, 0, moved_stashed\<lparr>sr_Spill := []\<rparr>, s1), (False, Map.empty))" using moved_into by blast
  obtain rec'' k' where r: "release mem_kv 5 (moved_stashed\<lparr>sr_Spill := []\<rparr>) 1 one_claim = (Inr 2, rec'', k')" "snd k' = 2" using moved_written by blast
  have "sr_ExpirySeconds moved_record \<noteq> 0"
    using released_record_fields [of "first_record\<lparr>sr_ExpirySeconds := 60\<rparr>" moved_env 5 moved_session] by (simp add: same_record_def)
  then have "\<exists>s' st'. releaseStoredSession moved_env 5 1 moved_session one_claim (False, Map.empty) = Inr (s', k', st')"
    using i r(1) unfolding releaseStoredSession_def moved_snapshot kv released_record_def
    by (simp add: Let_def split: prod.split)
  moreover have "kv_last (se_kv moved_env) k' \<noteq> - 1" using r(2) by (simp add: kv mem_kv_def)
  ultimately show ?thesis by blast
qed

theorem unacknowledged_messages_move_witness:
  "\<exists>s' k' st' rec rv k2 calls s2 rs. releaseStoredSession moved_env 5 1 moved_session one_claim (False, Map.empty) = Inr (s', k', st') \<and>
    claim mem_kv (sample_store ''b2'') (6 * Second) ''c'' [] [] False k' = (Inr (rec, rv, True), [], k2) \<and>
    restoreSessionState moved_env sample_opts alist_header mem_stream True moved_bounds (6 * Second) rec (new_session ''c'' ''m'') ((False, snd st'), moved_queue) =
      ((0, calls, s2), rs) \<and>
    map owed_to (unacknowledged s2) = map owed_to [moved_rel, moved_inline, moved_queued] \<and> fst ` set (s_receivedQoS2 s2) = {7}"
proof -
  obtain s' k' st' where r: "releaseStoredSession moved_env 5 1 moved_session one_claim (False, Map.empty) = Inr (s', k', st')"
    "kv_last (se_kv moved_env) k' \<noteq> - 1" using moved_released by blast
  have c: "s_clientID moved_session = ''c''" "s_expirySeconds moved_session = 60" "se_kv moved_env = mem_kv"
    "{i \<in> fst ` set (s_receivedQoS2 moved_session). get (s_qos2Forwarding moved_session) i = None} = {7}"
    by (auto simp: moved_session_def new_session_def newSession_def session_replay.defs session_spill.defs moved_env_def)
  have e: "s_expirySeconds moved_session = neverExpires \<or> 6 * Second < 5 + int (unat (s_expirySeconds moved_session)) * Second"
    unfolding c(2) by (simp add: Second_def)
  note m = unacknowledged_messages_move [OF moved_stores moved_ok moved_whole r e, of "sample_store ''b2''" "[]" "[]" moved_bounds "''m''", unfolded c moved_sorted]
  then obtain rec rv k2 calls s2 rs where "claim mem_kv (sample_store ''b2'') (6 * Second) ''c'' [] [] False k' = (Inr (rec, rv, True), [], k2)"
    "restoreSessionState moved_env sample_opts alist_header mem_stream True moved_bounds (6 * Second) rec (new_session ''c'' ''m'') ((False, snd st'), moved_queue) =
      ((0, calls, s2), rs)" "map owed_to (unacknowledged s2) = map owed_to [moved_rel, moved_inline, moved_queued]" "fst ` set (s_receivedQoS2 s2) = {7}"
    by (elim exE conjE)
  with r(1) show ?thesis by (intro exI conjI)
qed

end
