(* ===== verification/Spec2Isabelle.thy ===== *)
theory Spec2Isabelle
  imports Packet_IO Subject Session_Flow Conn_Write Subscribe Cursor_Replay Replay_Filters Session_Store Retain_View Inbound_Ack Session_Move
begin

text \<open>
  A verification library for an MQTT v5 broker over NATS. The broker (\<^verbatim>\<open>src/\<close>, package \<^verbatim>\<open>natsmqtt5\<close>) accepts MQTT connections and
  carries every message over NATS: a PUBLISH becomes a NATS message on the subject of its topic, a SUBSCRIBE a NATS subscription, and
  sessions, retained messages and missed messages live in JetStream so that any broker of a cluster can take a session over.

  \<^bold>\<open>Conventions.\<close> A Go string is a \<open>string\<close>, a byte slice an \<open>8 word list\<close>, an integer of a fixed width a word; counters and sizes that the
  code keeps in \<^verbatim>\<open>int\<close> are \<open>int\<close> or \<open>nat\<close>. A Go map is an association list with distinct keys. An error is a value of \<open>go_error + 'a\<close>, with
  \<open>Panic\<close> for a run-time panic. Time is in nanoseconds, and every call that reads the clock, draws a random id or writes to a socket takes
  the outcome as an argument. What the code compares by pointer is a number. A method that holds a mutex throughout is one step; where
  other goroutines run between the parts of an operation, the parts are definitions of their own and a step relation interleaves them.

  \<^bold>\<open>Parameters.\<close> Code that is not in the repository is an argument, and what is relied on is a named predicate with an instance that
  satisfies it: \<open>header_ops\<close> and \<open>header_laws\<close> (NATS headers, instance \<open>alist_header\<close>), \<open>kv_ops\<close> and \<open>kv_laws\<close> (a JetStream key-value bucket
  with compare-and-swap, \<open>mem_kv\<close>), \<open>stream_ops\<close> and \<open>stream_laws\<close> (a JetStream stream, \<open>mem_stream\<close>), \<open>nats_ops\<close> and \<open>nats_laws\<close> (publishing,
  \<open>mem_nats\<close>), \<open>blob_ops\<close> and \<open>blob_laws\<close> (the payload bucket, \<open>mem_blobs\<close>), \<open>json_ops\<close> and \<open>json_laws\<close> (encoding/json), the Authorizer, and
  SHA-256, of which the theorems use that the contents at hand do not collide. Writes to a bucket or stream that fail may have been carried out.

  \<^bold>\<open>The wire\<close> (\<^verbatim>\<open>src/packet\<close>).
  \<^item> \<open>Packet_Types\<close>, \<open>Codec\<close>: the packets as records, readers and writers of \<^verbatim>\<open>codec.go\<close>, Variable Byte Integers.
  \<^item> \<open>Properties\<close>: \<^verbatim>\<open>properties.go\<close>; which property may occur where and how often, read and written.
  \<^item> \<open>Packets\<close>, \<open>Packet_Roundtrip\<close>, \<open>Packet_IO\<close>: one decoder and encoder for each packet, and \<^verbatim>\<open>Read\<close> and \<^verbatim>\<open>Encode\<close> of \<^verbatim>\<open>packet.go\<close>. The properties
    of this theory are about them: round trips in both directions, totality on arbitrary bytes, limits.

  \<^bold>\<open>Topics and messages.\<close>
  \<^item> \<open>Topic\<close>, \<open>Subject\<close>: \<^verbatim>\<open>src/topic\<close> and the broker's codec; MQTT matching is NATS matching of the translated names.
  \<^item> \<open>Go_Lib\<close>: \<^verbatim>\<open>strconv\<close> and maps. \<open>Message\<close>: \<^verbatim>\<open>message.go\<close>, an MQTT message as a NATS message and back. \<open>Expiry\<close>: \<^verbatim>\<open>expiry.go\<close>.
  \<^item> \<open>Out_Alias\<close>: \<^verbatim>\<open>outalias.go\<close>, shown invisible to a client that resolves aliases. \<open>Dedupe\<close>: \<^verbatim>\<open>durable_dedupe.go\<close>, which refines a specification.

  \<^bold>\<open>Sessions and connections.\<close> The session struct of \<^verbatim>\<open>session.go\<close> is a chain of records, one for each group of fields.
  \<^item> \<open>Session_Flow\<close>: Packet Identifiers, the in-flight set, withdrawals and resends. \<open>Conn_Write\<close>: the write path of \<^verbatim>\<open>conn.go\<close>.
  \<^item> \<open>Session_Subs\<close>, \<open>Subscribe\<close>: the subscription set, its replacement while messages arrive, SUBSCRIBE, UNSUBSCRIBE and what is delivered
    (\<^verbatim>\<open>subscribe.go\<close>).
  \<^item> \<open>Record_Types\<close>, \<open>Cursor\<close>, \<open>Cursor_Replay\<close>: the replay cursor of \<^verbatim>\<open>cursor.go\<close> and the delivered ids; a replay sends exactly what is missing.
    \<open>Replay_Filters\<close>: \<^verbatim>\<open>offline.go\<close>, which subjects a replay reads.
  \<^item> \<open>Session_Life\<close>: attaching, detaching, expiry, Wills, and messages held between connections (\<^verbatim>\<open>away.go\<close>).
  \<^item> \<open>Inbound\<close>, \<open>Inbound_Ack\<close>: \<^verbatim>\<open>publish.go\<close>, an incoming PUBLISH from its checks to its acknowledgement, PUBREL, and the publication of a Will.
  \<^item> \<open>Retain\<close>, \<open>Retain_View\<close>: \<^verbatim>\<open>retain.go\<close>, the view of the retained messages that each broker keeps of the stream.

  \<^bold>\<open>Moving a session\<close> from broker to broker.
  \<^item> \<open>Base64\<close>, \<open>Session_Store\<close>: the records of \<^verbatim>\<open>sessionstore.go\<close>, claimed, saved and released by compare-and-swap.
  \<^item> \<open>Payload_Store\<close>: the payload bucket and the chunks of a record that does not fit one value. \<open>Inflight_Record\<close>: what a record keeps of
    the unacknowledged messages, with \<^verbatim>\<open>releaseStoredSession\<close> of \<^verbatim>\<open>broker.go\<close> and \<^verbatim>\<open>checkpointSession\<close> of \<^verbatim>\<open>checkpoint.go\<close>. \<open>Inflight_Restore\<close>: \<^verbatim>\<open>restore.go\<close>.
    \<open>Inflight_Move\<close>: every unacknowledged message is in what is written, and deleting dead payloads and chunks keeps what the record names.
    \<open>Session_Move\<close>: the whole way of a session that is released, claimed and restored; the new broker owes the client the same packets in the same order.

  \<^bold>\<open>How the parts interact.\<close> A PUBLISH (\<open>handlePublish\<close>) is stored, queued and published through the parameters; a subscriber's session gets it through
  \<open>deliveryFor\<close>, tracks it (\<open>trackInflight\<close>) and notes it (\<open>noteDelivered\<close>); when the connection ends the record takes the cursor (\<open>awayStateInto\<close>) and the
  in-flight set (\<open>inflightState\<close>); another broker claims the record (\<open>claim\<close>), restores both (\<open>restoreSessionState\<close>, \<open>markAwayRestored\<close>) and replays the rest.
  The theory \<open>Prelude\<close> has the locale \<open>step_invariant\<close>, which is interpreted for each step relation: writes of a connection, replacement of a
  subscription, the subscription set, runs of the cursor, Wills, messages held back, the record store, and retained views.

  \<^bold>\<open>Bounds and fuel.\<close> Loops are structural or have a termination proof. \<open>nextID\<close> tries each of the 65535 identifiers once, as the code does, and \<open>nextID_complete\<close>
  shows that this finds a free one. A claim is tried \<open>claimAttempts\<close> times, the queue copy of a Will \<open>willKeepAttempts\<close> times, as in the code. \<open>latest\<close> and \<open>wanted\<close> follow pointers
  with the length of the store as fuel, which is enough (\<open>later_depth\<close>).

  \<^bold>\<open>Not modelled.\<close> The handshake as a whole (\<^verbatim>\<open>handshake.go\<close>), the read loop and the end of a connection, and the connection's half of outbound delivery
  (\<^verbatim>\<open>deliverBurst\<close>, \<^verbatim>\<open>retransmit.go\<close>): goroutines over channels around operations that are modelled. The Will store, shared subscriptions, catch-up, reconnection
  and re-authorization: they react to timers and to events of the NATS client. Options, start and stop of the broker, WebSocket, SCRAM and the
  command line: configuration and I/O. Logging has no effect on the state and is left out everywhere, as are the texts of reasons.
\<close>

section \<open>Wire format\<close>



text \<open>C2: \<^verbatim>\<open>Read\<close> never panics. On any bytes, with any end of the stream, it returns a packet or one of:
  a decoder error (malformed, protocol error, unsupported protocol version), packet too large, or an
  error of the transport.\<close>

theorem read_packet_total:
  "case read_packet \<lparr>sdata = b, sfin = e\<rparr> mx of
     Inr (p, s') \<Rightarrow> wf_packet p
   | Inl err \<Rightarrow> decode_error err \<or> err \<in> {ErrPacketTooLarge, EOF, ErrUnexpectedEOF, e}"
proof (cases "read_packet \<lparr>sdata = b, sfin = e\<rparr> mx")
  case (Inl err)
  with read_packet_err [OF Inl] show ?thesis by auto
next
  case (Inr x)
  then obtain t f body where "decode_body t f body = Inr (fst x)"
    by (auto simp: read_packet_def rbind_Inr_iff Let_def split: if_splits)
  with decode_body_post [of t f body] Inr show ?thesis by (auto simp: dec_post_def split: prod.splits)
qed



text \<open>C4: a packet that declares more than the Maximum Packet Size is refused on its fixed header alone:
  the result is the same whatever bytes of the body are there, so the body is never buffered.\<close>

theorem read_oversize_refused:
  assumes "1 \<le> t" "t \<le> 15" "f \<le> 15" "t \<noteq> PUBLISH \<longrightarrow> go_index reservedFlags (unat t) = Inr f"
    and "n \<le> MaxVarByteInt" "0 < mx" "unat mx < 1 + varByteIntLen (int n) + n"
  shows "read_packet \<lparr>sdata = appendVarByteInt [push_bit 4 t OR f] (int n) @ xs, sfin = e\<rparr> mx =
    Inl ErrPacketTooLarge"
proof (rule read_too_large)
  show "drop_bit 4 (push_bit 4 t OR f) = t" "t \<noteq> 0"
    "t \<noteq> PUBLISH \<longrightarrow> go_index reservedFlags (unat t) = Inr ((push_bit 4 t OR f) AND 0x0F)"
    using fixed_header_bits [OF assms(2,3)] assms(1,4) by auto
qed (use assms length_vbi [of n] in \<open>auto simp: appendVarByteInt_eq\<close>)

theorem read_oversize_refused_witness:
  "read_packet \<lparr>sdata = appendVarByteInt [push_bit 4 CONNECT OR 0] 200, sfin = EOF\<rparr> 100 = Inl ErrPacketTooLarge"
  using read_oversize_refused [of CONNECT 0 200 100 "[]" EOF]
  by (simp add: word_le_nat_alt go_index_def reservedFlags_def MaxVarByteInt_def varByteIntLen_def)

text \<open>C5: \<^verbatim>\<open>EncodedLen\<close>, which never builds the packet, is the length of what \<^verbatim>\<open>Encode\<close> produces.\<close>

theorem EncodedLen_is_length:
  "encode_packet p = Inr b \<Longrightarrow> EncodedLen p = Inr (length b)"
  by (rule encode_packet_len)

theorem EncodedLen_is_length_witness:
  "encode_packet Pingreq = Inr [0xC0, 0] \<and> EncodedLen Pingreq = Inr 2"
proof -
  have e: "encode_packet Pingreq = Inr [0xC0, 0]"
    by (simp add: encode_packet_def appendVarByteInt_eq vbi.simps)
  show ?thesis using e EncodedLen_is_length [OF e] by simp
qed

text \<open>C6: the Variable Byte Integer codec is a bijection. The decoder returns \<open>v\<close> exactly when the
  unread bytes begin with the encoding of \<open>v\<close> and \<open>v\<close> is in range, so non-minimal and overlong
  encodings are rejected; it then consumes \<^verbatim>\<open>varByteIntLen\<close> bytes, at most four.\<close>

theorem varByteInt_canonical:
  "r_varByteInt (new_reader b) = Inr (v, adv n (new_reader b)) \<longleftrightarrow>
    v \<le> MaxVarByteInt \<and> n = varByteIntLen (int v) \<and> (\<exists>xs. b = appendVarByteInt [] (int v) @ xs)"
proof -
  let ?r = "new_reader b"
  have adv: "adv n ?r = adv m ?r \<longleftrightarrow> n = m" for m
    by (auto simp: adv_def new_reader_def)
  have "r_varByteInt ?r = Inr (v, adv n ?r) \<longleftrightarrow>
      v \<le> MaxVarByteInt \<and> (\<exists>xs. b = vbi v @ xs) \<and> n = length (vbi v)"
    unfolding c_vbi.dec_iff [OF rd_ok_new_reader] adv wf_vbi_def w_varByteInt_eq rest_new_reader nat_int ..
  then show ?thesis
    using length_vbi [of v] by (auto simp: appendVarByteInt_eq)
qed

text \<open>C7: which property blocks are accepted. \<^verbatim>\<open>readProperties\<close> accepts a block, and consumes all of
  it, exactly when it is the encoding of a list of properties each of which is legal in the packet,
  well-formed and in range, with no repetition other than of User Properties and, in a PUBLISH,
  Subscription Identifiers.\<close>

theorem readProperties_accepts_iff:
  "(\<exists>p. readProperties (new_reader b) ctx = Inr (p, adv (length b) (new_reader b))) \<longleftrightarrow>
    (\<exists>xs. items_ok ctx xs \<and> b = enc_block xs)"
proof
  assume "\<exists>p. readProperties (new_reader b) ctx = Inr (p, adv (length b) (new_reader b))"
  then obtain p where p: "readProperties (new_reader b) ctx = Inr (p, adv (length b) (new_reader b))" ..
  obtain xs ys where "items_ok ctx xs" "b = enc_block xs @ ys"
    "adv (length b) (new_reader b) = adv (length (enc_block xs)) (new_reader b)"
    using readProperties_ok [OF _ p] by auto
  then show "\<exists>xs. items_ok ctx xs \<and> b = enc_block xs"
    by (intro exI [of _ xs]) (simp add: adv_def new_reader_def)
next
  assume "\<exists>xs. items_ok ctx xs \<and> b = enc_block xs"
  then obtain xs where "items_ok ctx xs" "b = enc_block xs" by blast
  then show "\<exists>p. readProperties (new_reader b) ctx = Inr (p, adv (length b) (new_reader b))"
    using readProperties_enc [of "new_reader b" ctx xs "[]"] by auto
qed

text \<open>C8: properties survive the wire. What \<^verbatim>\<open>encode\<close> writes for a well-formed record, \<^verbatim>\<open>readProperties\<close>
  reads back field by field, User Properties and Subscription Identifiers in their order, with the
  fields that are not legal in the packet dropped and nothing else changed.\<close>

theorem properties_roundtrip:
  assumes "wf_props ctx po" "props_encode po ctx = Inr b" "length b \<le> MaxVarByteInt"
  shows "readProperties (new_reader (b @ xs)) ctx = Inr (norm_props ctx po, adv (length b) (new_reader (b @ xs)))"
  by (rule props_roundtrip [OF _ assms]) simp_all

theorem properties_roundtrip_witness:
  "readProperties (new_reader ([0] @ [7])) PUBACK = Inr (empty_props, adv 1 (new_reader ([0] @ [7])))"
  using properties_roundtrip [of PUBACK None "[0]" "[7]"]
  by (simp add: wf_props_def props_encode_def w_varByteInt_eq vbi.simps MaxVarByteInt_def norm_props_def)

end
